(* ===== verification/NFD_Prelude.thy ===== *)
theory NFD_Prelude
  imports Main "HOL-Library.Word" "HOL-Library.Multiset" "HOL-Library.Sublist"
begin

unbundle bit_operations_syntax

text \<open>
  Shared base of the development: the collections of facts the component theories feed, generic
  lemmas about lists that are searched, updated and erased through an iterator, and the arithmetic
  of C++ \<open>float\<close> and \<open>double\<close> factors as the tables use it (a factor times a count, cast back to
  \<open>size_t\<close>).
\<close>

section \<open>Collections of facts\<close>

named_theorems inv_intros \<open>operations that preserve an invariant\<close>
named_theorems view_simps \<open>what an operation does to the abstract view of a component\<close>

type_synonym u32 = "32 word"
type_synonym u64 = "64 word"

section \<open>Erasing through an iterator\<close>

text \<open>
  \<open>erase_first P xs\<close> is \<open>it = find_if(begin, end, P); if (it != end) erase(it);\<close> on a vector or a
  list; \<open>update_first P f xs\<close> is \<open>it = find_if(...); if (it != end) *it = f(*it);\<close>.
\<close>

fun erase_first :: "('a \<Rightarrow> bool) \<Rightarrow> 'a list \<Rightarrow> 'a list" where
  "erase_first P [] = []"
| "erase_first P (x # xs) = (if P x then xs else x # erase_first P xs)"

fun update_first :: "('a \<Rightarrow> bool) \<Rightarrow> ('a \<Rightarrow> 'a) \<Rightarrow> 'a list \<Rightarrow> 'a list" where
  "update_first P f [] = []"
| "update_first P f (x # xs) = (if P x then f x # xs else x # update_first P f xs)"

lemma erase_first_subset: "set (erase_first P xs) \<subseteq> set xs"
  by (induction xs) auto

lemma erase_first_id: "\<not> (\<exists>x\<in>set xs. P x) \<Longrightarrow> erase_first P xs = xs"
  by (induction xs) auto

lemma erase_first_key_set:
  assumes "distinct (map k xs)"
  shows "set (erase_first (\<lambda>x. k x = a) xs) = {x \<in> set xs. k x \<noteq> a}"
  using assms by (induction xs) (auto simp: rev_image_eqI)

lemma erase_first_key_eq_filter:
  assumes "distinct (map k xs)"
  shows "erase_first (\<lambda>x. k x = a) xs = filter (\<lambda>x. k x \<noteq> a) xs"
  using assms
proof (induction xs)
  case (Cons x xs)
  then show ?case
    by (cases "k x = a") (auto intro!: filter_True[symmetric] simp: rev_image_eqI)
qed simp

lemma erase_first_distinct:
  "distinct (map k xs) \<Longrightarrow> distinct (map k (erase_first P xs))"
  by (induction xs) (use erase_first_subset in fastforce)+

lemma length_erase_first:
  "\<exists>x\<in>set xs. P x \<Longrightarrow> length (erase_first P xs) = length xs - 1"
proof (induction xs)
  case (Cons x xs)
  then show ?case
  proof (cases "P x")
    case False
    with Cons show ?thesis by (cases xs) auto
  qed simp
qed simp

lemma mset_erase_first:
  "find P xs = Some x \<Longrightarrow> mset (erase_first P xs) = mset xs - {#x#}"
  by (induction xs) (auto split: if_splits dest!: find_Some_iff[THEN iffD1] simp: in_multiset_in_set)

lemma map_update_first:
  "(\<And>x. k (f x) = k x) \<Longrightarrow> map k (update_first P f xs) = map k xs"
  by (induction xs) auto

lemma length_update_first [simp]: "length (update_first P f xs) = length xs"
  by (induction xs) auto

lemma update_first_id: "\<not> (\<exists>x\<in>set xs. P x) \<Longrightarrow> update_first P f xs = xs"
  by (induction xs) auto

lemma update_first_key_set:
  assumes "distinct (map k xs)"
  shows "set (update_first (\<lambda>x. k x = a) f xs) =
    (\<lambda>x. if k x = a then f x else x) ` set xs"
  using assms by (induction xs) (auto simp: update_first_id image_iff)

section \<open>Searching\<close>

lemma find_key_in:
  assumes "distinct (map k xs)" and "x \<in> set xs"
  shows "find (\<lambda>y. k y = k x) xs = Some x"
  using assms by (induction xs) (auto simp: image_iff)

lemma find_key_Some_iff:
  assumes "distinct (map k xs)"
  shows "find (\<lambda>y. k y = a) xs = Some x \<longleftrightarrow> x \<in> set xs \<and> k x = a"
  using assms by (auto simp: find_key_in dest!: find_Some_iff[THEN iffD1])

lemma find_key_None_iff: "find (\<lambda>y. k y = a) xs = None \<longleftrightarrow> a \<notin> k ` set xs"
  by (auto simp: find_None_iff)

lemma find_Some_in: "find P xs = Some x \<Longrightarrow> x \<in> set xs \<and> P x"
  by (auto simp: find_Some_iff)

lemma option_eqI: "(\<And>x. a = Some x \<longleftrightarrow> b = Some x) \<Longrightarrow> a = b"
  by (cases a; cases b) auto

lemma map_eqI: "(\<And>k v. m k = Some v \<longleftrightarrow> m' k = Some v) \<Longrightarrow> m = m'"
  by (rule ext, rule option_eqI) simp

section \<open>Binary floating point factors\<close>

text \<open>
  The tables multiply a count by a floating point constant and cast the product back to \<open>size_t\<close>.
  A positive binary floating point constant is \<open>mantissa / 2 ^ scale\<close>. \<open>fp_round p n\<close> rounds a
  natural number to \<open>p\<close> significant bits, to nearest with ties to even, which is what converting
  the count to the floating type and rounding the product both do (24 bits for \<open>float\<close>, 53 for
  \<open>double\<close>); the counts are far from the exponent limits.
\<close>

record fp_const =
  fp_mantissa :: nat
  fp_scale :: nat

fun nbits :: "nat \<Rightarrow> nat" where
  "nbits n = (if n = 0 then 0 else Suc (nbits (n div 2)))"

declare nbits.simps [simp del]

definition fp_round :: "nat \<Rightarrow> nat \<Rightarrow> nat" where
  "fp_round p n =
     (let k = nbits n - p; q = n div 2 ^ k; r = n mod 2 ^ k in
      if k = 0 then n
      else if 2 * r > 2 ^ k \<or> (2 * r = 2 ^ k \<and> odd q) then (q + 1) * 2 ^ k
      else q * 2 ^ k)"

definition fp_scale_count :: "nat \<Rightarrow> fp_const \<Rightarrow> nat \<Rightarrow> nat" where
  "fp_scale_count p c n = fp_round p (fp_mantissa c * fp_round p n) div 2 ^ fp_scale c"

lemma nbits_bound: "n < 2 ^ nbits n"
proof (induction n rule: nbits.induct)
  case (1 n)
  then show ?case
    by (cases "n = 0") (auto simp: nbits.simps[of n])
qed

lemma nbits_lower: "0 < n \<Longrightarrow> 2 ^ (nbits n - 1) \<le> n"
proof (induction n rule: nbits.induct)
  case (1 n)
  show ?case
  proof (cases "n div 2 = 0")
    case True
    with 1(2) have "n = 1" by presburger
    then show ?thesis using nbits.simps[of 1] nbits.simps[of 0] by simp
  next
    case False
    with 1 have le: "2 ^ (nbits (n div 2) - 1) \<le> n div 2" by simp
    have "nbits (n div 2) \<noteq> 0" using False by (simp add: nbits.simps[of "n div 2"])
    then have "2 ^ (nbits n - 1) = 2 * (2::nat) ^ (nbits (n div 2) - 1)"
      using 1(2) by (cases "nbits (n div 2)") (auto simp: nbits.simps[of n])
    also have "\<dots> \<le> 2 * (n div 2)" using le by simp
    also have "\<dots> \<le> n" by simp
    finally show ?thesis .
  qed
qed

lemma fp_round_small: "n < 2 ^ p \<Longrightarrow> fp_round p n = n"
proof -
  assume "n < 2 ^ p"
  have "nbits n \<le> p"
  proof (rule ccontr)
    assume "\<not> nbits n \<le> p"
    then have "p \<le> nbits n - 1" and "0 < n" by (auto simp: nbits.simps[of n] split: if_splits)
    then have "(2::nat) ^ p \<le> 2 ^ (nbits n - 1)" by (intro power_increasing) auto
    with nbits_lower[OF \<open>0 < n\<close>] \<open>n < 2 ^ p\<close> show False by linarith
  qed
  then show ?thesis by (simp add: fp_round_def)
qed

lemma fp_round_lower: "0 < p \<Longrightarrow> 0 < n \<Longrightarrow> n < 2 * fp_round p n"
proof -
  assume "0 < p" "0 < n"
  define k where "k = nbits n - p"
  define q where "q = n div 2 ^ k"
  show ?thesis
  proof (cases "k = 0")
    case True
    with \<open>0 < n\<close> show ?thesis by (simp add: fp_round_def k_def)
  next
    case False
    then have "k \<le> nbits n - 1" using \<open>0 < p\<close> by (simp add: k_def)
    then have "(2::nat) ^ k \<le> 2 ^ (nbits n - 1)" by (intro power_increasing) auto
    with nbits_lower[OF \<open>0 < n\<close>] have "2 ^ k \<le> n" by linarith
    then have "1 \<le> q" by (simp add: q_def div_greater_zero_iff Suc_leI)
    have "n < (q + 1) * 2 ^ k"
      unfolding q_def using dividend_less_div_times[of "2 ^ k" n] by (simp add: algebra_simps)
    also have "\<dots> \<le> 2 * (q * 2 ^ k)" using \<open>1 \<le> q\<close> by (simp add: algebra_simps)
    finally have lt: "n < 2 * (q * 2 ^ k)" .
    have "q * 2 ^ k \<le> fp_round p n"
      using False by (simp add: fp_round_def Let_def k_def[symmetric] q_def[symmetric])
    with lt show ?thesis by linarith
  qed
qed

end
