(* ===== verification/NDN_Packets.thy ===== *)
theory NDN_Packets
  imports NFD_Prelude "HOL-Library.Char_ord" "HOL-Library.List_Lexorder" "HOL-Library.Product_Lexorder"
begin

text \<open>
  The data the forwarder works on: names, Interests, Data packets and Nacks. The classes
  \<open>ndn::Name\<close>, \<open>ndn::Interest\<close>, \<open>ndn::Data\<close> and \<open>ndn::lp::Nack\<close> belong to the ndn-cxx library; only
  the fields and the documented observations that the daemon uses appear here. A name is its
  sequence of components; \<open>Name::getPrefix(n)\<close> is \<open>take n\<close>, \<open>Name::isPrefixOf\<close> is \<open>prefix\<close>, and
  \<open>Name::compare\<close> is the canonical order of the NDN packet specification, which compares component
  by component and puts a proper prefix first.
\<close>

section \<open>Names\<close>

datatype component = Component (comp_type: nat) (comp_value: string)

text \<open>Canonical order of components: TLV-TYPE, then TLV-LENGTH, then TLV-VALUE.\<close>

definition component_key :: "component \<Rightarrow> nat \<times> nat \<times> string" where
  "component_key c = (comp_type c, length (comp_value c), comp_value c)"

lemma component_key_inj: "component_key c = component_key d \<longleftrightarrow> c = d"
  by (cases c; cases d) (auto simp: component_key_def)

instantiation component :: linorder
begin

definition less_eq_component :: "component \<Rightarrow> component \<Rightarrow> bool" where
  "less_eq_component c d \<longleftrightarrow> component_key c \<le> component_key d"

definition less_component :: "component \<Rightarrow> component \<Rightarrow> bool" where
  "less_component c d \<longleftrightarrow> component_key c < component_key d"

instance
  by standard
    (auto simp: less_eq_component_def less_component_def component_key_inj
      intro: order.trans antisym simp flip: component_key_inj)

end

type_synonym name = "component list"

abbreviation generic_comp :: "string \<Rightarrow> component" where
  "generic_comp v \<equiv> Component 8 v"

text \<open>\<open>Component::isImplicitSha256Digest\<close>: TLV-TYPE 1.\<close>

definition isImplicitSha256Digest :: "component \<Rightarrow> bool" where
  "isImplicitSha256Digest c \<longleftrightarrow> comp_type c = 1"

definition endsWithDigest :: "name \<Rightarrow> bool" where
  "endsWithDigest n \<longleftrightarrow> n \<noteq> [] \<and> isImplicitSha256Digest (last n)"

text \<open>\<open>name.compare(pos1, count1, other, pos2)\<close> compares sub-names; only the equality test is used.\<close>

definition subNameEq :: "name \<Rightarrow> nat \<Rightarrow> name \<Rightarrow> bool" where
  "subNameEq a k b \<longleftrightarrow> drop k a = drop k b"

lemma prefix_take_iff: "prefix p n \<longleftrightarrow> length p \<le> length n \<and> take (length p) n = p"
  by (metis append_take_drop_id append_eq_conv_conj length_append le_add1 prefix_def take_is_prefix)

lemma take_butlast_Suc: "i < length n \<Longrightarrow> butlast (take (Suc i) n) = take i n"
  by (simp add: butlast_take)

section \<open>Packets\<close>

text \<open>
  Durations that come from packets are counted in milliseconds, time points in nanoseconds of the
  steady clock.
\<close>

type_synonym face_id = nat
type_synonym time_point = int

definition ms :: "nat \<Rightarrow> int" where
  "ms k = int k * 1000000"

definition time_point_min :: time_point where
  "time_point_min = - (2 ^ 63)"

record interest =
  int_name :: name
  int_nonce :: u32
  int_lifetime :: nat
  int_canBePrefix :: bool
  int_mustBeFresh :: bool
  int_forwardingHint :: "name list"
  int_hopLimit :: "nat option"
  int_incomingFaceId :: "face_id option"
  int_nextHopFaceId :: "face_id option"
  int_pitToken :: "nat option"

record data =
  data_name :: name
  data_digest :: string
  data_freshnessPeriod :: nat
  data_noCache :: bool
  data_incomingFaceId :: "face_id option"
  data_pitToken :: "nat option"

text \<open>\<open>Data::getFullName\<close> appends the implicit SHA-256 digest component.\<close>

definition data_digest_comp :: "data \<Rightarrow> component" where
  "data_digest_comp d = Component 1 (data_digest d)"

definition data_fullName :: "data \<Rightarrow> name" where
  "data_fullName d = data_name d @ [data_digest_comp d]"

datatype nack_reason = NACK_NONE | NACK_CONGESTION | NACK_DUPLICATE | NACK_NO_ROUTE

record nack =
  nack_interest :: interest
  nack_reason :: nack_reason

text \<open>An Interest with the given name and every optional field absent.\<close>

definition mk_interest :: "name \<Rightarrow> u32 \<Rightarrow> interest" where
  "mk_interest n nonce =
     \<lparr>int_name = n, int_nonce = nonce, int_lifetime = 4000, int_canBePrefix = False,
      int_mustBeFresh = False, int_forwardingHint = [], int_hopLimit = None,
      int_incomingFaceId = None, int_nextHopFaceId = None, int_pitToken = None\<rparr>"

definition mk_data :: "name \<Rightarrow> string \<Rightarrow> nat \<Rightarrow> data" where
  "mk_data n dg fp =
     \<lparr>data_name = n, data_digest = dg, data_freshnessPeriod = fp, data_noCache = False,
      data_incomingFaceId = None, data_pitToken = None\<rparr>"

end
