(* ===== verification/Face_Table.thy ===== *)
theory Face_Table
  imports NDN_Packets
begin

text \<open>
  Faces as the forwarder sees them, the face table (\<open>daemon/fw/face-table.cpp\<close>), the scope prefixes
  (\<open>scope-prefix.cpp\<close>) and the policies for unsolicited Data (\<open>unsolicited-data-policy.cpp\<close>). A pointer
  or reference to a face is the FaceId the face table gave it. The face table resets the id of a
  face object to \<open>INVALID_FACEID\<close> when it removes the face, so \<open>getId\<close> of a face that is not in
  the table is 0.
\<close>

section \<open>Faces\<close>

datatype FaceScope = FACE_SCOPE_NON_LOCAL | FACE_SCOPE_LOCAL

datatype LinkType = LINK_TYPE_POINT_TO_POINT | LINK_TYPE_MULTI_ACCESS | LINK_TYPE_AD_HOC

record face =
  face_scope :: FaceScope
  face_linkType :: LinkType
  face_nInHopLimitZero :: u64
  face_nOutHopLimitZero :: u64

definition INVALID_FACEID :: face_id where "INVALID_FACEID = 0"
definition FACEID_CONTENT_STORE :: face_id where "FACEID_CONTENT_STORE = 254"
definition FACEID_RESERVED_MAX :: face_id where "FACEID_RESERVED_MAX = 255"

definition LOCALHOST :: name where "LOCALHOST = [generic_comp ''localhost'']"
definition LOCALHOP :: name where "LOCALHOP = [generic_comp ''localhop'']"

section \<open>The face table\<close>

record face_table =
  ft_lastFaceId :: face_id
  ft_faces :: "face_id \<rightharpoonup> face"

definition mk_face_table :: face_table where
  "mk_face_table = \<lparr>ft_lastFaceId = FACEID_RESERVED_MAX, ft_faces = Map.empty\<rparr>"

definition ft_get :: "face_table \<Rightarrow> face_id \<Rightarrow> face option" where
  "ft_get ft i = ft_faces ft i"

definition ft_size :: "face_table \<Rightarrow> nat" where
  "ft_size ft = card (dom (ft_faces ft))"

text \<open>\<open>emplace\<close> leaves an element that is already there.\<close>

definition ft_addImpl :: "face \<Rightarrow> face_id \<Rightarrow> face_table \<Rightarrow> face_table" where
  "ft_addImpl f i ft = ft\<lparr>ft_faces := (case ft_faces ft i of None \<Rightarrow> (ft_faces ft)(i \<mapsto> f) | Some _ \<Rightarrow> ft_faces ft)\<rparr>"

text \<open>\<open>i\<close> is the id the face object has before. The result is the new id.\<close>

definition ft_add :: "face_id \<Rightarrow> face \<Rightarrow> face_table \<Rightarrow> face_id option \<times> face_table" where
  "ft_add i f ft =
     (if i \<noteq> INVALID_FACEID \<and> i \<in> dom (ft_faces ft) then (None, ft)
      else let faceId = ft_lastFaceId ft + 1
           in (Some faceId, ft_addImpl f faceId (ft\<lparr>ft_lastFaceId := faceId\<rparr>)))"

text \<open>The assertions of \<open>addReserved\<close> are part of the model: \<open>None\<close> if one fails.\<close>

definition ft_addReserved :: "face_id \<Rightarrow> face \<Rightarrow> face_id \<Rightarrow> face_table \<Rightarrow> face_table option" where
  "ft_addReserved i f faceId ft =
     (if i = INVALID_FACEID \<and> faceId \<le> FACEID_RESERVED_MAX \<and> faceId \<notin> dom (ft_faces ft)
      then Some (ft_addImpl f faceId ft) else None)"

definition ft_remove :: "face_id \<Rightarrow> face_table \<Rightarrow> face_table" where
  "ft_remove i ft = ft\<lparr>ft_faces := (ft_faces ft)(i := None)\<rparr>"

text \<open>The enumeration runs over a \<open>std::map\<close>, in order of the ids.\<close>

definition ft_forwardRange :: "face_table \<Rightarrow> face_id list" where
  "ft_forwardRange ft = filter (\<lambda>i. ft_faces ft i \<noteq> None) [0..<Suc (max (ft_lastFaceId ft) FACEID_RESERVED_MAX)]"

definition ft_ok :: "face_table \<Rightarrow> bool" where
  "ft_ok ft \<longleftrightarrow> FACEID_RESERVED_MAX \<le> ft_lastFaceId ft \<and> (\<forall>i\<in>dom (ft_faces ft). i \<noteq> INVALID_FACEID \<and> i \<le> ft_lastFaceId ft)"

lemma mk_face_table_ok [inv_intros]: "ft_ok mk_face_table"
  by (simp add: ft_ok_def mk_face_table_def)

lemma ft_add_ok [inv_intros]: "ft_ok ft \<Longrightarrow> ft_ok (snd (ft_add i f ft))"
  by (auto simp: ft_ok_def ft_add_def ft_addImpl_def INVALID_FACEID_def FACEID_RESERVED_MAX_def Let_def
      le_Suc_eq split: option.splits)

lemma ft_remove_ok [inv_intros]: "ft_ok ft \<Longrightarrow> ft_ok (ft_remove i ft)"
  by (auto simp: ft_ok_def ft_remove_def)

text \<open>A new face gets an id that no face in the table and no reserved face has.\<close>

lemma ft_add_fresh:
  assumes "ft_ok ft" and "ft_add i f ft = (Some j, ft')"
  shows "FACEID_RESERVED_MAX < j" and "j \<notin> dom (ft_faces ft)" and "ft_faces ft' = (ft_faces ft)(j \<mapsto> f)"
proof -
  have j: "j = ft_lastFaceId ft + 1" and e: "ft' = ft_addImpl f j (ft\<lparr>ft_lastFaceId := j\<rparr>)"
    using assms(2) by (auto simp: ft_add_def Let_def split: if_splits)
  show "FACEID_RESERVED_MAX < j" using assms(1) by (simp add: j ft_ok_def)
  show d: "j \<notin> dom (ft_faces ft)"
  proof
    assume "j \<in> dom (ft_faces ft)"
    then have "j \<le> ft_lastFaceId ft" using assms(1) unfolding ft_ok_def by blast
    then show False by (simp add: j)
  qed
  then have "ft_faces ft j = None" by (simp add: domIff)
  then show "ft_faces ft' = (ft_faces ft)(j \<mapsto> f)" by (simp add: e ft_addImpl_def)
qed

lemma ft_forwardRange_complete:
  assumes "ft_ok ft"
  shows "set (ft_forwardRange ft) = dom (ft_faces ft)"
proof -
  have "i < Suc (max (ft_lastFaceId ft) FACEID_RESERVED_MAX)" if "ft_faces ft i \<noteq> None" for i
    using assms that unfolding ft_ok_def by (metis domIff le_max_iff_disj less_Suc_eq_le)
  then show ?thesis by (auto simp: ft_forwardRange_def simp del: upt_Suc)
qed

section \<open>Policies for unsolicited Data\<close>

datatype UnsolicitedDataDecision = UD_DROP | UD_CACHE

datatype UnsolicitedDataPolicy = DropAll | AdmitLocal | AdmitNetwork | AdmitAll

definition unsolicited_create :: "string \<Rightarrow> UnsolicitedDataPolicy option" where
  "unsolicited_create policyName =
     map_of [(''drop-all'', DropAll), (''admit-local'', AdmitLocal), (''admit-network'', AdmitNetwork),
             (''admit-all'', AdmitAll)] policyName"

fun unsolicited_decide :: "UnsolicitedDataPolicy \<Rightarrow> face \<Rightarrow> data \<Rightarrow> UnsolicitedDataDecision" where
  "unsolicited_decide DropAll inFace d = UD_DROP"
| "unsolicited_decide AdmitLocal inFace d = (if face_scope inFace = FACE_SCOPE_LOCAL then UD_CACHE else UD_DROP)"
| "unsolicited_decide AdmitNetwork inFace d = (if face_scope inFace = FACE_SCOPE_NON_LOCAL then UD_CACHE else UD_DROP)"
| "unsolicited_decide AdmitAll inFace d = UD_CACHE"

end
