(* ===== verification/Table_Entries.thy ===== *)
theory Table_Entries
  imports NDN_Packets
begin

text \<open>
  The entries of the tables that share the name tree: FIB entries with their next hops
  (\<open>daemon/table/fib-nexthop.hpp\<close>, \<open>fib-entry.cpp\<close>), PIT entries with their in- and out-records
  (\<open>pit-face-record.cpp\<close>, \<open>pit-in-record.cpp\<close>, \<open>pit-out-record.cpp\<close>, \<open>pit-entry.cpp\<close>), Measurements
  entries and Strategy Choice entries. A face is identified by its FaceId. Items that a strategy
  places on a \<open>StrategyInfoHost\<close> have the type \<open>'i\<close>; a host maps the type number of an item to it.
\<close>

section \<open>Hosts of strategy information\<close>

type_synonym 'i strategy_info_host = "nat \<rightharpoonup> 'i"

definition getStrategyInfo :: "'i strategy_info_host \<Rightarrow> nat \<Rightarrow> 'i option" where
  "getStrategyInfo m_items typeId = m_items typeId"

definition insertStrategyInfo ::
  "'i strategy_info_host \<Rightarrow> nat \<Rightarrow> 'i \<Rightarrow> ('i \<times> bool) \<times> 'i strategy_info_host" where
  "insertStrategyInfo m_items typeId newItem =
     (case m_items typeId of
        None \<Rightarrow> ((newItem, True), m_items(typeId \<mapsto> newItem))
      | Some item \<Rightarrow> ((item, False), m_items))"

definition eraseStrategyInfo ::
  "'i strategy_info_host \<Rightarrow> nat \<Rightarrow> nat \<times> 'i strategy_info_host" where
  "eraseStrategyInfo m_items typeId =
     ((case m_items typeId of None \<Rightarrow> 0 | Some _ \<Rightarrow> 1), m_items(typeId := None))"

definition clearStrategyInfoHost :: "'i strategy_info_host \<Rightarrow> 'i strategy_info_host" where
  "clearStrategyInfoHost m_items = Map.empty"

section \<open>FIB entries\<close>

record nexthop =
  nh_face :: face_id
  nh_cost :: u64

definition mk_nexthop :: "face_id \<Rightarrow> nexthop" where
  "mk_nexthop f = \<lparr>nh_face = f, nh_cost = 0\<rparr>"

record fib_entry =
  fe_prefix :: name
  fe_nextHops :: "nexthop list"
  fe_nameTreeEntry :: "name option"

definition mk_fib_entry :: "name \<Rightarrow> fib_entry" where
  "mk_fib_entry p = \<lparr>fe_prefix = p, fe_nextHops = [], fe_nameTreeEntry = None\<rparr>"

text \<open>
  An iterator into the vector of next hops is a position; the end iterator is the length. The
  iterator stays a position when the vector is sorted.
\<close>

fun find_position :: "('a \<Rightarrow> bool) \<Rightarrow> 'a list \<Rightarrow> nat" where
  "find_position P [] = 0"
| "find_position P (x # xs) = (if P x then 0 else Suc (find_position P xs))"

definition findNextHop :: "fib_entry \<Rightarrow> face_id \<Rightarrow> nat" where
  "findNextHop e f = find_position (\<lambda>nh. nh_face nh = f) (fe_nextHops e)"

definition hasNextHop :: "fib_entry \<Rightarrow> face_id \<Rightarrow> bool" where
  "hasNextHop e f \<longleftrightarrow> findNextHop e f \<noteq> length (fe_nextHops e)"

definition hasNextHops :: "fib_entry \<Rightarrow> bool" where
  "hasNextHops e \<longleftrightarrow> fe_nextHops e \<noteq> []"

text \<open>
  \<open>std::sort\<close> by cost leaves the order of equal costs open; the model takes the stable result.
\<close>

definition sortNextHops :: "fib_entry \<Rightarrow> fib_entry" where
  "sortNextHops e = e\<lparr>fe_nextHops := sort_key nh_cost (fe_nextHops e)\<rparr>"

definition addOrUpdateNextHop :: "fib_entry \<Rightarrow> face_id \<Rightarrow> u64 \<Rightarrow> (nat \<times> bool) \<times> fib_entry" where
  "addOrUpdateNextHop e f cost =
     (let it = findNextHop e f;
          isNew = (it = length (fe_nextHops e));
          nhs = (if isNew then fe_nextHops e @ [mk_nexthop f] else fe_nextHops e);
          nhs' = nhs[it := (nhs ! it)\<lparr>nh_cost := cost\<rparr>]
      in ((it, isNew), sortNextHops (e\<lparr>fe_nextHops := nhs'\<rparr>)))"

definition removeNextHop :: "fib_entry \<Rightarrow> face_id \<Rightarrow> bool \<times> fib_entry" where
  "removeNextHop e f =
     (if hasNextHop e f
      then (True, e\<lparr>fe_nextHops := erase_first (\<lambda>nh. nh_face nh = f) (fe_nextHops e)\<rparr>)
      else (False, e))"

section \<open>PIT entries\<close>

record 'i face_record =
  fr_face :: face_id
  fr_lastNonce :: u32
  fr_lastRenewed :: time_point
  fr_expiry :: time_point
  fr_info :: "'i strategy_info_host"

record 'i in_record = "'i face_record" +
  ir_interest :: "interest option"

record 'i out_record = "'i face_record" +
  or_incomingNack :: "nack_reason option"

text \<open>\<open>MAX_LIFETIME\<close>: ten days, in milliseconds.\<close>

definition MAX_LIFETIME :: nat where
  "MAX_LIFETIME = 10 * 24 * 3600 * 1000"

definition faceRecord_update ::
  "time_point \<Rightarrow> interest \<Rightarrow> ('i, 'z) face_record_scheme \<Rightarrow> ('i, 'z) face_record_scheme" where
  "faceRecord_update now i r =
     r\<lparr>fr_lastNonce := int_nonce i, fr_lastRenewed := now,
       fr_expiry := now + ms (min (int_lifetime i) MAX_LIFETIME)\<rparr>"

definition inRecord_update :: "time_point \<Rightarrow> interest \<Rightarrow> 'i in_record \<Rightarrow> 'i in_record" where
  "inRecord_update now i r = (faceRecord_update now i r)\<lparr>ir_interest := Some i\<rparr>"

definition mk_in_record :: "face_id \<Rightarrow> 'i in_record" where
  "mk_in_record f =
     \<lparr>fr_face = f, fr_lastNonce = 0, fr_lastRenewed = time_point_min, fr_expiry = time_point_min,
      fr_info = Map.empty, ir_interest = None\<rparr>"

definition mk_out_record :: "face_id \<Rightarrow> 'i out_record" where
  "mk_out_record f =
     \<lparr>fr_face = f, fr_lastNonce = 0, fr_lastRenewed = time_point_min, fr_expiry = time_point_min,
      fr_info = Map.empty, or_incomingNack = None\<rparr>"

definition setIncomingNack :: "nack \<Rightarrow> 'i out_record \<Rightarrow> bool \<times> 'i out_record" where
  "setIncomingNack n r =
     (if int_nonce (nack_interest n) \<noteq> fr_lastNonce r then (False, r)
      else (True, r\<lparr>or_incomingNack := Some (nack_reason n)\<rparr>))"

definition clearIncomingNack :: "'i out_record \<Rightarrow> 'i out_record" where
  "clearIncomingNack r = r\<lparr>or_incomingNack := None\<rparr>"

record 'i pit_entry =
  pe_interest :: interest
  pe_inRecords :: "'i in_record list"
  pe_outRecords :: "'i out_record list"
  pe_expiryTimer :: "time_point option"
  pe_isSatisfied :: bool
  pe_dataFreshnessPeriod :: nat
  pe_nameTreeEntry :: "name option"
  pe_info :: "'i strategy_info_host"

definition mk_pit_entry :: "interest \<Rightarrow> 'i pit_entry" where
  "mk_pit_entry i =
     \<lparr>pe_interest = i, pe_inRecords = [], pe_outRecords = [], pe_expiryTimer = None,
      pe_isSatisfied = False, pe_dataFreshnessPeriod = 0, pe_nameTreeEntry = None,
      pe_info = Map.empty\<rparr>"

abbreviation pe_name :: "'i pit_entry \<Rightarrow> name" where
  "pe_name e \<equiv> int_name (pe_interest e)"

text \<open>
  Two Interests belong to the same PIT entry when name, \<open>CanBePrefix\<close> and \<open>MustBeFresh\<close> agree: the
  key of a PIT entry. A pointer to a PIT entry is its key.
\<close>

type_synonym pit_key = "name \<times> bool \<times> bool"

definition interest_key :: "interest \<Rightarrow> pit_key" where
  "interest_key i = (int_name i, int_canBePrefix i, int_mustBeFresh i)"

abbreviation pe_key :: "'i pit_entry \<Rightarrow> pit_key" where
  "pe_key e \<equiv> interest_key (pe_interest e)"

definition pit_canMatch :: "'i pit_entry \<Rightarrow> interest \<Rightarrow> nat \<Rightarrow> bool" where
  "pit_canMatch e i nEqualNameComps \<longleftrightarrow>
     subNameEq (pe_name e) nEqualNameComps (int_name i) \<and>
     int_canBePrefix (pe_interest e) = int_canBePrefix i \<and>
     int_mustBeFresh (pe_interest e) = int_mustBeFresh i"

definition hasInRecords :: "'i pit_entry \<Rightarrow> bool" where
  "hasInRecords e \<longleftrightarrow> pe_inRecords e \<noteq> []"

definition hasOutRecords :: "'i pit_entry \<Rightarrow> bool" where
  "hasOutRecords e \<longleftrightarrow> pe_outRecords e \<noteq> []"

definition getInRecord :: "'i pit_entry \<Rightarrow> face_id \<Rightarrow> 'i in_record option" where
  "getInRecord e f = find (\<lambda>r. fr_face r = f) (pe_inRecords e)"

definition getOutRecord :: "'i pit_entry \<Rightarrow> face_id \<Rightarrow> 'i out_record option" where
  "getOutRecord e f = find (\<lambda>r. fr_face r = f) (pe_outRecords e)"

definition insertOrUpdateInRecord ::
  "time_point \<Rightarrow> face_id \<Rightarrow> interest \<Rightarrow> 'i pit_entry \<Rightarrow> 'i pit_entry" where
  "insertOrUpdateInRecord now f i e =
     (let rs = (if getInRecord e f = None then mk_in_record f # pe_inRecords e else pe_inRecords e)
      in e\<lparr>pe_inRecords := update_first (\<lambda>r. fr_face r = f) (inRecord_update now i) rs\<rparr>)"

definition insertOrUpdateOutRecord ::
  "time_point \<Rightarrow> face_id \<Rightarrow> interest \<Rightarrow> 'i pit_entry \<Rightarrow> 'i pit_entry" where
  "insertOrUpdateOutRecord now f i e =
     (let rs = (if getOutRecord e f = None then mk_out_record f # pe_outRecords e else pe_outRecords e)
      in e\<lparr>pe_outRecords := update_first (\<lambda>r. fr_face r = f) (faceRecord_update now i) rs\<rparr>)"

definition deleteInRecord :: "face_id \<Rightarrow> 'i pit_entry \<Rightarrow> 'i pit_entry" where
  "deleteInRecord f e = e\<lparr>pe_inRecords := erase_first (\<lambda>r. fr_face r = f) (pe_inRecords e)\<rparr>"

definition clearInRecords :: "'i pit_entry \<Rightarrow> 'i pit_entry" where
  "clearInRecords e = e\<lparr>pe_inRecords := []\<rparr>"

definition deleteOutRecord :: "face_id \<Rightarrow> 'i pit_entry \<Rightarrow> 'i pit_entry" where
  "deleteOutRecord f e = e\<lparr>pe_outRecords := erase_first (\<lambda>r. fr_face r = f) (pe_outRecords e)\<rparr>"

section \<open>Measurements and Strategy Choice entries\<close>

record 'i measurements_entry =
  me_name :: name
  me_expiry :: time_point
  me_cleanup :: "time_point option"
  me_nameTreeEntry :: "name option"
  me_info :: "'i strategy_info_host"

definition mk_measurements_entry :: "name \<Rightarrow> 'i measurements_entry" where
  "mk_measurements_entry n =
     \<lparr>me_name = n, me_expiry = time_point_min, me_cleanup = None, me_nameTreeEntry = None,
      me_info = Map.empty\<rparr>"

text \<open>A strategy instance, as far as the tables see it: the name it was instantiated under.\<close>

record strategy =
  st_instanceName :: name

record strategy_choice_entry =
  sce_prefix :: name
  sce_strategy :: "strategy option"
  sce_nameTreeEntry :: "name option"

definition mk_strategy_choice_entry :: "name \<Rightarrow> strategy_choice_entry" where
  "mk_strategy_choice_entry p = \<lparr>sce_prefix = p, sce_strategy = None, sce_nameTreeEntry = None\<rparr>"

definition sce_setStrategy :: "strategy \<Rightarrow> strategy_choice_entry \<Rightarrow> strategy_choice_entry" where
  "sce_setStrategy s e = e\<lparr>sce_strategy := Some s\<rparr>"

section \<open>Correctness of FIB entries\<close>

text \<open>
  The invariant of a FIB entry: at most one next hop per face, in ascending order of cost.
\<close>

definition fib_entry_ok :: "fib_entry \<Rightarrow> bool" where
  "fib_entry_ok e \<longleftrightarrow> distinct (map nh_face (fe_nextHops e)) \<and> sorted (map nh_cost (fe_nextHops e))"

definition fe_costs :: "fib_entry \<Rightarrow> face_id \<rightharpoonup> u64" where
  "fe_costs e = map_of (map (\<lambda>nh. (nh_face nh, nh_cost nh)) (fe_nextHops e))"

lemma find_position_le: "find_position P xs \<le> length xs"
  by (induction xs) auto

lemma find_position_less_iff: "find_position P xs < length xs \<longleftrightarrow> (\<exists>x\<in>set xs. P x)"
  by (induction xs) auto

lemma find_position_nth: "find_position P xs < length xs \<Longrightarrow> P (xs ! find_position P xs)"
  by (induction xs) auto

lemma hasNextHop_iff: "hasNextHop e f \<longleftrightarrow> f \<in> nh_face ` set (fe_nextHops e)"
  using find_position_less_iff[of "\<lambda>nh. nh_face nh = f" "fe_nextHops e"]
    find_position_le[of "\<lambda>nh. nh_face nh = f" "fe_nextHops e"]
  by (auto simp: hasNextHop_def findNextHop_def)

lemma update_at_find_position:
  "xs[find_position P xs := f (xs ! find_position P xs)] = update_first P f xs"
  by (induction xs) auto

lemma update_at_end: "(xs @ [x])[length xs := f ((xs @ [x]) ! length xs)] = xs @ [f x]"
  by simp

lemma addOrUpdateNextHop_eq:
  "addOrUpdateNextHop e f cost =
     (if hasNextHop e f
      then ((findNextHop e f, False),
            e\<lparr>fe_nextHops := sort_key nh_cost
                (update_first (\<lambda>nh. nh_face nh = f) (nh_cost_update (\<lambda>_. cost)) (fe_nextHops e))\<rparr>)
      else ((length (fe_nextHops e), True),
            e\<lparr>fe_nextHops := sort_key nh_cost (fe_nextHops e @ [\<lparr>nh_face = f, nh_cost = cost\<rparr>])\<rparr>))"
proof (cases "hasNextHop e f")
  case True
  then have ne: "findNextHop e f \<noteq> length (fe_nextHops e)" by (simp add: hasNextHop_def)
  show ?thesis
    unfolding addOrUpdateNextHop_def Let_def sortNextHops_def
    using True ne update_at_find_position[of "fe_nextHops e" "\<lambda>nh. nh_face nh = f" "nh_cost_update (\<lambda>_. cost)"]
    by (simp add: findNextHop_def)
next
  case False
  then have "findNextHop e f = length (fe_nextHops e)" by (simp add: hasNextHop_def)
  with False show ?thesis
    by (simp add: addOrUpdateNextHop_def sortNextHops_def mk_nexthop_def Let_def)
qed

lemma distinct_map_mset: "mset (map k xs) = mset (map k ys) \<Longrightarrow> distinct (map k xs) = distinct (map k ys)"
  by (rule mset_eq_imp_distinct_iff)

lemma fib_entry_ok_new: "fib_entry_ok (mk_fib_entry p)"
  by (simp add: fib_entry_ok_def mk_fib_entry_def)

lemma addOrUpdateNextHop_ok [inv_intros]:
  assumes "fib_entry_ok e"
  shows "fib_entry_ok (snd (addOrUpdateNextHop e f cost))"
proof -
  have d: "distinct (map nh_face (sort_key nh_cost xs)) = distinct (map nh_face xs)" for xs :: "nexthop list"
    by (rule distinct_map_mset) simp
  show ?thesis
    using assms unfolding addOrUpdateNextHop_eq fib_entry_ok_def
    by (auto simp: d sorted_sort_key map_update_first hasNextHop_iff)
qed

lemma erase_first_sorted: "sorted (map k xs) \<Longrightarrow> sorted (map k (erase_first P xs))"
  by (induction xs) (use erase_first_subset in fastforce)+

lemma removeNextHop_ok [inv_intros]:
  "fib_entry_ok e \<Longrightarrow> fib_entry_ok (snd (removeNextHop e f))"
  by (simp add: removeNextHop_def fib_entry_ok_def erase_first_distinct erase_first_sorted)

lemma fe_costs_Some_iff:
  "fib_entry_ok e \<Longrightarrow>
   fe_costs e f = Some c \<longleftrightarrow> (\<exists>nh\<in>set (fe_nextHops e). nh_face nh = f \<and> nh_cost nh = c)"
  unfolding fe_costs_def fib_entry_ok_def
  by (subst map_of_eq_Some_iff) (auto simp: comp_def image_iff)

lemma fe_costs_None_iff: "fe_costs e f = None \<longleftrightarrow> f \<notin> nh_face ` set (fe_nextHops e)"
  by (auto simp: fe_costs_def map_of_eq_None_iff image_image)

lemma fe_costs_eqI:
  assumes "fib_entry_ok e"
    and "\<And>f c. (\<exists>nh\<in>set (fe_nextHops e). nh_face nh = f \<and> nh_cost nh = c) \<longleftrightarrow> m f = Some c"
  shows "fe_costs e = m"
proof
  fix f
  have "fe_costs e f = Some c \<longleftrightarrow> m f = Some c" for c
    by (simp only: fe_costs_Some_iff[OF assms(1)] assms(2))
  then show "fe_costs e f = m f" by (rule option_eqI)
qed

lemma addOrUpdateNextHop_costs [view_simps]:
  assumes "fib_entry_ok e"
  shows "fe_costs (snd (addOrUpdateNextHop e f cost)) = (fe_costs e)(f \<mapsto> cost)"
proof (rule fe_costs_eqI[OF addOrUpdateNextHop_ok[OF assms]])
  fix g c
  have dist: "distinct (map nh_face (fe_nextHops e))" using assms by (simp add: fib_entry_ok_def)
  show "(\<exists>nh\<in>set (fe_nextHops (snd (addOrUpdateNextHop e f cost))). nh_face nh = g \<and> nh_cost nh = c)
    \<longleftrightarrow> ((fe_costs e)(f \<mapsto> cost)) g = Some c"
  proof (cases "hasNextHop e f")
    case True
    then have "set (fe_nextHops (snd (addOrUpdateNextHop e f cost))) =
        (\<lambda>nh. if nh_face nh = f then nh\<lparr>nh_cost := cost\<rparr> else nh) ` set (fe_nextHops e)"
      by (simp add: addOrUpdateNextHop_eq update_first_key_set[OF dist])
    then have "(\<exists>nh\<in>set (fe_nextHops (snd (addOrUpdateNextHop e f cost))). nh_face nh = g \<and> nh_cost nh = c)
        \<longleftrightarrow> (\<exists>nh\<in>set (fe_nextHops e). nh_face nh = g \<and> (if g = f then cost else nh_cost nh) = c)"
      by (simp only: bex_simps) (rule bex_cong, auto)
    with True show ?thesis
      by (auto simp: hasNextHop_iff fe_costs_Some_iff[OF assms])
  next
    case False
    then show ?thesis
      by (auto simp: addOrUpdateNextHop_eq hasNextHop_iff fe_costs_Some_iff[OF assms])
  qed
qed

lemma removeNextHop_costs [view_simps]:
  assumes "fib_entry_ok e"
  shows "fe_costs (snd (removeNextHop e f)) = (fe_costs e)(f := None)"
proof (rule fe_costs_eqI[OF removeNextHop_ok[OF assms]])
  fix g c
  have dist: "distinct (map nh_face (fe_nextHops e))" using assms by (simp add: fib_entry_ok_def)
  show "(\<exists>nh\<in>set (fe_nextHops (snd (removeNextHop e f))). nh_face nh = g \<and> nh_cost nh = c)
    \<longleftrightarrow> ((fe_costs e)(f := None)) g = Some c"
    by (auto simp: removeNextHop_def hasNextHop_iff erase_first_key_set[OF dist]
        fe_costs_Some_iff[OF assms])
qed

lemma removeNextHop_result: "fst (removeNextHop e f) \<longleftrightarrow> fe_costs e f \<noteq> None"
  by (auto simp: removeNextHop_def hasNextHop_iff fe_costs_None_iff)

lemma addOrUpdateNextHop_isNew: "snd (fst (addOrUpdateNextHop e f cost)) \<longleftrightarrow> fe_costs e f = None"
  by (auto simp: addOrUpdateNextHop_eq hasNextHop_iff fe_costs_None_iff)

lemma addOrUpdateNextHop_frame [simp]:
  "fe_prefix (snd (addOrUpdateNextHop e f cost)) = fe_prefix e"
  "fe_nameTreeEntry (snd (addOrUpdateNextHop e f cost)) = fe_nameTreeEntry e"
  by (simp_all add: addOrUpdateNextHop_eq)

lemma removeNextHop_frame [simp]:
  "fe_prefix (snd (removeNextHop e f)) = fe_prefix e"
  "fe_nameTreeEntry (snd (removeNextHop e f)) = fe_nameTreeEntry e"
  by (simp_all add: removeNextHop_def)

section \<open>Correctness of PIT entries\<close>

text \<open>The invariant of a PIT entry: at most one in-record and one out-record per face.\<close>

definition pit_entry_ok :: "'i pit_entry \<Rightarrow> bool" where
  "pit_entry_ok e \<longleftrightarrow>
     distinct (map fr_face (pe_inRecords e)) \<and> distinct (map fr_face (pe_outRecords e))"

lemma faceRecord_update_face [simp]: "fr_face (faceRecord_update now i r) = fr_face r"
  by (simp add: faceRecord_update_def)

lemma inRecord_update_face [simp]: "fr_face (inRecord_update now i r) = fr_face r"
  by (simp add: inRecord_update_def)

lemma pit_entry_ok_new: "pit_entry_ok (mk_pit_entry i)"
  by (simp add: pit_entry_ok_def mk_pit_entry_def)

lemma pit_entry_ok_records [inv_intros]:
  assumes "pit_entry_ok e"
  shows "pit_entry_ok (insertOrUpdateInRecord now f i e)"
    and "pit_entry_ok (insertOrUpdateOutRecord now f i e)"
    and "pit_entry_ok (deleteInRecord f e)"
    and "pit_entry_ok (deleteOutRecord f e)"
    and "pit_entry_ok (clearInRecords e)"
  using assms
  by (auto simp: pit_entry_ok_def insertOrUpdateInRecord_def insertOrUpdateOutRecord_def
      getInRecord_def getOutRecord_def deleteInRecord_def deleteOutRecord_def clearInRecords_def
      mk_in_record_def mk_out_record_def map_update_first erase_first_distinct find_None_iff Let_def)

lemma find_update_first:
  assumes "\<And>x. k (f x) = k x"
  shows "find (\<lambda>x. k x = b) (update_first (\<lambda>x. k x = a) f xs) =
    (if b = a then map_option f (find (\<lambda>x. k x = a) xs) else find (\<lambda>x. k x = b) xs)"
  using assms by (induction xs) auto

lemma find_erase_first:
  assumes "distinct (map k xs)"
  shows "find (\<lambda>x. k x = b) (erase_first (\<lambda>x. k x = a) xs) =
    (if b = a then None else find (\<lambda>x. k x = b) xs)"
  using assms by (induction xs) (auto simp: find_None_iff image_iff)

lemma getInRecord_insertOrUpdate [view_simps]:
  "getInRecord (insertOrUpdateInRecord now f i e) g =
     (if g = f
      then Some (inRecord_update now i
        (case getInRecord e f of None \<Rightarrow> mk_in_record f | Some r \<Rightarrow> r))
      else getInRecord e g)"
  by (auto simp: insertOrUpdateInRecord_def getInRecord_def Let_def mk_in_record_def find_update_first
      split: option.splits)

lemma getOutRecord_insertOrUpdate [view_simps]:
  "getOutRecord (insertOrUpdateOutRecord now f i e) g =
     (if g = f
      then Some (faceRecord_update now i
        (case getOutRecord e f of None \<Rightarrow> mk_out_record f | Some r \<Rightarrow> r))
      else getOutRecord e g)"
  by (auto simp: insertOrUpdateOutRecord_def getOutRecord_def Let_def mk_out_record_def find_update_first
      split: option.splits)

lemma getInRecord_delete [view_simps]:
  "pit_entry_ok e \<Longrightarrow> getInRecord (deleteInRecord f e) g = (if g = f then None else getInRecord e g)"
  by (simp add: getInRecord_def deleteInRecord_def pit_entry_ok_def find_erase_first)

lemma getOutRecord_delete [view_simps]:
  "pit_entry_ok e \<Longrightarrow> getOutRecord (deleteOutRecord f e) g = (if g = f then None else getOutRecord e g)"
  by (simp add: getOutRecord_def deleteOutRecord_def pit_entry_ok_def find_erase_first)

lemma record_ops_frame [simp]:
  "pe_interest (insertOrUpdateInRecord now f i e) = pe_interest e"
  "pe_interest (insertOrUpdateOutRecord now f i e) = pe_interest e"
  "pe_interest (deleteInRecord f e) = pe_interest e"
  "pe_interest (deleteOutRecord f e) = pe_interest e"
  "pe_interest (clearInRecords e) = pe_interest e"
  "pe_outRecords (insertOrUpdateInRecord now f i e) = pe_outRecords e"
  "pe_outRecords (deleteInRecord f e) = pe_outRecords e"
  "pe_outRecords (clearInRecords e) = pe_outRecords e"
  "pe_inRecords (insertOrUpdateOutRecord now f i e) = pe_inRecords e"
  "pe_inRecords (deleteOutRecord f e) = pe_inRecords e"
  "pe_nameTreeEntry (insertOrUpdateInRecord now f i e) = pe_nameTreeEntry e"
  "pe_nameTreeEntry (insertOrUpdateOutRecord now f i e) = pe_nameTreeEntry e"
  "pe_nameTreeEntry (deleteInRecord f e) = pe_nameTreeEntry e"
  "pe_nameTreeEntry (deleteOutRecord f e) = pe_nameTreeEntry e"
  "pe_nameTreeEntry (clearInRecords e) = pe_nameTreeEntry e"
  by (simp_all add: insertOrUpdateInRecord_def insertOrUpdateOutRecord_def deleteInRecord_def
      deleteOutRecord_def clearInRecords_def Let_def)

lemma deleteInRecord_faces:
  "pit_entry_ok e \<Longrightarrow> fr_face ` set (pe_inRecords (deleteInRecord f e)) = fr_face ` set (pe_inRecords e) - {f}"
  by (auto simp: deleteInRecord_def pit_entry_ok_def erase_first_key_set)

lemma deleteOutRecord_faces:
  "pit_entry_ok e \<Longrightarrow> fr_face ` set (pe_outRecords (deleteOutRecord f e)) = fr_face ` set (pe_outRecords e) - {f}"
  by (auto simp: deleteOutRecord_def pit_entry_ok_def erase_first_key_set)

lemma subNameEq_iff: "take k a = take k b \<Longrightarrow> subNameEq a k b \<longleftrightarrow> a = b"
  unfolding subNameEq_def by (metis append_take_drop_id)

lemma pit_canMatch_iff_key:
  "take k (pe_name e) = take k (int_name i) \<Longrightarrow>
   pit_canMatch e i k \<longleftrightarrow> pe_key e = interest_key i"
  by (simp add: pit_canMatch_def subNameEq_iff interest_key_def)

lemma pit_canMatch_0 [simp]: "pit_canMatch e i 0 \<longleftrightarrow> pe_key e = interest_key i"
  by (simp add: pit_canMatch_iff_key)

end
