(* ===== verification/Fw_Algorithm.thy ===== *)
theory Fw_Algorithm
  imports Face_Table Table_Entries
begin

text \<open>
  The algorithms shared by the forwarding strategies (\<open>daemon/fw/algorithm.cpp\<close>) and the two ways of
  suppressing retransmissions (\<open>retx-suppression-fixed.cpp\<close>, \<open>retx-suppression-exponential.cpp\<close>).
  Every function takes the time at which it runs; a handler reads the clock once.
\<close>

section \<open>Faces in the table\<close>

text \<open>
  Following a reference to a face. References are only followed while the face is in the table (the
  invariant \<open>no_dangling\<close> of the forwarder); the value for other ids does not matter.
\<close>

definition ft_face :: "face_table \<Rightarrow> face_id \<Rightarrow> face" where
  "ft_face ft f = (case ft_faces ft f of Some x \<Rightarrow> x
     | None \<Rightarrow> \<lparr>face_scope = FACE_SCOPE_NON_LOCAL, face_linkType = LINK_TYPE_POINT_TO_POINT,
                face_nInHopLimitZero = 0, face_nOutHopLimitZero = 0\<rparr>)"

abbreviation ft_scope :: "face_table \<Rightarrow> face_id \<Rightarrow> FaceScope" where
  "ft_scope ft f \<equiv> face_scope (ft_face ft f)"

abbreviation ft_linkType :: "face_table \<Rightarrow> face_id \<Rightarrow> LinkType" where
  "ft_linkType ft f \<equiv> face_linkType (ft_face ft f)"

definition ft_getId :: "face_table \<Rightarrow> face_id \<Rightarrow> face_id" where
  "ft_getId ft f = (if ft_faces ft f = None then INVALID_FACEID else f)"

section \<open>Scope and eligibility\<close>

definition wouldViolateScope :: "face_table \<Rightarrow> face_id \<Rightarrow> interest \<Rightarrow> face_id \<Rightarrow> bool" where
  "wouldViolateScope ft inFace i outFace =
     (if ft_scope ft outFace = FACE_SCOPE_LOCAL then False
      else if prefix LOCALHOST (int_name i) then True
      else if prefix LOCALHOP (int_name i) then ft_scope ft inFace \<noteq> FACE_SCOPE_LOCAL
      else False)"

definition canForwardToLegacy :: "time_point \<Rightarrow> 'i pit_entry \<Rightarrow> face_id \<Rightarrow> bool" where
  "canForwardToLegacy now pe f =
     (let hasUnexpiredOutRecord = list_ex (\<lambda>r. fr_face r = f \<and> fr_expiry r \<ge> now) (pe_outRecords pe);
          hasUnexpiredOtherInRecord = list_ex (\<lambda>r. fr_face r \<noteq> f \<and> fr_expiry r \<ge> now) (pe_inRecords pe)
      in if hasUnexpiredOutRecord then False else hasUnexpiredOtherInRecord)"

definition DUPLICATE_NONCE_NONE :: u32 where "DUPLICATE_NONCE_NONE = 0"
definition DUPLICATE_NONCE_IN_SAME :: u32 where "DUPLICATE_NONCE_IN_SAME = 1"
definition DUPLICATE_NONCE_IN_OTHER :: u32 where "DUPLICATE_NONCE_IN_OTHER = 2"
definition DUPLICATE_NONCE_OUT_SAME :: u32 where "DUPLICATE_NONCE_OUT_SAME = 4"
definition DUPLICATE_NONCE_OUT_OTHER :: u32 where "DUPLICATE_NONCE_OUT_OTHER = 8"

definition findDuplicateNonce :: "'i pit_entry \<Rightarrow> u32 \<Rightarrow> face_id \<Rightarrow> u32" where
  "findDuplicateNonce pe nonce f =
     (let dnw = fold (\<lambda>r dnw. if fr_lastNonce r = nonce
                              then dnw OR (if fr_face r = f then DUPLICATE_NONCE_IN_SAME else DUPLICATE_NONCE_IN_OTHER)
                              else dnw) (pe_inRecords pe) DUPLICATE_NONCE_NONE
      in fold (\<lambda>r dnw. if fr_lastNonce r = nonce
                       then dnw OR (if fr_face r = f then DUPLICATE_NONCE_OUT_SAME else DUPLICATE_NONCE_OUT_OTHER)
                       else dnw) (pe_outRecords pe) dnw)"

definition hasPendingOutRecords :: "time_point \<Rightarrow> 'i pit_entry \<Rightarrow> bool" where
  "hasPendingOutRecords now pe \<longleftrightarrow>
     list_ex (\<lambda>r. fr_expiry r \<ge> now \<and> or_incomingNack r = None) (pe_outRecords pe)"

text \<open>\<open>None\<close> stands for a failed assertion: there is no out-record.\<close>

definition getLastOutgoing :: "'i pit_entry \<Rightarrow> time_point option" where
  "getLastOutgoing pe =
     (case pe_outRecords pe of
        [] \<Rightarrow> None
      | r # rs \<Rightarrow> Some (fold (\<lambda>r t. max t (fr_lastRenewed r)) rs (fr_lastRenewed r)))"

definition isNextHopEligible ::
  "face_table \<Rightarrow> face_id \<Rightarrow> interest \<Rightarrow> nexthop \<Rightarrow> 'i pit_entry \<Rightarrow> bool \<Rightarrow> time_point \<Rightarrow> bool" where
  "isNextHopEligible ft inFace i nh pe wantUnused now =
     (let outFace = nh_face nh
      in if ft_getId ft outFace = ft_getId ft inFace \<and> ft_linkType ft outFace \<noteq> LINK_TYPE_AD_HOC \<or>
            wouldViolateScope ft inFace i outFace then False
         else if wantUnused then
           (case getOutRecord pe outFace of None \<Rightarrow> True | Some r \<Rightarrow> \<not> fr_expiry r > now)
         else True)"

definition time_point_max :: time_point where
  "time_point_max = 2 ^ 63 - 1"

text \<open>The loop; \<open>None\<close> stands for a failed assertion: an eligible next hop has no out-record.\<close>

fun earliest_loop ::
  "face_table \<Rightarrow> face_id \<Rightarrow> interest \<Rightarrow> 'i pit_entry \<Rightarrow> nexthop list \<Rightarrow> nexthop option \<Rightarrow> time_point \<Rightarrow>
   nexthop option option" where
  "earliest_loop ft inFace i pe [] found earliestRenewed = Some found"
| "earliest_loop ft inFace i pe (nh # nhs) found earliestRenewed =
     (if \<not> isNextHopEligible ft inFace i nh pe False time_point_min
      then earliest_loop ft inFace i pe nhs found earliestRenewed
      else case getOutRecord pe (nh_face nh) of
             None \<Rightarrow> None
           | Some r \<Rightarrow>
               if fr_lastRenewed r < earliestRenewed
               then earliest_loop ft inFace i pe nhs (Some nh) (fr_lastRenewed r)
               else earliest_loop ft inFace i pe nhs found earliestRenewed)"

definition findEligibleNextHopWithEarliestOutRecord ::
  "face_table \<Rightarrow> face_id \<Rightarrow> interest \<Rightarrow> nexthop list \<Rightarrow> 'i pit_entry \<Rightarrow> nexthop option option" where
  "findEligibleNextHopWithEarliestOutRecord ft inFace i nexthops pe =
     earliest_loop ft inFace i pe nexthops None time_point_max"

section \<open>Retransmission suppression\<close>

datatype RetxSuppressionResult = RETX_NEW | RETX_FORWARD | RETX_SUPPRESS

text \<open>The strategy information of the modelled strategies; type 1020 is the \<open>PitInfo\<close> of
  \<open>RetxSuppressionExponential\<close>, with its interval in microseconds.\<close>

datatype nfd_info = PitInfo (suppressionInterval: nat)

definition PitInfo_typeId :: nat where "PitInfo_typeId = 1020"

definition DEFAULT_MIN_RETX_INTERVAL :: nat where "DEFAULT_MIN_RETX_INTERVAL = 100"

definition fixed_decidePerPitEntry :: "nat \<Rightarrow> time_point \<Rightarrow> 'i pit_entry \<Rightarrow> RetxSuppressionResult" where
  "fixed_decidePerPitEntry minRetxInterval now pe =
     (if \<not> hasPendingOutRecords now pe then RETX_NEW
      else case getLastOutgoing pe of
             None \<Rightarrow> RETX_NEW
           | Some lastOutgoing \<Rightarrow>
               if now - lastOutgoing < ms minRetxInterval then RETX_SUPPRESS else RETX_FORWARD)"

record retx_exponential =
  rx_initialInterval :: nat
  rx_multiplier :: fp_const
  rx_maxInterval :: nat

definition us :: "nat \<Rightarrow> int" where
  "us k = int k * 1000"

definition DEFAULT_MULTIPLIER :: fp_const where
  "DEFAULT_MULTIPLIER = \<lparr>fp_mantissa = 2, fp_scale = 0\<rparr>"

definition DEFAULT_INITIAL_INTERVAL :: nat where "DEFAULT_INITIAL_INTERVAL = 1000"
definition DEFAULT_MAX_INTERVAL :: nat where "DEFAULT_MAX_INTERVAL = 250000"

text \<open>The three assertions of the constructor.\<close>

definition retx_exponential_ok :: "retx_exponential \<Rightarrow> bool" where
  "retx_exponential_ok rx \<longleftrightarrow>
     0 < rx_initialInterval rx \<and> 2 ^ fp_scale (rx_multiplier rx) \<le> fp_mantissa (rx_multiplier rx) \<and>
     rx_initialInterval rx \<le> rx_maxInterval rx"

definition next_interval :: "retx_exponential \<Rightarrow> nat \<Rightarrow> nat" where
  "next_interval rx k = min (rx_maxInterval rx) (fp_scale_count 24 (rx_multiplier rx) k)"

definition exp_decidePerPitEntry ::
  "retx_exponential \<Rightarrow> time_point \<Rightarrow> nfd_info pit_entry \<Rightarrow> RetxSuppressionResult \<times> nfd_info pit_entry" where
  "exp_decidePerPitEntry rx now pe =
     (if \<not> hasPendingOutRecords now pe then (RETX_NEW, pe)
      else case getLastOutgoing pe of
             None \<Rightarrow> (RETX_NEW, pe)
           | Some lastOutgoing \<Rightarrow>
               let ((pi, _), info) = insertStrategyInfo (pe_info pe) PitInfo_typeId (PitInfo (rx_initialInterval rx))
               in if now - lastOutgoing < us (suppressionInterval pi) then (RETX_SUPPRESS, pe\<lparr>pe_info := info\<rparr>)
                  else (RETX_FORWARD,
                        pe\<lparr>pe_info := info(PitInfo_typeId \<mapsto> PitInfo (next_interval rx (suppressionInterval pi)))\<rparr>))"

text \<open>Writing through the iterator \<open>getOutRecord\<close> returned.\<close>

definition pe_modifyOutRecord :: "face_id \<Rightarrow> ('i out_record \<Rightarrow> 'i out_record) \<Rightarrow> 'i pit_entry \<Rightarrow> 'i pit_entry" where
  "pe_modifyOutRecord f g pe = pe\<lparr>pe_outRecords := update_first (\<lambda>r. fr_face r = f) g (pe_outRecords pe)\<rparr>"

definition exp_decidePerUpstream ::
  "retx_exponential \<Rightarrow> time_point \<Rightarrow> face_id \<Rightarrow> nfd_info pit_entry \<Rightarrow> RetxSuppressionResult \<times> nfd_info pit_entry" where
  "exp_decidePerUpstream rx now outFace pe =
     (case getOutRecord pe outFace of
        None \<Rightarrow> (RETX_NEW, pe)
      | Some r \<Rightarrow>
          let ((pi, _), info) = insertStrategyInfo (fr_info r) PitInfo_typeId (PitInfo (rx_initialInterval rx));
              pe' = pe_modifyOutRecord outFace (fr_info_update (\<lambda>_. info)) pe
          in (if now - fr_lastRenewed r < us (suppressionInterval pi) then RETX_SUPPRESS else RETX_FORWARD, pe'))"

definition incrementIntervalForOutRecord :: "retx_exponential \<Rightarrow> nfd_info out_record \<Rightarrow> nfd_info out_record" where
  "incrementIntervalForOutRecord rx r =
     (let ((pi, _), info) = insertStrategyInfo (fr_info r) PitInfo_typeId (PitInfo (rx_initialInterval rx))
      in r\<lparr>fr_info := info(PitInfo_typeId \<mapsto> PitInfo (next_interval rx (suppressionInterval pi)))\<rparr>)"

section \<open>Duplicate Nonces\<close>

lemma fold_or:
  fixes a b d :: "'w::len word"
  shows "fold (\<lambda>r d. if P r then d OR (if Q r then a else b) else d) rs d =
    d OR (if \<exists>r\<in>set rs. P r \<and> Q r then a else 0) OR (if \<exists>r\<in>set rs. P r \<and> \<not> Q r then b else 0)"
proof (induction rs arbitrary: d)
  case (Cons r rs)
  show ?case
    by (cases "P r"; cases "Q r"; cases "\<exists>x\<in>set rs. P x \<and> Q x"; cases "\<exists>x\<in>set rs. P x \<and> \<not> Q x")
      (auto simp: Cons.IH or.assoc or.commute or.left_commute)
qed simp

lemma findDuplicateNonce_eq:
  "findDuplicateNonce pe nonce f =
     (if \<exists>r\<in>set (pe_inRecords pe). fr_lastNonce r = nonce \<and> fr_face r = f then 1 else 0) OR
     (if \<exists>r\<in>set (pe_inRecords pe). fr_lastNonce r = nonce \<and> fr_face r \<noteq> f then 2 else 0) OR
     (if \<exists>r\<in>set (pe_outRecords pe). fr_lastNonce r = nonce \<and> fr_face r = f then 4 else 0) OR
     (if \<exists>r\<in>set (pe_outRecords pe). fr_lastNonce r = nonce \<and> fr_face r \<noteq> f then 8 else 0)"
  unfolding findDuplicateNonce_def Let_def DUPLICATE_NONCE_NONE_def DUPLICATE_NONCE_IN_SAME_def
    DUPLICATE_NONCE_IN_OTHER_def DUPLICATE_NONCE_OUT_SAME_def DUPLICATE_NONCE_OUT_OTHER_def
  by (simp only: fold_or or.assoc or.left_neutral)

lemma findDuplicateNonce_none:
  "findDuplicateNonce pe nonce f = DUPLICATE_NONCE_NONE \<longleftrightarrow>
     (\<forall>r\<in>set (pe_inRecords pe). fr_lastNonce r \<noteq> nonce) \<and> (\<forall>r\<in>set (pe_outRecords pe). fr_lastNonce r \<noteq> nonce)"
  unfolding findDuplicateNonce_eq DUPLICATE_NONCE_NONE_def by (auto split: if_splits)

lemma findDuplicateNonce_same:
  "findDuplicateNonce pe nonce f AND DUPLICATE_NONCE_IN_SAME \<noteq> 0 \<longleftrightarrow>
     (\<exists>r\<in>set (pe_inRecords pe). fr_lastNonce r = nonce \<and> fr_face r = f)"
  unfolding findDuplicateNonce_eq DUPLICATE_NONCE_IN_SAME_def by (simp split: if_splits)

section \<open>Choosing a next hop\<close>

text \<open>The early return for face ids that are not in the table does not concern distinct faces in it.\<close>

lemma ft_getId_eq: "f \<in> dom (ft_faces ft) \<Longrightarrow> f \<noteq> 0 \<Longrightarrow> ft_getId ft f = ft_getId ft g \<longleftrightarrow> f = g"
  by (auto simp: ft_getId_def INVALID_FACEID_def split: if_splits)

lemma isNextHopEligible_unused:
  "isNextHopEligible ft inFace i nh pe True now \<longleftrightarrow>
     isNextHopEligible ft inFace i nh pe False t \<and>
     (\<forall>r. getOutRecord pe (nh_face nh) = Some r \<longrightarrow> fr_expiry r \<le> now)"
  by (auto simp: isNextHopEligible_def Let_def split: option.splits)

lemma earliest_loop_spec:
  assumes "\<forall>nh\<in>set nhs. isNextHopEligible ft inFace i nh pe False time_point_min \<longrightarrow> getOutRecord pe (nh_face nh) \<noteq> None"
  shows "\<exists>r. earliest_loop ft inFace i pe nhs found t = Some r \<and>
    (r = found \<and> (\<forall>nh\<in>set nhs. isNextHopEligible ft inFace i nh pe False time_point_min \<longrightarrow>
                       t \<le> fr_lastRenewed (the (getOutRecord pe (nh_face nh)))) \<or>
     (\<exists>nh\<in>set nhs. r = Some nh \<and> isNextHopEligible ft inFace i nh pe False time_point_min \<and>
        fr_lastRenewed (the (getOutRecord pe (nh_face nh))) < t \<and>
        (\<forall>x\<in>set nhs. isNextHopEligible ft inFace i x pe False time_point_min \<longrightarrow>
           fr_lastRenewed (the (getOutRecord pe (nh_face nh))) \<le> fr_lastRenewed (the (getOutRecord pe (nh_face x))))))"
  using assms
proof (induction nhs arbitrary: found t)
  case (Cons nh nhs)
  note IH = Cons.IH[of found t]
  show ?case
  proof (cases "isNextHopEligible ft inFace i nh pe False time_point_min")
    case False
    then show ?thesis using Cons.IH[of found t] Cons.prems by auto
  next
    case True
    then obtain r where r: "getOutRecord pe (nh_face nh) = Some r" using Cons.prems by auto
    show ?thesis
    proof (cases "fr_lastRenewed r < t")
      case less: True
      then show ?thesis
        using Cons.IH[of "Some nh" "fr_lastRenewed r"] Cons.prems True r by fastforce
    next
      case False
      then show ?thesis
        using Cons.IH[of found t] Cons.prems True r by fastforce
    qed
  qed
qed simp

section \<open>Exponential back-off\<close>

lemma next_interval_double:
  assumes "rx_multiplier rx = DEFAULT_MULTIPLIER" and "k < 2 ^ 23"
  shows "next_interval rx k = min (rx_maxInterval rx) (2 * k)"
  using assms fp_round_small[of k 24] fp_round_small[of "2 * k" 24]
  by (simp add: next_interval_def fp_scale_count_def DEFAULT_MULTIPLIER_def)

text \<open>The interval that holds after \<open>i\<close> forwarded retransmissions.\<close>

definition retx_interval :: "retx_exponential \<Rightarrow> nat \<Rightarrow> nat" where
  "retx_interval rx i = min (rx_initialInterval rx * 2 ^ i) (rx_maxInterval rx)"

definition retx_state :: "retx_exponential \<Rightarrow> nat \<Rightarrow> nfd_info strategy_info_host \<Rightarrow> bool" where
  "retx_state rx i info \<longleftrightarrow>
     (case getStrategyInfo info PitInfo_typeId of
        None \<Rightarrow> i = 0 | Some pi \<Rightarrow> suppressionInterval pi = retx_interval rx i)"

lemma next_interval_retx:
  assumes "rx_multiplier rx = DEFAULT_MULTIPLIER" and "rx_maxInterval rx < 2 ^ 23"
  shows "next_interval rx (retx_interval rx i) = retx_interval rx (Suc i)"
proof -
  have "retx_interval rx i < 2 ^ 23" using assms(2) by (simp add: retx_interval_def)
  then have "next_interval rx (retx_interval rx i) = min (rx_maxInterval rx) (2 * retx_interval rx i)"
    by (rule next_interval_double[OF assms(1)])
  then show ?thesis by (simp add: retx_interval_def min_def)
qed

lemma retx_interval_0: "retx_exponential_ok rx \<Longrightarrow> retx_interval rx 0 = rx_initialInterval rx"
  by (simp add: retx_interval_def retx_exponential_ok_def)

lemma hasPending_last: "hasPendingOutRecords now pe \<Longrightarrow> getLastOutgoing pe \<noteq> None"
  by (cases "pe_outRecords pe") (auto simp: hasPendingOutRecords_def getLastOutgoing_def)

section \<open>Properties\<close>

text \<open>
  C36: exponential back-off of retransmissions. In the configuration the strategies use (factor 2.0,
  a maximum below eight seconds), the decision for a PIT entry that is not new and whose last Interest went
  out at \<open>t\<close> is to suppress exactly if \<open>now - t\<close> is less than \<open>min(initial * 2^i, max)\<close>, where \<open>i\<close>
  counts the retransmissions forwarded before. A forwarded retransmission moves the entry to
  \<open>i + 1\<close>, a suppressed one leaves it at \<open>i\<close>. This is the formula in the documentation of the class,
  here for the float arithmetic of the code.
\<close>

theorem retx_exponential_backoff:
  assumes "retx_exponential_ok rx" and "rx_multiplier rx = DEFAULT_MULTIPLIER" and "rx_maxInterval rx < 2 ^ 23"
    and "retx_state rx i (pe_info pe)" and "hasPendingOutRecords now pe" and "getLastOutgoing pe = Some t"
  shows "let (res, pe') = exp_decidePerPitEntry rx now pe
    in if now - t < us (min (rx_initialInterval rx * 2 ^ i) (rx_maxInterval rx))
       then res = RETX_SUPPRESS \<and> retx_state rx i (pe_info pe')
       else res = RETX_FORWARD \<and> retx_state rx (Suc i) (pe_info pe')"
proof -
  let ?j = "case pe_info pe PitInfo_typeId of None \<Rightarrow> PitInfo (rx_initialInterval rx) | Some pi \<Rightarrow> pi"
  have j: "suppressionInterval ?j = retx_interval rx i"
    using assms(4) retx_interval_0[OF assms(1)]
    by (auto simp: retx_state_def getStrategyInfo_def split: option.splits)
  have s: "next_interval rx (retx_interval rx i) = retx_interval rx (Suc i)"
    by (rule next_interval_retx[OF assms(2,3)])
  show ?thesis
    using assms(5,6) j s
    by (auto simp: exp_decidePerPitEntry_def insertStrategyInfo_def retx_state_def getStrategyInfo_def
        retx_interval_def[symmetric] Let_def split: option.splits)
qed

theorem retx_exponential_backoff_witness:
  "let rx = \<lparr>rx_initialInterval = 10000, rx_multiplier = DEFAULT_MULTIPLIER, rx_maxInterval = 250000\<rparr>;
       pe = insertOrUpdateOutRecord 0 300 (mk_interest [generic_comp ''a''] 7)
              (mk_pit_entry (mk_interest [generic_comp ''a''] 7) :: nfd_info pit_entry)
   in fst (exp_decidePerPitEntry rx (ms 5) pe) = RETX_SUPPRESS \<and> fst (exp_decidePerPitEntry rx (ms 15) pe) = RETX_FORWARD"
proof -
  let ?rx = "\<lparr>rx_initialInterval = 10000, rx_multiplier = DEFAULT_MULTIPLIER, rx_maxInterval = 250000\<rparr>"
  let ?pe = "insertOrUpdateOutRecord 0 300 (mk_interest [generic_comp ''a''] 7)
    (mk_pit_entry (mk_interest [generic_comp ''a''] 7) :: nfd_info pit_entry)"
  have ok: "retx_exponential_ok ?rx" by (simp add: retx_exponential_ok_def DEFAULT_MULTIPLIER_def)
  have st: "retx_state ?rx 0 (pe_info ?pe)"
    by (simp add: retx_state_def getStrategyInfo_def insertOrUpdateOutRecord_def mk_pit_entry_def Let_def)
  have pend: "hasPendingOutRecords (ms 5) ?pe" "hasPendingOutRecords (ms 15) ?pe" and last: "getLastOutgoing ?pe = Some 0"
    by (simp_all add: hasPendingOutRecords_def getLastOutgoing_def insertOrUpdateOutRecord_def mk_pit_entry_def
        getOutRecord_def mk_out_record_def faceRecord_update_def mk_interest_def MAX_LIFETIME_def ms_def Let_def)
  show ?thesis
    using retx_exponential_backoff[OF ok _ _ st pend(1) last] retx_exponential_backoff[OF ok _ _ st pend(2) last]
    by (simp add: split_beta Let_def us_def ms_def)
qed

end
