(* ===== verification/Name_Tree_Hashtable.thy ===== *)
theory Name_Tree_Hashtable
  imports Table_Entries
begin

text \<open>
  Name tree entries (\<open>daemon/table/name-tree-entry.cpp\<close>) and the hash table that stores them
  (\<open>daemon/table/name-tree-hashtable.cpp\<close>). A pointer to a name tree entry is the name of the
  entry: the table holds at most one entry per name. A bucket, a doubly linked list of nodes, is
  the list of its nodes from the head on. The hash of a component, \<open>HashFunc::compute\<close> on the
  component's wire encoding, is the parameter \<open>H\<close>; nothing is assumed about it.
\<close>

section \<open>Name tree entries\<close>

record 'i nt_entry =
  nte_name :: name
  nte_parent :: "name option"
  nte_children :: "name list"
  nte_fib :: "fib_entry option"
  nte_pit :: "'i pit_entry list"
  nte_meas :: "'i measurements_entry option"
  nte_sc :: "strategy_choice_entry option"

definition mk_nt_entry :: "name \<Rightarrow> 'i nt_entry" where
  "mk_nt_entry n =
     \<lparr>nte_name = n, nte_parent = None, nte_children = [], nte_fib = None, nte_pit = [],
      nte_meas = None, nte_sc = None\<rparr>"

definition hasChildren :: "'i nt_entry \<Rightarrow> bool" where
  "hasChildren e \<longleftrightarrow> nte_children e \<noteq> []"

definition hasTableEntries :: "'i nt_entry \<Rightarrow> bool" where
  "hasTableEntries e \<longleftrightarrow>
     nte_fib e \<noteq> None \<or> nte_pit e \<noteq> [] \<or> nte_meas e \<noteq> None \<or> nte_sc e \<noteq> None"

definition nte_isEmpty :: "'i nt_entry \<Rightarrow> bool" where
  "nte_isEmpty e \<longleftrightarrow> \<not> hasChildren e \<and> \<not> hasTableEntries e"

definition hasPitEntries :: "'i nt_entry \<Rightarrow> bool" where
  "hasPitEntries e \<longleftrightarrow> nte_pit e \<noteq> []"

definition setFibEntry :: "fib_entry option \<Rightarrow> 'i nt_entry \<Rightarrow> 'i nt_entry" where
  "setFibEntry fe e =
     e\<lparr>nte_fib := map_option (fe_nameTreeEntry_update (\<lambda>_. Some (nte_name e))) fe\<rparr>"

definition insertPitEntry :: "'i pit_entry \<Rightarrow> 'i nt_entry \<Rightarrow> 'i nt_entry" where
  "insertPitEntry pe e = e\<lparr>nte_pit := nte_pit e @ [pe\<lparr>pe_nameTreeEntry := Some (nte_name e)\<rparr>]\<rparr>"

text \<open>\<open>*it = v.back(); v.pop_back();\<close> for the first position where \<open>P\<close> holds.\<close>

definition swap_erase :: "('a \<Rightarrow> bool) \<Rightarrow> 'a list \<Rightarrow> 'a list" where
  "swap_erase P xs = butlast (xs[find_position P xs := last xs])"

definition erasePitEntry :: "pit_key \<Rightarrow> 'i nt_entry \<Rightarrow> 'i nt_entry" where
  "erasePitEntry k e = e\<lparr>nte_pit := swap_erase (\<lambda>pe. pe_key pe = k) (nte_pit e)\<rparr>"

definition setMeasurementsEntry :: "'i measurements_entry option \<Rightarrow> 'i nt_entry \<Rightarrow> 'i nt_entry" where
  "setMeasurementsEntry me e =
     e\<lparr>nte_meas := map_option (me_nameTreeEntry_update (\<lambda>_. Some (nte_name e))) me\<rparr>"

definition setStrategyChoiceEntry :: "strategy_choice_entry option \<Rightarrow> 'i nt_entry \<Rightarrow> 'i nt_entry" where
  "setStrategyChoiceEntry sce e =
     e\<lparr>nte_sc := map_option (sce_nameTreeEntry_update (\<lambda>_. Some (nte_name e))) sce\<rparr>"

section \<open>Hash values\<close>

definition computeHash :: "(component \<Rightarrow> u64) \<Rightarrow> name \<Rightarrow> nat \<Rightarrow> u64" where
  "computeHash H n prefixLen = fold (\<lambda>c h. h XOR H c) (take (min prefixLen (length n)) n) 0"

fun hashes_loop :: "(component \<Rightarrow> u64) \<Rightarrow> u64 \<Rightarrow> name \<Rightarrow> u64 list" where
  "hashes_loop H h [] = []"
| "hashes_loop H h (c # cs) = (let h' = h XOR H c in h' # hashes_loop H h' cs)"

definition computeHashes :: "(component \<Rightarrow> u64) \<Rightarrow> name \<Rightarrow> nat \<Rightarrow> u64 list" where
  "computeHashes H n prefixLen = 0 # hashes_loop H 0 (take (min prefixLen (length n)) n)"

section \<open>The hash table\<close>

record 'i ht_node =
  node_hash :: u64
  node_entry :: "'i nt_entry"

abbreviation node_name :: "'i ht_node \<Rightarrow> name" where
  "node_name nd \<equiv> nte_name (node_entry nd)"

definition mk_node :: "u64 \<Rightarrow> name \<Rightarrow> 'i ht_node" where
  "mk_node h n = \<lparr>node_hash = h, node_entry = mk_nt_entry n\<rparr>"

record ht_options =
  opt_initialSize :: nat
  opt_minSize :: nat
  opt_expandLoadFactor :: fp_const
  opt_expandFactor :: fp_const
  opt_shrinkLoadFactor :: fp_const
  opt_shrinkFactor :: fp_const

text \<open>
  The factors are \<open>float\<close> constants: 0.5, 2.0, 0.1 (which rounds to \<open>13421773 / 2 ^ 27\<close>) and 0.5.
\<close>

definition HashtableOptions :: "nat \<Rightarrow> ht_options" where
  "HashtableOptions sz =
     \<lparr>opt_initialSize = sz, opt_minSize = sz,
      opt_expandLoadFactor = \<lparr>fp_mantissa = 1, fp_scale = 1\<rparr>,
      opt_expandFactor = \<lparr>fp_mantissa = 2, fp_scale = 0\<rparr>,
      opt_shrinkLoadFactor = \<lparr>fp_mantissa = 13421773, fp_scale = 27\<rparr>,
      opt_shrinkFactor = \<lparr>fp_mantissa = 1, fp_scale = 1\<rparr>\<rparr>"

record 'i hashtable =
  ht_buckets :: "'i ht_node list list"
  ht_options :: ht_options
  ht_size :: nat
  ht_expandThreshold :: nat
  ht_shrinkThreshold :: nat

definition float_scale :: "fp_const \<Rightarrow> nat \<Rightarrow> nat" where
  "float_scale c n = fp_scale_count 24 c n"

definition getNBuckets :: "'i hashtable \<Rightarrow> nat" where
  "getNBuckets ht = length (ht_buckets ht)"

definition computeBucketIndex :: "'i hashtable \<Rightarrow> u64 \<Rightarrow> nat" where
  "computeBucketIndex ht h = unat h mod getNBuckets ht"

definition computeThresholds :: "'i hashtable \<Rightarrow> 'i hashtable" where
  "computeThresholds ht =
     ht\<lparr>ht_expandThreshold := float_scale (opt_expandLoadFactor (ht_options ht)) (getNBuckets ht),
        ht_shrinkThreshold := float_scale (opt_shrinkLoadFactor (ht_options ht)) (getNBuckets ht)\<rparr>"

definition mk_hashtable :: "ht_options \<Rightarrow> 'i hashtable" where
  "mk_hashtable opts =
     computeThresholds
       \<lparr>ht_buckets = replicate (opt_initialSize opts) [], ht_options = opts, ht_size = 0,
        ht_expandThreshold = 0, ht_shrinkThreshold = 0\<rparr>"

definition attach :: "nat \<Rightarrow> 'i ht_node \<Rightarrow> 'i hashtable \<Rightarrow> 'i hashtable" where
  "attach bucket nd ht = ht\<lparr>ht_buckets := (ht_buckets ht)[bucket := nd # ht_buckets ht ! bucket]\<rparr>"

definition detach :: "nat \<Rightarrow> name \<Rightarrow> 'i hashtable \<Rightarrow> 'i hashtable" where
  "detach bucket n ht =
     ht\<lparr>ht_buckets :=
         (ht_buckets ht)[bucket := erase_first (\<lambda>nd. node_name nd = n) (ht_buckets ht ! bucket)]\<rparr>"

definition reattach :: "'i ht_node \<Rightarrow> 'i hashtable \<Rightarrow> 'i hashtable" where
  "reattach nd ht = attach (computeBucketIndex ht (node_hash nd)) nd ht"

definition resize :: "nat \<Rightarrow> 'i hashtable \<Rightarrow> 'i hashtable" where
  "resize newNBuckets ht =
     (if getNBuckets ht = newNBuckets then ht
      else computeThresholds
        (fold (fold reattach) (ht_buckets ht) (ht\<lparr>ht_buckets := replicate newNBuckets []\<rparr>)))"

definition findOrInsert ::
  "name \<Rightarrow> nat \<Rightarrow> u64 \<Rightarrow> bool \<Rightarrow> 'i hashtable \<Rightarrow> ('i ht_node option \<times> bool) \<times> 'i hashtable" where
  "findOrInsert n prefixLen h allowInsert ht =
     (let bucket = computeBucketIndex ht h in
      case find (\<lambda>nd. node_hash nd = h \<and> take prefixLen n = node_name nd) (ht_buckets ht ! bucket) of
        Some nd \<Rightarrow> ((Some nd, False), ht)
      | None \<Rightarrow>
          if \<not> allowInsert then ((None, False), ht)
          else
            let nd = mk_node h (take prefixLen n);
                ht1 = attach bucket nd ht;
                ht2 = ht1\<lparr>ht_size := ht_size ht1 + 1\<rparr>;
                ht3 = (if ht_size ht2 > ht_expandThreshold ht2
                       then resize (float_scale (opt_expandFactor (ht_options ht2)) (getNBuckets ht2)) ht2
                       else ht2)
            in ((Some nd, True), ht3))"

definition ht_find :: "(component \<Rightarrow> u64) \<Rightarrow> name \<Rightarrow> nat \<Rightarrow> 'i hashtable \<Rightarrow> 'i ht_node option" where
  "ht_find H n prefixLen ht =
     fst (fst (findOrInsert n prefixLen (computeHash H n prefixLen) False ht))"

definition ht_find_hashes :: "u64 list \<Rightarrow> name \<Rightarrow> nat \<Rightarrow> 'i hashtable \<Rightarrow> 'i ht_node option" where
  "ht_find_hashes hashes n prefixLen ht =
     fst (fst (findOrInsert n prefixLen (hashes ! prefixLen) False ht))"

definition ht_insert ::
  "u64 list \<Rightarrow> name \<Rightarrow> nat \<Rightarrow> 'i hashtable \<Rightarrow> ('i ht_node option \<times> bool) \<times> 'i hashtable" where
  "ht_insert hashes n prefixLen ht = findOrInsert n prefixLen (hashes ! prefixLen) True ht"

definition ht_erase :: "'i ht_node \<Rightarrow> 'i hashtable \<Rightarrow> 'i hashtable" where
  "ht_erase nd ht =
     (let bucket = computeBucketIndex ht (node_hash nd);
          ht1 = detach bucket (node_name nd) ht;
          ht2 = ht1\<lparr>ht_size := ht_size ht1 - 1\<rparr>
      in if ht_size ht2 < ht_shrinkThreshold ht2
         then resize (max (opt_minSize (ht_options ht2))
                 (float_scale (opt_shrinkFactor (ht_options ht2)) (getNBuckets ht2))) ht2
         else ht2)"

text \<open>A write to the entry behind a pointer.\<close>

definition modify_node :: "name \<Rightarrow> ('i nt_entry \<Rightarrow> 'i nt_entry) \<Rightarrow> 'i ht_node \<Rightarrow> 'i ht_node" where
  "modify_node n f nd = (if node_name nd = n then nd\<lparr>node_entry := f (node_entry nd)\<rparr> else nd)"

definition ht_modify :: "name \<Rightarrow> ('i nt_entry \<Rightarrow> 'i nt_entry) \<Rightarrow> 'i hashtable \<Rightarrow> 'i hashtable" where
  "ht_modify n f ht = ht\<lparr>ht_buckets := map (map (modify_node n f)) (ht_buckets ht)\<rparr>"

section \<open>Lemmas on entries and hashes\<close>

lemma mset_swap_erase:
  assumes "find P xs = Some x"
  shows "mset (swap_erase P xs) = mset xs - {#x#}"
proof -
  let ?k = "find_position P xs"
  from assms have ex: "\<exists>y\<in>set xs. P y" by (auto dest: find_Some_in)
  then have k: "?k < length xs" by (simp add: find_position_less_iff)
  have x: "xs ! ?k = x" using assms by (induction xs) (auto split: if_splits)
  from k obtain ys y where xs: "xs = ys @ [y]" by (cases xs rule: rev_cases) auto
  show ?thesis
  proof (cases "?k = length ys")
    case True
    then have "swap_erase P xs = ys" using xs by (simp add: swap_erase_def)
    moreover have "x = y" using x xs True by simp
    ultimately show ?thesis using xs by simp
  next
    case False
    then have lt: "?k < length ys" using k xs by simp
    then have "swap_erase P xs = ys[?k := y]"
      using xs by (simp add: swap_erase_def list_update_append1 butlast_append)
    moreover have "ys ! ?k = x" using x xs lt by (simp add: nth_append)
    moreover have "{#x#} \<subseteq># mset ys"
      using nth_mem[OF lt] \<open>ys ! ?k = x\<close> by simp
    ultimately show ?thesis
      using lt xs multiset_diff_union_assoc[of "{#x#}" "mset ys" "{#y#}"] by (simp add: mset_update)
  qed
qed

lemma setters_name [simp]:
  "nte_name (setFibEntry fe e) = nte_name e"
  "nte_name (insertPitEntry pe e) = nte_name e"
  "nte_name (erasePitEntry k e) = nte_name e"
  "nte_name (setMeasurementsEntry me e) = nte_name e"
  "nte_name (setStrategyChoiceEntry sce e) = nte_name e"
  by (simp_all add: setFibEntry_def insertPitEntry_def erasePitEntry_def setMeasurementsEntry_def
      setStrategyChoiceEntry_def)

lemma length_hashes_loop [simp]: "length (hashes_loop H h cs) = length cs"
  by (induction cs arbitrary: h) (auto simp: Let_def)

lemma hashes_loop_nth:
  "i < length cs \<Longrightarrow> hashes_loop H h cs ! i = fold (\<lambda>c h. h XOR H c) (take (Suc i) cs) h"
proof (induction cs arbitrary: h i)
  case (Cons c cs)
  then show ?case by (cases i) (auto simp: Let_def)
qed simp

lemma length_computeHashes: "length (computeHashes H n k) = Suc (min k (length n))"
  by (simp add: computeHashes_def)

lemma computeHashes_nth:
  assumes "i \<le> min k (length n)"
  shows "computeHashes H n k ! i = computeHash H n i"
proof (cases i)
  case 0
  then show ?thesis by (simp add: computeHashes_def computeHash_def)
next
  case (Suc j)
  with assms have j: "j < length n" "Suc j \<le> min k (length n)" by auto
  then have "take (Suc j) (take (min k (length n)) n) = take (min i (length n)) n"
    using Suc by (simp add: min_absorb1)
  then show ?thesis
    using Suc j by (simp add: computeHashes_def computeHash_def hashes_loop_nth)
qed

lemma computeHash_take: "computeHash H (take k n) (length (take k n)) = computeHash H n k"
  by (simp add: computeHash_def min_def)

section \<open>Invariant and abstraction\<close>

text \<open>
  The invariant: there is a bucket, every node sits in the bucket of its hash value, which is the
  hash of its name, no two nodes have the same name, and \<open>m_size\<close> counts the nodes. The table
  stands for a finite map from names to entries.
\<close>

definition ht_nodes :: "'i hashtable \<Rightarrow> 'i ht_node list" where
  "ht_nodes ht = concat (ht_buckets ht)"

definition ht_placed :: "'i hashtable \<Rightarrow> bool" where
  "ht_placed ht \<longleftrightarrow>
     (\<forall>b < getNBuckets ht. \<forall>nd \<in> set (ht_buckets ht ! b). computeBucketIndex ht (node_hash nd) = b)"

definition ht_inv :: "(component \<Rightarrow> u64) \<Rightarrow> 'i hashtable \<Rightarrow> bool" where
  "ht_inv H ht \<longleftrightarrow>
     0 < getNBuckets ht \<and> 0 < opt_minSize (ht_options ht) \<and>
     opt_expandFactor (ht_options ht) = \<lparr>fp_mantissa = 2, fp_scale = 0\<rparr> \<and>
     ht_placed ht \<and>
     (\<forall>nd \<in> set (ht_nodes ht). node_hash nd = computeHash H (node_name nd) (length (node_name nd))) \<and>
     distinct (map node_name (ht_nodes ht)) \<and>
     ht_size ht = length (ht_nodes ht)"

definition ht_map :: "'i hashtable \<Rightarrow> name \<rightharpoonup> 'i nt_entry" where
  "ht_map ht n = map_option node_entry (find (\<lambda>nd. node_name nd = n) (ht_nodes ht))"

lemma ht_map_Some_iff:
  assumes "distinct (map node_name (ht_nodes ht))"
  shows "ht_map ht n = Some e \<longleftrightarrow> (\<exists>nd \<in> set (ht_nodes ht). node_name nd = n \<and> node_entry nd = e)"
  by (auto simp: ht_map_def find_key_Some_iff[OF assms])

lemma ht_map_None_iff: "ht_map ht n = None \<longleftrightarrow> n \<notin> node_name ` set (ht_nodes ht)"
  by (simp add: ht_map_def find_key_None_iff)

lemma dom_ht_map: "dom (ht_map ht) = node_name ` set (ht_nodes ht)"
  by (simp add: dom_def ht_map_None_iff del: not_None_eq)

lemma finite_dom_ht_map [simp]: "finite (dom (ht_map ht))"
  by (simp add: dom_ht_map)

lemma ht_map_name: "ht_map ht n = Some e \<Longrightarrow> nte_name e = n"
  by (auto simp: ht_map_def dest: find_Some_in)

lemma ht_map_cong:
  assumes "distinct (map node_name (ht_nodes ht))" and "mset (ht_nodes ht') = mset (ht_nodes ht)"
  shows "ht_map ht' = ht_map ht"
proof
  fix n
  have "mset (map node_name (ht_nodes ht')) = mset (map node_name (ht_nodes ht))"
    using assms(2) by simp
  then have d': "distinct (map node_name (ht_nodes ht'))"
    using assms(1) distinct_map_mset by blast
  have "set (ht_nodes ht') = set (ht_nodes ht)"
    using assms(2) by (rule mset_eq_setD)
  then have "ht_map ht' n = Some e \<longleftrightarrow> ht_map ht n = Some e" for e
    by (simp add: ht_map_Some_iff[OF assms(1)] ht_map_Some_iff[OF d'])
  then show "ht_map ht' n = ht_map ht n" by (rule option_eqI)
qed

section \<open>Attaching, detaching and resizing\<close>

lemma mset_concat_update:
  assumes "b < length bs"
  shows "mset (concat (bs[b := ys])) + mset (bs ! b) = mset (concat bs) + mset ys"
  using assms
proof (induction bs arbitrary: b)
  case (Cons x bs)
  then show ?case by (cases b) (auto simp: ac_simps)
qed simp

lemma computeBucketIndex_less: "0 < getNBuckets ht \<Longrightarrow> computeBucketIndex ht h < getNBuckets ht"
  by (simp add: computeBucketIndex_def)

lemma attach_simps [simp]:
  "getNBuckets (attach b nd ht) = getNBuckets ht"
  "ht_options (attach b nd ht) = ht_options ht"
  "ht_size (attach b nd ht) = ht_size ht"
  "computeBucketIndex (attach b nd ht) h = computeBucketIndex ht h"
  by (simp_all add: attach_def getNBuckets_def computeBucketIndex_def)

lemma detach_simps [simp]:
  "getNBuckets (detach b n ht) = getNBuckets ht"
  "ht_options (detach b n ht) = ht_options ht"
  "ht_size (detach b n ht) = ht_size ht"
  "computeBucketIndex (detach b n ht) h = computeBucketIndex ht h"
  by (simp_all add: detach_def getNBuckets_def computeBucketIndex_def)

lemma computeThresholds_simps [simp]:
  "ht_buckets (computeThresholds ht) = ht_buckets ht"
  "getNBuckets (computeThresholds ht) = getNBuckets ht"
  "ht_nodes (computeThresholds ht) = ht_nodes ht"
  "ht_options (computeThresholds ht) = ht_options ht"
  "ht_size (computeThresholds ht) = ht_size ht"
  "ht_placed (computeThresholds ht) = ht_placed ht"
  by (simp_all add: computeThresholds_def getNBuckets_def ht_nodes_def ht_placed_def
      computeBucketIndex_def)

lemma size_update_simps [simp]:
  "getNBuckets (ht\<lparr>ht_size := k\<rparr>) = getNBuckets ht"
  "ht_nodes (ht\<lparr>ht_size := k\<rparr>) = ht_nodes ht"
  "ht_placed (ht\<lparr>ht_size := k\<rparr>) = ht_placed ht"
  by (simp_all add: getNBuckets_def ht_nodes_def ht_placed_def computeBucketIndex_def)

lemma attach_nodes:
  "b < getNBuckets ht \<Longrightarrow> mset (ht_nodes (attach b nd ht)) = add_mset nd (mset (ht_nodes ht))"
  using mset_concat_update[of b "ht_buckets ht" "nd # ht_buckets ht ! b"]
  by (simp add: ht_nodes_def attach_def getNBuckets_def)

lemma attach_placed:
  assumes "0 < getNBuckets ht" and "ht_placed ht" and "b = computeBucketIndex ht (node_hash nd)"
  shows "ht_placed (attach b nd ht)"
  using assms computeBucketIndex_less[OF assms(1), of "node_hash nd"]
  by (auto simp: ht_placed_def)
    (auto simp: attach_def nth_list_update getNBuckets_def split: if_splits)

lemma reattach_simps [simp]:
  "getNBuckets (reattach nd ht) = getNBuckets ht"
  "ht_options (reattach nd ht) = ht_options ht"
  "ht_size (reattach nd ht) = ht_size ht"
  by (simp_all add: reattach_def)

lemma reattach_fold:
  assumes "0 < getNBuckets ht" and "ht_placed ht"
  shows "getNBuckets (fold reattach nds ht) = getNBuckets ht \<and>
    ht_options (fold reattach nds ht) = ht_options ht \<and>
    ht_size (fold reattach nds ht) = ht_size ht \<and>
    ht_placed (fold reattach nds ht) \<and>
    mset (ht_nodes (fold reattach nds ht)) = mset (ht_nodes ht) + mset nds"
  using assms
proof (induction nds arbitrary: ht)
  case (Cons nd nds)
  have "ht_placed (reattach nd ht)"
    using Cons.prems by (simp add: reattach_def attach_placed)
  moreover have "mset (ht_nodes (reattach nd ht)) = add_mset nd (mset (ht_nodes ht))"
    using Cons.prems by (simp add: reattach_def attach_nodes computeBucketIndex_less)
  ultimately show ?case using Cons.IH[of "reattach nd ht"] Cons.prems by simp
qed simp

lemma fold_fold_concat: "fold (fold f) xss a = fold f (concat xss) a"
  by (induction xss arbitrary: a) auto

lemma resize_props:
  assumes "0 < k" and "ht_placed ht"
  shows "getNBuckets (resize k ht) = k \<and> ht_options (resize k ht) = ht_options ht \<and>
    ht_size (resize k ht) = ht_size ht \<and> ht_placed (resize k ht) \<and>
    mset (ht_nodes (resize k ht)) = mset (ht_nodes ht)"
proof (cases "getNBuckets ht = k")
  case False
  let ?e = "ht\<lparr>ht_buckets := replicate k []\<rparr>"
  have e: "getNBuckets ?e = k" "ht_placed ?e" "ht_nodes ?e = []"
    by (auto simp: getNBuckets_def ht_placed_def ht_nodes_def)
  then show ?thesis
    using reattach_fold[of ?e "ht_nodes ht"] assms(1) False
    by (simp add: resize_def fold_fold_concat flip: ht_nodes_def)
qed (use assms in \<open>simp add: resize_def\<close>)

lemma float_scale_expand: "0 < n \<Longrightarrow> 0 < float_scale \<lparr>fp_mantissa = 2, fp_scale = 0\<rparr> n"
proof -
  assume "0 < n"
  then have "0 < fp_round 24 n" using fp_round_lower[of 24 n] by simp
  then show ?thesis
    using fp_round_lower[of 24 "2 * fp_round 24 n"] by (simp add: float_scale_def fp_scale_count_def)
qed

lemma ht_inv_mk [inv_intros]: "0 < k \<Longrightarrow> ht_inv H (mk_hashtable (HashtableOptions k))"
  by (simp add: ht_inv_def mk_hashtable_def HashtableOptions_def)
    (simp add: getNBuckets_def ht_placed_def ht_nodes_def)

lemma ht_map_mk [simp]: "ht_map (mk_hashtable opts) = Map.empty"
  by (rule ext) (simp add: ht_map_def mk_hashtable_def, simp add: ht_nodes_def)

text \<open>Resizing keeps the invariant and the map.\<close>

lemma resize_inv:
  assumes "ht_inv H ht" and "0 < k"
  shows "ht_inv H (resize k ht)" and "ht_map (resize k ht) = ht_map ht"
proof -
  have pl: "ht_placed ht" and d: "distinct (map node_name (ht_nodes ht))"
    using assms(1) by (simp_all add: ht_inv_def)
  note r = resize_props[OF assms(2) pl]
  have m: "mset (ht_nodes (resize k ht)) = mset (ht_nodes ht)" using r by simp
  show "ht_map (resize k ht) = ht_map ht" by (rule ht_map_cong[OF d m])
  have "distinct (map node_name (ht_nodes (resize k ht)))"
    using d by (subst distinct_map_mset[of node_name _ "ht_nodes ht"]) (simp_all add: m)
  then show "ht_inv H (resize k ht)"
    using assms r mset_eq_setD[OF m] mset_eq_length[OF m] by (simp add: ht_inv_def)
qed

section \<open>Finding, inserting, erasing, writing\<close>

lemma nodes_bucket:
  assumes "ht_placed ht" and "nd \<in> set (ht_nodes ht)"
  shows "nd \<in> set (ht_buckets ht ! computeBucketIndex ht (node_hash nd))"
proof -
  obtain b where "b < getNBuckets ht" "nd \<in> set (ht_buckets ht ! b)"
    using assms(2) by (auto simp: ht_nodes_def getNBuckets_def in_set_conv_nth[of _ "ht_buckets ht"])
  with assms(1) show ?thesis by (auto simp: ht_placed_def)
qed

lemma bucket_nodes:
  "b < getNBuckets ht \<Longrightarrow> nd \<in> set (ht_buckets ht ! b) \<Longrightarrow> nd \<in> set (ht_nodes ht)"
  by (auto simp: ht_nodes_def getNBuckets_def)

lemma find_in_bucket:
  assumes inv: "ht_inv H ht" and h: "h = computeHash H n k"
  shows "find (\<lambda>nd. node_hash nd = h \<and> take k n = node_name nd) (ht_buckets ht ! computeBucketIndex ht h)
    = find (\<lambda>nd. node_name nd = take k n) (ht_nodes ht)" (is "?l = ?r")
proof -
  have d: "distinct (map node_name (ht_nodes ht))" and nb: "0 < getNBuckets ht" and pl: "ht_placed ht"
    and hs: "\<And>nd. nd \<in> set (ht_nodes ht) \<Longrightarrow> node_hash nd = computeHash H (node_name nd) (length (node_name nd))"
    using inv by (auto simp: ht_inv_def)
  have b: "computeBucketIndex ht h < getNBuckets ht" by (rule computeBucketIndex_less[OF nb])
  have "?l = Some nd \<longleftrightarrow> ?r = Some nd" for nd
  proof
    assume "?l = Some nd"
    then have "nd \<in> set (ht_nodes ht) \<and> node_name nd = take k n"
      using bucket_nodes[OF b] by (auto dest: find_Some_in)
    then show "?r = Some nd" by (simp add: find_key_Some_iff[OF d])
  next
    assume "?r = Some nd"
    then have nd: "nd \<in> set (ht_nodes ht)" "node_name nd = take k n"
      by (simp_all add: find_key_Some_iff[OF d])
    then have "node_hash nd = h" using hs[OF nd(1)] h computeHash_take[of H k n] by simp
    then have "nd \<in> set (ht_buckets ht ! computeBucketIndex ht h)"
      using nodes_bucket[OF pl nd(1)] by simp
    with nd \<open>node_hash nd = h\<close> obtain nd' where l: "?l = Some nd'"
      by (cases ?l) (auto simp: find_None_iff)
    then have "nd' \<in> set (ht_nodes ht) \<and> node_name nd' = take k n"
      using bucket_nodes[OF b] by (auto dest: find_Some_in)
    then have "?r = Some nd'" by (simp add: find_key_Some_iff[OF d])
    with l \<open>?r = Some nd\<close> show "?l = Some nd" by simp
  qed
  then show ?thesis by (rule option_eqI)
qed

lemma findOrInsert_found:
  assumes "ht_inv H ht" and "h = computeHash H n k" and "ht_map ht (take k n) = Some e"
  shows "\<exists>nd. findOrInsert n k h allow ht = ((Some nd, False), ht) \<and> node_entry nd = e"
  using assms(3) unfolding findOrInsert_def Let_def find_in_bucket[OF assms(1,2)]
  by (auto simp: ht_map_def)

lemma findOrInsert_missing:
  assumes "ht_inv H ht" and "h = computeHash H n k" and "ht_map ht (take k n) = None"
  shows "findOrInsert n k h False ht = ((None, False), ht)"
  using assms(3) unfolding findOrInsert_def Let_def find_in_bucket[OF assms(1,2)]
  by (simp add: ht_map_def)

lemma attach_new_inv:
  assumes inv: "ht_inv H ht" and h: "h = computeHash H n k" and new: "ht_map ht (take k n) = None"
  defines "ht2 \<equiv> (attach (computeBucketIndex ht h) (mk_node h (take k n)) ht)\<lparr>ht_size := ht_size ht + 1\<rparr>"
  shows "ht_inv H ht2" and "ht_map ht2 = (ht_map ht)(take k n \<mapsto> mk_nt_entry (take k n))"
proof -
  let ?nd = "mk_node h (take k n) :: 'a ht_node"
  have nm: "node_name ?nd = take k n" "node_hash ?nd = h" "node_entry ?nd = mk_nt_entry (take k n)"
    by (simp_all add: mk_node_def mk_nt_entry_def)
  have nb: "0 < getNBuckets ht" and pl: "ht_placed ht" and d: "distinct (map node_name (ht_nodes ht))"
    using inv by (simp_all add: ht_inv_def)
  have m: "mset (ht_nodes ht2) = add_mset ?nd (mset (ht_nodes ht))"
    by (simp add: ht2_def attach_nodes computeBucketIndex_less[OF nb])
  have new': "take k n \<notin> node_name ` set (ht_nodes ht)" using new by (simp add: ht_map_None_iff)
  have st: "set (ht_nodes ht2) = insert ?nd (set (ht_nodes ht))"
    using m by (metis set_mset_add_mset_insert set_mset_mset)
  have ln: "length (ht_nodes ht2) = Suc (length (ht_nodes ht))"
    using m by (metis size_add_mset size_mset)
  have d2: "distinct (map node_name (ht_nodes ht2))"
    by (subst distinct_map_mset[of node_name _ "?nd # ht_nodes ht"]) (use m d new' nm in simp_all)
  have "ht_placed ht2" by (simp add: ht2_def attach_placed[OF nb pl] nm)
  then show "ht_inv H ht2"
    using inv st ln d2 h nm computeHash_take[of H k n] by (simp add: ht_inv_def ht2_def)
  have "ht_map ht2 x = Some e \<longleftrightarrow> ((ht_map ht)(take k n \<mapsto> mk_nt_entry (take k n))) x = Some e" for x e
  proof (cases "x = take k n")
    case True
    then have "\<not> (\<exists>nd\<in>set (ht_nodes ht). node_name nd = x)" using new' by (force simp: image_iff)
    with True nm show ?thesis by (auto simp: ht_map_Some_iff[OF d2] st)
  next
    case False
    with nm show ?thesis by (auto simp: ht_map_Some_iff[OF d2] ht_map_Some_iff[OF d] st)
  qed
  then show "ht_map ht2 = (ht_map ht)(take k n \<mapsto> mk_nt_entry (take k n))"
    by (rule map_eqI)
qed

lemma findOrInsert_new:
  assumes inv: "ht_inv H ht" and h: "h = computeHash H n k" and new: "ht_map ht (take k n) = None"
  shows "fst (findOrInsert n k h True ht) = (Some (mk_node h (take k n)), True)"
    and "ht_inv H (snd (findOrInsert n k h True ht))"
    and "ht_map (snd (findOrInsert n k h True ht)) = (ht_map ht)(take k n \<mapsto> mk_nt_entry (take k n))"
proof -
  define ht2 where
    "ht2 = (attach (computeBucketIndex ht h) (mk_node h (take k n)) ht)\<lparr>ht_size := ht_size ht + 1\<rparr>"
  have i2: "ht_inv H ht2" and m2: "ht_map ht2 = (ht_map ht)(take k n \<mapsto> mk_nt_entry (take k n))"
    using attach_new_inv[OF assms] by (simp_all add: ht2_def)
  have none: "find (\<lambda>nd. node_name nd = take k n) (ht_nodes ht) = None"
    using new by (simp add: ht_map_def)
  have eq: "findOrInsert n k h True ht =
      ((Some (mk_node h (take k n)), True),
       if ht_size ht2 > ht_expandThreshold ht2
       then resize (float_scale (opt_expandFactor (ht_options ht2)) (getNBuckets ht2)) ht2 else ht2)"
    unfolding findOrInsert_def Let_def find_in_bucket[OF inv h] none ht2_def by simp
  have pos: "0 < float_scale (opt_expandFactor (ht_options ht2)) (getNBuckets ht2)"
    using i2 float_scale_expand by (simp add: ht_inv_def)
  show "fst (findOrInsert n k h True ht) = (Some (mk_node h (take k n)), True)" by (simp add: eq)
  show "ht_inv H (snd (findOrInsert n k h True ht))"
    by (simp add: eq i2 resize_inv(1)[OF i2 pos])
  show "ht_map (snd (findOrInsert n k h True ht)) = (ht_map ht)(take k n \<mapsto> mk_nt_entry (take k n))"
    by (simp add: eq m2 resize_inv(2)[OF i2 pos])
qed

lemma ht_find_map [view_simps]:
  assumes "ht_inv H ht"
  shows "map_option node_entry (ht_find H n k ht) = ht_map ht (take k n)"
  using findOrInsert_found[OF assms refl, where n = n and k = k and allow = False]
    findOrInsert_missing[OF assms refl, where n = n and k = k]
  by (cases "ht_map ht (take k n)") (auto simp: ht_find_def)

lemma ht_find_hashes_map [view_simps]:
  assumes "ht_inv H ht" and "hashes ! k = computeHash H n k"
  shows "map_option node_entry (ht_find_hashes hashes n k ht) = ht_map ht (take k n)"
  using ht_find_map[OF assms(1), of n k] by (simp add: ht_find_hashes_def ht_find_def assms(2))

lemma ht_insert_map:
  assumes "ht_inv H ht" and "hashes ! k = computeHash H n k"
  shows "ht_inv H (snd (ht_insert hashes n k ht))"
    and "ht_map (snd (ht_insert hashes n k ht)) =
      (if ht_map ht (take k n) = None then (ht_map ht)(take k n \<mapsto> mk_nt_entry (take k n)) else ht_map ht)"
    and "snd (fst (ht_insert hashes n k ht)) \<longleftrightarrow> ht_map ht (take k n) = None"
    and "\<exists>nd. fst (fst (ht_insert hashes n k ht)) = Some nd \<and> node_name nd = take k n"
proof -
  have "ht_inv H (snd (ht_insert hashes n k ht)) \<and>
    ht_map (snd (ht_insert hashes n k ht)) =
      (if ht_map ht (take k n) = None then (ht_map ht)(take k n \<mapsto> mk_nt_entry (take k n)) else ht_map ht) \<and>
    (snd (fst (ht_insert hashes n k ht)) \<longleftrightarrow> ht_map ht (take k n) = None) \<and>
    (\<exists>nd. fst (fst (ht_insert hashes n k ht)) = Some nd \<and> node_name nd = take k n)"
  proof (cases "ht_map ht (take k n)")
    case None
    note new = findOrInsert_new[OF assms(1) assms(2) None]
    from new show ?thesis
      using None by (simp add: ht_insert_def) (simp add: mk_node_def mk_nt_entry_def)
  next
    case (Some e)
    from findOrInsert_found[OF assms(1) assms(2) Some, of True] ht_map_name[OF Some] show ?thesis
      using Some assms(1) by (auto simp: ht_insert_def)
  qed
  then show "ht_inv H (snd (ht_insert hashes n k ht))"
    and "ht_map (snd (ht_insert hashes n k ht)) =
      (if ht_map ht (take k n) = None then (ht_map ht)(take k n \<mapsto> mk_nt_entry (take k n)) else ht_map ht)"
    and "snd (fst (ht_insert hashes n k ht)) \<longleftrightarrow> ht_map ht (take k n) = None"
    and "\<exists>nd. fst (fst (ht_insert hashes n k ht)) = Some nd \<and> node_name nd = take k n"
    by blast+
qed

lemma modify_node_name:
  "(\<And>e. nte_name (f e) = nte_name e) \<Longrightarrow> node_name (modify_node n f nd) = node_name nd"
  by (simp add: modify_node_def)

lemma modify_node_hash [simp]: "node_hash (modify_node n f nd) = node_hash nd"
  by (simp add: modify_node_def)

lemma ht_modify_nodes [simp]: "ht_nodes (ht_modify n f ht) = map (modify_node n f) (ht_nodes ht)"
  by (simp add: ht_nodes_def ht_modify_def map_concat)

lemma ht_modify_simps [simp]:
  "getNBuckets (ht_modify n f ht) = getNBuckets ht"
  "ht_options (ht_modify n f ht) = ht_options ht"
  "ht_size (ht_modify n f ht) = ht_size ht"
  "computeBucketIndex (ht_modify n f ht) h = computeBucketIndex ht h"
  by (simp_all add: ht_modify_def getNBuckets_def computeBucketIndex_def)

lemma ht_modify_map [view_simps]:
  assumes "\<And>e. nte_name (f e) = nte_name e"
  shows "ht_map (ht_modify n f ht) = (ht_map ht)(n := map_option f (ht_map ht n))"
proof
  fix x
  have "find (\<lambda>nd. node_name nd = x) (map (modify_node n f) nds) =
      map_option (modify_node n f) (find (\<lambda>nd. node_name nd = x) nds)" for nds :: "'a ht_node list"
    by (induction nds) (auto simp: modify_node_name[of f n, OF assms])
  then show "ht_map (ht_modify n f ht) x = ((ht_map ht)(n := map_option f (ht_map ht n))) x"
    by (cases "find (\<lambda>nd. node_name nd = x) (ht_nodes ht)")
      (auto simp: ht_map_def modify_node_def dest: find_Some_in)
qed

lemma ht_modify_inv [inv_intros]:
  assumes "\<And>e. nte_name (f e) = nte_name e" and "ht_inv H ht"
  shows "ht_inv H (ht_modify n f ht)"
proof -
  have "distinct (map (node_name \<circ> modify_node n f) (ht_nodes ht))"
    using assms(2) by (simp add: ht_inv_def comp_def modify_node_name[of f n, OF assms(1)])
  moreover have "ht_placed (ht_modify n f ht)"
    using assms(2) by (simp add: ht_placed_def ht_inv_def) (simp add: ht_modify_def getNBuckets_def)
  ultimately show ?thesis
    using assms(2) by (auto simp: ht_inv_def modify_node_name[of f n, OF assms(1)])
qed

lemma mset_cancel_one: "A + X = B + Y \<Longrightarrow> X = add_mset x Y \<Longrightarrow> A = B - {#x#}"
proof -
  assume "A + X = B + Y" "X = add_mset x Y"
  then have "add_mset x A + Y = B + Y" by simp
  then have "add_mset x A = B" by (rule add_right_imp_eq)
  then show ?thesis by auto
qed

lemma detach_nodes:
  assumes "b < getNBuckets ht" and "nd \<in> set (ht_buckets ht ! b)"
    and "distinct (map node_name (ht_buckets ht ! b))"
  shows "mset (ht_nodes (detach b (node_name nd) ht)) = mset (ht_nodes ht) - {#nd#}"
proof -
  let ?xs = "ht_buckets ht ! b" and ?ys = "erase_first (\<lambda>x. node_name x = node_name nd) (ht_buckets ht ! b)"
  have "find (\<lambda>x. node_name x = node_name nd) ?xs = Some nd"
    using assms(2,3) by (simp add: find_key_Some_iff)
  then have "mset ?ys = mset ?xs - {#nd#}" by (rule mset_erase_first)
  then have x: "mset ?xs = add_mset nd (mset ?ys)" using assms(2) by simp
  have "mset (concat ((ht_buckets ht)[b := ?ys])) + mset ?xs = mset (concat (ht_buckets ht)) + mset ?ys"
    using assms(1) by (intro mset_concat_update) (simp add: getNBuckets_def)
  from mset_cancel_one[OF this x] show ?thesis
    by (simp add: ht_nodes_def detach_def)
qed

lemma detach_placed: "ht_placed ht \<Longrightarrow> ht_placed (detach b n ht)"
proof -
  assume "ht_placed ht"
  moreover have "set (ht_buckets (detach b n ht) ! i) \<subseteq> set (ht_buckets ht ! i)" if "i < getNBuckets ht" for i
    using that erase_first_subset[of _ "ht_buckets ht ! b"]
    by (cases "i = b") (auto simp: detach_def getNBuckets_def)
  ultimately show ?thesis by (fastforce simp: ht_placed_def)
qed

lemma distinct_bucket:
  assumes "distinct (map node_name (ht_nodes ht))" and "b < getNBuckets ht"
  shows "distinct (map node_name (ht_buckets ht ! b))"
proof -
  have "ht_nodes ht = concat (take b (ht_buckets ht)) @ ht_buckets ht ! b @ concat (drop (Suc b) (ht_buckets ht))"
    using assms(2) unfolding ht_nodes_def getNBuckets_def
    by (subst id_take_nth_drop[of b "ht_buckets ht"]) simp_all
  with assms(1) show ?thesis by simp
qed

lemma ht_erase_map:
  assumes inv: "ht_inv H ht" and nd: "nd \<in> set (ht_nodes ht)"
  shows "ht_inv H (ht_erase nd ht)" and "ht_map (ht_erase nd ht) = (ht_map ht)(node_name nd := None)"
proof -
  let ?b = "computeBucketIndex ht (node_hash nd)"
  define ht2 where "ht2 = (detach ?b (node_name nd) ht)\<lparr>ht_size := ht_size ht - 1\<rparr>"
  have nb: "0 < getNBuckets ht" and pl: "ht_placed ht" and d: "distinct (map node_name (ht_nodes ht))"
    using inv by (simp_all add: ht_inv_def)
  have b: "?b < getNBuckets ht" by (rule computeBucketIndex_less[OF nb])
  have m: "mset (ht_nodes ht2) = mset (ht_nodes ht) - {#nd#}"
    using detach_nodes[OF b nodes_bucket[OF pl nd] distinct_bucket[OF d b]] by (simp add: ht2_def)
  then have am: "mset (nd # ht_nodes ht2) = mset (ht_nodes ht)" using nd by simp
  have dd: "distinct (map node_name (nd # ht_nodes ht2))"
    by (subst distinct_map_mset[of node_name _ "ht_nodes ht"]) (use am d in \<open>simp_all only: mset_map\<close>)
  have st: "insert nd (set (ht_nodes ht2)) = set (ht_nodes ht)"
    using mset_eq_setD[OF am] by simp
  have ln: "Suc (length (ht_nodes ht2)) = length (ht_nodes ht)"
    using mset_eq_length[OF am] by simp
  have "ht_placed ht2" using detach_placed[OF pl] by (simp add: ht2_def)
  then have i2: "ht_inv H ht2"
    using inv st ln dd by (auto simp: ht_inv_def ht2_def)
  have d2: "distinct (map node_name (ht_nodes ht2))" using dd by simp
  have ne: "node_name nd' \<noteq> node_name nd" if "nd' \<in> set (ht_nodes ht2)" for nd'
    using dd that by (force simp: image_iff)
  have m2: "ht_map ht2 = (ht_map ht)(node_name nd := None)"
  proof (rule map_eqI)
    fix x e
    show "ht_map ht2 x = Some e \<longleftrightarrow> ((ht_map ht)(node_name nd := None)) x = Some e"
      using ne by (auto simp: ht_map_Some_iff[OF d2] ht_map_Some_iff[OF d] simp flip: st)
  qed
  have eq: "ht_erase nd ht = (if ht_size ht2 < ht_shrinkThreshold ht2
      then resize (max (opt_minSize (ht_options ht2))
              (float_scale (opt_shrinkFactor (ht_options ht2)) (getNBuckets ht2))) ht2 else ht2)"
    by (simp add: ht_erase_def ht2_def Let_def)
  have pos: "0 < max (opt_minSize (ht_options ht2)) (float_scale (opt_shrinkFactor (ht_options ht2)) (getNBuckets ht2))"
    using i2 by (simp add: ht_inv_def less_max_iff_disj)
  show "ht_inv H (ht_erase nd ht)" by (simp add: eq i2 resize_inv(1)[OF i2 pos])
  show "ht_map (ht_erase nd ht) = (ht_map ht)(node_name nd := None)"
    by (simp add: eq m2 resize_inv(2)[OF i2 pos])
qed

end
