(* ===== verification/Name_Tree.thy ===== *)
theory Name_Tree
  imports Name_Tree_Hashtable
begin

text \<open>
  The name tree (\<open>daemon/table/name-tree.cpp\<close>), the index shared by FIB, PIT, Measurements and
  Strategy Choice: find-or-insert with all ancestors, pruning of empty entries, exact match and the
  three forms of longest prefix match. The tree invariant speaks about the abstract map of the
  hash table: the set of names is closed under prefixes and the parent and children pointers
  describe exactly the prefix order.
\<close>

section \<open>Operations\<close>

type_synonym 'i name_tree = "'i hashtable"

definition getMaxDepth :: nat where
  "getMaxDepth = 32"

definition mk_name_tree :: "nat \<Rightarrow> 'i name_tree" where
  "mk_name_tree nBuckets = mk_hashtable (HashtableOptions nBuckets)"

definition setParent :: "name \<Rightarrow> name \<Rightarrow> 'i name_tree \<Rightarrow> 'i name_tree" where
  "setParent child parent nt =
     ht_modify parent (\<lambda>e. e\<lparr>nte_children := nte_children e @ [child]\<rparr>)
       (ht_modify child (\<lambda>e. e\<lparr>nte_parent := Some parent\<rparr>) nt)"

definition unsetParent :: "name \<Rightarrow> name \<Rightarrow> 'i name_tree \<Rightarrow> 'i name_tree" where
  "unsetParent child parent nt =
     ht_modify child (\<lambda>e. e\<lparr>nte_parent := None\<rparr>)
       (ht_modify parent (\<lambda>e. e\<lparr>nte_children := erase_first (\<lambda>c. c = child) (nte_children e)\<rparr>) nt)"

text \<open>One round of the loop of \<open>NameTree::lookup\<close>; the state is the pointer \<open>parent\<close> and the table.\<close>

definition lookup_step ::
  "u64 list \<Rightarrow> name \<Rightarrow> nat \<Rightarrow> name option \<times> 'i name_tree \<Rightarrow> name option \<times> 'i name_tree" where
  "lookup_step hashes n i st =
     (let (parent, nt) = st;
          ((node, isNew), nt1) = ht_insert hashes n i nt
      in case node of
           None \<Rightarrow> (parent, nt1)
         | Some nd \<Rightarrow>
             (Some (node_name nd),
              case parent of
                Some p \<Rightarrow> if isNew then setParent (node_name nd) p nt1 else nt1
              | None \<Rightarrow> nt1))"

definition nt_lookup ::
  "(component \<Rightarrow> u64) \<Rightarrow> name \<Rightarrow> nat \<Rightarrow> 'i name_tree \<Rightarrow> name option \<times> 'i name_tree" where
  "nt_lookup H n prefixLen nt =
     fold (lookup_step (computeHashes H n prefixLen) n) [0..<Suc prefixLen] (None, nt)"

definition nt_entry_at :: "name \<Rightarrow> 'i name_tree \<Rightarrow> 'i ht_node option" where
  "nt_entry_at n nt = find (\<lambda>nd. node_name nd = n) (ht_nodes nt)"

text \<open>
  The loop of \<open>NameTree::eraseIfEmpty\<close> climbs the parent pointers. Names have at most
  \<open>getMaxDepth\<close> components, so as many rounds as the name has prefixes are enough.
\<close>

fun eraseIfEmpty_loop ::
  "nat \<Rightarrow> name \<Rightarrow> bool \<Rightarrow> 'i name_tree \<Rightarrow> nat \<Rightarrow> nat \<times> 'i name_tree" where
  "eraseIfEmpty_loop 0 entry canEraseAncestors nt nErased = (nErased, nt)"
| "eraseIfEmpty_loop (Suc fuel) entry canEraseAncestors nt nErased =
     (case nt_entry_at entry nt of
        None \<Rightarrow> (nErased, nt)
      | Some nd \<Rightarrow>
          if nte_isEmpty (node_entry nd) then
            (case nte_parent (node_entry nd) of
               None \<Rightarrow> (Suc nErased, ht_erase nd nt)
             | Some parent \<Rightarrow>
                 let nt' = ht_erase (nd\<lparr>node_entry := (node_entry nd)\<lparr>nte_parent := None\<rparr>\<rparr>)
                             (unsetParent entry parent nt)
                 in if canEraseAncestors
                    then eraseIfEmpty_loop fuel parent canEraseAncestors nt' (Suc nErased)
                    else (Suc nErased, nt'))
          else (nErased, nt))"

definition eraseIfEmpty :: "name \<Rightarrow> bool \<Rightarrow> 'i name_tree \<Rightarrow> nat \<times> 'i name_tree" where
  "eraseIfEmpty entry canEraseAncestors nt =
     eraseIfEmpty_loop (Suc (length entry)) entry canEraseAncestors nt 0"

definition nt_findExactMatch ::
  "(component \<Rightarrow> u64) \<Rightarrow> name \<Rightarrow> nat \<Rightarrow> 'i name_tree \<Rightarrow> 'i nt_entry option" where
  "nt_findExactMatch H n prefixLen nt =
     (let k = min (length n) prefixLen in
      if k > getMaxDepth then None else map_option node_entry (ht_find H n k nt))"

fun lpm_loop :: "u64 list \<Rightarrow> name \<Rightarrow> ('i nt_entry \<Rightarrow> bool) \<Rightarrow> 'i name_tree \<Rightarrow> nat \<Rightarrow> 'i nt_entry option" where
  "lpm_loop hashes n entrySelector nt i =
     (case ht_find_hashes hashes n i nt of
        Some nd \<Rightarrow>
          if entrySelector (node_entry nd) then Some (node_entry nd)
          else (case i of 0 \<Rightarrow> None | Suc j \<Rightarrow> lpm_loop hashes n entrySelector nt j)
      | None \<Rightarrow> (case i of 0 \<Rightarrow> None | Suc j \<Rightarrow> lpm_loop hashes n entrySelector nt j))"

declare lpm_loop.simps [simp del]

definition nt_findLongestPrefixMatch ::
  "(component \<Rightarrow> u64) \<Rightarrow> name \<Rightarrow> ('i nt_entry \<Rightarrow> bool) \<Rightarrow> 'i name_tree \<Rightarrow> 'i nt_entry option" where
  "nt_findLongestPrefixMatch H n entrySelector nt =
     (let depth = min (length n) getMaxDepth in
      lpm_loop (computeHashes H n depth) n entrySelector nt depth)"

text \<open>Longest prefix match from an entry: follow the parent pointers.\<close>

fun lpm_entry_loop :: "nat \<Rightarrow> name \<Rightarrow> ('i nt_entry \<Rightarrow> bool) \<Rightarrow> 'i name_tree \<Rightarrow> 'i nt_entry option" where
  "lpm_entry_loop 0 entry entrySelector nt = None"
| "lpm_entry_loop (Suc fuel) entry entrySelector nt =
     (case nt_entry_at entry nt of
        None \<Rightarrow> None
      | Some nd \<Rightarrow>
          if entrySelector (node_entry nd) then Some (node_entry nd)
          else (case nte_parent (node_entry nd) of
                  None \<Rightarrow> None
                | Some parent \<Rightarrow> lpm_entry_loop fuel parent entrySelector nt))"

definition nt_findLongestPrefixMatch_entry ::
  "name \<Rightarrow> ('i nt_entry \<Rightarrow> bool) \<Rightarrow> 'i name_tree \<Rightarrow> 'i nt_entry option" where
  "nt_findLongestPrefixMatch_entry entry entrySelector nt =
     lpm_entry_loop (Suc (length entry)) entry entrySelector nt"

text \<open>
  Longest prefix match for a PIT entry: start from its name tree entry and go deeper while the
  next longer prefix of the Interest name has an entry.
\<close>

fun go_deeper ::
  "(component \<Rightarrow> u64) \<Rightarrow> name \<Rightarrow> 'i name_tree \<Rightarrow> name \<Rightarrow> nat list \<Rightarrow> name" where
  "go_deeper H n nt nte [] = nte"
| "go_deeper H n nt nte (i # is) =
     (case nt_findExactMatch H n i nt of
        None \<Rightarrow> nte
      | Some e \<Rightarrow> go_deeper H n nt (nte_name e) is)"

definition nt_findLongestPrefixMatch_pit ::
  "(component \<Rightarrow> u64) \<Rightarrow> 'i pit_entry \<Rightarrow> ('i nt_entry \<Rightarrow> bool) \<Rightarrow> 'i name_tree \<Rightarrow> 'i nt_entry option" where
  "nt_findLongestPrefixMatch_pit H pe entrySelector nt =
     (case pe_nameTreeEntry pe of
        None \<Rightarrow> None
      | Some nte \<Rightarrow>
          let depth = min (length (pe_name pe)) getMaxDepth;
              start = (if length nte < length (pe_name pe)
                       then go_deeper H (pe_name pe) nt nte [length nte + 1..<depth + 1]
                       else nte)
          in nt_findLongestPrefixMatch_entry start entrySelector nt)"

text \<open>The overloads of \<open>NameTree::lookup\<close> for table entries.\<close>

definition nt_lookup_fib ::
  "(component \<Rightarrow> u64) \<Rightarrow> fib_entry \<Rightarrow> 'i name_tree \<Rightarrow> name option \<times> 'i name_tree" where
  "nt_lookup_fib H fe nt =
     (case fe_nameTreeEntry fe of
        None \<Rightarrow> nt_lookup H (fe_prefix fe) (length (fe_prefix fe)) nt
      | Some nte \<Rightarrow> (Some nte, nt))"

definition nt_lookup_pit ::
  "(component \<Rightarrow> u64) \<Rightarrow> 'i pit_entry \<Rightarrow> 'i name_tree \<Rightarrow> name option \<times> 'i name_tree" where
  "nt_lookup_pit H pe nt =
     (if endsWithDigest (pe_name pe) \<and> length (pe_name pe) \<le> getMaxDepth
      then nt_lookup H (pe_name pe) (length (pe_name pe)) nt
      else (pe_nameTreeEntry pe, nt))"

definition nt_lookup_meas :: "'i measurements_entry \<Rightarrow> 'i name_tree \<Rightarrow> name option \<times> 'i name_tree" where
  "nt_lookup_meas me nt = (me_nameTreeEntry me, nt)"

definition nt_lookup_sc :: "strategy_choice_entry \<Rightarrow> 'i name_tree \<Rightarrow> name option \<times> 'i name_tree" where
  "nt_lookup_sc sce nt = (sce_nameTreeEntry sce, nt)"

section \<open>Tree invariant\<close>

definition tree_ok :: "(name \<rightharpoonup> 'i nt_entry) \<Rightarrow> bool" where
  "tree_ok M \<longleftrightarrow>
     (\<forall>n e. M n = Some e \<longrightarrow>
        nte_name e = n \<and> length n \<le> getMaxDepth \<and>
        nte_parent e = (if n = [] then None else Some (butlast n)) \<and>
        (n \<noteq> [] \<longrightarrow> butlast n \<in> dom M) \<and>
        distinct (nte_children e) \<and>
        set (nte_children e) = {c \<in> dom M. c \<noteq> [] \<and> butlast c = n})"

definition nt_inv :: "(component \<Rightarrow> u64) \<Rightarrow> 'i name_tree \<Rightarrow> bool" where
  "nt_inv H nt \<longleftrightarrow> ht_inv H nt \<and> tree_ok (ht_map nt)"

text \<open>What the tables attached to a name are, whether or not the tree has an entry for it.\<close>

type_synonym 'i table_slots =
  "fib_entry option \<times> 'i pit_entry list \<times> 'i measurements_entry option \<times> strategy_choice_entry option"

definition no_slots :: "'i table_slots" where
  "no_slots = (None, [], None, None)"

definition nte_slots :: "'i nt_entry \<Rightarrow> 'i table_slots" where
  "nte_slots e = (nte_fib e, nte_pit e, nte_meas e, nte_sc e)"

definition map_slots :: "(name \<rightharpoonup> 'i nt_entry) \<Rightarrow> name \<Rightarrow> 'i table_slots" where
  "map_slots M n = (case M n of None \<Rightarrow> no_slots | Some e \<Rightarrow> nte_slots e)"

abbreviation nt_slots :: "'i name_tree \<Rightarrow> name \<Rightarrow> 'i table_slots" where
  "nt_slots nt \<equiv> map_slots (ht_map nt)"

text \<open>The specification of longest prefix match.\<close>

definition is_lpm :: "(name \<rightharpoonup> 'i nt_entry) \<Rightarrow> ('i nt_entry \<Rightarrow> bool) \<Rightarrow> name \<Rightarrow> 'i nt_entry option \<Rightarrow> bool" where
  "is_lpm M sel n r \<longleftrightarrow>
     (case r of
        None \<Rightarrow> (\<forall>q e. prefix q n \<longrightarrow> M q = Some e \<longrightarrow> \<not> sel e)
      | Some e \<Rightarrow> (\<exists>q. prefix q n \<and> M q = Some e \<and> sel e \<and>
          (\<forall>q' e'. prefix q' n \<longrightarrow> M q' = Some e' \<longrightarrow> sel e' \<longrightarrow> length q' \<le> length q)))"

section \<open>Facts about trees\<close>

lemma tree_okD:
  assumes "tree_ok M" and "M n = Some e"
  shows "nte_name e = n" and "length n \<le> getMaxDepth"
    and "nte_parent e = (if n = [] then None else Some (butlast n))"
    and "n \<noteq> [] \<Longrightarrow> butlast n \<in> dom M"
    and "distinct (nte_children e)"
    and "set (nte_children e) = {c \<in> dom M. c \<noteq> [] \<and> butlast c = n}"
  using assms by (simp_all add: tree_ok_def)

lemma tree_ok_empty [simp]: "tree_ok Map.empty"
  by (simp add: tree_ok_def)

lemma butlast_prefix_take: "butlast n = take (length n - 1) n"
  by (simp add: butlast_conv_take)

lemma tree_prefix_closed:
  assumes "tree_ok M" and "n \<in> dom M" and "prefix q n"
  shows "q \<in> dom M"
proof -
  have "take (length n - k) n \<in> dom M" for k
  proof (induction k)
    case (Suc k)
    then obtain e where e: "M (take (length n - k) n) = Some e" by auto
    show ?case
    proof (cases "length n - k = 0")
      case True
      with Suc show ?thesis by simp
    next
      case False
      then have "take (length n - k) n \<noteq> []" by auto
      then have "butlast (take (length n - k) n) \<in> dom M" using tree_okD(4)[OF assms(1) e] by blast
      moreover have "butlast (take (length n - k) n) = take (length n - Suc k) n"
        using False by (simp add: butlast_take)
      ultimately show ?thesis by simp
    qed
  qed (use assms(2) in simp)
  from this[of "length n - length q"] assms(3) show ?thesis
    by (auto simp: prefix_take_iff)
qed

lemma is_lpm_unique: "is_lpm M sel n r \<Longrightarrow> is_lpm M sel n r' \<Longrightarrow> r = r'"
  unfolding is_lpm_def
  by (auto split: option.splits simp: prefix_take_iff) (metis le_antisym option.inject)+

lemma map_slots_upd [simp]: "map_slots (M(n \<mapsto> e)) = (map_slots M)(n := nte_slots e)"
  by (auto simp: map_slots_def)

lemma hasTableEntries_slots: "hasTableEntries e \<longleftrightarrow> nte_slots e \<noteq> no_slots"
  by (simp add: hasTableEntries_def nte_slots_def no_slots_def)

lemma nte_slots_mk [simp]: "nte_slots (mk_nt_entry n) = no_slots"
  by (simp add: nte_slots_def no_slots_def mk_nt_entry_def)

section \<open>Find or insert\<close>

text \<open>Adding the root, or a name whose parent is there, keeps the tree.\<close>

definition add_child :: "(name \<rightharpoonup> 'i nt_entry) \<Rightarrow> name \<Rightarrow> (name \<rightharpoonup> 'i nt_entry)" where
  "add_child M c =
     (let e = (mk_nt_entry c)\<lparr>nte_parent := (if c = [] then None else Some (butlast c))\<rparr> in
      if c = [] then M(c \<mapsto> e)
      else M(c \<mapsto> e, butlast c := map_option (\<lambda>p. p\<lparr>nte_children := nte_children p @ [c]\<rparr>) (M (butlast c))))"

lemma butlast_neq: "c \<noteq> [] \<Longrightarrow> butlast c \<noteq> c"
  by (metis butlast.simps(1) length_butlast diff_less length_greater_0_conv less_irrefl zero_less_one)

lemma dom_add_child:
  "c \<noteq> [] \<Longrightarrow> butlast c \<in> dom M \<Longrightarrow> dom (add_child M c) = insert c (dom M)"
  "dom (add_child M []) = insert [] (dom M)"
  by (auto simp: add_child_def Let_def)

lemma map_slots_add_child:
  assumes "M c = None" and "c \<noteq> [] \<Longrightarrow> butlast c \<in> dom M"
  shows "map_slots (add_child M c) = map_slots M"
proof
  fix q
  show "map_slots (add_child M c) q = map_slots M q"
  proof (cases "c = []")
    case True
    then show ?thesis using assms(1)
      by (auto simp: add_child_def map_slots_def nte_slots_def no_slots_def mk_nt_entry_def)
  next
    case False
    then obtain p where "M (butlast c) = Some p" using assms(2) by auto
    then show ?thesis using assms(1) False butlast_neq[OF False]
      by (auto simp: add_child_def map_slots_def nte_slots_def no_slots_def mk_nt_entry_def Let_def)
  qed
qed

lemma no_children_of_missing:
  "tree_ok M \<Longrightarrow> M c = None \<Longrightarrow> x \<in> dom M \<Longrightarrow> x \<noteq> [] \<Longrightarrow> butlast x \<noteq> c"
  using tree_okD(4) by fastforce

lemma tree_ok_add_child:
  assumes M: "tree_ok M" and c: "M c = None" "length c \<le> getMaxDepth" "c \<noteq> [] \<Longrightarrow> butlast c \<in> dom M"
  shows "tree_ok (add_child M c)"
  unfolding tree_ok_def
proof (intro allI impI)
  fix n e assume e: "add_child M c n = Some e"
  have dom: "dom (add_child M c) = insert c (dom M)"
    using dom_add_child(1)[of c M] c(3) dom_add_child(2)[of M] by (cases "c = []") simp_all
  let ?ok = "nte_name e = n \<and> length n \<le> getMaxDepth \<and>
        nte_parent e = (if n = [] then None else Some (butlast n)) \<and>
        (n \<noteq> [] \<longrightarrow> butlast n \<in> dom (add_child M c)) \<and> distinct (nte_children e) \<and>
        set (nte_children e) = {x \<in> dom (add_child M c). x \<noteq> [] \<and> butlast x = n}"
  show ?ok
  proof (cases "n = c")
    case True
    then have "e = (mk_nt_entry c)\<lparr>nte_parent := (if c = [] then None else Some (butlast c))\<rparr>"
      using e butlast_neq[of c] by (auto simp: add_child_def Let_def split: if_splits)
    moreover have "{x \<in> insert c (dom M). x \<noteq> [] \<and> butlast x = c} = {}"
      using no_children_of_missing[OF M c(1)] butlast_neq[of c] by auto
    ultimately show ?thesis using True c dom by (auto simp: mk_nt_entry_def)
  next
    case False
    obtain e0 where e0: "M n = Some e0"
      using e False by (auto simp: add_child_def Let_def split: if_splits)
    note d = tree_okD[OF M e0]
    show ?thesis
    proof (cases "c \<noteq> [] \<and> n = butlast c")
      case True
      then have "e = e0\<lparr>nte_children := nte_children e0 @ [c]\<rparr>"
        using e e0 False by (auto simp: add_child_def Let_def)
      moreover have "c \<notin> set (nte_children e0)" using d(6) c(1) by auto
      ultimately show ?thesis using d True dom by auto
    next
      case neq: False
      then have "e = e0" using e e0 False by (auto simp: add_child_def Let_def split: if_splits)
      then show ?thesis using d dom neq by auto
    qed
  qed
qed

lemma setParent_map:
  assumes "child \<noteq> parent"
  shows "ht_map (setParent child parent nt) =
    (ht_map nt)(child := map_option (\<lambda>e. e\<lparr>nte_parent := Some parent\<rparr>) (ht_map nt child),
      parent := map_option (\<lambda>e. e\<lparr>nte_children := nte_children e @ [child]\<rparr>) (ht_map nt parent))"
  using assms by (simp add: setParent_def ht_modify_map)

lemma setParent_inv [inv_intros]: "ht_inv H nt \<Longrightarrow> ht_inv H (setParent child parent nt)"
  by (simp add: setParent_def ht_modify_inv)

text \<open>Invariant of the loop of \<open>lookup\<close> before round \<open>i\<close>, relative to the tree at the start.\<close>

definition lookup_loop_inv ::
  "(component \<Rightarrow> u64) \<Rightarrow> name \<Rightarrow> 'i name_tree \<Rightarrow> nat \<Rightarrow> name option \<times> 'i name_tree \<Rightarrow> bool" where
  "lookup_loop_inv H n nt0 i st \<longleftrightarrow>
     nt_inv H (snd st) \<and> nt_slots (snd st) = nt_slots nt0 \<and>
     dom (ht_map (snd st)) = dom (ht_map nt0) \<union> (\<lambda>j. take j n) ` {..<i} \<and>
     fst st = (if i = 0 then None else Some (take (i - 1) n))"

lemma lookup_step_inv:
  assumes inv: "lookup_loop_inv H n nt0 i st"
    and i: "i \<le> length n" "i \<le> getMaxDepth" and h: "hashes ! i = computeHash H n i"
  shows "lookup_loop_inv H n nt0 (Suc i) (lookup_step hashes n i st)"
proof -
  obtain parent nt where st: "st = (parent, nt)" by force
  let ?c = "take i n"
  from inv st have nt: "ht_inv H nt" "tree_ok (ht_map nt)" and sl: "nt_slots nt = nt_slots nt0"
    and dm: "dom (ht_map nt) = dom (ht_map nt0) \<union> (\<lambda>j. take j n) ` {..<i}"
    and pa: "parent = (if i = 0 then None else Some (take (i - 1) n))"
    by (auto simp: lookup_loop_inv_def nt_inv_def)
  have bl: "i \<noteq> 0 \<Longrightarrow> butlast ?c = take (i - 1) n" using i by (simp add: butlast_take)
  have c0: "?c = [] \<longleftrightarrow> i = 0" using i by auto
  have dm': "dom (ht_map nt) \<union> {?c} = dom (ht_map nt0) \<union> (\<lambda>j. take j n) ` {..<Suc i}"
    using dm by (auto simp: lessThan_Suc)
  note ins = ht_insert_map[OF nt(1) h]
  obtain nd where nd: "fst (fst (ht_insert hashes n i nt)) = Some nd" "node_name nd = ?c"
    using ins(4) by blast
  obtain nt1 where ieq: "ht_insert hashes n i nt = ((Some nd, ht_map nt ?c = None), nt1)"
    using nd(1) ins(3) by (cases "ht_insert hashes n i nt") (auto simp: prod_eq_iff)
  have st_eq: "lookup_step hashes n i st = (Some ?c,
      if ht_map nt ?c = None \<and> i \<noteq> 0 then setParent ?c (take (i - 1) n) (snd (ht_insert hashes n i nt))
      else snd (ht_insert hashes n i nt))"
    by (simp add: lookup_step_def st ieq pa nd(2))
  show ?thesis
  proof (cases "ht_map nt ?c")
    case (Some e)
    then have "lookup_step hashes n i st = (Some ?c, snd (ht_insert hashes n i nt))"
      by (simp add: st_eq)
    moreover have "ht_map (snd (ht_insert hashes n i nt)) = ht_map nt" using ins(2) Some by simp
    moreover have "dom (ht_map nt) \<union> {?c} = dom (ht_map nt)" using Some by auto
    ultimately show ?thesis
      using ins(1) nt sl dm' by (simp add: lookup_loop_inv_def nt_inv_def)
  next
    case None
    let ?nt1 = "snd (ht_insert hashes n i nt)"
    let ?nt2 = "if i = 0 then ?nt1 else setParent ?c (take (i - 1) n) ?nt1"
    have step: "lookup_step hashes n i st = (Some ?c, ?nt2)"
      by (simp add: st_eq None)
    have m1: "ht_map ?nt1 = (ht_map nt)(?c \<mapsto> mk_nt_entry ?c)" using ins(2) None by simp
    have pd: "?c \<noteq> [] \<Longrightarrow> butlast ?c \<in> dom (ht_map nt)"
      using dm bl c0 by auto
    have m2: "ht_map ?nt2 = add_child (ht_map nt) ?c"
    proof (cases "i = 0")
      case True
      then show ?thesis using m1 by (simp add: add_child_def mk_nt_entry_def)
    next
      case False
      then have b: "butlast ?c = take (i - 1) n" and ne: "?c \<noteq> take (i - 1) n" and c: "?c \<noteq> []"
        using bl butlast_neq[of ?c] c0 by auto
      have "ht_map ?nt2 = (ht_map ?nt1)(?c := map_option (\<lambda>e. e\<lparr>nte_parent := Some (take (i - 1) n)\<rparr>) (ht_map ?nt1 ?c),
          take (i - 1) n := map_option (\<lambda>e. e\<lparr>nte_children := nte_children e @ [?c]\<rparr>) (ht_map ?nt1 (take (i - 1) n)))"
        using False setParent_map[OF ne] by simp
      then show ?thesis
        unfolding m1 add_child_def Let_def b using ne c by (simp add: fun_eq_iff)
    qed
    have "ht_inv H ?nt2" using ins(1) setParent_inv by auto
    then have "nt_inv H ?nt2"
      using tree_ok_add_child[OF nt(2) None _ pd] i m2 by (simp add: nt_inv_def del: if_split)
    moreover have "nt_slots ?nt2 = nt_slots nt0"
      using map_slots_add_child[OF None pd] m2 sl by simp
    moreover have "dom (ht_map ?nt2) = dom (ht_map nt) \<union> {?c}"
      using m2 dom_add_child(1)[OF _ pd] dom_add_child(2)[of "ht_map nt"] by (cases "?c = []") auto
    ultimately show ?thesis
      by (simp only: step lookup_loop_inv_def fst_conv snd_conv dm' simp_thms) simp
  qed
qed

lemma nt_lookup_props:
  assumes "nt_inv H nt" and "k \<le> length n" and "k \<le> getMaxDepth"
  shows "fst (nt_lookup H n k nt) = Some (take k n)"
    and "nt_inv H (snd (nt_lookup H n k nt))"
    and "nt_slots (snd (nt_lookup H n k nt)) = nt_slots nt"
    and "dom (ht_map (snd (nt_lookup H n k nt))) = dom (ht_map nt) \<union> {q. prefix q (take k n)}"
proof -
  have "lookup_loop_inv H n nt i (fold (lookup_step (computeHashes H n k) n) [0..<i] (None, nt))"
    if "i \<le> Suc k" for i
    using that
  proof (induction i)
    case 0
    then show ?case using assms(1) by (simp add: lookup_loop_inv_def)
  next
    case (Suc i)
    then show ?case
      using lookup_step_inv[of H n nt i _ "computeHashes H n k"] assms(2,3)
      by (simp add: computeHashes_nth)
  qed
  from this[of "Suc k"] have L: "lookup_loop_inv H n nt (Suc k) (nt_lookup H n k nt)"
    by (simp add: nt_lookup_def)
  have "(\<lambda>j. take j n) ` {..<Suc k} = {q. prefix q (take k n)}"
  proof (intro set_eqI iffI)
    fix q assume "q \<in> (\<lambda>j. take j n) ` {..<Suc k}"
    then obtain j where "j \<le> k" "q = take j n" by (metis imageE lessThan_iff less_Suc_eq_le)
    then have "q = take j (take k n)" by (simp add: min_absorb1)
    then show "q \<in> {q. prefix q (take k n)}" by (metis mem_Collect_eq take_is_prefix)
  next
    fix q assume "q \<in> {q. prefix q (take k n)}"
    then have "length q \<le> k" "q = take (length q) n"
      using assms(2) by (auto simp: prefix_take_iff)
    then show "q \<in> (\<lambda>j. take j n) ` {..<Suc k}" by (metis imageI lessThan_iff less_Suc_eq_le)
  qed
  with L show "fst (nt_lookup H n k nt) = Some (take k n)"
    and "nt_inv H (snd (nt_lookup H n k nt))"
    and "nt_slots (snd (nt_lookup H n k nt)) = nt_slots nt"
    and "dom (ht_map (snd (nt_lookup H n k nt))) = dom (ht_map nt) \<union> {q. prefix q (take k n)}"
    by (simp_all add: lookup_loop_inv_def)
qed

section \<open>Pruning\<close>

text \<open>Removing a leaf and unlinking it from its parent keeps the tree.\<close>

definition remove_leaf :: "(name \<rightharpoonup> 'i nt_entry) \<Rightarrow> name \<Rightarrow> (name \<rightharpoonup> 'i nt_entry)" where
  "remove_leaf M c =
     (if c = [] then M(c := None)
      else M(c := None, butlast c :=
        map_option (\<lambda>p. p\<lparr>nte_children := erase_first (\<lambda>x. x = c) (nte_children p)\<rparr>) (M (butlast c))))"

lemma dom_remove_leaf: "dom (remove_leaf M c) = dom M - {c}"
proof (cases "c = []")
  case False
  have "remove_leaf M c q = None \<longleftrightarrow> M q = None \<or> q = c" for q
    using False butlast_neq[OF False] by (simp add: remove_leaf_def)
  then show ?thesis by (intro set_eqI) (simp add: domIff del: not_None_eq)
qed (auto simp: remove_leaf_def)

lemma map_slots_remove_leaf:
  assumes "M c = Some e" and "\<not> hasTableEntries e"
  shows "map_slots (remove_leaf M c) = map_slots M"
proof
  fix q
  have "nte_slots e = no_slots" using assms(2) by (simp add: hasTableEntries_slots)
  then show "map_slots (remove_leaf M c) q = map_slots M q"
    using assms(1) butlast_neq[of c]
    by (cases "M (butlast c)") (auto simp: remove_leaf_def map_slots_def nte_slots_def)
qed

lemma tree_ok_remove_leaf:
  assumes M: "tree_ok M" and c: "M c = Some e" "nte_children e = []"
  shows "tree_ok (remove_leaf M c)"
  unfolding tree_ok_def
proof (intro allI impI)
  fix n e1 assume e1: "remove_leaf M c n = Some e1"
  have "n \<in> dom (remove_leaf M c)" using e1 by blast
  then have nc: "n \<noteq> c" and nM: "n \<in> dom M" by (auto simp: dom_remove_leaf)
  then obtain e0 where e0: "M n = Some e0" by auto
  note d = tree_okD[OF M e0]
  have leaf: "x \<in> dom M \<Longrightarrow> x \<noteq> [] \<Longrightarrow> butlast x \<noteq> c" for x
    using tree_okD(6)[OF M c(1)] c(2) by auto
  show "nte_name e1 = n \<and> length n \<le> getMaxDepth \<and>
        nte_parent e1 = (if n = [] then None else Some (butlast n)) \<and>
        (n \<noteq> [] \<longrightarrow> butlast n \<in> dom (remove_leaf M c)) \<and> distinct (nte_children e1) \<and>
        set (nte_children e1) = {x \<in> dom (remove_leaf M c). x \<noteq> [] \<and> butlast x = n}"
  proof (cases "c \<noteq> [] \<and> n = butlast c")
    case True
    then have e1': "e1 = e0\<lparr>nte_children := erase_first (\<lambda>x. x = c) (nte_children e0)\<rparr>"
      using e1 e0 nc by (auto simp: remove_leaf_def)
    have "set (erase_first (\<lambda>x. x = c) (nte_children e0)) = set (nte_children e0) - {c}"
      using erase_first_key_set[of "\<lambda>x. x" "nte_children e0" c] d(5) by auto
    moreover have "distinct (erase_first (\<lambda>x. x = c) (nte_children e0))"
      using erase_first_distinct[of "\<lambda>x. x" "nte_children e0"] d(5) by simp
    ultimately show ?thesis
      using d leaf[of n] nM e1' by (auto simp: dom_remove_leaf)
  next
    case False
    then have "e1 = e0" using e1 e0 nc by (auto simp: remove_leaf_def split: if_splits)
    moreover have "{x \<in> dom (remove_leaf M c). x \<noteq> [] \<and> butlast x = n} = {x \<in> dom M. x \<noteq> [] \<and> butlast x = n}"
      using False by (auto simp: dom_remove_leaf)
    ultimately show ?thesis using d leaf[of n] nM by (auto simp: dom_remove_leaf)
  qed
qed

lemma nt_entry_at_Some:
  "ht_inv H nt \<Longrightarrow> nt_entry_at n nt = Some nd \<Longrightarrow>
   nd \<in> set (ht_nodes nt) \<and> node_name nd = n \<and> ht_map nt n = Some (node_entry nd)"
  by (auto simp: nt_entry_at_def ht_map_def dest: find_Some_in)

lemma nt_entry_at_None: "nt_entry_at n nt = None \<longleftrightarrow> ht_map nt n = None"
  by (simp add: nt_entry_at_def ht_map_def)

lemma unsetParent_inv [inv_intros]: "ht_inv H nt \<Longrightarrow> ht_inv H (unsetParent child parent nt)"
  by (simp add: unsetParent_def ht_modify_inv)

lemma unsetParent_map:
  assumes "child \<noteq> parent"
  shows "ht_map (unsetParent child parent nt) =
    (ht_map nt)(child := map_option (\<lambda>e. e\<lparr>nte_parent := None\<rparr>) (ht_map nt child),
      parent := map_option (\<lambda>e. e\<lparr>nte_children := erase_first (\<lambda>c. c = child) (nte_children e)\<rparr>) (ht_map nt parent))"
  using assms by (auto simp: unsetParent_def ht_modify_map fun_upd_twist)

lemma unsetParent_node:
  assumes "nd \<in> set (ht_nodes nt)" and "node_name nd = c" and "c \<noteq> p"
  shows "nd\<lparr>node_entry := (node_entry nd)\<lparr>nte_parent := None\<rparr>\<rparr> \<in> set (ht_nodes (unsetParent c p nt))"
proof -
  let ?f = "modify_node c (\<lambda>e. e\<lparr>nte_parent := None\<rparr>)"
    and ?g = "modify_node p (\<lambda>e. e\<lparr>nte_children := erase_first (\<lambda>x. x = c) (nte_children e)\<rparr>)"
  have "?f (?g nd) \<in> set (ht_nodes (unsetParent c p nt))"
    unfolding unsetParent_def ht_modify_nodes set_map by (intro imageI assms(1))
  moreover have "?f (?g nd) = nd\<lparr>node_entry := (node_entry nd)\<lparr>nte_parent := None\<rparr>\<rparr>"
    using assms(2,3) by (simp add: modify_node_def)
  ultimately show ?thesis by simp
qed

text \<open>One round of the loop: the empty entry \<open>c\<close> disappears, nothing else changes.\<close>

lemma erase_round:
  assumes inv: "nt_inv H nt" and at: "nt_entry_at c nt = Some nd" and em: "nte_isEmpty (node_entry nd)"
  defines "nt' \<equiv> (case nte_parent (node_entry nd) of
      None \<Rightarrow> ht_erase nd nt
    | Some p \<Rightarrow> ht_erase (nd\<lparr>node_entry := (node_entry nd)\<lparr>nte_parent := None\<rparr>\<rparr>) (unsetParent c p nt))"
  shows "nt_inv H nt' \<and> ht_map nt' = remove_leaf (ht_map nt) c \<and>
    nte_parent (node_entry nd) = (if c = [] then None else Some (butlast c))"
proof -
  have h: "ht_inv H nt" and t: "tree_ok (ht_map nt)" using inv by (auto simp: nt_inv_def)
  have nd: "nd \<in> set (ht_nodes nt)" "node_name nd = c" "ht_map nt c = Some (node_entry nd)"
    using nt_entry_at_Some[OF h at] by auto
  have par: "nte_parent (node_entry nd) = (if c = [] then None else Some (butlast c))"
    by (rule tree_okD(3)[OF t nd(3)])
  have m: "ht_inv H nt' \<and> ht_map nt' = remove_leaf (ht_map nt) c"
  proof (cases "c = []")
    case True
    then show ?thesis
      using ht_erase_map[OF h nd(1)] nd(2) par by (simp add: nt'_def remove_leaf_def)
  next
    case False
    let ?nd = "nd\<lparr>node_entry := (node_entry nd)\<lparr>nte_parent := None\<rparr>\<rparr>"
    have ne: "c \<noteq> butlast c" using butlast_neq[OF False] by auto
    have h1: "ht_inv H (unsetParent c (butlast c) nt)" by (rule unsetParent_inv[OF h])
    have nd1: "?nd \<in> set (ht_nodes (unsetParent c (butlast c) nt))"
      by (rule unsetParent_node[OF nd(1,2) ne])
    have "nt' = ht_erase ?nd (unsetParent c (butlast c) nt)" using par False by (simp add: nt'_def)
    with ht_erase_map[OF h1 nd1] show ?thesis
      using nd(2) False ne by (simp add: unsetParent_map[OF ne] remove_leaf_def fun_upd_twist)
  qed
  moreover have "nte_children (node_entry nd) = []"
    using em by (simp add: nte_isEmpty_def hasChildren_def)
  ultimately show ?thesis
    using tree_ok_remove_leaf[of "ht_map nt" c "node_entry nd"] t nd(3) par by (simp add: nt_inv_def)
qed

text \<open>
  The names that pruning from \<open>n\<close> removes: the prefixes of \<open>n\<close> below which the tree holds nothing
  but prefixes of \<open>n\<close> without table entries.
\<close>

definition prunable :: "(name \<rightharpoonup> 'i nt_entry) \<Rightarrow> name \<Rightarrow> name set" where
  "prunable M n = {q \<in> dom M. prefix q n \<and>
     (\<forall>r \<in> dom M. prefix q r \<longrightarrow> prefix r n \<and> map_slots M r = no_slots)}"

lemma prefix_butlast: "prefix q n \<Longrightarrow> q \<noteq> n \<Longrightarrow> prefix q (butlast n)"
  by (metis append_butlast_last_id prefix_snoc prefix_bot.extremum_uniqueI)

lemma prefix_butlast_trans: "prefix q (butlast n) \<Longrightarrow> prefix q n"
  using prefix_order.trans prefixeq_butlast by blast

lemma has_child_below:
  assumes "tree_ok M" and "M n = Some e" and "r \<in> dom M" and "strict_prefix n r"
  shows "nte_children e \<noteq> []"
proof -
  let ?c = "take (Suc (length n)) r"
  have l: "length n < length r" using assms(4) by (rule prefix_length_less)
  have tn: "take (length n) r = n"
    using assms(4) by (auto simp: strict_prefix_def prefix_take_iff)
  have "?c \<in> dom M" by (rule tree_prefix_closed[OF assms(1,3)]) (rule take_is_prefix)
  moreover have "butlast ?c = n" using l tn by (simp add: butlast_take)
  moreover have "?c \<noteq> []" using l by auto
  ultimately show ?thesis using tree_okD(6)[OF assms(1,2)] by force
qed

lemma prunable_nonempty_entry:
  assumes "tree_ok M" and "M n = Some e" and "\<not> nte_isEmpty e"
  shows "prunable M n = {}"
proof -
  have "\<not> (\<forall>r \<in> dom M. prefix q r \<longrightarrow> prefix r n \<and> map_slots M r = no_slots)" if q: "prefix q n" for q
  proof (cases "hasTableEntries e")
    case True
    then have "map_slots M n \<noteq> no_slots" using assms(2) by (simp add: map_slots_def hasTableEntries_slots)
    then show ?thesis using q assms(2) by blast
  next
    case False
    then have "nte_children e \<noteq> []" using assms(3) by (simp add: nte_isEmpty_def hasChildren_def)
    then obtain c where c: "c \<in> set (nte_children e)" using hd_in_set by blast
    then have "c \<in> dom M" "c \<noteq> []" "butlast c = n" using tree_okD(6)[OF assms(1,2)] by auto
    moreover from this have "prefix n c" "\<not> prefix c n"
      using prefixeq_butlast[of c] butlast_neq[of c] by (auto dest: prefix_order.antisym)
    ultimately show ?thesis using q prefix_order.trans by blast
  qed
  then show ?thesis by (auto simp: prunable_def)
qed

lemma prunable_empty_entry:
  assumes M: "tree_ok M" and e: "M n = Some e" "nte_isEmpty e"
  shows "prunable M n = insert n (if n = [] then {} else prunable (remove_leaf M n) (butlast n))"
proof -
  have leaf: "r \<in> dom M \<Longrightarrow> prefix n r \<Longrightarrow> r = n" for r
    using has_child_below[OF M e(1), of r] e(2) by (auto simp: nte_isEmpty_def hasChildren_def strict_prefix_def)
  have nt: "map_slots M n = no_slots" and sl: "map_slots (remove_leaf M n) = map_slots M"
    using e map_slots_remove_leaf[of M n e] by (simp_all add: nte_isEmpty_def map_slots_def[of M n] hasTableEntries_slots)
  have n: "n \<in> prunable M n" using leaf nt e(1) by (auto simp: prunable_def)
  show ?thesis
  proof (cases "n = []")
    case True
    then show ?thesis using n by (auto simp: prunable_def)
  next
    case False
    have "q \<in> prunable M n \<longleftrightarrow> q \<in> prunable (remove_leaf M n) (butlast n)" if "q \<noteq> n" for q
    proof
      assume q: "q \<in> prunable M n"
      then have "prefix r (butlast n)" if "r \<in> dom M" "r \<noteq> n" "prefix q r" for r
        using that prefix_butlast by (auto simp: prunable_def)
      with q \<open>q \<noteq> n\<close> show "q \<in> prunable (remove_leaf M n) (butlast n)"
        using prefix_butlast by (auto simp: prunable_def dom_remove_leaf sl)
    next
      assume q: "q \<in> prunable (remove_leaf M n) (butlast n)"
      then show "q \<in> prunable M n"
        using prefix_butlast_trans nt by (auto simp: prunable_def dom_remove_leaf sl)
    qed
    then have "x \<in> prunable M n \<longleftrightarrow> x \<in> insert n (prunable (remove_leaf M n) (butlast n))" for x
      using n by (cases "x = n") simp_all
    then show ?thesis using False by (simp only: set_eq_iff if_False) simp
  qed
qed

lemma eraseIfEmpty_loop_props:
  assumes "nt_inv H nt" and "length n < fuel"
  shows "nt_inv H (snd (eraseIfEmpty_loop fuel n True nt k)) \<and>
    nt_slots (snd (eraseIfEmpty_loop fuel n True nt k)) = nt_slots nt \<and>
    dom (ht_map (snd (eraseIfEmpty_loop fuel n True nt k))) =
      dom (ht_map nt) - (if n \<in> dom (ht_map nt) then prunable (ht_map nt) n else {}) \<and>
    fst (eraseIfEmpty_loop fuel n True nt k) =
      k + card (if n \<in> dom (ht_map nt) then prunable (ht_map nt) n else {})"
  using assms
proof (induction fuel arbitrary: n nt k)
  case (Suc fuel)
  have h: "ht_inv H nt" and t: "tree_ok (ht_map nt)" using Suc.prems by (auto simp: nt_inv_def)
  show ?case
  proof (cases "nt_entry_at n nt")
    case None
    then have "n \<notin> dom (ht_map nt)" by (simp add: nt_entry_at_None domIff)
    then show ?thesis using Suc.prems None by simp
  next
    case (Some nd)
    have e: "ht_map nt n = Some (node_entry nd)" using nt_entry_at_Some[OF h Some] by simp
    then have nd: "n \<in> dom (ht_map nt)" by blast
    show ?thesis
    proof (cases "nte_isEmpty (node_entry nd)")
      case False
      then show ?thesis
        using Suc.prems Some nd prunable_nonempty_entry[OF t e] by simp
    next
      case True
      note r = erase_round[OF Suc.prems(1) Some True]
      note pe = prunable_empty_entry[OF t e True]
      have sl: "map_slots (remove_leaf (ht_map nt) n) = nt_slots nt"
        using True e by (intro map_slots_remove_leaf) (auto simp: nte_isEmpty_def)
      show ?thesis
      proof (cases "n = []")
        case root: True
        then have "nte_parent (node_entry nd) = None" using r by simp
        with r have "nt_inv H (ht_erase nd nt)" "ht_map (ht_erase nd nt) = remove_leaf (ht_map nt) n"
          by simp_all
        then show ?thesis
          using root Some True \<open>nte_parent (node_entry nd) = None\<close> pe nd sl by (simp add: dom_remove_leaf)
      next
        case False
        define nt' where "nt' = ht_erase (nd\<lparr>node_entry := (node_entry nd)\<lparr>nte_parent := None\<rparr>\<rparr>)
          (unsetParent n (butlast n) nt)"
        have par: "nte_parent (node_entry nd) = Some (butlast n)" using r False by simp
        have i': "nt_inv H nt'" and m': "ht_map nt' = remove_leaf (ht_map nt) n"
          using r par by (simp_all add: nt'_def)
        have eq: "eraseIfEmpty_loop (Suc fuel) n True nt k = eraseIfEmpty_loop fuel (butlast n) True nt' (Suc k)"
          using Some True par by (simp add: nt'_def)
        have bd: "butlast n \<in> dom (ht_map nt')"
          using tree_okD(4)[OF t e False] butlast_neq[OF False] by (simp add: m' dom_remove_leaf)
        have lt: "length (butlast n) < fuel" using Suc.prems(2) False by (cases n) auto
        have nn: "n \<notin> prunable (ht_map nt') (butlast n)"
          by (simp add: m' prunable_def dom_remove_leaf)
        have fin: "finite (prunable (ht_map nt') (butlast n))"
          by (rule finite_subset[of _ "dom (ht_map nt')"]) (auto simp: prunable_def)
        have pr: "prunable (ht_map nt) n = insert n (prunable (ht_map nt') (butlast n))"
          using pe False m' by simp
        have card: "card (prunable (ht_map nt) n) = Suc (card (prunable (ht_map nt') (butlast n)))"
          unfolding pr using nn fin by simp
        have dom: "dom (ht_map nt') - prunable (ht_map nt') (butlast n) = dom (ht_map nt) - prunable (ht_map nt) n"
          unfolding pr m' dom_remove_leaf by blast
        note IH = Suc.IH[OF i' lt, of "Suc k", unfolded if_P[OF bd] dom]
        show ?thesis
          unfolding eq if_P[OF nd] card using IH sl by (simp add: m')
      qed
    qed
  qed
qed simp

lemma eraseIfEmpty_props:
  assumes "nt_inv H nt" and "n \<in> dom (ht_map nt)"
  shows "nt_inv H (snd (eraseIfEmpty n True nt))"
    and "nt_slots (snd (eraseIfEmpty n True nt)) = nt_slots nt"
    and "dom (ht_map (snd (eraseIfEmpty n True nt))) = dom (ht_map nt) - prunable (ht_map nt) n"
    and "fst (eraseIfEmpty n True nt) = card (prunable (ht_map nt) n)"
  using eraseIfEmpty_loop_props[OF assms(1), of n "Suc (length n)" 0] assms(2)
  by (simp_all add: eraseIfEmpty_def)

lemma eraseIfEmpty_single:
  assumes "nt_inv H nt" and e: "ht_map nt n = Some e"
  shows "nt_inv H (snd (eraseIfEmpty n False nt))"
    and "nt_slots (snd (eraseIfEmpty n False nt)) = nt_slots nt"
    and "ht_map (snd (eraseIfEmpty n False nt)) =
      (if nte_isEmpty e then remove_leaf (ht_map nt) n else ht_map nt)"
proof -
  have h: "ht_inv H nt" using assms(1) by (simp add: nt_inv_def)
  obtain nd where at: "nt_entry_at n nt = Some nd" and nd: "node_entry nd = e"
    using e nt_entry_at_None[of n nt] nt_entry_at_Some[OF h] by fastforce
  have "nt_inv H (snd (eraseIfEmpty n False nt)) \<and>
    ht_map (snd (eraseIfEmpty n False nt)) =
      (if nte_isEmpty e then remove_leaf (ht_map nt) n else ht_map nt)"
  proof (cases "nte_isEmpty e")
    case True
    have em: "nte_isEmpty (node_entry nd)" using True nd by simp
    from erase_round[OF assms(1) at em] show ?thesis
      using True at nd by (auto simp: eraseIfEmpty_def Let_def split: option.splits)
  qed (use at nd assms(1) in \<open>simp add: eraseIfEmpty_def\<close>)
  then show "nt_inv H (snd (eraseIfEmpty n False nt))"
    and "ht_map (snd (eraseIfEmpty n False nt)) =
      (if nte_isEmpty e then remove_leaf (ht_map nt) n else ht_map nt)"
    and "nt_slots (snd (eraseIfEmpty n False nt)) = nt_slots nt"
    using map_slots_remove_leaf[of "ht_map nt" n e] e by (auto simp: nte_isEmpty_def)
qed

section \<open>Exact and longest prefix match\<close>

lemma tree_depth: "tree_ok M \<Longrightarrow> q \<in> dom M \<Longrightarrow> length q \<le> getMaxDepth"
  using tree_okD(2) by blast

theorem nt_findExactMatch_map [view_simps]:
  assumes "nt_inv H nt"
  shows "nt_findExactMatch H n k nt = ht_map nt (take k n)"
proof -
  have t: "take (min (length n) k) n = take k n" by (simp add: min_def)
  have "ht_map nt (take k n) = None" if "getMaxDepth < min (length n) k"
  proof (rule ccontr)
    assume "ht_map nt (take k n) \<noteq> None"
    then have "length (take k n) \<le> getMaxDepth"
      using assms by (intro tree_depth[of "ht_map nt"]) (auto simp: nt_inv_def domIff)
    with that show False by (simp add: min_def split: if_splits)
  qed
  moreover have "map_option node_entry (ht_find H n (min (length n) k) nt) = ht_map nt (take k n)"
    using assms by (simp add: ht_find_map nt_inv_def t)
  ultimately show ?thesis by (simp add: nt_findExactMatch_def Let_def)
qed

lemma is_lpm_take_Suc:
  assumes "is_lpm M sel (take i n) r" and "\<And>e. M (take (Suc i) n) = Some e \<Longrightarrow> \<not> sel e" and "i < length n"
  shows "is_lpm M sel (take (Suc i) n) r"
proof -
  have "prefix q (take (Suc i) n) \<longleftrightarrow> prefix q (take i n) \<or> q = take (Suc i) n" for q
    using assms(3) by (auto simp: take_Suc_conv_app_nth)
  with assms(1,2) show ?thesis
    by (auto simp: is_lpm_def split: option.splits)
qed

lemma is_lpm_hit: "M n = Some e \<Longrightarrow> sel e \<Longrightarrow> is_lpm M sel n (Some e)"
  by (auto simp: is_lpm_def dest: prefix_length_le)

lemma is_lpm_Nil_miss: "(\<And>e. M [] = Some e \<Longrightarrow> \<not> sel e) \<Longrightarrow> is_lpm M sel [] None"
  by (simp add: is_lpm_def)

lemma lpm_loop_spec:
  assumes "ht_inv H nt" and "i \<le> length n" and "\<And>j. j \<le> i \<Longrightarrow> hashes ! j = computeHash H n j"
  shows "is_lpm (ht_map nt) sel (take i n) (lpm_loop hashes n sel nt i)"
  using assms(2,3)
proof (induction i)
  case 0
  have "ht_map nt [] = map_option node_entry (ht_find_hashes hashes n 0 nt)"
    using ht_find_hashes_map[OF assms(1), of hashes 0 n] 0 by simp
  then show ?case
    by (cases "ht_find_hashes hashes n 0 nt")
      (auto simp: lpm_loop.simps[of hashes n sel nt 0] intro: is_lpm_hit is_lpm_Nil_miss)
next
  case (Suc i)
  have f: "ht_map nt (take (Suc i) n) = map_option node_entry (ht_find_hashes hashes n (Suc i) nt)"
    using ht_find_hashes_map[OF assms(1), of hashes "Suc i" n] Suc.prems by simp
  have IH: "is_lpm (ht_map nt) sel (take i n) (lpm_loop hashes n sel nt i)"
    using Suc by simp
  show ?case
  proof (cases "\<exists>e. ht_map nt (take (Suc i) n) = Some e \<and> sel e")
    case True
    then obtain nd where "ht_find_hashes hashes n (Suc i) nt = Some nd" "sel (node_entry nd)"
      "ht_map nt (take (Suc i) n) = Some (node_entry nd)"
      using f by (cases "ht_find_hashes hashes n (Suc i) nt") auto
    then show ?thesis by (simp add: lpm_loop.simps[of hashes n sel nt "Suc i"] is_lpm_hit)
  next
    case False
    then have "lpm_loop hashes n sel nt (Suc i) = lpm_loop hashes n sel nt i"
      using f by (cases "ht_find_hashes hashes n (Suc i) nt")
        (auto simp: lpm_loop.simps[of hashes n sel nt "Suc i"])
    then show ?thesis
      using is_lpm_take_Suc[OF IH, of] False Suc.prems by auto
  qed
qed

lemma is_lpm_restrict:
  assumes "\<And>q. prefix q n \<Longrightarrow> q \<in> dom M \<Longrightarrow> prefix q p" and "prefix p n"
  shows "is_lpm M sel p r \<Longrightarrow> is_lpm M sel n r"
proof -
  have "prefix q p \<and> M q = Some e \<longleftrightarrow> prefix q n \<and> M q = Some e" for q e
    using assms prefix_order.trans by blast
  then show "is_lpm M sel p r \<Longrightarrow> is_lpm M sel n r"
    by (cases r) (simp add: is_lpm_def, blast)+
qed

lemma nt_findLongestPrefixMatch_lpm:
  assumes "nt_inv H nt"
  shows "is_lpm (ht_map nt) sel n (nt_findLongestPrefixMatch H n sel nt)"
proof -
  let ?d = "min (length n) getMaxDepth"
  have h: "ht_inv H nt" and t: "tree_ok (ht_map nt)" using assms by (auto simp: nt_inv_def)
  have "is_lpm (ht_map nt) sel (take ?d n) (nt_findLongestPrefixMatch H n sel nt)"
    unfolding nt_findLongestPrefixMatch_def Let_def
    by (rule lpm_loop_spec[OF h]) (simp_all add: computeHashes_nth)
  moreover have "prefix q (take ?d n)" if "prefix q n" "q \<in> dom (ht_map nt)" for q
    using that tree_depth[OF t that(2)] by (auto simp: prefix_take_iff min_def)
  ultimately show ?thesis
    using is_lpm_restrict[of n "ht_map nt" "take ?d n"] take_is_prefix by blast
qed

lemma lpm_entry_loop_spec:
  assumes "nt_inv H nt" and "p \<in> dom (ht_map nt)" and "length p < fuel"
  shows "is_lpm (ht_map nt) sel p (lpm_entry_loop fuel p sel nt)"
  using assms(2,3)
proof (induction fuel arbitrary: p)
  case (Suc fuel)
  have h: "ht_inv H nt" and t: "tree_ok (ht_map nt)" using assms(1) by (auto simp: nt_inv_def)
  obtain nd where at: "nt_entry_at p nt = Some nd"
    using Suc.prems(1) nt_entry_at_None[of p nt] by fastforce
  then have e: "ht_map nt p = Some (node_entry nd)" using nt_entry_at_Some[OF h] by blast
  show ?case
  proof (cases "sel (node_entry nd)")
    case True
    then show ?thesis using at e by (simp add: is_lpm_hit)
  next
    case no: False
    show ?thesis
    proof (cases "p = []")
      case True
      then have "nte_parent (node_entry nd) = None" using tree_okD(3)[OF t e] by simp
      then show ?thesis using at no e True by (simp add: is_lpm_def)
    next
      case False
      then have "nte_parent (node_entry nd) = Some (butlast p)" using tree_okD(3)[OF t e] by simp
      then have eq: "lpm_entry_loop (Suc fuel) p sel nt = lpm_entry_loop fuel (butlast p) sel nt"
        using at no by simp
      have len: "length (butlast p) < fuel" using Suc.prems(2) False by (cases p) auto
      have IH: "is_lpm (ht_map nt) sel (take (length p - 1) p) (lpm_entry_loop fuel (butlast p) sel nt)"
        using Suc.IH[OF tree_okD(4)[OF t e False] len] by (simp add: butlast_conv_take)
      have p: "Suc (length p - 1) = length p" "length p - 1 < length p" using False by (cases p; simp)+
      show ?thesis
        using is_lpm_take_Suc[OF IH _ p(2)] e no unfolding eq p(1) by simp
    qed
  qed
qed simp

lemma nt_findLongestPrefixMatch_entry_lpm:
  assumes "nt_inv H nt" and "p \<in> dom (ht_map nt)"
  shows "is_lpm (ht_map nt) sel p (nt_findLongestPrefixMatch_entry p sel nt)"
  unfolding nt_findLongestPrefixMatch_entry_def
  by (rule lpm_entry_loop_spec[OF assms]) simp

text \<open>\<open>go_deeper\<close> stops at the longest prefix of the name that has an entry.\<close>

lemma go_deeper_spec:
  assumes "nt_inv H nt" and "take k n \<in> dom (ht_map nt)" and "k \<le> d" and "d \<le> length n"
  shows "\<exists>j. k \<le> j \<and> j \<le> d \<and> go_deeper H n nt (take k n) [k + 1..<d + 1] = take j n \<and>
    take j n \<in> dom (ht_map nt) \<and> (j < d \<longrightarrow> take (Suc j) n \<notin> dom (ht_map nt))"
  using assms(2,3)
proof (induction "d - k" arbitrary: k)
  case 0
  then show ?case by (intro exI[of _ k]) simp
next
  case (Suc m)
  then have lt: "k < d" by simp
  then have l: "[Suc k..<Suc d] = Suc k # [Suc (Suc k)..<Suc d]" by (simp add: upt_conv_Cons del: upt_Suc)
  have ex: "nt_findExactMatch H n (Suc k) nt = ht_map nt (take (Suc k) n)"
    by (rule nt_findExactMatch_map[OF assms(1)])
  show ?case
  proof (cases "ht_map nt (take (Suc k) n)")
    case None
    then show ?thesis
      using Suc.prems lt by (intro exI[of _ k]) (auto simp: l ex domIff simp del: upt_Suc)
  next
    case (Some e)
    have nm: "nte_name e = take (Suc k) n"
      using Some assms(1) by (auto simp: nt_inv_def dest: tree_okD(1))
    have "Suc k \<le> d" "m = d - Suc k" using lt Suc.hyps(2) by auto
    then obtain j where "Suc k \<le> j" "j \<le> d"
      "go_deeper H n nt (take (Suc k) n) [Suc k + 1..<d + 1] = take j n"
      "take j n \<in> dom (ht_map nt)" "j < d \<longrightarrow> take (Suc j) n \<notin> dom (ht_map nt)"
      using Suc.hyps(1)[of "Suc k"] Some by auto
    then show ?thesis
      by (intro exI[of _ j]) (simp add: l ex Some nm del: upt_Suc)
  qed
qed

lemma nt_findLongestPrefixMatch_pit_lpm:
  assumes inv: "nt_inv H nt" and at: "pe_nameTreeEntry pe = Some q"
    and q: "q \<in> dom (ht_map nt)" "prefix q (pe_name pe)"
  shows "is_lpm (ht_map nt) sel (pe_name pe) (nt_findLongestPrefixMatch_pit H pe sel nt)"
proof -
  let ?n = "pe_name pe" and ?M = "ht_map nt"
  let ?d = "min (length ?n) getMaxDepth"
  have t: "tree_ok ?M" using inv by (simp add: nt_inv_def)
  have ql: "length q \<le> ?d" using tree_depth[OF t q(1)] q(2) by (simp add: prefix_length_le)
  have qt: "take (length q) ?n = q" using q(2) by (simp add: prefix_take_iff)
  obtain j where j: "j \<le> ?d" "go_deeper H ?n nt q [length q + 1..<?d + 1] = take j ?n"
    "take j ?n \<in> dom ?M" "j < ?d \<longrightarrow> take (Suc j) ?n \<notin> dom ?M" "length q \<le> j"
    using go_deeper_spec[OF inv, of "length q" ?n ?d] q(1) ql qt by auto
  define start where
    "start = (if length q < length ?n then go_deeper H ?n nt q [length q + 1..<?d + 1] else q)"
  have start: "start = take j ?n"
    using j ql qt q(2) by (auto simp: start_def dest: prefix_length_le)
  have "prefix r start" if r: "prefix r ?n" "r \<in> dom ?M" for r
  proof (rule ccontr)
    assume np: "\<not> prefix r start"
    have lj: "length start = j" "prefix start ?n" using j(1) by (simp_all add: start take_is_prefix)
    then have "Suc j \<le> length r"
      using prefix_length_prefix[OF r(1) lj(2)] np by linarith
    moreover from this have "length (take (Suc j) ?n) = Suc j"
      using prefix_length_le[OF r(1)] by simp
    ultimately have "prefix (take (Suc j) ?n) r"
      using prefix_length_prefix[OF take_is_prefix r(1), of "Suc j"] by simp
    then have "take (Suc j) ?n \<in> dom ?M" using tree_prefix_closed[OF t r(2)] by blast
    moreover have "j < ?d"
      using \<open>Suc j \<le> length r\<close> tree_depth[OF t r(2)] prefix_length_le[OF r(1)] by simp
    ultimately show False using j(4) by simp
  qed
  moreover have "is_lpm ?M sel start (nt_findLongestPrefixMatch_entry start sel nt)"
    using nt_findLongestPrefixMatch_entry_lpm[OF inv] j(3) start by simp
  moreover have "nt_findLongestPrefixMatch_pit H pe sel nt = nt_findLongestPrefixMatch_entry start sel nt"
    by (simp add: nt_findLongestPrefixMatch_pit_def at start_def Let_def)
  ultimately show ?thesis
    using is_lpm_restrict[of ?n ?M start] start by (simp add: take_is_prefix)
qed

end
