(* ===== verification/Name_Index.thy ===== *)
theory Name_Index
  imports Name_Tree
begin

text \<open>
  The contract between the name tree and the tables that attach their entries to it. A table
  makes sure that a name has an entry, writes its slot of that entry, and asks for pruning after
  it has emptied a slot. The contract says what each of these does to the slots of every name;
  from it follow the facts that all four tables share: how the number of attached entries changes
  with each operation. The name tree model is shown to fulfil the contract.
\<close>

section \<open>Writing slots\<close>

text \<open>A write of a table leaves name, parent and children alone; its effect on the slots depends on
  the name and the slots only.\<close>

definition entry_of_slots :: "name \<Rightarrow> 'i table_slots \<Rightarrow> 'i nt_entry" where
  "entry_of_slots n sl =
     \<lparr>nte_name = n, nte_parent = None, nte_children = [], nte_fib = fst sl, nte_pit = fst (snd sl),
      nte_meas = fst (snd (snd sl)), nte_sc = snd (snd (snd sl))\<rparr>"

definition slot_effect :: "('i nt_entry \<Rightarrow> 'i nt_entry) \<Rightarrow> name \<Rightarrow> 'i table_slots \<Rightarrow> 'i table_slots" where
  "slot_effect f n sl = nte_slots (f (entry_of_slots n sl))"

definition slot_write :: "('i nt_entry \<Rightarrow> 'i nt_entry) \<Rightarrow> bool" where
  "slot_write f \<longleftrightarrow>
     (\<forall>e. nte_name (f e) = nte_name e \<and> nte_parent (f e) = nte_parent e \<and>
          nte_children (f e) = nte_children e \<and>
          nte_slots (f e) = slot_effect f (nte_name e) (nte_slots e))"

lemma slot_writeD:
  assumes "slot_write f"
  shows "nte_name (f e) = nte_name e" and "nte_parent (f e) = nte_parent e"
    and "nte_children (f e) = nte_children e"
    and "nte_slots (f e) = slot_effect f (nte_name e) (nte_slots e)"
  using assms by (auto simp: slot_write_def)

lemma slot_write_setters [simp]:
  "slot_write (setFibEntry fe)"
  "slot_write (insertPitEntry pe)"
  "slot_write (erasePitEntry k)"
  "slot_write (setMeasurementsEntry me)"
  "slot_write (setStrategyChoiceEntry sce)"
  by (simp_all add: slot_write_def slot_effect_def entry_of_slots_def nte_slots_def setFibEntry_def
      insertPitEntry_def erasePitEntry_def setMeasurementsEntry_def setStrategyChoiceEntry_def)

text \<open>Writes that change one slot in place through a pointer to the table entry.\<close>

lemma slot_write_field_updates [simp]:
  "slot_write (nte_fib_update g)"
  "slot_write (nte_pit_update h)"
  "slot_write (nte_meas_update m)"
  "slot_write (nte_sc_update s)"
  by (simp_all add: slot_write_def slot_effect_def entry_of_slots_def nte_slots_def)

lemma slot_effect_setters [simp]:
  "slot_effect (setFibEntry fe) n (a, b, c, d) = (map_option (fe_nameTreeEntry_update (\<lambda>_. Some n)) fe, b, c, d)"
  "slot_effect (insertPitEntry pe) n (a, b, c, d) = (a, b @ [pe\<lparr>pe_nameTreeEntry := Some n\<rparr>], c, d)"
  "slot_effect (erasePitEntry k) n (a, b, c, d) = (a, swap_erase (\<lambda>pe. pe_key pe = k) b, c, d)"
  "slot_effect (setMeasurementsEntry me) n (a, b, c, d) = (a, b, map_option (me_nameTreeEntry_update (\<lambda>_. Some n)) me, d)"
  "slot_effect (setStrategyChoiceEntry sce) n (a, b, c, d) = (a, b, c, map_option (sce_nameTreeEntry_update (\<lambda>_. Some n)) sce)"
  "slot_effect (nte_fib_update g) n (a, b, c, d) = (g a, b, c, d)"
  "slot_effect (nte_pit_update h) n (a, b, c, d) = (a, h b, c, d)"
  "slot_effect (nte_meas_update m) n (a, b, c, d) = (a, b, m c, d)"
  "slot_effect (nte_sc_update s) n (a, b, c, d) = (a, b, c, s d)"
  by (simp_all add: slot_effect_def entry_of_slots_def nte_slots_def setFibEntry_def
      insertPitEntry_def erasePitEntry_def setMeasurementsEntry_def setStrategyChoiceEntry_def)

section \<open>The contract\<close>

locale name_index =
  fixes inv :: "'t \<Rightarrow> bool"
    and present :: "'t \<Rightarrow> name set"
    and slots :: "'t \<Rightarrow> name \<Rightarrow> 's"
    and empty_slots :: 's
    and ensure :: "name \<Rightarrow> nat \<Rightarrow> 't \<Rightarrow> 't"
    and prune :: "name \<Rightarrow> 't \<Rightarrow> 't"
    and legal :: "'w \<Rightarrow> bool"
    and effect :: "'w \<Rightarrow> name \<Rightarrow> 's \<Rightarrow> 's"
    and upd :: "name \<Rightarrow> 'w \<Rightarrow> 't \<Rightarrow> 't"
    and depth :: nat
  assumes finite_present: "inv t \<Longrightarrow> finite (present t)"
    and absent_empty: "inv t \<Longrightarrow> n \<notin> present t \<Longrightarrow> slots t n = empty_slots"
    and ensure_inv: "inv t \<Longrightarrow> k \<le> length n \<Longrightarrow> k \<le> depth \<Longrightarrow> inv (ensure n k t)"
    and ensure_slots: "inv t \<Longrightarrow> k \<le> length n \<Longrightarrow> k \<le> depth \<Longrightarrow> slots (ensure n k t) = slots t"
    and ensure_present: "inv t \<Longrightarrow> k \<le> length n \<Longrightarrow> k \<le> depth \<Longrightarrow>
      present (ensure n k t) = present t \<union> {q. prefix q (take k n)}"
    and prune_inv: "inv t \<Longrightarrow> n \<in> present t \<Longrightarrow> inv (prune n t)"
    and prune_slots: "inv t \<Longrightarrow> n \<in> present t \<Longrightarrow> slots (prune n t) = slots t"
    and prune_present: "inv t \<Longrightarrow> n \<in> present t \<Longrightarrow> present (prune n t) \<subseteq> present t"
    and write_inv: "inv t \<Longrightarrow> legal w \<Longrightarrow> n \<in> present t \<Longrightarrow> inv (upd n w t)"
    and write_slots: "inv t \<Longrightarrow> legal w \<Longrightarrow> n \<in> present t \<Longrightarrow>
      slots (upd n w t) = (slots t)(n := effect w n (slots t n))"
    and write_present: "inv t \<Longrightarrow> legal w \<Longrightarrow> n \<in> present t \<Longrightarrow> present (upd n w t) = present t"
begin

lemma ensure_there: "inv t \<Longrightarrow> k \<le> length n \<Longrightarrow> k \<le> depth \<Longrightarrow> take k n \<in> present (ensure n k t)"
  by (simp add: ensure_present)

lemma nonempty_present: "inv t \<Longrightarrow> slots t n \<noteq> empty_slots \<Longrightarrow> n \<in> present t"
  using absent_empty by blast

end

text \<open>
  A table of the name tree counts its entries. \<open>cnt\<close> is the number of entries of the table in the
  slots of one name; the total over all names is what \<open>size()\<close> should report.
\<close>

locale indexed_table = name_index inv present slots empty_slots ensure prune legal effect upd depth
  for inv :: "'t \<Rightarrow> bool" and present :: "'t \<Rightarrow> name set" and slots :: "'t \<Rightarrow> name \<Rightarrow> 's"
    and empty_slots :: 's and ensure :: "name \<Rightarrow> nat \<Rightarrow> 't \<Rightarrow> 't" and prune :: "name \<Rightarrow> 't \<Rightarrow> 't"
    and legal :: "'w \<Rightarrow> bool" and effect :: "'w \<Rightarrow> name \<Rightarrow> 's \<Rightarrow> 's" and upd :: "name \<Rightarrow> 'w \<Rightarrow> 't \<Rightarrow> 't"
    and depth :: nat +
  fixes cnt :: "'s \<Rightarrow> nat"
  assumes cnt_empty: "cnt empty_slots = 0"
begin

lemma total_superset:
  assumes "inv t" and "finite A" and "present t \<subseteq> A"
  shows "(\<Sum>n\<in>present t. cnt (slots t n)) = (\<Sum>n\<in>A. cnt (slots t n))"
  by (rule sum.mono_neutral_left[OF assms(2,3)]) (simp add: absent_empty[OF assms(1)] cnt_empty)

lemma total_ensure:
  assumes "inv t" and "k \<le> length n" and "k \<le> depth"
  shows "(\<Sum>q\<in>present (ensure n k t). cnt (slots (ensure n k t) q)) = (\<Sum>q\<in>present t. cnt (slots t q))"
proof -
  have i: "inv (ensure n k t)" by (rule ensure_inv[OF assms])
  have "present t \<subseteq> present (ensure n k t)" by (simp add: ensure_present[OF assms])
  then show ?thesis
    using total_superset[OF assms(1) finite_present[OF i]] ensure_slots[OF assms] by simp
qed

lemma total_prune:
  assumes "inv t" and "n \<in> present t"
  shows "(\<Sum>q\<in>present (prune n t). cnt (slots (prune n t) q)) = (\<Sum>q\<in>present t. cnt (slots t q))"
  using total_superset[OF prune_inv[OF assms] finite_present[OF assms(1)] prune_present[OF assms]]
    prune_slots[OF assms] by simp

lemma total_write:
  assumes "inv t" and "legal w" and "n \<in> present t"
  shows "(\<Sum>q\<in>present (upd n w t). cnt (slots (upd n w t) q)) + cnt (slots t n) =
    (\<Sum>q\<in>present t. cnt (slots t q)) + cnt (effect w n (slots t n))"
proof -
  have fin: "finite (present t)" by (rule finite_present[OF assms(1)])
  have "(\<Sum>q\<in>present t. cnt (slots (upd n w t) q)) =
      cnt (effect w n (slots t n)) + (\<Sum>q\<in>present t - {n}. cnt (slots t q))"
    using sum.remove[OF fin assms(3), of "\<lambda>q. cnt (slots (upd n w t) q)"]
    by (simp add: write_slots[OF assms])
  moreover have "(\<Sum>q\<in>present t. cnt (slots t q)) = cnt (slots t n) + (\<Sum>q\<in>present t - {n}. cnt (slots t q))"
    by (rule sum.remove[OF fin assms(3)])
  ultimately show ?thesis by (simp add: write_present[OF assms])
qed

end

section \<open>The name tree fulfils the contract\<close>

lemma ht_modify_slots:
  assumes "slot_write f" and "n \<in> dom (ht_map nt)"
  shows "nt_slots (ht_modify n f nt) = (nt_slots nt)(n := slot_effect f n (nt_slots nt n))"
proof
  fix q
  obtain e where "ht_map nt n = Some e" using assms(2) by auto
  then show "nt_slots (ht_modify n f nt) q = ((nt_slots nt)(n := slot_effect f n (nt_slots nt n))) q"
    using slot_writeD[OF assms(1)] ht_map_name[of nt n e]
    by (simp add: ht_modify_map map_slots_def)
qed

lemma ht_modify_dom: "slot_write f \<Longrightarrow> dom (ht_map (ht_modify n f nt)) = dom (ht_map nt)"
  by (auto simp: ht_modify_map slot_writeD dom_def)

lemma ht_modify_nt_inv [inv_intros]:
  assumes "slot_write f" and "nt_inv H nt"
  shows "nt_inv H (ht_modify n f nt)"
proof -
  have t: "tree_ok (ht_map nt)" and h: "ht_inv H nt" using assms(2) by (auto simp: nt_inv_def)
  have "tree_ok (ht_map (ht_modify n f nt))"
    unfolding tree_ok_def ht_modify_dom[OF assms(1)]
  proof (intro allI impI)
    fix q e assume "ht_map (ht_modify n f nt) q = Some e"
    then obtain e0 where "ht_map nt q = Some e0" "e = (if q = n then f e0 else e0)"
      by (auto simp: ht_modify_map slot_writeD(1)[OF assms(1)] split: if_splits)
    then show "nte_name e = q \<and> length q \<le> getMaxDepth \<and>
        nte_parent e = (if q = [] then None else Some (butlast q)) \<and>
        (q \<noteq> [] \<longrightarrow> butlast q \<in> dom (ht_map nt)) \<and> distinct (nte_children e) \<and>
        set (nte_children e) = {c \<in> dom (ht_map nt). c \<noteq> [] \<and> butlast c = q}"
      using tree_okD[OF t, of q e0] slot_writeD[OF assms(1)] by simp
  qed
  then show ?thesis
    using ht_modify_inv[OF slot_writeD(1)[OF assms(1)] h] by (simp add: nt_inv_def)
qed

interpretation nt: name_index "nt_inv H" "\<lambda>t. dom (ht_map t)" "\<lambda>t. nt_slots t" no_slots
  "\<lambda>n k t. snd (nt_lookup H n k t)" "\<lambda>n t. snd (eraseIfEmpty n True t)"
  slot_write slot_effect ht_modify getMaxDepth for H
proof
  fix t :: "'a name_tree" and n k and w :: "'a nt_entry \<Rightarrow> 'a nt_entry"
  show "finite (dom (ht_map t))" by simp
  show "n \<notin> dom (ht_map t) \<Longrightarrow> nt_slots t n = no_slots" by (simp add: map_slots_def domIff)
  show "nt_inv H t \<Longrightarrow> n \<in> dom (ht_map t) \<Longrightarrow> dom (ht_map (snd (eraseIfEmpty n True t))) \<subseteq> dom (ht_map t)"
    by (simp add: eraseIfEmpty_props(3))
qed (simp_all add: nt_lookup_props eraseIfEmpty_props ht_modify_nt_inv ht_modify_slots ht_modify_dom)

end
