(* ===== verification/Tables.thy ===== *)
theory Tables
  imports Name_Index
begin

text \<open>
  The state shared by the tables of the forwarder: one name tree and, per table, the counter
  \<open>m_nItems\<close> (a \<open>size_t\<close>, so it wraps). The FIB, the PIT, Measurements and Strategy Choice are all
  constructed over the same name tree. The invariant says that every table entry sits in the name
  tree entry of its name and that each counter agrees with what is attached.
\<close>

section \<open>State\<close>

record 'i tables =
  nameTree :: "'i name_tree"
  fib_nItems :: u64
  pit_nItems :: u64
  meas_nItems :: u64
  sc_nItems :: u64

definition mk_tables :: "nat \<Rightarrow> 'i tables" where
  "mk_tables nBuckets =
     \<lparr>nameTree = mk_name_tree nBuckets, fib_nItems = 0, pit_nItems = 0, meas_nItems = 0, sc_nItems = 0\<rparr>"

text \<open>The name tree entry that a PIT entry is attached to: the name without implicit digest, cut at
  the maximum depth.\<close>

definition pit_nteDepth :: "name \<Rightarrow> nat" where
  "pit_nteDepth n = min (length n - (if endsWithDigest n then 1 else 0)) getMaxDepth"

section \<open>Views\<close>

abbreviation fib_at :: "'i tables \<Rightarrow> name \<Rightarrow> fib_entry option" where
  "fib_at tb n \<equiv> fst (nt_slots (nameTree tb) n)"

abbreviation pit_at :: "'i tables \<Rightarrow> name \<Rightarrow> 'i pit_entry list" where
  "pit_at tb n \<equiv> fst (snd (nt_slots (nameTree tb) n))"

abbreviation meas_at :: "'i tables \<Rightarrow> name \<Rightarrow> 'i measurements_entry option" where
  "meas_at tb n \<equiv> fst (snd (snd (nt_slots (nameTree tb) n)))"

abbreviation sc_at :: "'i tables \<Rightarrow> name \<Rightarrow> strategy_choice_entry option" where
  "sc_at tb n \<equiv> snd (snd (snd (nt_slots (nameTree tb) n)))"

definition names :: "'i tables \<Rightarrow> name set" where
  "names tb = dom (ht_map (nameTree tb))"

text \<open>The longest prefix of a name that satisfies a predicate.\<close>

definition longest_match :: "(name \<Rightarrow> bool) \<Rightarrow> name \<Rightarrow> name option" where
  "longest_match P n = find P (rev (prefixes n))"

section \<open>Invariant\<close>

definition fib_slot_ok :: "name \<Rightarrow> fib_entry option \<Rightarrow> bool" where
  "fib_slot_ok n s = (case s of None \<Rightarrow> True
     | Some e \<Rightarrow> fe_prefix e = n \<and> fe_nameTreeEntry e = Some n \<and> fib_entry_ok e)"

definition pit_slot_ok :: "name \<Rightarrow> 'i pit_entry list \<Rightarrow> bool" where
  "pit_slot_ok n es \<longleftrightarrow>
     distinct (map (\<lambda>pe. pe_key pe) es) \<and>
     (\<forall>pe\<in>set es. pe_nameTreeEntry pe = Some n \<and> take (pit_nteDepth (pe_name pe)) (pe_name pe) = n \<and>
        pit_entry_ok pe)"

definition meas_slot_ok :: "name \<Rightarrow> 'i measurements_entry option \<Rightarrow> bool" where
  "meas_slot_ok n s = (case s of None \<Rightarrow> True | Some e \<Rightarrow> me_name e = n \<and> me_nameTreeEntry e = Some n)"

definition sc_slot_ok :: "name \<Rightarrow> strategy_choice_entry option \<Rightarrow> bool" where
  "sc_slot_ok n s = (case s of None \<Rightarrow> True | Some e \<Rightarrow> sce_prefix e = n \<and> sce_nameTreeEntry e = Some n)"

definition slots_ok :: "name \<Rightarrow> 'i table_slots \<Rightarrow> bool" where
  "slots_ok n sl \<longleftrightarrow> (case sl of (fe, pes, me, sce) \<Rightarrow>
     fib_slot_ok n fe \<and> pit_slot_ok n pes \<and> meas_slot_ok n me \<and> sc_slot_ok n sce)"

definition cnt_fib :: "'i table_slots \<Rightarrow> nat" where
  "cnt_fib sl = (if fst sl = None then 0 else 1)"

definition cnt_pit :: "'i table_slots \<Rightarrow> nat" where
  "cnt_pit sl = length (fst (snd sl))"

definition cnt_meas :: "'i table_slots \<Rightarrow> nat" where
  "cnt_meas sl = (if fst (snd (snd sl)) = None then 0 else 1)"

definition cnt_sc :: "'i table_slots \<Rightarrow> nat" where
  "cnt_sc sl = (if snd (snd (snd sl)) = None then 0 else 1)"

lemmas cnt_defs = cnt_fib_def cnt_pit_def cnt_meas_def cnt_sc_def

text \<open>The number of entries of a table attached to the name tree.\<close>

definition attached :: "('i table_slots \<Rightarrow> nat) \<Rightarrow> 'i tables \<Rightarrow> nat" where
  "attached cnt tb = (\<Sum>n\<in>dom (ht_map (nameTree tb)). cnt (nt_slots (nameTree tb) n))"

definition tables_ok :: "(component \<Rightarrow> u64) \<Rightarrow> 'i tables \<Rightarrow> bool" where
  "tables_ok H tb \<longleftrightarrow>
     nt_inv H (nameTree tb) \<and> (\<forall>n. slots_ok n (nt_slots (nameTree tb) n)) \<and>
     fib_nItems tb = of_nat (attached cnt_fib tb) \<and> pit_nItems tb = of_nat (attached cnt_pit tb) \<and>
     meas_nItems tb = of_nat (attached cnt_meas tb) \<and> sc_nItems tb = of_nat (attached cnt_sc tb)"

section \<open>The counting contract holds for every table\<close>

interpretation fibt: indexed_table "nt_inv H" "\<lambda>t. dom (ht_map t)" "\<lambda>t. nt_slots t" no_slots
  "\<lambda>n k t. snd (nt_lookup H n k t)" "\<lambda>n t. snd (eraseIfEmpty n True t)"
  slot_write slot_effect ht_modify getMaxDepth cnt_fib for H
  by unfold_locales (simp add: cnt_fib_def no_slots_def)

interpretation pitt: indexed_table "nt_inv H" "\<lambda>t. dom (ht_map t)" "\<lambda>t. nt_slots t" no_slots
  "\<lambda>n k t. snd (nt_lookup H n k t)" "\<lambda>n t. snd (eraseIfEmpty n True t)"
  slot_write slot_effect ht_modify getMaxDepth cnt_pit for H
  by unfold_locales (simp add: cnt_pit_def no_slots_def)

interpretation meast: indexed_table "nt_inv H" "\<lambda>t. dom (ht_map t)" "\<lambda>t. nt_slots t" no_slots
  "\<lambda>n k t. snd (nt_lookup H n k t)" "\<lambda>n t. snd (eraseIfEmpty n True t)"
  slot_write slot_effect ht_modify getMaxDepth cnt_meas for H
  by unfold_locales (simp add: cnt_meas_def no_slots_def)

interpretation sct: indexed_table "nt_inv H" "\<lambda>t. dom (ht_map t)" "\<lambda>t. nt_slots t" no_slots
  "\<lambda>n k t. snd (nt_lookup H n k t)" "\<lambda>n t. snd (eraseIfEmpty n True t)"
  slot_write slot_effect ht_modify getMaxDepth cnt_sc for H
  by unfold_locales (simp add: cnt_sc_def no_slots_def)

section \<open>Longest match\<close>

lemma find_rev_prefixes:
  "find P (rev (prefixes n)) = Some q \<longleftrightarrow>
   prefix q n \<and> P q \<and> (\<forall>q'. prefix q' n \<longrightarrow> P q' \<longrightarrow> length q' \<le> length q)"
proof (induction n rule: rev_induct)
  case Nil
  show ?case by auto
next
  case (snoc x n)
  show ?case
  proof (cases "P (n @ [x])")
    case True
    have "prefix q (n @ [x]) \<Longrightarrow> length (n @ [x]) \<le> length q \<Longrightarrow> q = n @ [x]"
      by (simp add: prefix_take_iff)
    with True show ?thesis by (auto dest: prefix_length_le)
  next
    case False
    then show ?thesis using snoc by auto
  qed
qed

lemma longest_match_Some_iff:
  "longest_match P n = Some q \<longleftrightarrow>
   prefix q n \<and> P q \<and> (\<forall>q'. prefix q' n \<longrightarrow> P q' \<longrightarrow> length q' \<le> length q)"
  by (simp add: longest_match_def find_rev_prefixes)

lemma longest_match_None_iff: "longest_match P n = None \<longleftrightarrow> (\<forall>q. prefix q n \<longrightarrow> \<not> P q)"
  by (auto simp: longest_match_def find_None_iff)

lemma is_lpm_longest_match:
  assumes "is_lpm M sel n r" and "\<And>q. P q \<longleftrightarrow> (\<exists>e. M q = Some e \<and> sel e)"
  shows "r = (case longest_match P n of None \<Rightarrow> None | Some q \<Rightarrow> M q)"
proof (cases r)
  case None
  then have "longest_match P n = None" using assms by (auto simp: is_lpm_def longest_match_None_iff)
  with None show ?thesis by simp
next
  case (Some e)
  then obtain q where "longest_match P n = Some q" "M q = Some e"
    using assms by (auto simp: is_lpm_def longest_match_Some_iff)
  with Some show ?thesis by simp
qed

section \<open>Steps of the tables\<close>

lemma slots_ok_empty [simp]: "slots_ok n no_slots"
  by (simp add: slots_ok_def no_slots_def fib_slot_ok_def pit_slot_ok_def meas_slot_ok_def sc_slot_ok_def)

lemma tables_okD:
  assumes "tables_ok H tb"
  shows "nt_inv H (nameTree tb)" and "ht_inv H (nameTree tb)" and "tree_ok (ht_map (nameTree tb))"
    and "slots_ok n (nt_slots (nameTree tb) n)"
    and "fib_slot_ok n (fib_at tb n)" and "pit_slot_ok n (pit_at tb n)"
    and "meas_slot_ok n (meas_at tb n)" and "sc_slot_ok n (sc_at tb n)"
  using assms by (auto simp: tables_ok_def nt_inv_def slots_ok_def split_beta)

lemma tables_ok_counts:
  assumes "tables_ok H tb"
  shows "fib_nItems tb = of_nat (attached cnt_fib tb)" and "pit_nItems tb = of_nat (attached cnt_pit tb)"
    and "meas_nItems tb = of_nat (attached cnt_meas tb)" and "sc_nItems tb = of_nat (attached cnt_sc tb)"
  using assms by (auto simp: tables_ok_def)

lemma tables_ok_mk: "0 < nBuckets \<Longrightarrow> tables_ok H (mk_tables nBuckets)"
  by (simp add: tables_ok_def mk_tables_def mk_name_tree_def nt_inv_def ht_inv_mk tree_ok_def attached_def)
    (simp add: map_slots_def)

lemma attached_cong: "nameTree tb' = nameTree tb \<Longrightarrow> attached cnt tb' = attached cnt tb"
  by (simp add: attached_def)

text \<open>The counters do not matter for what is attached.\<close>

lemma attached_nItems [simp]:
  "attached cnt (fib_nItems_update f tb) = attached cnt tb"
  "attached cnt (pit_nItems_update f tb) = attached cnt tb"
  "attached cnt (meas_nItems_update f tb) = attached cnt tb"
  "attached cnt (sc_nItems_update f tb) = attached cnt tb"
  by (simp_all add: attached_def)

lemma tables_ok_lookup [inv_intros]:
  assumes "tables_ok H tb" and "k \<le> length n" and "k \<le> getMaxDepth"
  shows "tables_ok H (tb\<lparr>nameTree := snd (nt_lookup H n k (nameTree tb))\<rparr>)"
  using assms nt_lookup_props[OF tables_okD(1)[OF assms(1)] assms(2,3)]
    fibt.total_ensure[OF tables_okD(1)[OF assms(1)] assms(2,3)]
    pitt.total_ensure[OF tables_okD(1)[OF assms(1)] assms(2,3)]
    meast.total_ensure[OF tables_okD(1)[OF assms(1)] assms(2,3)]
    sct.total_ensure[OF tables_okD(1)[OF assms(1)] assms(2,3)]
  by (simp add: tables_ok_def attached_def)

lemma tables_ok_prune [inv_intros]:
  assumes "tables_ok H tb" and "n \<in> dom (ht_map (nameTree tb))"
  shows "tables_ok H (tb\<lparr>nameTree := snd (eraseIfEmpty n True (nameTree tb))\<rparr>)"
  using assms eraseIfEmpty_props[OF tables_okD(1)[OF assms(1)] assms(2)]
    fibt.total_prune[OF tables_okD(1)[OF assms(1)] assms(2)]
    pitt.total_prune[OF tables_okD(1)[OF assms(1)] assms(2)]
    meast.total_prune[OF tables_okD(1)[OF assms(1)] assms(2)]
    sct.total_prune[OF tables_okD(1)[OF assms(1)] assms(2)]
  by (simp add: tables_ok_def attached_def)

lemma nItems_update_commute [simp]:
  "nameTree_update g (fib_nItems_update f tb) = fib_nItems_update f (nameTree_update g tb)"
  "nameTree_update g (pit_nItems_update f tb) = pit_nItems_update f (nameTree_update g tb)"
  "nameTree_update g (meas_nItems_update f tb) = meas_nItems_update f (nameTree_update g tb)"
  "nameTree_update g (sc_nItems_update f tb) = sc_nItems_update f (nameTree_update g tb)"
  by (rule tables.equality; simp)+

lemma attached_write:
  assumes "nt_inv H (nameTree tb)" and "slot_write f" and "n \<in> dom (ht_map (nameTree tb))"
  shows "attached cnt_fib (tb\<lparr>nameTree := ht_modify n f (nameTree tb)\<rparr>) + cnt_fib (nt_slots (nameTree tb) n) =
      attached cnt_fib tb + cnt_fib (slot_effect f n (nt_slots (nameTree tb) n))"
    and "attached cnt_pit (tb\<lparr>nameTree := ht_modify n f (nameTree tb)\<rparr>) + cnt_pit (nt_slots (nameTree tb) n) =
      attached cnt_pit tb + cnt_pit (slot_effect f n (nt_slots (nameTree tb) n))"
    and "attached cnt_meas (tb\<lparr>nameTree := ht_modify n f (nameTree tb)\<rparr>) + cnt_meas (nt_slots (nameTree tb) n) =
      attached cnt_meas tb + cnt_meas (slot_effect f n (nt_slots (nameTree tb) n))"
    and "attached cnt_sc (tb\<lparr>nameTree := ht_modify n f (nameTree tb)\<rparr>) + cnt_sc (nt_slots (nameTree tb) n) =
      attached cnt_sc tb + cnt_sc (slot_effect f n (nt_slots (nameTree tb) n))"
  using fibt.total_write[OF assms] pitt.total_write[OF assms] meast.total_write[OF assms]
    sct.total_write[OF assms]
  by (simp_all add: attached_def)

text \<open>
  A write of a table together with its change of the counters keeps the invariant, when the new
  slot is in order and each counter moves by as much as the slots do.
\<close>

lemma of_nat_moves:
  fixes w w' :: u64
  assumes "w = of_nat a" and "w' + of_nat old = w + of_nat new" and "b + old = a + new"
  shows "w' = of_nat b"
proof -
  have "w' + of_nat old = of_nat (b + old)" by (simp only: assms(2) assms(1) assms(3) of_nat_add)
  then show ?thesis by simp
qed

lemma tables_ok_write:
  assumes tb: "tables_ok H tb" and f: "slot_write f" and n: "n \<in> dom (ht_map (nameTree tb))"
    and nt': "nameTree tb' = ht_modify n f (nameTree tb)"
    and ok: "slots_ok n (slot_effect f n (nt_slots (nameTree tb) n))"
    and c: "fib_nItems tb' + of_nat (cnt_fib (nt_slots (nameTree tb) n)) =
        fib_nItems tb + of_nat (cnt_fib (slot_effect f n (nt_slots (nameTree tb) n)))"
      "pit_nItems tb' + of_nat (cnt_pit (nt_slots (nameTree tb) n)) =
        pit_nItems tb + of_nat (cnt_pit (slot_effect f n (nt_slots (nameTree tb) n)))"
      "meas_nItems tb' + of_nat (cnt_meas (nt_slots (nameTree tb) n)) =
        meas_nItems tb + of_nat (cnt_meas (slot_effect f n (nt_slots (nameTree tb) n)))"
      "sc_nItems tb' + of_nat (cnt_sc (nt_slots (nameTree tb) n)) =
        sc_nItems tb + of_nat (cnt_sc (slot_effect f n (nt_slots (nameTree tb) n)))"
  shows "tables_ok H tb'"
proof -
  note inv = tables_okD(1)[OF tb]
  have a: "attached cnt tb' = attached cnt (tb\<lparr>nameTree := ht_modify n f (nameTree tb)\<rparr>)" for cnt
    by (simp add: attached_def nt')
  have "slots_ok q (nt_slots (nameTree tb') q)" for q
    using tables_okD(4)[OF tb, of q] ok by (simp add: nt' ht_modify_slots[OF f n])
  then show ?thesis
    using ht_modify_nt_inv[OF f inv]
      of_nat_moves[OF tables_ok_counts(1)[OF tb] c(1) attached_write(1)[OF inv f n]]
      of_nat_moves[OF tables_ok_counts(2)[OF tb] c(2) attached_write(2)[OF inv f n]]
      of_nat_moves[OF tables_ok_counts(3)[OF tb] c(3) attached_write(3)[OF inv f n]]
      of_nat_moves[OF tables_ok_counts(4)[OF tb] c(4) attached_write(4)[OF inv f n]]
    by (simp add: tables_ok_def a nt')
qed

lemma present_of_slot:
  "nt_slots nt n \<noteq> no_slots \<Longrightarrow> n \<in> dom (ht_map nt)"
  by (auto simp: map_slots_def split: option.splits)

lemma slot_present:
  "fib_at tb n = Some fe \<Longrightarrow> n \<in> dom (ht_map (nameTree tb))"
  "pe \<in> set (pit_at tb n) \<Longrightarrow> n \<in> dom (ht_map (nameTree tb))"
  "meas_at tb n = Some me \<Longrightarrow> n \<in> dom (ht_map (nameTree tb))"
  "sc_at tb n = Some sce \<Longrightarrow> n \<in> dom (ht_map (nameTree tb))"
  by (rule present_of_slot; force simp: no_slots_def)+

end
