(* ===== verification/Name_Tree_Iterator.thy ===== *)
theory Name_Tree_Iterator
  imports Tables
begin

text \<open>
  Enumeration of the name tree (\<open>daemon/table/name-tree-iterator.cpp\<close> and the range functions of
  \<open>name-tree.cpp\<close>). An iterator is advanced by one of three implementations: over all entries in
  bucket order, over a part of a subtree in pre-order, and over the prefixes of a name. Each is
  specified by the list of entries it still has to visit. The loops are partial functions without
  fuel: \<open>None\<close> is a loop that never ends, and that it is not the value is part of what is proved.
\<close>

section \<open>Iterators\<close>

record iterator =
  it_entry :: "name option"
  it_ref :: "name option"
  it_state :: bool

definition end_iterator :: iterator where
  "end_iterator = \<lparr>it_entry = None, it_ref = None, it_state = False\<rparr>"

definition mk_iterator :: "(iterator \<Rightarrow> 'a) \<Rightarrow> name option \<Rightarrow> 'a" where
  "mk_iterator advance ref = advance \<lparr>it_entry = None, it_ref = ref, it_state = False\<rparr>"

text \<open>A loop over a range: visit and advance until the iterator equals the end.\<close>

partial_function (option) enum_loop :: "(iterator \<Rightarrow> iterator option) \<Rightarrow> iterator \<Rightarrow> name list option" where
  "enum_loop advance i =
     (case it_entry i of
        None \<Rightarrow> Some []
      | Some e \<Rightarrow>
          (case advance i of
             None \<Rightarrow> None
           | Some j \<Rightarrow> Option.bind (enum_loop advance j) (\<lambda>es. Some (e # es))))"

definition enum_range :: "(iterator \<Rightarrow> iterator option) \<Rightarrow> name option \<Rightarrow> name list option" where
  "enum_range advance ref = Option.bind (mk_iterator advance ref) (enum_loop advance)"

text \<open>The entries of a range, for the code that loops over it.\<close>

definition elements :: "name list option \<Rightarrow> name list" where
  "elements r = (case r of None \<Rightarrow> [] | Some es \<Rightarrow> es)"

lemma elements_Some [simp]: "elements (Some es) = es"
  by (simp add: elements_def)

section \<open>Full enumeration\<close>

text \<open>The nodes that follow a node along the \<open>next\<close> pointers of its bucket.\<close>

definition chain_after :: "name \<Rightarrow> 'i ht_node list \<Rightarrow> 'i ht_node list" where
  "chain_after n nds = tl (dropWhile (\<lambda>nd. node_name nd \<noteq> n) nds)"

definition full_scan :: "('i nt_entry \<Rightarrow> bool) \<Rightarrow> 'i name_tree \<Rightarrow> 'i ht_node \<Rightarrow> iterator \<Rightarrow> iterator" where
  "full_scan pred nt node i =
     (let currentBucket = computeBucketIndex nt (node_hash node) in
      case find (\<lambda>nd. pred (node_entry nd)) (chain_after (node_name node) (ht_buckets nt ! currentBucket)) of
        Some nd \<Rightarrow> i\<lparr>it_entry := Some (node_name nd)\<rparr>
      | None \<Rightarrow>
          (case find (\<lambda>nd. pred (node_entry nd)) (concat (drop (Suc currentBucket) (ht_buckets nt))) of
             Some nd \<Rightarrow> i\<lparr>it_entry := Some (node_name nd)\<rparr>
           | None \<Rightarrow> end_iterator))"

definition full_advance :: "('i nt_entry \<Rightarrow> bool) \<Rightarrow> 'i name_tree \<Rightarrow> iterator \<Rightarrow> iterator" where
  "full_advance pred nt i =
     (case it_entry i of
        None \<Rightarrow>
          (case find (\<lambda>b. b \<noteq> []) (ht_buckets nt) of
             None \<Rightarrow> end_iterator
           | Some b \<Rightarrow>
               if pred (node_entry (hd b)) then i\<lparr>it_entry := Some (node_name (hd b))\<rparr>
               else full_scan pred nt (hd b) (i\<lparr>it_entry := Some (node_name (hd b))\<rparr>))
      | Some e \<Rightarrow>
          (case nt_entry_at e nt of None \<Rightarrow> end_iterator | Some nd \<Rightarrow> full_scan pred nt nd i))"

definition full_range :: "('i nt_entry \<Rightarrow> bool) \<Rightarrow> 'i name_tree \<Rightarrow> name list option" where
  "full_range pred nt = enum_range (\<lambda>i. Some (full_advance pred nt i)) None"

definition fullEnumerate :: "('i nt_entry \<Rightarrow> bool) \<Rightarrow> 'i name_tree \<Rightarrow> name list" where
  "fullEnumerate pred nt = elements (full_range pred nt)"

section \<open>Partial enumeration\<close>

datatype scan_result = NoMoreSibling | VisitSibling name bool | DescendSibling name

fun sibling_scan ::
  "('i nt_entry \<Rightarrow> bool \<times> bool) \<Rightarrow> 'i name_tree \<Rightarrow> name list \<Rightarrow> scan_result" where
  "sibling_scan pred nt [] = NoMoreSibling"
| "sibling_scan pred nt (s # siblings) =
     (case ht_map nt s of
        None \<Rightarrow> NoMoreSibling
      | Some e \<Rightarrow>
          let (wantSelf, wantChildren) = pred e
          in if wantSelf then VisitSibling s wantChildren
             else if wantChildren then DescendSibling s
             else sibling_scan pred nt siblings)"

definition siblings_after :: "name \<Rightarrow> name list \<Rightarrow> name list" where
  "siblings_after n cs = tl (dropWhile (\<lambda>c. c \<noteq> n) cs)"

text \<open>The pre-order loop; \<open>entry\<close> is \<open>i.m_entry\<close>, \<open>ref\<close> is \<open>i.m_ref\<close>.\<close>

partial_function (option) partial_loop ::
  "('i nt_entry \<Rightarrow> bool \<times> bool) \<Rightarrow> 'i name_tree \<Rightarrow> name \<Rightarrow> name \<Rightarrow> bool \<Rightarrow> iterator option" where
  "partial_loop pred nt ref entry wantChildren =
     (case ht_map nt entry of
        None \<Rightarrow> Some end_iterator
      | Some e \<Rightarrow>
          if wantChildren \<and> hasChildren e then
            let c = hd (nte_children e) in
            (case ht_map nt c of
               None \<Rightarrow> Some end_iterator
             | Some ce \<Rightarrow>
                 let (wantSelf, wantChildren') = pred ce
                 in if wantSelf then Some \<lparr>it_entry = Some c, it_ref = Some ref, it_state = wantChildren'\<rparr>
                    else partial_loop pred nt ref c wantChildren')
          else if entry \<noteq> ref then
            (case nte_parent e of
               None \<Rightarrow> Some end_iterator
             | Some parent \<Rightarrow>
                 (case ht_map nt parent of
                    None \<Rightarrow> Some end_iterator
                  | Some pe \<Rightarrow>
                      (case sibling_scan pred nt (siblings_after entry (nte_children pe)) of
                         VisitSibling s wantChildren' \<Rightarrow>
                           Some \<lparr>it_entry = Some s, it_ref = Some ref, it_state = wantChildren'\<rparr>
                       | DescendSibling s \<Rightarrow> partial_loop pred nt ref s True
                       | NoMoreSibling \<Rightarrow> partial_loop pred nt ref parent False)))
          else Some end_iterator)"

definition partial_advance ::
  "('i nt_entry \<Rightarrow> bool \<times> bool) \<Rightarrow> 'i name_tree \<Rightarrow> iterator \<Rightarrow> iterator option" where
  "partial_advance pred nt i =
     (case it_ref i of
        None \<Rightarrow> Some end_iterator
      | Some ref \<Rightarrow>
          (case it_entry i of
             None \<Rightarrow>
               (case ht_map nt ref of
                  None \<Rightarrow> Some end_iterator
                | Some e \<Rightarrow>
                    let (wantSelf, wantChildren) = pred e
                    in if wantSelf then Some (i\<lparr>it_entry := Some ref, it_state := wantChildren\<rparr>)
                       else partial_loop pred nt ref ref wantChildren)
           | Some entry \<Rightarrow> partial_loop pred nt ref entry (it_state i)))"

definition partial_range ::
  "(component \<Rightarrow> u64) \<Rightarrow> name \<Rightarrow> ('i nt_entry \<Rightarrow> bool \<times> bool) \<Rightarrow> 'i name_tree \<Rightarrow> name list option" where
  "partial_range H p pred nt =
     enum_range (partial_advance pred nt) (map_option nte_name (nt_findExactMatch H p (length p) nt))"

definition partialEnumerate ::
  "(component \<Rightarrow> u64) \<Rightarrow> name \<Rightarrow> ('i nt_entry \<Rightarrow> bool \<times> bool) \<Rightarrow> 'i name_tree \<Rightarrow> name list" where
  "partialEnumerate H p pred nt = elements (partial_range H p pred nt)"

section \<open>Prefix matches\<close>

partial_function (option) climb ::
  "('i nt_entry \<Rightarrow> bool) \<Rightarrow> 'i name_tree \<Rightarrow> name \<Rightarrow> iterator \<Rightarrow> iterator option" where
  "climb pred nt entry i =
     (case Option.bind (ht_map nt entry) nte_parent of
        None \<Rightarrow> Some end_iterator
      | Some parent \<Rightarrow>
          (case ht_map nt parent of
             None \<Rightarrow> Some end_iterator
           | Some pe \<Rightarrow>
               if pred pe then Some (i\<lparr>it_entry := Some parent\<rparr>) else climb pred nt parent i))"

definition prefix_advance :: "('i nt_entry \<Rightarrow> bool) \<Rightarrow> 'i name_tree \<Rightarrow> iterator \<Rightarrow> iterator option" where
  "prefix_advance pred nt i =
     (case it_entry i of
        None \<Rightarrow>
          (case it_ref i of
             None \<Rightarrow> Some end_iterator
           | Some ref \<Rightarrow>
               (case ht_map nt ref of
                  None \<Rightarrow> Some end_iterator
                | Some e \<Rightarrow>
                    if pred e then Some (i\<lparr>it_entry := Some ref\<rparr>)
                    else climb pred nt ref (i\<lparr>it_entry := Some ref\<rparr>)))
      | Some entry \<Rightarrow> climb pred nt entry i)"

definition matches_range ::
  "(component \<Rightarrow> u64) \<Rightarrow> name \<Rightarrow> ('i nt_entry \<Rightarrow> bool) \<Rightarrow> 'i name_tree \<Rightarrow> name list option" where
  "matches_range H n pred nt =
     enum_range (prefix_advance pred nt) (map_option nte_name (nt_findLongestPrefixMatch H n pred nt))"

definition findAllMatches ::
  "(component \<Rightarrow> u64) \<Rightarrow> name \<Rightarrow> ('i nt_entry \<Rightarrow> bool) \<Rightarrow> 'i name_tree \<Rightarrow> name list" where
  "findAllMatches H n pred nt = elements (matches_range H n pred nt)"

section \<open>The contract of an enumeration\<close>

lemma it_entry_end [simp]: "it_entry end_iterator = None"
  by (simp add: end_iterator_def)

lemma enum_loop_end [simp]: "enum_loop advance end_iterator = Some []"
  by (simp add: enum_loop.simps)

text \<open>
  \<open>todo i\<close> is the list of entries an iterator has still to visit after the current one. Advancing
  moves to the first of them.
\<close>

locale enumeration =
  fixes good :: "iterator \<Rightarrow> bool" and advance :: "iterator \<Rightarrow> iterator option" and todo :: "iterator \<Rightarrow> name list"
  assumes advance_end: "good i \<Longrightarrow> it_entry i \<noteq> None \<Longrightarrow> todo i = [] \<Longrightarrow> advance i = Some end_iterator"
    and advance_next: "good i \<Longrightarrow> it_entry i \<noteq> None \<Longrightarrow> todo i = x # xs \<Longrightarrow>
      \<exists>j. advance i = Some j \<and> good j \<and> it_entry j = Some x \<and> todo j = xs"
begin

lemma enum_todo: "good i \<Longrightarrow> it_entry i = Some e \<Longrightarrow> enum_loop advance i = Some (e # todo i)"
proof (induction "todo i" arbitrary: i e)
  case Nil
  then have "advance i = Some end_iterator" using advance_end[of i] by simp
  then show ?case
    using Nil by (simp add: enum_loop.simps[of advance i])
next
  case (Cons x xs)
  then obtain j where j: "advance i = Some j" "good j" "it_entry j = Some x" "todo j = xs"
    using advance_next[of i x xs] by auto
  have "enum_loop advance j = Some (x # xs)" using Cons.hyps(1)[OF j(4)[symmetric] j(2,3)] j(4) by simp
  then show ?case using Cons.hyps(2) Cons.prems(2) j(1) by (simp add: enum_loop.simps[of advance i])
qed

end

section \<open>Correctness of full enumeration\<close>

lemma chain_after_split:
  assumes "distinct (map node_name (us @ nd # vs))"
  shows "chain_after (node_name nd) (us @ nd # vs) = vs"
proof -
  have "node_name x \<noteq> node_name nd" if "x \<in> set us" for x using assms that by (force simp: image_iff)
  then have "dropWhile (\<lambda>x. node_name x \<noteq> node_name nd) (us @ nd # vs) = nd # vs"
    by (simp add: dropWhile_append2)
  then show ?thesis by (simp add: chain_after_def)
qed

lemma find_append: "find P (xs @ ys) = (case find P xs of None \<Rightarrow> find P ys | Some x \<Rightarrow> Some x)"
  by (induction xs) auto

lemma full_scan_eq:
  assumes inv: "ht_inv H nt" and nd: "nd \<in> set (ht_nodes nt)"
  shows "full_scan pred nt nd i =
    (case find (\<lambda>x. pred (node_entry x)) (chain_after (node_name nd) (ht_nodes nt)) of
       None \<Rightarrow> end_iterator
     | Some x \<Rightarrow> i\<lparr>it_entry := Some (node_name x)\<rparr>)"
proof -
  let ?b = "computeBucketIndex nt (node_hash nd)" and ?bs = "ht_buckets nt"
  obtain b where b: "b < length ?bs" "nd \<in> set (?bs ! b)"
    using nd unfolding ht_nodes_def set_concat by (metis UN_E in_set_conv_nth)
  then have bb: "?b = b" using inv by (auto simp: ht_inv_def ht_placed_def getNBuckets_def)
  obtain us vs where uv: "?bs ! b = us @ nd # vs" using b(2) by (meson split_list)
  have nodes: "ht_nodes nt = concat (take b ?bs) @ (us @ nd # vs) @ concat (drop (Suc b) ?bs)"
    using id_take_nth_drop[OF b(1)] uv by (metis concat.simps(2) concat_append ht_nodes_def)
  have d: "distinct (map node_name (ht_nodes nt))" using inv by (simp add: ht_inv_def)
  have "chain_after (node_name nd) (ht_nodes nt) = vs @ concat (drop (Suc b) ?bs)"
    using chain_after_split[of "concat (take b ?bs) @ us" nd "vs @ concat (drop (Suc b) ?bs)"] d nodes by simp
  moreover have "chain_after (node_name nd) (?bs ! b) = vs"
    unfolding uv by (rule chain_after_split) (use d nodes in \<open>simp add: Int_Un_distrib\<close>)
  ultimately show ?thesis
    by (simp add: full_scan_def Let_def bb find_append split: option.splits)
qed

lemma find_filter: "find P xs = (case filter P xs of [] \<Rightarrow> None | x # _ \<Rightarrow> Some x)"
  by (induction xs) auto

definition full_todo :: "('i nt_entry \<Rightarrow> bool) \<Rightarrow> 'i name_tree \<Rightarrow> iterator \<Rightarrow> name list" where
  "full_todo pred nt i =
     (case it_entry i of
        None \<Rightarrow> []
      | Some e \<Rightarrow> map node_name (filter (\<lambda>nd. pred (node_entry nd)) (chain_after e (ht_nodes nt))))"

lemma full_scan_todo:
  assumes inv: "ht_inv H nt" and nodes: "ht_nodes nt = us @ nd # vs"
    and x: "filter (\<lambda>nd. pred (node_entry nd)) vs = x # xs"
  shows "full_scan pred nt nd i = i\<lparr>it_entry := Some (node_name x)\<rparr> \<and>
    x \<in> set (ht_nodes nt) \<and>
    filter (\<lambda>nd. pred (node_entry nd)) (chain_after (node_name x) (ht_nodes nt)) = xs"
proof -
  let ?P = "\<lambda>nd. pred (node_entry nd)"
  have d: "distinct (map node_name (ht_nodes nt))" using inv by (simp add: ht_inv_def)
  have ca: "chain_after (node_name nd) (ht_nodes nt) = vs"
    unfolding nodes by (rule chain_after_split) (use d nodes in simp)
  obtain as bs where ab: "vs = as @ x # bs" "xs = filter ?P bs"
    using x by (auto dest: filter_eq_ConsD)
  have "chain_after (node_name x) (ht_nodes nt) = bs"
    using chain_after_split[of "us @ nd # as" x bs] d nodes ab(1) by simp
  then show ?thesis
    using full_scan_eq[OF inv, of nd pred i] nodes ab ca x by (simp add: find_filter)
qed

interpretation full: enumeration
  "\<lambda>i. ht_inv H nt \<and> (\<forall>e. it_entry i = Some e \<longrightarrow> e \<in> dom (ht_map nt))"
  "\<lambda>i. Some (full_advance pred nt i)" "full_todo pred nt" for H nt pred
proof
  fix i :: iterator and x xs
  assume good: "ht_inv H nt \<and> (\<forall>e. it_entry i = Some e \<longrightarrow> e \<in> dom (ht_map nt))" and "it_entry i \<noteq> None"
  then obtain e where e: "it_entry i = Some e" "e \<in> dom (ht_map nt)" by auto
  then obtain nd where at: "nt_entry_at e nt = Some nd" using nt_entry_at_None[of e nt] by fastforce
  then have nd: "nd \<in> set (ht_nodes nt)" "node_name nd = e" using nt_entry_at_Some good by blast+
  obtain us vs where uv: "ht_nodes nt = us @ nd # vs" using nd(1) by (meson split_list)
  have d: "distinct (map node_name (ht_nodes nt))" using good by (simp add: ht_inv_def)
  have ca: "chain_after e (ht_nodes nt) = vs"
    using chain_after_split[of us nd vs] d uv nd(2) by simp
  have adv: "full_advance pred nt i = full_scan pred nt nd i" by (simp add: full_advance_def e at)
  show "full_todo pred nt i = [] \<Longrightarrow> Some (full_advance pred nt i) = Some end_iterator"
    using full_scan_eq[of H nt nd pred i] good nd ca e by (simp add: adv full_todo_def find_filter)
  assume "full_todo pred nt i = x # xs"
  then obtain y ys where y: "filter (\<lambda>nd. pred (node_entry nd)) vs = y # ys" "x = node_name y" "xs = map node_name ys"
    using e ca by (auto simp: full_todo_def)
  have inv: "ht_inv H nt" using good by simp
  note st = full_scan_todo[OF inv uv y(1), of i]
  have "node_name y \<in> dom (ht_map nt)" using st by (auto simp: dom_ht_map)
  then show "\<exists>j. Some (full_advance pred nt i) = Some j \<and>
      (ht_inv H nt \<and> (\<forall>e. it_entry j = Some e \<longrightarrow> e \<in> dom (ht_map nt))) \<and> it_entry j = Some x \<and> full_todo pred nt j = xs"
    using st inv y(2,3) by (simp add: adv full_todo_def)
qed

lemma full_range_nodes:
  assumes "ht_inv H nt"
  shows "full_range pred nt = Some (map node_name (filter (\<lambda>nd. pred (node_entry nd)) (ht_nodes nt)))"
proof (cases "ht_nodes nt")
  case Nil
  then have "find (\<lambda>b. b \<noteq> []) (ht_buckets nt) = None" by (auto simp: ht_nodes_def find_None_iff)
  then have "mk_iterator (full_advance pred nt) None = end_iterator"
    by (simp add: mk_iterator_def full_advance_def)
  then show ?thesis using Nil by (simp add: full_range_def enum_range_def mk_iterator_def)
next
  case (Cons nd nds)
  have first: "\<exists>b. find (\<lambda>b. b \<noteq> []) bs = Some b \<and> hd b = nd" if "concat bs = nd # nds" for bs
    using that
  proof (induction bs)
    case (Cons a bs)
    then show ?case by (cases a) auto
  qed simp
  then obtain b where b: "find (\<lambda>b. b \<noteq> []) (ht_buckets nt) = Some b" "hd b = nd"
    using Cons by (auto simp: ht_nodes_def)
  let ?i0 = "\<lparr>it_entry = Some (node_name nd), it_ref = None, it_state = False\<rparr>"
  have mk: "mk_iterator (full_advance pred nt) None =
      (if pred (node_entry nd) then ?i0 else full_scan pred nt nd ?i0)"
    by (simp add: mk_iterator_def full_advance_def b)
  have d: "distinct (map node_name (ht_nodes nt))" and sz: "ht_size nt = Suc (length nds)"
    using assms Cons by (simp_all add: ht_inv_def)
  have ca: "chain_after (node_name nd) (ht_nodes nt) = nds"
    using chain_after_split[of "[]" nd nds] d Cons by simp
  have ind: "node_name nd \<in> dom (ht_map nt)" by (simp add: dom_ht_map Cons)
  let ?P = "\<lambda>nd. pred (node_entry nd)"
  have len: "length (filter ?P nds) < Suc (length nds)" by (simp add: le_imp_less_Suc)
  show ?thesis
  proof (cases "pred (node_entry nd)")
    case True
    have "enum_loop (\<lambda>i. Some (full_advance pred nt i)) ?i0 = Some (node_name nd # full_todo pred nt ?i0)"
      by (rule full.enum_todo[of H]) (use assms ind in simp_all)
    then show ?thesis using True ca Cons mk by (simp add: full_range_def enum_range_def mk_iterator_def full_todo_def)
  next
    case False
    show ?thesis
    proof (cases "filter ?P nds")
      case Nil
      have "full_scan pred nt nd ?i0 = end_iterator"
        using full_scan_eq[OF assms, of nd pred ?i0] Cons ca Nil by (simp add: find_filter)
      then show ?thesis using False Cons Nil mk by (simp add: full_range_def enum_range_def mk_iterator_def)
    next
      case (Cons y ys)
      note st = full_scan_todo[OF assms _ Cons, of "[]" nd ?i0]
      have l: "length ys < length nds" using len Cons by simp
      have st: "full_scan pred nt nd ?i0 = ?i0\<lparr>it_entry := Some (node_name y)\<rparr>"
          "y \<in> set (ht_nodes nt)" "filter ?P (chain_after (node_name y) (ht_nodes nt)) = ys"
        using st \<open>ht_nodes nt = nd # nds\<close> by simp_all
      have "enum_loop (\<lambda>i. Some (full_advance pred nt i)) (full_scan pred nt nd ?i0) =
          Some (node_name y # full_todo pred nt (full_scan pred nt nd ?i0))"
        by (rule full.enum_todo[of H]) (use assms st in \<open>simp_all add: dom_ht_map\<close>)
      then show ?thesis
        using False st Cons \<open>ht_nodes nt = nd # nds\<close> mk
        by (simp add: full_range_def enum_range_def mk_iterator_def full_todo_def)
    qed
  qed
qed

lemma fullEnumerate_nodes:
  "ht_inv H nt \<Longrightarrow> fullEnumerate pred nt = map node_name (filter (\<lambda>nd. pred (node_entry nd)) (ht_nodes nt))"
  by (simp add: fullEnumerate_def full_range_nodes)


section \<open>Correctness of prefix matches\<close>

definition nt_selects :: "('i nt_entry \<Rightarrow> bool) \<Rightarrow> 'i name_tree \<Rightarrow> name \<Rightarrow> bool" where
  "nt_selects pred nt q = (case ht_map nt q of None \<Rightarrow> False | Some e \<Rightarrow> pred e)"

lemma nt_selects_iff: "nt_selects pred nt q \<longleftrightarrow> (\<exists>e. ht_map nt q = Some e \<and> pred e)"
  by (simp add: nt_selects_def split: option.splits)

lemma rev_prefixes: "rev (prefixes n) = n # tl (rev (prefixes n))"
  by (cases n rule: rev_cases) simp_all

lemma climb_eq:
  assumes inv: "nt_inv H nt"
  shows "e \<in> dom (ht_map nt) \<Longrightarrow>
    climb pred nt e i =
      Some (case filter (nt_selects pred nt) (tl (rev (prefixes e))) of
         [] \<Rightarrow> end_iterator | x # _ \<Rightarrow> i\<lparr>it_entry := Some x\<rparr>)"
proof (induction "length e" arbitrary: e rule: less_induct)
  case less
  have t: "tree_ok (ht_map nt)" using inv by (simp add: nt_inv_def)
  obtain en where en: "ht_map nt e = Some en" using less.prems by auto
  note d = tree_okD[OF t en]
  show ?case
  proof (cases e rule: rev_cases)
    case Nil
    then show ?thesis using en d by (simp add: climb.simps)
  next
    case (snoc n x)
    then obtain pn where pn: "ht_map nt n = Some pn" using d by auto
    have "tl (rev (prefixes e)) = rev (prefixes n)" by (simp add: snoc)
    also have "\<dots> = n # tl (rev (prefixes n))" by (rule rev_prefixes)
    finally have fl: "filter (nt_selects pred nt) (tl (rev (prefixes e))) =
        (if pred pn then n # filter (nt_selects pred nt) (tl (rev (prefixes n)))
         else filter (nt_selects pred nt) (tl (rev (prefixes n))))"
      by (simp add: nt_selects_def pn)
    have "n \<in> dom (ht_map nt)" "length n < length e" "nte_parent en = Some n" using d snoc by auto
    then show ?thesis using less.hyps[of n] en pn by (simp add: climb.simps[of pred nt e] fl)
  qed
qed

definition prefix_todo :: "('i nt_entry \<Rightarrow> bool) \<Rightarrow> 'i name_tree \<Rightarrow> iterator \<Rightarrow> name list" where
  "prefix_todo pred nt i =
     (case it_entry i of None \<Rightarrow> [] | Some e \<Rightarrow> filter (nt_selects pred nt) (tl (rev (prefixes e))))"

lemma filter_tl_prefixes:
  assumes "filter P (tl (rev (prefixes e))) = x # xs"
  shows "filter P (tl (rev (prefixes x))) = xs"
  using assms
proof (induction e rule: rev_induct)
  case (snoc y e)
  have "filter P (rev (prefixes e)) = x # xs" using snoc.prems by simp
  then show ?case using snoc.IH rev_prefixes[of e] by (metis filter.simps(2) list.inject)
qed simp

interpretation pm: enumeration
  "\<lambda>i. nt_inv H nt \<and> (\<forall>e. it_entry i = Some e \<longrightarrow> e \<in> dom (ht_map nt))"
  "prefix_advance pred nt" "prefix_todo pred nt" for H nt pred
proof
  fix i :: iterator and x xs
  assume good: "nt_inv H nt \<and> (\<forall>e. it_entry i = Some e \<longrightarrow> e \<in> dom (ht_map nt))" and "it_entry i \<noteq> None"
  then obtain e where e: "it_entry i = Some e" "e \<in> dom (ht_map nt)" by auto
  have inv: "nt_inv H nt" using good by simp
  have adv: "prefix_advance pred nt i =
      Some (case filter (nt_selects pred nt) (tl (rev (prefixes e))) of
         [] \<Rightarrow> end_iterator | x # _ \<Rightarrow> i\<lparr>it_entry := Some x\<rparr>)"
    by (simp add: prefix_advance_def e climb_eq[OF inv e(2)])
  show "prefix_todo pred nt i = [] \<Longrightarrow> prefix_advance pred nt i = Some end_iterator"
    by (simp add: adv prefix_todo_def e)
  assume "prefix_todo pred nt i = x # xs"
  then have f: "filter (nt_selects pred nt) (tl (rev (prefixes e))) = x # xs" by (simp add: prefix_todo_def e)
  then have "nt_selects pred nt x" by (meson filter_eq_ConsD)
  then have "x \<in> dom (ht_map nt)" by (auto simp: nt_selects_iff)
  then show "\<exists>j. prefix_advance pred nt i = Some j \<and>
      (nt_inv H nt \<and> (\<forall>e. it_entry j = Some e \<longrightarrow> e \<in> dom (ht_map nt))) \<and> it_entry j = Some x \<and> prefix_todo pred nt j = xs"
    using inv f filter_tl_prefixes[OF f] by (simp add: adv prefix_todo_def)
qed

lemma filter_prefixes_longest:
  "filter P (rev (prefixes n)) =
    (case longest_match P n of None \<Rightarrow> [] | Some q \<Rightarrow> q # filter P (tl (rev (prefixes q))))"
proof (induction n rule: rev_induct)
  case (snoc x n)
  then show ?case by (simp add: longest_match_def)
qed (simp add: longest_match_def)

lemma matches_range_prefixes:
  assumes inv: "nt_inv H nt"
  shows "matches_range H n pred nt = Some (filter (nt_selects pred nt) (rev (prefixes n)))"
proof -
  have t: "tree_ok (ht_map nt)" using inv by (simp add: nt_inv_def)
  have lpm: "nt_findLongestPrefixMatch H n pred nt =
      (case longest_match (nt_selects pred nt) n of None \<Rightarrow> None | Some q \<Rightarrow> ht_map nt q)"
    by (rule is_lpm_longest_match[OF nt_findLongestPrefixMatch_lpm[OF inv]]) (rule nt_selects_iff)
  show ?thesis
  proof (cases "longest_match (nt_selects pred nt) n")
    case None
    then show ?thesis
      by (simp add: matches_range_def enum_range_def lpm mk_iterator_def prefix_advance_def filter_prefixes_longest)
  next
    case (Some q)
    then have "nt_selects pred nt q" by (simp add: longest_match_Some_iff)
    then obtain e where e: "ht_map nt q = Some e" "pred e" by (auto simp: nt_selects_iff)
    let ?i = "\<lparr>it_entry = Some q, it_ref = Some q, it_state = False\<rparr>"
    have mk: "mk_iterator (prefix_advance pred nt) (Some q) = Some ?i"
      by (simp add: mk_iterator_def prefix_advance_def e)
    have "enum_loop (prefix_advance pred nt) ?i = Some (q # prefix_todo pred nt ?i)"
      by (intro pm.enum_todo[of H]) (use inv e in auto)
    then show ?thesis
      using Some e ht_map_name[OF e(1)] mk
      by (simp add: matches_range_def enum_range_def lpm filter_prefixes_longest prefix_todo_def)
  qed
qed

lemma findAllMatches_prefixes:
  "nt_inv H nt \<Longrightarrow> findAllMatches H n pred nt = filter (nt_selects pred nt) (rev (prefixes n))"
  by (simp add: findAllMatches_def matches_range_prefixes)

section \<open>Correctness of partial enumeration\<close>

definition sel_at :: "('i nt_entry \<Rightarrow> bool \<times> bool) \<Rightarrow> 'i name_tree \<Rightarrow> name \<Rightarrow> bool \<times> bool" where
  "sel_at pred nt n = (case ht_map nt n of None \<Rightarrow> (False, False) | Some e \<Rightarrow> pred e)"

definition kids :: "'i name_tree \<Rightarrow> name \<Rightarrow> name list" where
  "kids nt n = (case ht_map nt n of None \<Rightarrow> [] | Some e \<Rightarrow> nte_children e)"

text \<open>The specification: pre-order over the part of the subtree that the selector wants.\<close>

fun preorder_upto :: "nat \<Rightarrow> ('i nt_entry \<Rightarrow> bool \<times> bool) \<Rightarrow> 'i name_tree \<Rightarrow> name \<Rightarrow> name list" where
  "preorder_upto 0 pred nt n = []"
| "preorder_upto (Suc k) pred nt n =
     (if fst (sel_at pred nt n) then [n] else []) @
     (if snd (sel_at pred nt n) then concat (map (preorder_upto k pred nt) (kids nt n)) else [])"

definition preorder :: "('i nt_entry \<Rightarrow> bool \<times> bool) \<Rightarrow> 'i name_tree \<Rightarrow> name \<Rightarrow> name list" where
  "preorder pred nt n = preorder_upto (Suc getMaxDepth - length n) pred nt n"

fun upwards :: "nat \<Rightarrow> ('i nt_entry \<Rightarrow> bool \<times> bool) \<Rightarrow> 'i name_tree \<Rightarrow> name \<Rightarrow> name list" where
  "upwards 0 pred nt e = []"
| "upwards (Suc k) pred nt e =
     concat (map (preorder pred nt) (siblings_after e (kids nt (butlast e)))) @ upwards k pred nt (butlast e)"

definition rest_of :: "('i nt_entry \<Rightarrow> bool \<times> bool) \<Rightarrow> 'i name_tree \<Rightarrow> name \<Rightarrow> name \<Rightarrow> bool \<Rightarrow> name list" where
  "rest_of pred nt ref e w =
     (if w then concat (map (preorder pred nt) (kids nt e)) else []) @
     upwards (length e - length ref) pred nt e"

lemma kids_props:
  assumes "nt_inv H nt" and "c \<in> set (kids nt n)"
  shows "c \<in> dom (ht_map nt)" and "c \<noteq> []" and "butlast c = n" and "length c = Suc (length n)"
    and "n \<in> dom (ht_map nt)"
proof -
  have t: "tree_ok (ht_map nt)" using assms(1) by (simp add: nt_inv_def)
  obtain e where e: "ht_map nt n = Some e" "c \<in> set (nte_children e)"
    using assms(2) by (cases "ht_map nt n") (auto simp: kids_def)
  have "c \<in> dom (ht_map nt) \<and> c \<noteq> [] \<and> butlast c = n" using tree_okD(6)[OF t e(1)] e(2) by auto
  then show "c \<in> dom (ht_map nt)" "c \<noteq> []" "butlast c = n" "length c = Suc (length n)" "n \<in> dom (ht_map nt)"
    using e(1) by (auto simp: Suc_leI)
qed

lemma kids_of_parent:
  assumes "nt_inv H nt" and "e \<in> dom (ht_map nt)" and "e \<noteq> []"
  shows "e \<in> set (kids nt (butlast e))"
proof -
  have t: "tree_ok (ht_map nt)" using assms(1) by (simp add: nt_inv_def)
  obtain en where "ht_map nt e = Some en" using assms(2) by auto
  then have "butlast e \<in> dom (ht_map nt)" using tree_okD(4)[OF t] assms(3) by blast
  then obtain pn where "ht_map nt (butlast e) = Some pn" by auto
  then show ?thesis using tree_okD(6)[OF t] assms(2,3) by (simp add: kids_def)
qed

lemma distinct_kids: "nt_inv H nt \<Longrightarrow> distinct (kids nt n)"
  using tree_okD(5)[of "ht_map nt" n] by (simp add: kids_def nt_inv_def split: option.splits)

lemma preorder_unfold:
  assumes "nt_inv H nt" and "n \<in> dom (ht_map nt)"
  shows "preorder pred nt n =
    (if fst (sel_at pred nt n) then [n] else []) @
    (if snd (sel_at pred nt n) then concat (map (preorder pred nt) (kids nt n)) else [])"
proof -
  have t: "tree_ok (ht_map nt)" using assms(1) by (simp add: nt_inv_def)
  have k: "Suc getMaxDepth - length n = Suc (getMaxDepth - length n)"
    using tree_depth[OF t assms(2)] by simp
  have "preorder pred nt c = preorder_upto (getMaxDepth - length n) pred nt c" if "c \<in> set (kids nt n)" for c
    using kids_props(4)[OF assms(1) that] by (simp add: preorder_def)
  then have "map (preorder pred nt) (kids nt n) = map (preorder_upto (getMaxDepth - length n) pred nt) (kids nt n)"
    by simp
  then show ?thesis by (simp only: preorder_def[of pred nt n] k preorder_upto.simps)
qed

lemma siblings_after_split: "distinct (us @ c # vs) \<Longrightarrow> siblings_after c (us @ c # vs) = vs"
  by (simp add: siblings_after_def dropWhile_append)

lemma sibling_scan_cases:
  assumes "set vs \<subseteq> dom (ht_map nt)"
  shows "(\<exists>us s ws ch. vs = us @ s # ws \<and> (\<forall>u\<in>set us. sel_at pred nt u = (False, False)) \<and>
            sel_at pred nt s = (True, ch) \<and> sibling_scan pred nt vs = VisitSibling s ch) \<or>
         (\<exists>us s ws. vs = us @ s # ws \<and> (\<forall>u\<in>set us. sel_at pred nt u = (False, False)) \<and>
            sel_at pred nt s = (False, True) \<and> sibling_scan pred nt vs = DescendSibling s) \<or>
         ((\<forall>u\<in>set vs. sel_at pred nt u = (False, False)) \<and> sibling_scan pred nt vs = NoMoreSibling)"
  using assms
proof (induction vs)
  case (Cons v vs)
  obtain e where e: "ht_map nt v = Some e" using Cons.prems by auto
  obtain a b where ab: "pred e = (a, b)" by force
  then have sv: "sel_at pred nt v = (a, b)" by (simp add: sel_at_def e)
  show ?case
  proof (cases "a \<or> b")
    case True
    show ?thesis
    proof (cases a)
      case True
      then show ?thesis using ab sv e
        by (intro disjI1 exI[of _ "[]"] exI[of _ v] exI[of _ vs] exI[of _ b]) simp
    next
      case False
      then show ?thesis using \<open>a \<or> b\<close> ab sv e
        by (intro disjI2 disjI1 exI[of _ "[]"] exI[of _ v] exI[of _ vs]) simp
    qed
  next
    case False
    then have step: "sibling_scan pred nt (v # vs) = sibling_scan pred nt vs"
      and sv': "sel_at pred nt v = (False, False)" using ab e sv by simp_all
    have IH: "set vs \<subseteq> dom (ht_map nt)" using Cons.prems by simp
    from Cons.IH[OF IH] show ?thesis
    proof (elim disjE exE conjE)
      fix us s ws ch
      assume "vs = us @ s # ws" "\<forall>u\<in>set us. sel_at pred nt u = (False, False)"
        "sel_at pred nt s = (True, ch)" "sibling_scan pred nt vs = VisitSibling s ch"
      then show ?thesis using step sv'
        by (intro disjI1 exI[of _ "v # us"] exI[of _ s] exI[of _ ws] exI[of _ ch]) simp
    next
      fix us s ws
      assume "vs = us @ s # ws" "\<forall>u\<in>set us. sel_at pred nt u = (False, False)"
        "sel_at pred nt s = (False, True)" "sibling_scan pred nt vs = DescendSibling s"
      then show ?thesis using step sv'
        by (intro disjI2 disjI1 exI[of _ "v # us"] exI[of _ s] exI[of _ ws]) simp
    qed (use step sv' in simp)
  qed
qed simp


text \<open>The number of rounds the pre-order loop can still make.\<close>

definition subtree_size :: "'i name_tree \<Rightarrow> name \<Rightarrow> nat" where
  "subtree_size nt n = length (preorder (\<lambda>_. (True, True)) nt n)"

fun up_weight :: "nat \<Rightarrow> 'i name_tree \<Rightarrow> name \<Rightarrow> nat" where
  "up_weight 0 nt e = 0"
| "up_weight (Suc k) nt e =
     1 + (\<Sum>s\<leftarrow>siblings_after e (kids nt (butlast e)). 2 * subtree_size nt s) + up_weight k nt (butlast e)"

definition weight :: "'i name_tree \<Rightarrow> name \<Rightarrow> name \<Rightarrow> bool \<Rightarrow> nat" where
  "weight nt ref e w =
     (if w then (\<Sum>c\<leftarrow>kids nt e. 2 * subtree_size nt c) else 0) + up_weight (length e - length ref) nt e"

lemma subtree_size_unfold:
  assumes "nt_inv H nt" and "n \<in> dom (ht_map nt)"
  shows "subtree_size nt n = Suc (\<Sum>c\<leftarrow>kids nt n. subtree_size nt c)"
proof -
  have "sel_at (\<lambda>_. (True, True)) nt n = (True, True)" using assms(2) by (auto simp: sel_at_def)
  then show ?thesis
    unfolding subtree_size_def preorder_unfold[OF assms] by (simp add: length_concat comp_def)
qed

lemma kid_step:
  assumes inv: "nt_inv H nt" and k: "kids nt p = us @ s # ws" and pr: "prefix ref p"
  shows "rest_of pred nt ref s ch =
      (if ch then concat (map (preorder pred nt) (kids nt s)) else []) @
      concat (map (preorder pred nt) ws) @ upwards (length p - length ref) pred nt p"
    and "weight nt ref s ch =
      (if ch then (\<Sum>c\<leftarrow>kids nt s. 2 * subtree_size nt c) else 0) +
      (1 + (\<Sum>c\<leftarrow>ws. 2 * subtree_size nt c) + up_weight (length p - length ref) nt p)"
    and "s \<in> dom (ht_map nt)" and "prefix ref s"
proof -
  have s: "s \<in> set (kids nt p)" by (simp add: k)
  note sp = kids_props[OF inv s]
  have "length s - length ref = Suc (length p - length ref)"
    using sp(4) prefix_length_le[OF pr] by simp
  moreover have "siblings_after s (kids nt p) = ws"
    unfolding k by (rule siblings_after_split) (use distinct_kids[OF inv, of p] k in simp)
  ultimately show "rest_of pred nt ref s ch =
      (if ch then concat (map (preorder pred nt) (kids nt s)) else []) @
      concat (map (preorder pred nt) ws) @ upwards (length p - length ref) pred nt p"
    and "weight nt ref s ch =
      (if ch then (\<Sum>c\<leftarrow>kids nt s. 2 * subtree_size nt c) else 0) +
      (1 + (\<Sum>c\<leftarrow>ws. 2 * subtree_size nt c) + up_weight (length p - length ref) nt p)"
    by (simp_all add: rest_of_def weight_def sp(3))
  show "s \<in> dom (ht_map nt)" by (rule sp(1))
  show "prefix ref s" using pr sp(3) prefix_butlast_trans[of ref s] by simp
qed

lemma double_subtree:
  assumes "nt_inv H nt" and "n \<in> dom (ht_map nt)"
  shows "2 * subtree_size nt n = 2 + (\<Sum>c\<leftarrow>kids nt n. 2 * subtree_size nt c)"
  using subtree_size_unfold[OF assms] by (simp add: sum_list_const_mult)

text \<open>What the loop does from a position: it ends exactly when nothing is left.\<close>

definition visits ::
  "('i nt_entry \<Rightarrow> bool \<times> bool) \<Rightarrow> 'i name_tree \<Rightarrow> name \<Rightarrow> name list \<Rightarrow> iterator option \<Rightarrow> bool" where
  "visits pred nt ref r i \<longleftrightarrow>
     (case r of
        [] \<Rightarrow> i = Some end_iterator
      | x # xs \<Rightarrow> i = Some \<lparr>it_entry = Some x, it_ref = Some ref, it_state = snd (sel_at pred nt x)\<rparr> \<and>
          x \<in> dom (ht_map nt) \<and> prefix ref x \<and> rest_of pred nt ref x (snd (sel_at pred nt x)) = xs)"

lemma skipped_siblings:
  assumes "nt_inv H nt" and "set us \<subseteq> dom (ht_map nt)" and "\<forall>u\<in>set us. sel_at pred nt u = (False, False)"
  shows "concat (map (preorder pred nt) us) = []"
proof -
  have "preorder pred nt u = []" if "u \<in> set us" for u
    using preorder_unfold[OF assms(1), of u pred] assms(2,3) that by auto
  then show ?thesis by simp
qed

lemma partial_loop_kids:
  assumes inv: "nt_inv H nt" and e: "ht_map nt e = Some en" and k: "nte_children en = c # cs"
    and pr: "prefix ref e"
    and IH: "\<And>e' w'. e' \<in> dom (ht_map nt) \<Longrightarrow> prefix ref e' \<Longrightarrow> weight nt ref e' w' < fuel \<Longrightarrow>
      visits pred nt ref (rest_of pred nt ref e' w') (partial_loop pred nt ref e' w')"
    and wt: "weight nt ref e True < Suc fuel"
  shows "visits pred nt ref (rest_of pred nt ref e True) (partial_loop pred nt ref e True)"
proof -
  have ke: "kids nt e = [] @ c # cs" using e k by (simp add: kids_def)
  obtain ws wc where sel: "sel_at pred nt c = (ws, wc)" by force
  note st = kid_step[OF inv ke pr]
  obtain cn where cn: "ht_map nt c = Some cn" using st(3) by auto
  have pc: "pred cn = (ws, wc)" using sel cn by (simp add: sel_at_def)
  have rest: "rest_of pred nt ref e True = (if ws then [c] else []) @ rest_of pred nt ref c wc"
    using st(1)[of pred wc] ke preorder_unfold[OF inv st(3), of pred] sel by (simp add: rest_of_def[of pred nt ref e])
  show ?thesis
  proof (cases ws)
    case True
    then show ?thesis using e k cn pc rest st(3,4) sel
      by (simp add: partial_loop.simps[of pred nt ref e] visits_def hasChildren_def)
  next
    case False
    have "weight nt ref c wc < fuel"
      using wt st(2)[of wc] ke double_subtree[OF inv st(3)] by (simp add: weight_def[of nt ref e] split: if_splits)
    then show ?thesis using IH[OF st(3,4), of wc] False e k cn pc rest
      by (simp add: partial_loop.simps[of pred nt ref e] hasChildren_def)
  qed
qed

lemma partial_loop_siblings:
  assumes inv: "nt_inv H nt" and e: "ht_map nt e = Some en" and w: "\<not> (w \<and> hasChildren en)"
    and pr: "prefix ref e" and ne: "e \<noteq> ref"
    and IH: "\<And>e' w'. e' \<in> dom (ht_map nt) \<Longrightarrow> prefix ref e' \<Longrightarrow> weight nt ref e' w' < fuel \<Longrightarrow>
      visits pred nt ref (rest_of pred nt ref e' w') (partial_loop pred nt ref e' w')"
    and wt: "weight nt ref e w < Suc fuel"
  shows "visits pred nt ref (rest_of pred nt ref e w) (partial_loop pred nt ref e w)"
proof -
  let ?p = "butlast e"
  have t: "tree_ok (ht_map nt)" using inv by (simp add: nt_inv_def)
  have e0: "e \<noteq> []" using pr ne by auto
  have prp: "prefix ref ?p" by (rule prefix_butlast[OF pr]) (use ne in simp)
  have ed: "e \<in> dom (ht_map nt)" using e by blast
  have par: "nte_parent en = Some ?p" using tree_okD(3)[OF t e] e0 by simp
  have pd: "?p \<in> dom (ht_map nt)" using tree_okD(4)[OF t e] e0 by blast
  then obtain pn where pn: "ht_map nt ?p = Some pn" by auto
  obtain us vs where kp: "kids nt ?p = us @ e # vs"
    using kids_of_parent[OF inv ed e0] by (meson split_list)
  have dk: "distinct (kids nt ?p)" by (rule distinct_kids[OF inv])
  have sa: "siblings_after e (nte_children pn) = vs"
    using siblings_after_split[of us e vs] dk kp pn by (simp add: kids_def)
  have vd: "set vs \<subseteq> dom (ht_map nt)"
    using kids_props(1)[OF inv, of _ ?p] kp by auto
  note ste = kid_step[OF inv kp prp]
  have noch: "(if w then concat (map (preorder pred nt) (kids nt e)) else []) = []"
    "(if w then (\<Sum>c\<leftarrow>kids nt e. 2 * subtree_size nt c) else 0) = 0"
    using w e by (auto simp: kids_def hasChildren_def)
  have rest: "rest_of pred nt ref e w = concat (map (preorder pred nt) vs) @ upwards (length ?p - length ref) pred nt ?p"
    using ste(1)[of pred w] noch(1) by simp
  have wte: "weight nt ref e w = 1 + (\<Sum>c\<leftarrow>vs. 2 * subtree_size nt c) + up_weight (length ?p - length ref) nt ?p"
    using ste(2)[of w] noch(2) by simp
  have step: "partial_loop pred nt ref e w =
      (case sibling_scan pred nt vs of
         VisitSibling s ch \<Rightarrow> Some \<lparr>it_entry = Some s, it_ref = Some ref, it_state = ch\<rparr>
       | DescendSibling s \<Rightarrow> partial_loop pred nt ref s True
       | NoMoreSibling \<Rightarrow> partial_loop pred nt ref ?p False)"
    using e ne par pn sa by (simp add: partial_loop.simps[of pred nt ref e] if_not_P[OF w])
  from sibling_scan_cases[OF vd, of pred] show ?thesis
  proof (elim disjE exE conjE)
    fix as s ws ch
    assume v: "vs = as @ s # ws" and skip: "\<forall>u\<in>set as. sel_at pred nt u = (False, False)"
      and sel: "sel_at pred nt s = (True, ch)" and sc: "sibling_scan pred nt vs = VisitSibling s ch"
    have "kids nt ?p = (us @ e # as) @ s # ws" using kp v by simp
    note ss = kid_step[OF inv this prp]
    have "rest_of pred nt ref e w = s # rest_of pred nt ref s ch"
      using rest v skipped_siblings[OF inv _ skip] vd ss(1)[of pred ch] preorder_unfold[OF inv ss(3), of pred] sel by simp
    then show ?thesis using step sc sel ss(3,4) by (simp add: visits_def)
  next
    fix as s ws
    assume v: "vs = as @ s # ws" and skip: "\<forall>u\<in>set as. sel_at pred nt u = (False, False)"
      and sel: "sel_at pred nt s = (False, True)" and sc: "sibling_scan pred nt vs = DescendSibling s"
    have "kids nt ?p = (us @ e # as) @ s # ws" using kp v by simp
    note ss = kid_step[OF inv this prp]
    have "rest_of pred nt ref e w = rest_of pred nt ref s True"
      using rest v skipped_siblings[OF inv _ skip] vd ss(1)[of pred True] preorder_unfold[OF inv ss(3), of pred] sel by simp
    moreover have "weight nt ref s True < fuel"
      using wt wte ss(2)[of True] v double_subtree[OF inv ss(3)] by simp
    ultimately show ?thesis using step sc IH[OF ss(3,4), of True] by simp
  next
    assume skip: "\<forall>u\<in>set vs. sel_at pred nt u = (False, False)" and sc: "sibling_scan pred nt vs = NoMoreSibling"
    have "rest_of pred nt ref e w = rest_of pred nt ref ?p False"
      using rest skipped_siblings[OF inv vd skip] by (simp add: rest_of_def[of pred nt ref ?p])
    moreover have "weight nt ref ?p False < fuel" using wt wte by (simp add: weight_def[of nt ref ?p])
    ultimately show ?thesis using step sc IH[OF pd prp, of False] by simp
  qed
qed

lemma partial_loop_visits:
  assumes inv: "nt_inv H nt"
  shows "e \<in> dom (ht_map nt) \<Longrightarrow> prefix ref e \<Longrightarrow> weight nt ref e w < fuel \<Longrightarrow>
    visits pred nt ref (rest_of pred nt ref e w) (partial_loop pred nt ref e w)"
proof (induction fuel arbitrary: e w)
  case (Suc fuel)
  then obtain en where e: "ht_map nt e = Some en" by auto
  show ?case
  proof (cases "w \<and> hasChildren en")
    case True
    then obtain c cs where "nte_children en = c # cs" by (auto simp: hasChildren_def neq_Nil_conv)
    then show ?thesis using partial_loop_kids[OF inv e _ Suc.prems(2) Suc.IH] Suc.prems(3) True by simp
  next
    case False
    show ?thesis
    proof (cases "e = ref")
      case True
      then have "rest_of pred nt ref e w = []"
        using False e by (auto simp: rest_of_def kids_def hasChildren_def)
      then show ?thesis using True e by (simp add: partial_loop.simps[of pred nt ref ref] visits_def if_not_P[OF False])
    next
      case ne: False
      show ?thesis by (rule partial_loop_siblings[OF inv e False Suc.prems(2) ne Suc.IH Suc.prems(3)])
    qed
  qed
qed simp


text \<open>Which entries the partial enumeration is to visit.\<close>

definition wanted :: "('i nt_entry \<Rightarrow> bool \<times> bool) \<Rightarrow> 'i name_tree \<Rightarrow> name \<Rightarrow> name \<Rightarrow> bool" where
  "wanted pred nt n q \<longleftrightarrow>
     q \<in> dom (ht_map nt) \<and> prefix n q \<and> fst (sel_at pred nt q) \<and>
     (\<forall>r. prefix n r \<longrightarrow> strict_prefix r q \<longrightarrow> snd (sel_at pred nt r))"

lemma prefix_step: "strict_prefix n q \<Longrightarrow> \<exists>x. prefix (n @ [x]) q"
  by (metis append_Cons append_Nil append_assoc neq_Nil_conv prefixI strict_prefix_def prefix_def append_Nil2)

lemma kids_iff:
  "nt_inv H nt \<Longrightarrow> n \<in> dom (ht_map nt) \<Longrightarrow> c \<in> set (kids nt n) \<longleftrightarrow> c \<in> dom (ht_map nt) \<and> c \<noteq> [] \<and> butlast c = n"
  using kids_of_parent[of H nt c] kids_props[of H nt c n] by blast

lemma wanted_step:
  assumes inv: "nt_inv H nt" and n: "n \<in> dom (ht_map nt)"
  shows "wanted pred nt n q \<longleftrightarrow>
    (q = n \<and> fst (sel_at pred nt n)) \<or> (snd (sel_at pred nt n) \<and> (\<exists>c\<in>set (kids nt n). wanted pred nt c q))"
proof -
  have t: "tree_ok (ht_map nt)" using inv by (simp add: nt_inv_def)
  have below: "wanted pred nt n q \<longleftrightarrow> snd (sel_at pred nt n) \<and> wanted pred nt (n @ [x]) q"
    if x: "prefix (n @ [x]) q" for x
  proof -
    have "prefix n r \<and> strict_prefix r q \<longleftrightarrow> r = n \<or> prefix (n @ [x]) r \<and> strict_prefix r q" for r
      using x unfolding prefix_def strict_prefix_def by (auto simp: append_eq_append_conv2 Cons_eq_append_conv)
    then have "(\<forall>r. prefix n r \<longrightarrow> strict_prefix r q \<longrightarrow> snd (sel_at pred nt r)) \<longleftrightarrow>
        snd (sel_at pred nt n) \<and> (\<forall>r. prefix (n @ [x]) r \<longrightarrow> strict_prefix r q \<longrightarrow> snd (sel_at pred nt r))"
      by metis
    moreover have "prefix n q" using x by (rule append_prefixD)
    ultimately show ?thesis using x by (simp add: wanted_def) blast
  qed
  show ?thesis
  proof (cases "strict_prefix n q")
    case True
    then obtain x where x: "prefix (n @ [x]) q" using prefix_step by blast
    have "wanted pred nt c q \<Longrightarrow> c \<in> set (kids nt n) \<Longrightarrow> c = n @ [x]" for c
      using x kids_props(3,4)[OF inv, of c n] prefix_same_cases[of c q "n @ [x]"]
      unfolding wanted_def by (metis length_append_singleton not_equal_is_parallel parallel_def)
    moreover have "n @ [x] \<in> set (kids nt n)" if "wanted pred nt (n @ [x]) q"
      using tree_prefix_closed[OF t, of q "n @ [x]"] that x by (simp add: kids_iff[OF inv n] wanted_def)
    ultimately show ?thesis using below[OF x] True by (metis strict_prefix_def)
  next
    case False
    have "\<not> wanted pred nt c q" if "c \<in> set (kids nt n)" for c
      using False kids_props(2,3)[OF inv that] unfolding wanted_def
      by (metis append_butlast_last_id append_prefixD strict_prefix_def prefix_order.antisym prefixeq_butlast
          append_self_conv not_Cons_self2)
    then show ?thesis using False n by (auto simp: wanted_def strict_prefix_def)
  qed
qed

lemma preorder_props:
  assumes inv: "nt_inv H nt"
  shows "n \<in> dom (ht_map nt) \<Longrightarrow>
    distinct (preorder pred nt n) \<and> set (preorder pred nt n) = {q. wanted pred nt n q}"
proof (induction "getMaxDepth - length n" arbitrary: n rule: less_induct)
  case less
  have t: "tree_ok (ht_map nt)" using inv by (simp add: nt_inv_def)
  have IH: "distinct (preorder pred nt c) \<and> set (preorder pred nt c) = {q. wanted pred nt c q}"
    if "c \<in> set (kids nt n)" for c
  proof (rule less.hyps)
    note kp = kids_props[OF inv that]
    show "getMaxDepth - length c < getMaxDepth - length n" using kp(4) tree_depth[OF t kp(1)] by simp
    show "c \<in> dom (ht_map nt)" by (rule kp(1))
  qed
  have disj: "c = c'" if "c \<in> set (kids nt n)" "c' \<in> set (kids nt n)" "wanted pred nt c q" "wanted pred nt c' q" for c c' q
    using kids_props(4)[OF inv that(1)] kids_props(4)[OF inv that(2)] that(3,4)
    by (auto simp: wanted_def prefix_take_iff)
  have dist: "distinct (concat (map (preorder pred nt) cs))" if "set cs \<subseteq> set (kids nt n)" "distinct cs" for cs
    using that
  proof (induction cs)
    case (Cons c cs)
    have "set (preorder pred nt c) \<inter> set (concat (map (preorder pred nt) cs)) = {}"
      using disj IH Cons.prems by fastforce
    then show ?case using Cons IH[of c] by simp
  qed simp
  have self: "\<not> wanted pred nt c n" if "c \<in> set (kids nt n)" for c
    using kids_props(4)[OF inv that] by (auto simp: wanted_def dest: prefix_length_le)
  have setk: "set (concat (map (preorder pred nt) (kids nt n))) = {q. \<exists>c\<in>set (kids nt n). wanted pred nt c q}"
    using IH by auto
  have dk: "distinct (concat (map (preorder pred nt) (kids nt n)))"
    by (rule dist) (simp_all add: distinct_kids[OF inv])
  show ?case
    unfolding preorder_unfold[OF inv less.prems]
    using dk setk self wanted_step[OF inv less.prems, of pred] by auto
qed


definition partial_todo :: "('i nt_entry \<Rightarrow> bool \<times> bool) \<Rightarrow> 'i name_tree \<Rightarrow> iterator \<Rightarrow> name list" where
  "partial_todo pred nt i =
     (case (it_ref i, it_entry i) of (Some ref, Some e) \<Rightarrow> rest_of pred nt ref e (it_state i) | _ \<Rightarrow> [])"

definition partial_good :: "(component \<Rightarrow> u64) \<Rightarrow> 'i name_tree \<Rightarrow> name \<Rightarrow> iterator \<Rightarrow> bool" where
  "partial_good H nt ref i \<longleftrightarrow>
     nt_inv H nt \<and> it_ref i = Some ref \<and>
     (\<forall>e. it_entry i = Some e \<longrightarrow> e \<in> dom (ht_map nt) \<and> prefix ref e)"

interpretation partial: enumeration "partial_good H nt ref" "partial_advance pred nt" "partial_todo pred nt"
  for H nt ref pred
proof
  fix i :: iterator and x xs
  assume good: "partial_good H nt ref i" and "it_entry i \<noteq> None"
  then obtain e where e: "it_entry i = Some e" "e \<in> dom (ht_map nt)" "prefix ref e"
    and inv: "nt_inv H nt" and ref: "it_ref i = Some ref" by (auto simp: partial_good_def)
  have todo: "partial_todo pred nt i = rest_of pred nt ref e (it_state i)" by (simp add: partial_todo_def ref e)
  have v: "visits pred nt ref (partial_todo pred nt i) (partial_advance pred nt i)"
    using partial_loop_visits[OF inv e(2,3) lessI, where pred = pred]
    by (simp add: todo partial_advance_def ref e)
  show "partial_todo pred nt i = [] \<Longrightarrow> partial_advance pred nt i = Some end_iterator"
    using v by (simp add: visits_def)
  show "partial_todo pred nt i = x # xs \<Longrightarrow>
      \<exists>j. partial_advance pred nt i = Some j \<and> partial_good H nt ref j \<and> it_entry j = Some x \<and> partial_todo pred nt j = xs"
    using v inv by (simp add: visits_def partial_good_def partial_todo_def)
qed

lemma partial_range_preorder:
  assumes inv: "nt_inv H nt"
  shows "partial_range H p pred nt = Some (if p \<in> dom (ht_map nt) then preorder pred nt p else [])"
proof (cases "ht_map nt p")
  case None
  then show ?thesis
    using nt_findExactMatch_map[OF inv, of p "length p"]
    by (simp add: partial_range_def enum_range_def mk_iterator_def partial_advance_def domIff)
next
  case (Some e)
  then have pd: "p \<in> dom (ht_map nt)" by blast
  let ?i0 = "\<lparr>it_entry = None, it_ref = Some p, it_state = False\<rparr>"
  let ?i = "partial_advance pred nt ?i0"
  obtain ws wc where pe: "pred e = (ws, wc)" by force
  then have sel: "sel_at pred nt p = (ws, wc)" by (simp add: sel_at_def Some)
  have enum: "partial_range H p pred nt = Option.bind ?i (enum_loop (partial_advance pred nt))"
    using nt_findExactMatch_map[OF inv, of p "length p"] Some ht_map_name[OF Some]
    by (simp add: partial_range_def enum_range_def mk_iterator_def)
  have pre: "preorder pred nt p = (if ws then [p] else []) @ rest_of pred nt p p wc"
    using preorder_unfold[OF inv pd, of pred] sel by (simp add: rest_of_def)
  have v: "visits pred nt p (preorder pred nt p) ?i"
  proof (cases ws)
    case True
    then show ?thesis using pe pd sel by (simp add: pre visits_def partial_advance_def Some)
  next
    case False
    then show ?thesis
      using partial_loop_visits[OF inv pd _ lessI, where pred = pred and ref = p and w = wc] pe
      by (simp add: pre partial_advance_def Some)
  qed
  show ?thesis
  proof (cases "preorder pred nt p")
    case Nil
    then show ?thesis using v pd by (simp add: enum visits_def)
  next
    case (Cons x xs)
    then obtain i where i: "?i = Some i" "it_entry i = Some x" "partial_good H nt p i" "partial_todo pred nt i = xs"
      using v inv by (simp add: visits_def partial_good_def partial_todo_def)
    show ?thesis using enum Cons i(1,4) partial.enum_todo[OF i(3,2), of pred] pd by simp
  qed
qed

lemma partialEnumerate_preorder:
  "nt_inv H nt \<Longrightarrow> partialEnumerate H p pred nt = (if p \<in> dom (ht_map nt) then preorder pred nt p else [])"
  by (simp add: partialEnumerate_def partial_range_preorder)

lemma fullEnumerate_set:
  assumes "ht_inv H nt"
  shows "distinct (fullEnumerate pred nt)" and "set (fullEnumerate pred nt) = {q. nt_selects pred nt q}"
proof -
  have d: "distinct (map node_name (ht_nodes nt))" using assms by (simp add: ht_inv_def)
  show "distinct (fullEnumerate pred nt)"
    unfolding fullEnumerate_nodes[OF assms] by (rule distinct_map_filter[OF d])
  show "set (fullEnumerate pred nt) = {q. nt_selects pred nt q}"
    unfolding fullEnumerate_nodes[OF assms] by (auto simp: nt_selects_iff ht_map_Some_iff[OF d])
qed

lemma mk_name_tree_inv: "0 < k \<Longrightarrow> nt_inv H (mk_name_tree k)"
  by (simp add: nt_inv_def mk_name_tree_def ht_inv_mk tree_ok_def)

section \<open>Properties\<close>

text \<open>
  C19: full enumeration of the name tree visits every entry the selector accepts, each exactly once,
  whatever the distribution of the entries over the buckets; and \<open>findAllMatches\<close> visits exactly
  the accepted entries among the prefixes of the name, from the longest to the shortest; both loops reach the
  end of their range.
\<close>

theorem enumeration_complete:
  assumes "nt_inv H nt"
  shows "full_range pred nt = Some (fullEnumerate pred nt) \<and> distinct (fullEnumerate pred nt) \<and>
    set (fullEnumerate pred nt) = {q. \<exists>e. ht_map nt q = Some e \<and> pred e} \<and>
    findAllMatches H n pred nt = filter (\<lambda>q. \<exists>e. ht_map nt q = Some e \<and> pred e) (rev (prefixes n)) \<and>
    matches_range H n pred nt = Some (findAllMatches H n pred nt)"
proof -
  have h: "ht_inv H nt" using assms by (simp add: nt_inv_def)
  have "nt_selects pred nt = (\<lambda>q. \<exists>e. ht_map nt q = Some e \<and> pred e)"
    by (rule ext) (rule nt_selects_iff)
  then show ?thesis
    using fullEnumerate_set[OF h, of pred] findAllMatches_prefixes[OF assms, of n pred]
    by (simp add: full_range_nodes[OF h] fullEnumerate_nodes[OF h] matches_range_prefixes[OF assms])
qed

text \<open>
  C18: partial enumeration visits, in pre-order and each once, exactly those entries at or below the
  given prefix that the selector wants and all of whose ancestors from the prefix on let it descend
  into their children. The loop over the range reaches the end, and so does every run of the loop over
  children, siblings and parents inside it.
\<close>

theorem partialEnumerate_complete:
  assumes "nt_inv H nt" and "p \<in> dom (ht_map nt)"
  shows "partial_range H p pred nt = Some (preorder pred nt p) \<and> partialEnumerate H p pred nt = preorder pred nt p \<and>
    distinct (partialEnumerate H p pred nt) \<and>
    set (partialEnumerate H p pred nt) =
      {q \<in> dom (ht_map nt). prefix p q \<and> fst (sel_at pred nt q) \<and>
         (\<forall>r. prefix p r \<and> strict_prefix r q \<longrightarrow> snd (sel_at pred nt r))}"
  using partial_range_preorder[OF assms(1), of p pred] partialEnumerate_preorder[OF assms(1), of p pred]
    preorder_props[OF assms, of pred] assms(2)
  by (auto simp: wanted_def)

definition tree_example :: "unit name_tree" where
  "tree_example = snd (nt_lookup (\<lambda>_. 7) [generic_comp ''a'', generic_comp ''b''] 2 (mk_name_tree 16))"

lemma tree_example_props:
  shows "nt_inv (\<lambda>_. 7) tree_example"
    and "dom (ht_map tree_example) =
      {[], [generic_comp ''a''], [generic_comp ''a'', generic_comp ''b'']}"
proof -
  let ?n = "[generic_comp ''a'', generic_comp ''b'']"
  have "nt_inv (\<lambda>_. 7) (mk_name_tree 16 :: unit name_tree)" by (rule mk_name_tree_inv) simp
  note lk = nt_lookup_props[OF this, of 2 ?n]
  show "nt_inv (\<lambda>_. 7) tree_example" using lk(2) by (simp add: tree_example_def getMaxDepth_def)
  have "{q. prefix q ?n} = {[], [generic_comp ''a''], ?n}"
    by (auto simp: prefix_Cons)
  then show "dom (ht_map tree_example) = {[], [generic_comp ''a''], ?n}"
    using lk(4) by (simp add: tree_example_def getMaxDepth_def mk_name_tree_def)
qed

theorem enumeration_complete_witness:
  "set (fullEnumerate (\<lambda>_. True) tree_example) =
     {[], [generic_comp ''a''], [generic_comp ''a'', generic_comp ''b'']} \<and>
   findAllMatches (\<lambda>_. 7) [generic_comp ''a''] (\<lambda>_. True) tree_example = [[generic_comp ''a''], []]"
proof -
  let ?D = "dom (ht_map tree_example)"
  have "{q. \<exists>e. ht_map tree_example q = Some e \<and> True} = ?D" by auto
  moreover have "filter (\<lambda>q. \<exists>e. ht_map tree_example q = Some e \<and> True) xs = filter (\<lambda>q. q \<in> ?D) xs" for xs
    by (rule filter_cong) auto
  ultimately show ?thesis
    using enumeration_complete[OF tree_example_props(1), of "\<lambda>_. True" "[generic_comp ''a'']"]
    by (simp add: tree_example_props(2))
qed

theorem partialEnumerate_complete_witness:
  "set (partialEnumerate (\<lambda>_. 7) [generic_comp ''a''] (\<lambda>_. (True, True)) tree_example) =
     {[generic_comp ''a''], [generic_comp ''a'', generic_comp ''b'']}"
proof -
  let ?P = "\<lambda>_ :: unit nt_entry. (True, True)"
  have s: "sel_at ?P tree_example q = (True, True)" if "q \<in> dom (ht_map tree_example)" for q
    using that by (auto simp: sel_at_def)
  have "[generic_comp ''a''] \<in> dom (ht_map tree_example)" by (simp add: tree_example_props(2))
  note w = partialEnumerate_complete[OF tree_example_props(1) this, of ?P]
  define Q where "Q q \<longleftrightarrow> fst (sel_at ?P tree_example q) \<and>
      (\<forall>r. prefix [generic_comp ''a''] r \<and> strict_prefix r q \<longrightarrow> snd (sel_at ?P tree_example r))" for q
  have low: "r = [generic_comp ''a'']"
    if "prefix [generic_comp ''a''] r" "strict_prefix r [generic_comp ''a'', generic_comp ''b'']" for r
    using that by (auto simp: prefix_Cons strict_prefix_def)
  have sa: "sel_at ?P tree_example [generic_comp ''a''] = (True, True)"
    "sel_at ?P tree_example [generic_comp ''a'', generic_comp ''b''] = (True, True)"
    by (rule s, simp add: tree_example_props(2))+
  have "Q [generic_comp ''a'']" unfolding Q_def sa by (auto simp: strict_prefix_def dest: prefix_order.antisym)
  moreover have "Q [generic_comp ''a'', generic_comp ''b'']" unfolding Q_def sa using low sa(1) by fastforce
  ultimately have "{q \<in> dom (ht_map tree_example). prefix [generic_comp ''a''] q \<and> Q q} =
      {[generic_comp ''a''], [generic_comp ''a'', generic_comp ''b'']}"
    unfolding tree_example_props(2) by auto
  with w show ?thesis unfolding Q_def by metis
qed

end
