(* ===== verification/Pit.thy ===== *)
theory Pit
  imports Name_Tree_Iterator
begin

text \<open>
  The Pending Interest Table (\<open>daemon/table/pit.cpp\<close>, \<open>pit-iterator.cpp\<close>). A pointer to a PIT
  entry is its key; the view of the table is the map from keys to entries. An entry sits in the
  name tree entry of its Interest name without implicit digest, cut at the maximum depth, which
  is why one lookup by Data name reaches every entry the Data can satisfy.
\<close>

section \<open>Operations\<close>

definition nteHasPitEntries :: "'i nt_entry \<Rightarrow> bool" where
  "nteHasPitEntries nte \<longleftrightarrow> hasPitEntries nte"

definition pit_nte :: "pit_key \<Rightarrow> name" where
  "pit_nte k = take (pit_nteDepth (fst k)) (fst k)"

text \<open>Reading and writing through a pointer to a PIT entry.\<close>

definition pit_deref :: "'i tables \<Rightarrow> pit_key \<Rightarrow> 'i pit_entry option" where
  "pit_deref tb k = find (\<lambda>pe. pe_key pe = k) (pit_at tb (pit_nte k))"

definition pit_modify :: "pit_key \<Rightarrow> ('i pit_entry \<Rightarrow> 'i pit_entry) \<Rightarrow> 'i tables \<Rightarrow> 'i tables" where
  "pit_modify k f tb =
     tb\<lparr>nameTree := ht_modify (pit_nte k)
         (nte_pit_update (update_first (\<lambda>pe. pe_key pe = k) f)) (nameTree tb)\<rparr>"

definition pit_findOrInsert ::
  "(component \<Rightarrow> u64) \<Rightarrow> interest \<Rightarrow> bool \<Rightarrow> 'i tables \<Rightarrow> (pit_key option \<times> bool) \<times> 'i tables" where
  "pit_findOrInsert H i allowInsert tb =
     (let n = int_name i;
          nteDepth = pit_nteDepth n;
          (found, tb1) =
            (if allowInsert then (True, tb\<lparr>nameTree := snd (nt_lookup H n nteDepth (nameTree tb))\<rparr>)
             else (nt_findExactMatch H n nteDepth (nameTree tb) \<noteq> None, tb))
      in if \<not> found then ((None, True), tb1)
         else (case find (\<lambda>pe. pit_canMatch pe i nteDepth) (pit_at tb1 (take nteDepth n)) of
                 Some pe \<Rightarrow> ((Some (pe_key pe), False), tb1)
               | None \<Rightarrow>
                   if \<not> allowInsert then ((None, True), tb1)
                   else ((Some (interest_key i), True),
                         tb1\<lparr>nameTree := ht_modify (take nteDepth n) (insertPitEntry (mk_pit_entry i)) (nameTree tb1),
                             pit_nItems := pit_nItems tb1 + 1\<rparr>)))"

definition pit_find :: "(component \<Rightarrow> u64) \<Rightarrow> interest \<Rightarrow> 'i tables \<Rightarrow> pit_key option" where
  "pit_find H i tb = fst (fst (pit_findOrInsert H i False tb))"

definition pit_insert ::
  "(component \<Rightarrow> u64) \<Rightarrow> interest \<Rightarrow> 'i tables \<Rightarrow> (pit_key option \<times> bool) \<times> 'i tables" where
  "pit_insert H i tb = pit_findOrInsert H i True tb"

text \<open>\<open>Interest::matchesData\<close> is a parameter.\<close>

definition pit_findAllDataMatches ::
  "(interest \<Rightarrow> data \<Rightarrow> bool) \<Rightarrow> (component \<Rightarrow> u64) \<Rightarrow> data \<Rightarrow> 'i tables \<Rightarrow> 'i pit_entry list" where
  "pit_findAllDataMatches matchesData H d tb =
     concat (map (\<lambda>nte. filter (\<lambda>pe. matchesData (pe_interest pe) d) (pit_at tb nte))
       (findAllMatches H (data_name d) nteHasPitEntries (nameTree tb)))"

definition pit_erase_entry :: "'i pit_entry \<Rightarrow> bool \<Rightarrow> 'i tables \<Rightarrow> 'i tables" where
  "pit_erase_entry entry canDeleteNte tb =
     (case pe_nameTreeEntry entry of
        None \<Rightarrow> tb
      | Some nte \<Rightarrow>
          let nt1 = ht_modify nte (erasePitEntry (pe_key entry)) (nameTree tb);
              nt2 = (if canDeleteNte then snd (eraseIfEmpty nte True nt1) else nt1)
          in tb\<lparr>nameTree := nt2, pit_nItems := pit_nItems tb - 1\<rparr>)"

definition pit_erase :: "pit_key \<Rightarrow> 'i tables \<Rightarrow> 'i tables" where
  "pit_erase k tb = (case pit_deref tb k of None \<Rightarrow> tb | Some entry \<Rightarrow> pit_erase_entry entry True tb)"

definition pit_deleteInOutRecords :: "pit_key \<Rightarrow> face_id \<Rightarrow> 'i tables \<Rightarrow> 'i tables" where
  "pit_deleteInOutRecords k face tb = pit_modify k (\<lambda>pe. deleteOutRecord face (deleteInRecord face pe)) tb"

record pit_iterator =
  pi_ntIt :: iterator
  pi_iPitEntry :: nat

definition pit_begin :: "'i tables \<Rightarrow> pit_iterator" where
  "pit_begin tb =
     \<lparr>pi_ntIt = mk_iterator (full_advance nteHasPitEntries (nameTree tb)) None, pi_iPitEntry = 0\<rparr>"

text \<open>The assertions of the iterator are part of the model: \<open>None\<close> if one fails.\<close>

definition pit_next :: "'i tables \<Rightarrow> pit_iterator \<Rightarrow> pit_iterator option" where
  "pit_next tb it =
     (case it_entry (pi_ntIt it) of
        None \<Rightarrow> None
      | Some nte \<Rightarrow>
          if \<not> pi_iPitEntry it < length (pit_at tb nte) then None
          else if length (pit_at tb nte) \<le> Suc (pi_iPitEntry it) then
            let ntIt = full_advance nteHasPitEntries (nameTree tb) (pi_ntIt it)
            in case it_entry ntIt of
                 None \<Rightarrow> Some \<lparr>pi_ntIt = ntIt, pi_iPitEntry = 0\<rparr>
               | Some nte' \<Rightarrow> if pit_at tb nte' = [] then None else Some \<lparr>pi_ntIt = ntIt, pi_iPitEntry = 0\<rparr>
          else Some (it\<lparr>pi_iPitEntry := Suc (pi_iPitEntry it)\<rparr>))"

text \<open>
  A loop \<open>for (it = begin(); it != end(); ++it)\<close>; iterators are equal if they are at the same name tree
  entry and index. \<open>None\<close> is a failed assertion or a loop that does not reach \<open>end()\<close>.
\<close>

partial_function (option) pit_enum :: "'i tables \<Rightarrow> pit_iterator \<Rightarrow> 'i pit_entry list option" where
  "pit_enum tb it =
     (if it_entry (pi_ntIt it) = None \<and> pi_iPitEntry it = 0 then Some []
      else case it_entry (pi_ntIt it) of
        None \<Rightarrow> None
      | Some nte \<Rightarrow>
          if \<not> pi_iPitEntry it < length (pit_at tb nte) then None
          else case pit_next tb it of
            None \<Rightarrow> None
          | Some it' \<Rightarrow> Option.bind (pit_enum tb it') (\<lambda>pes. Some ((pit_at tb nte ! pi_iPitEntry it) # pes)))"

section \<open>Effect of the operations\<close>

lemma slot_effect_pit:
  "slot_effect (insertPitEntry pe) n sl =
     (fst sl, fst (snd sl) @ [pe\<lparr>pe_nameTreeEntry := Some n\<rparr>], snd (snd sl))"
  "slot_effect (erasePitEntry k) n sl = (fst sl, swap_erase (\<lambda>pe. pe_key pe = k) (fst (snd sl)), snd (snd sl))"
  "slot_effect (nte_pit_update h) n sl = (fst sl, h (fst (snd sl)), snd (snd sl))"
  by (cases sl, simp)+

lemma slots_ok_set_pit: "slots_ok n sl \<Longrightarrow> pit_slot_ok n v \<Longrightarrow> slots_ok n (fst sl, v, snd (snd sl))"
  by (auto simp: slots_ok_def split_beta)

lemma pit_slotD:
  assumes "tables_ok H tb" and "pe \<in> set (pit_at tb n)"
  shows "pe_nameTreeEntry pe = Some n" and "pit_nte (pe_key pe) = n" and "pit_entry_ok pe"
  using tables_okD(6)[OF assms(1), of n] assms(2)
  by (auto simp: pit_slot_ok_def pit_nte_def interest_key_def)

lemma pit_distinct: "tables_ok H tb \<Longrightarrow> distinct (map (\<lambda>pe. pe_key pe) (pit_at tb n))"
  using tables_okD(6)[of H tb n] by (simp add: pit_slot_ok_def)

lemma pit_deref_key: "pit_deref tb k = Some pe \<Longrightarrow> pe_key pe = k \<and> pe \<in> set (pit_at tb (pit_nte k))"
  by (auto simp: pit_deref_def dest: find_Some_in)

lemma pit_deref_iff:
  assumes "tables_ok H tb"
  shows "pit_deref tb k = Some pe \<longleftrightarrow> (\<exists>n. pe \<in> set (pit_at tb n)) \<and> pe_key pe = k"
proof
  assume "pit_deref tb k = Some pe"
  then show "(\<exists>n. pe \<in> set (pit_at tb n)) \<and> pe_key pe = k"
    using pit_deref_key by blast
next
  assume "(\<exists>n. pe \<in> set (pit_at tb n)) \<and> pe_key pe = k"
  then obtain n where n: "pe \<in> set (pit_at tb n)" "pe_key pe = k" by blast
  then have "pit_nte k = n" using pit_slotD(2)[OF assms n(1)] by simp
  then show "pit_deref tb k = Some pe"
    using n find_key_Some_iff[OF pit_distinct[OF assms, of n]] by (simp add: pit_deref_def)
qed

lemma pit_nteDepth_le: "pit_nteDepth n \<le> length n" "pit_nteDepth n \<le> getMaxDepth"
  by (auto simp: pit_nteDepth_def)

lemma pit_canMatch_at:
  assumes "tables_ok H tb" and "pe \<in> set (pit_at tb (take (pit_nteDepth n) n))" and "int_name i = n"
  shows "pit_canMatch pe i (pit_nteDepth n) \<longleftrightarrow> pe_key pe = interest_key i"
proof (rule pit_canMatch_iff_key)
  let ?m = "take (pit_nteDepth n) n"
  have "take (pit_nteDepth (pe_name pe)) (pe_name pe) = ?m"
    using pit_slotD(2)[OF assms(1,2)] by (simp add: pit_nte_def interest_key_def)
  moreover have "length ?m = pit_nteDepth n" using pit_nteDepth_le(1)[of n] by simp
  ultimately show "take (pit_nteDepth n) (pe_name pe) = take (pit_nteDepth n) (int_name i)"
    using assms(3) pit_nteDepth_le(1)[of "pe_name pe"] by (metis length_take min.absorb2)
qed

lemma find_cong_set: "(\<And>x. x \<in> set xs \<Longrightarrow> P x = Q x) \<Longrightarrow> find P xs = find Q xs"
  by (induction xs) auto

lemma pit_find_at:
  assumes "tables_ok H tb" and "int_name i = n"
  shows "find (\<lambda>pe. pit_canMatch pe i (pit_nteDepth n)) (pit_at tb (take (pit_nteDepth n) n)) =
    pit_deref tb (interest_key i)"
proof -
  have "pit_nte (interest_key i) = take (pit_nteDepth n) n"
    using assms(2) by (simp add: pit_nte_def interest_key_def)
  then show ?thesis
    unfolding pit_deref_def using pit_canMatch_at[OF assms(1) _ assms(2)] by (auto intro: find_cong_set)
qed

definition new_pit_entry :: "interest \<Rightarrow> 'i pit_entry" where
  "new_pit_entry i = (mk_pit_entry i)\<lparr>pe_nameTreeEntry := Some (pit_nte (interest_key i))\<rparr>"

lemma new_pit_entry_simps [simp]:
  "pe_interest (new_pit_entry i) = i" "pe_inRecords (new_pit_entry i) = []" "pe_outRecords (new_pit_entry i) = []"
  "pe_nameTreeEntry (new_pit_entry i) = Some (pit_nte (interest_key i))"
  by (simp_all add: new_pit_entry_def mk_pit_entry_def)

lemma pit_find_correct:
  assumes "tables_ok H tb"
  shows "pit_find H i tb = map_option (\<lambda>pe. pe_key pe) (pit_deref tb (interest_key i))"
proof -
  let ?n = "int_name i"
  have "pit_deref tb (interest_key i) = None" if "ht_map (nameTree tb) (take (pit_nteDepth ?n) ?n) = None"
    using that by (simp add: pit_deref_def pit_nte_def interest_key_def map_slots_def no_slots_def)
  then show ?thesis
    using pit_find_at[OF assms, of i ?n] nt_findExactMatch_map[OF tables_okD(1)[OF assms], of ?n "pit_nteDepth ?n"]
    by (auto simp: pit_find_def pit_findOrInsert_def Let_def split: option.splits)
qed

lemma pit_insert_props:
  fixes i :: interest
  assumes tb: "tables_ok H tb"
  defines "k \<equiv> interest_key i"
  shows "fst (pit_insert H i tb) = (Some k, pit_deref tb k = None)"
    and "nt_slots (nameTree (snd (pit_insert H i tb))) =
      (if pit_deref tb k = None
       then (nt_slots (nameTree tb))(pit_nte k :=
         (fib_at tb (pit_nte k), pit_at tb (pit_nte k) @ [new_pit_entry i], snd (snd (nt_slots (nameTree tb) (pit_nte k)))))
       else nt_slots (nameTree tb))"
    and "tables_ok H (snd (pit_insert H i tb))"
    and "names (snd (pit_insert H i tb)) = names tb \<union> {q. prefix q (pit_nte k)}"
proof -
  let ?n = "int_name i" and ?d = "pit_nteDepth (int_name i)"
  let ?nt = "snd (nt_lookup H ?n ?d (nameTree tb))"
  let ?tb1 = "tb\<lparr>nameTree := ?nt\<rparr>"
  have nte: "take ?d ?n = pit_nte k" by (simp add: k_def pit_nte_def interest_key_def)
  note lk = nt_lookup_props[OF tables_okD(1)[OF tb] pit_nteDepth_le[of ?n]]
  have ok1: "tables_ok H ?tb1" by (rule tables_ok_lookup[OF tb pit_nteDepth_le])
  have sl: "nt_slots ?nt = nt_slots (nameTree tb)" by (rule lk(3))
  have pres: "pit_nte k \<in> dom (ht_map ?nt)" using lk(4) by (simp add: nte)
  have fnd: "find (\<lambda>pe. pit_canMatch pe i ?d) (pit_at tb (pit_nte k)) = pit_deref tb k"
    using pit_find_at[OF tb, of i ?n] by (simp add: nte k_def)
  let ?new = "?tb1\<lparr>nameTree := ht_modify (pit_nte k) (insertPitEntry (mk_pit_entry i)) ?nt,
      pit_nItems := pit_nItems tb + 1\<rparr>"
  have eq: "pit_insert H i tb =
      (case pit_deref tb k of Some pe \<Rightarrow> ((Some (pe_key pe), False), ?tb1) | None \<Rightarrow> ((Some k, True), ?new))"
    by (simp add: pit_insert_def pit_findOrInsert_def Let_def nte sl fnd flip: k_def split: option.split)
  show "fst (pit_insert H i tb) = (Some k, pit_deref tb k = None)"
    using pit_deref_key[of tb k] by (auto simp: eq split: option.splits)
  show "nt_slots (nameTree (snd (pit_insert H i tb))) =
      (if pit_deref tb k = None
       then (nt_slots (nameTree tb))(pit_nte k :=
         (fib_at tb (pit_nte k), pit_at tb (pit_nte k) @ [new_pit_entry i], snd (snd (nt_slots (nameTree tb) (pit_nte k)))))
       else nt_slots (nameTree tb))"
    by (simp add: eq sl ht_modify_slots pres slot_effect_pit new_pit_entry_def[of i, folded k_def]
        split: option.splits)
  show "names (snd (pit_insert H i tb)) = names tb \<union> {q. prefix q (pit_nte k)}"
    using lk(4) by (simp add: eq names_def ht_modify_dom nte split: option.splits)
  show "tables_ok H (snd (pit_insert H i tb))"
  proof (cases "pit_deref tb k")
    case None
    have fresh: "k \<notin> (\<lambda>pe. pe_key pe) ` set (pit_at tb (pit_nte k))"
      using None by (auto simp: pit_deref_def find_None_iff)
    have "pit_slot_ok (pit_nte k) (pit_at tb (pit_nte k) @ [new_pit_entry i])"
      using tables_okD(6)[OF tb, of "pit_nte k"] fresh
      by (auto simp: pit_slot_ok_def k_def pit_nte_def interest_key_def pit_entry_ok_def)
    then have "tables_ok H ?new"
      by (intro tables_ok_write[OF ok1, of "insertPitEntry (mk_pit_entry i)" "pit_nte k"])
        (simp_all add: pres slot_effect_pit sl cnt_defs slots_ok_set_pit[OF tables_okD(4)[OF tb]]
          new_pit_entry_def[of i, folded k_def])
    then show ?thesis by (simp add: eq None)
  qed (use ok1 in \<open>simp add: eq\<close>)
qed


lemma pit_deref_cong: "(\<And>n. pit_at tb' n = pit_at tb n) \<Longrightarrow> pit_deref tb' k = pit_deref tb k"
  by (simp add: pit_deref_def)

lemma pit_insert_view:
  assumes "tables_ok H tb"
  shows "pit_deref (snd (pit_insert H i tb)) k =
    (if k = interest_key i then Some (case pit_deref tb k of None \<Rightarrow> new_pit_entry i | Some pe \<Rightarrow> pe)
     else pit_deref tb k)"
proof (cases "pit_deref tb (interest_key i)")
  case None
  have f: "find P (xs @ [x]) = (case find P xs of None \<Rightarrow> if P x then Some x else None | Some y \<Rightarrow> Some y)" for P xs and x :: "'a pit_entry"
    by (simp add: find_append split: option.split)
  have "pit_deref (snd (pit_insert H i tb)) k =
      find (\<lambda>pe. pe_key pe = k) (if pit_nte k = pit_nte (interest_key i)
        then pit_at tb (pit_nte k) @ [new_pit_entry i] else pit_at tb (pit_nte k))"
    using pit_insert_props(2)[OF assms, of i] None by (simp add: pit_deref_def)
  also have "\<dots> = (if k = interest_key i then Some (new_pit_entry i) else pit_deref tb k)"
    using None by (auto simp: pit_deref_def f split: option.splits)
  finally show ?thesis using None by simp
next
  case (Some pe)
  then show ?thesis
    using pit_insert_props(2)[OF assms, of i] by (auto simp: pit_deref_def)
qed

section \<open>Writing through a pointer\<close>

definition pit_keeps :: "('i pit_entry \<Rightarrow> 'i pit_entry) \<Rightarrow> bool" where
  "pit_keeps f \<longleftrightarrow>
     (\<forall>pe. pe_interest (f pe) = pe_interest pe \<and> pe_nameTreeEntry (f pe) = pe_nameTreeEntry pe \<and>
        (pit_entry_ok pe \<longrightarrow> pit_entry_ok (f pe)))"

lemma pit_keepsD:
  "pit_keeps f \<Longrightarrow> pe_interest (f pe) = pe_interest pe"
  "pit_keeps f \<Longrightarrow> pe_nameTreeEntry (f pe) = pe_nameTreeEntry pe"
  "pit_keeps f \<Longrightarrow> pit_entry_ok pe \<Longrightarrow> pit_entry_ok (f pe)"
  by (simp_all add: pit_keeps_def)

lemma pit_keeps_ops [simp]:
  "pit_keeps (insertOrUpdateInRecord now f i)" "pit_keeps (insertOrUpdateOutRecord now f i)"
  "pit_keeps (deleteInRecord f)" "pit_keeps (deleteOutRecord f)" "pit_keeps clearInRecords"
  "pit_keeps (\<lambda>pe. deleteOutRecord f (deleteInRecord f pe))"
  "pit_keeps (pe_expiryTimer_update t)" "pit_keeps (pe_isSatisfied_update b)"
  "pit_keeps (pe_dataFreshnessPeriod_update d)" "pit_keeps (pe_info_update u)"
  by (simp_all add: pit_keeps_def pit_entry_ok_records) (simp_all add: pit_entry_ok_def)

lemma pit_keeps_comp: "pit_keeps f \<Longrightarrow> pit_keeps g \<Longrightarrow> pit_keeps (\<lambda>pe. f (g pe))"
  by (simp add: pit_keeps_def)

lemma pit_modify_slots:
  "nt_slots (nameTree (pit_modify k f tb)) =
     (nt_slots (nameTree tb))(pit_nte k :=
        (fib_at tb (pit_nte k), update_first (\<lambda>pe. pe_key pe = k) f (pit_at tb (pit_nte k)),
         snd (snd (nt_slots (nameTree tb) (pit_nte k)))))"
proof (cases "pit_nte k \<in> dom (ht_map (nameTree tb))")
  case True
  then show ?thesis by (simp add: pit_modify_def ht_modify_slots slot_effect_pit)
next
  case False
  then have none: "ht_map (nameTree tb) (pit_nte k) = None" by (simp add: domIff)
  have "ht_map (ht_modify (pit_nte k) (nte_pit_update g) (nameTree tb)) = ht_map (nameTree tb)" for g
    using none by (simp add: ht_modify_map fun_upd_idem_iff)
  then have "nt_slots (nameTree (pit_modify k f tb)) = nt_slots (nameTree tb)" by (simp add: pit_modify_def)
  moreover have "nt_slots (nameTree tb) (pit_nte k) = no_slots" using none by (simp add: map_slots_def)
  ultimately show ?thesis by (auto simp: no_slots_def fun_eq_iff)
qed

lemma pit_modify_names [simp]: "names (pit_modify k f tb) = names tb"
  by (simp add: pit_modify_def names_def ht_modify_dom)

lemma pit_modify_nItems [simp]:
  "fib_nItems (pit_modify k f tb) = fib_nItems tb" "pit_nItems (pit_modify k f tb) = pit_nItems tb"
  "meas_nItems (pit_modify k f tb) = meas_nItems tb" "sc_nItems (pit_modify k f tb) = sc_nItems tb"
  by (simp_all add: pit_modify_def)

lemma pit_modify_frame [simp]:
  "fib_at (pit_modify k f tb) n = fib_at tb n" "meas_at (pit_modify k f tb) n = meas_at tb n"
  "sc_at (pit_modify k f tb) n = sc_at tb n"
  by (simp_all add: pit_modify_slots)

lemma pit_modify_view:
  assumes "pit_keeps f"
  shows "pit_deref (pit_modify k f tb) k' = (if k' = k then map_option f (pit_deref tb k) else pit_deref tb k')"
  using find_update_first[of "\<lambda>pe. pe_key pe" f k' k "pit_at tb (pit_nte k)"] pit_keepsD(1)[OF assms]
  by (auto simp: pit_deref_def pit_modify_slots)

lemma pit_slot_ok_update:
  assumes "pit_slot_ok n es" and f: "pit_keeps f"
  shows "pit_slot_ok n (update_first P f es)"
proof -
  have "map (\<lambda>pe. pe_key pe) (update_first P f es) = map (\<lambda>pe. pe_key pe) es"
    by (rule map_update_first) (simp add: pit_keepsD(1)[OF f])
  moreover have "\<exists>y\<in>set es. pe = y \<or> pe = f y" if "pe \<in> set (update_first P f es)" for pe
    using that by (induction es) (auto split: if_splits)
  ultimately show ?thesis
    using assms(1) pit_keepsD[OF f] unfolding pit_slot_ok_def by (metis (no_types, lifting))
qed

lemma pit_modify_ok [inv_intros]:
  assumes tb: "tables_ok H tb" and f: "pit_keeps f"
  shows "tables_ok H (pit_modify k f tb)"
proof (cases "pit_nte k \<in> dom (ht_map (nameTree tb))")
  case True
  show ?thesis
    by (rule tables_ok_write[OF tb, of "nte_pit_update (update_first (\<lambda>pe. pe_key pe = k) f)" "pit_nte k"])
      (simp_all add: True pit_modify_def slot_effect_pit cnt_defs slots_ok_set_pit[OF tables_okD(4)[OF tb]]
        pit_slot_ok_update[OF tables_okD(6)[OF tb] f])
next
  case False
  let ?g = "nte_pit_update (update_first (\<lambda>pe. pe_key pe = k) f)"
  have m: "ht_map (ht_modify (pit_nte k) ?g (nameTree tb)) = ht_map (nameTree tb)"
    using False by (simp add: ht_modify_map domIff fun_upd_idem_iff)
  have "nt_inv H (ht_modify (pit_nte k) ?g (nameTree tb))"
    by (rule ht_modify_nt_inv[OF _ tables_okD(1)[OF tb]]) simp
  then show ?thesis using tb m by (simp add: tables_ok_def pit_modify_def attached_def)
qed

section \<open>Erasing\<close>

lemma mset_minus_facts:
  assumes "mset ys = mset xs - {#x#}" and "x \<in> set xs"
  shows "mset xs = mset (x # ys)" and "length xs = Suc (length ys)" and "set xs = insert x (set ys)"
proof -
  show eq: "mset xs = mset (x # ys)" using assms by (simp add: insert_DiffM)
  show "length xs = Suc (length ys)" using mset_eq_length[OF eq] by simp
  show "set xs = insert x (set ys)" using mset_eq_setD[OF eq] by simp
qed

lemma find_mset_minus:
  assumes "distinct (map k xs)" and "x \<in> set xs" and "mset ys = mset xs - {#x#}"
  shows "find (\<lambda>y. k y = a) ys = (if a = k x then None else find (\<lambda>y. k y = a) xs)"
proof -
  note m = mset_minus_facts[OF assms(3,2)]
  have "distinct (map k (x # ys))"
    using assms(1) distinct_map_mset[of k "x # ys" xs] m(1) by simp
  then have d: "distinct (map k ys)" and ne: "\<And>y. y \<in> set ys \<Longrightarrow> k y \<noteq> k x" by (auto simp: image_iff)
  have "find (\<lambda>y. k y = a) ys = Some z \<longleftrightarrow> (if a = k x then None else find (\<lambda>y. k y = a) xs) = Some z" for z
    using ne m(3) by (auto simp: find_key_Some_iff[OF d] find_key_Some_iff[OF assms(1)])
  then show ?thesis by (rule option_eqI)
qed

lemma pit_erase_props:
  assumes tb: "tables_ok H tb" and pe: "pit_deref tb k = Some pe"
  shows "nt_slots (nameTree (pit_erase_entry pe canDelete tb)) =
      (nt_slots (nameTree tb))(pit_nte k :=
         (fib_at tb (pit_nte k), swap_erase (\<lambda>pe. pe_key pe = k) (pit_at tb (pit_nte k)),
          snd (snd (nt_slots (nameTree tb) (pit_nte k)))))"
    and "tables_ok H (pit_erase_entry pe canDelete tb)"
    and "names (pit_erase_entry pe canDelete tb) \<subseteq> names tb"
    and "pit_deref (pit_erase_entry pe canDelete tb) = (pit_deref tb)(k := None)"
proof -
  let ?n = "pit_nte k" and ?es = "pit_at tb (pit_nte k)"
  let ?f = "erasePitEntry k :: 'a nt_entry \<Rightarrow> 'a nt_entry"
  let ?nt1 = "ht_modify ?n ?f (nameTree tb)"
  let ?tb1 = "tb\<lparr>nameTree := ?nt1, pit_nItems := pit_nItems tb - 1\<rparr>"
  note key = pit_deref_key[OF pe]
  have nte: "pe_nameTreeEntry pe = Some ?n" using pit_slotD(1)[OF tb] key by blast
  have p: "?n \<in> dom (ht_map (nameTree tb))" by (rule slot_present(2)) (use key in blast)
  have p1: "?n \<in> dom (ht_map ?nt1)" using p by (simp add: ht_modify_dom)
  have ms: "mset (swap_erase (\<lambda>pe. pe_key pe = k) ?es) = mset ?es - {#pe#}"
    by (rule mset_swap_erase) (use pe in \<open>simp add: pit_deref_def\<close>)
  have pin: "pe \<in> set ?es" using key by blast
  note mm = mset_minus_facts[OF ms pin]
  have len: "length ?es = Suc (length (swap_erase (\<lambda>pe. pe_key pe = k) ?es))" by (rule mm(2))
  have sub: "set (swap_erase (\<lambda>pe. pe_key pe = k) ?es) \<subseteq> set ?es" using mm(3) by blast
  have "mset (map (\<lambda>pe. pe_key pe) ?es) =
      mset (map (\<lambda>pe. pe_key pe) (pe # swap_erase (\<lambda>pe. pe_key pe = k) ?es))"
    unfolding mset_map mm(1) ..
  then have "distinct (map (\<lambda>pe. pe_key pe) (pe # swap_erase (\<lambda>pe. pe_key pe = k) ?es))"
    using distinct_map_mset pit_distinct[OF tb] by blast
  then have "pit_slot_ok ?n (swap_erase (\<lambda>pe. pe_key pe = k) ?es)"
    using tables_okD(6)[OF tb, of ?n] sub by (auto simp: pit_slot_ok_def)
  then have ok1: "tables_ok H ?tb1"
    by (intro tables_ok_write[OF tb, of ?f ?n])
      (simp_all add: p slot_effect_pit cnt_defs slots_ok_set_pit[OF tables_okD(4)[OF tb]] len)
  have s1: "nt_slots ?nt1 = (nt_slots (nameTree tb))(?n :=
      (fib_at tb ?n, swap_erase (\<lambda>pe. pe_key pe = k) ?es, snd (snd (nt_slots (nameTree tb) ?n))))"
    by (simp add: ht_modify_slots p slot_effect_pit)
  have i1: "nt_inv H ?nt1" using tables_okD(1)[OF ok1] by simp
  note pr = eraseIfEmpty_props[OF i1 p1]
  have eq: "pit_erase_entry pe canDelete tb =
      tb\<lparr>nameTree := (if canDelete then snd (eraseIfEmpty ?n True ?nt1) else ?nt1), pit_nItems := pit_nItems tb - 1\<rparr>"
    using key by (simp add: pit_erase_entry_def nte Let_def)
  show sl: "nt_slots (nameTree (pit_erase_entry pe canDelete tb)) =
      (nt_slots (nameTree tb))(?n := (fib_at tb ?n, swap_erase (\<lambda>pe. pe_key pe = k) ?es,
         snd (snd (nt_slots (nameTree tb) ?n))))"
    using pr(2) s1 by (simp add: eq)
  show "tables_ok H (pit_erase_entry pe canDelete tb)"
    using ok1 tables_ok_prune[OF ok1, of ?n] p1 by (simp add: eq)
  show "names (pit_erase_entry pe canDelete tb) \<subseteq> names tb"
    using pr(3) by (auto simp: eq names_def ht_modify_dom)
  show "pit_deref (pit_erase_entry pe canDelete tb) = (pit_deref tb)(k := None)"
  proof
    fix k'
    have kp: "pe_key pe = k" using key by blast
    show "pit_deref (pit_erase_entry pe canDelete tb) k' = ((pit_deref tb)(k := None)) k'"
      using find_mset_minus[OF pit_distinct[OF tb, of ?n] pin ms, of k'] kp
      unfolding pit_deref_def sl by auto
  qed
qed

lemma pit_erase_eq:
  "pit_deref tb k = Some pe \<Longrightarrow> pit_erase k tb = pit_erase_entry pe True tb"
  by (simp add: pit_erase_def)


section \<open>Data matching\<close>

lemma pit_nte_prefix_of_data:
  assumes "prefix n (data_fullName d)"
  shows "prefix (take (pit_nteDepth n) n) (data_name d)"
proof (cases "prefix n (data_name d)")
  case True
  then show ?thesis using take_is_prefix prefix_order.trans by blast
next
  case False
  then have n: "n = data_fullName d" using assms by (simp add: data_fullName_def)
  then have "endsWithDigest n"
    by (simp add: data_fullName_def endsWithDigest_def data_digest_comp_def isImplicitSha256Digest_def)
  then have "pit_nteDepth n \<le> length (data_name d)" by (simp add: pit_nteDepth_def n data_fullName_def)
  then show ?thesis by (simp add: n data_fullName_def take_is_prefix)
qed

lemma pit_matches_set:
  assumes tb: "tables_ok H tb" and m: "\<And>i. matchesData i d \<Longrightarrow> prefix (int_name i) (data_fullName d)"
  shows "set (pit_findAllDataMatches matchesData H d tb) =
    {pe. pit_deref tb (pe_key pe) = Some pe \<and> matchesData (pe_interest pe) d}"
proof -
  let ?nt = "nameTree tb"
  have all: "findAllMatches H (data_name d) nteHasPitEntries ?nt =
      filter (nt_selects nteHasPitEntries ?nt) (rev (prefixes (data_name d)))"
    by (rule findAllMatches_prefixes[OF tables_okD(1)[OF tb]])
  have sel: "nt_selects nteHasPitEntries ?nt q" if "pe \<in> set (pit_at tb q)" for pe q
    using that by (auto simp: nt_selects_def nteHasPitEntries_def hasPitEntries_def map_slots_def nte_slots_def
        no_slots_def split: option.splits)
  have "prefix q (data_name d)" if "pe \<in> set (pit_at tb q)" "matchesData (pe_interest pe) d" for pe q
  proof -
    have "take (pit_nteDepth (pe_name pe)) (pe_name pe) = q"
      using pit_slotD(2)[OF tb that(1)] by (simp add: pit_nte_def interest_key_def)
    then show ?thesis using pit_nte_prefix_of_data[OF m[OF that(2)]] by simp
  qed
  then show ?thesis
    unfolding pit_findAllDataMatches_def all
    using sel pit_deref_iff[OF tb] by (auto simp: Bex_def) blast+
qed

lemma pit_matches_distinct:
  assumes tb: "tables_ok H tb"
  shows "distinct (map (\<lambda>pe. pe_key pe) (pit_findAllDataMatches matchesData H d tb))"
proof -
  have "distinct (map (\<lambda>pe. pe_key pe)
      (concat (map (\<lambda>nte. filter (\<lambda>pe. matchesData (pe_interest pe) d) (pit_at tb nte)) qs)))"
    if "distinct qs" for qs
    using that
  proof (induction qs)
    case (Cons q qs)
    have "pe_key pe \<noteq> pe_key pe'" if "pe \<in> set (pit_at tb q)" "q' \<in> set qs" "pe' \<in> set (pit_at tb q')" for pe pe' q'
      using pit_slotD(2)[OF tb that(1)] pit_slotD(2)[OF tb that(3)] that(2) Cons.prems by auto
    moreover have "distinct (map (\<lambda>pe. pe_key pe) (filter (\<lambda>pe. matchesData (pe_interest pe) d) (pit_at tb q)))"
      using pit_distinct[OF tb] by (rule distinct_map_filter)
    ultimately show ?case using Cons by (auto simp: image_iff) metis
  qed simp
  moreover have "distinct (findAllMatches H (data_name d) nteHasPitEntries (nameTree tb))"
    unfolding findAllMatches_prefixes[OF tables_okD(1)[OF tb]] by (intro distinct_filter) (simp add: distinct_prefixes)
  ultimately show ?thesis by (simp add: pit_findAllDataMatches_def)
qed

section \<open>Size and enumeration\<close>

lemma attached_pit:
  assumes tb: "tables_ok H tb"
  shows "attached cnt_pit tb = card (dom (pit_deref tb))"
proof -
  let ?D = "dom (ht_map (nameTree tb))"
  have "dom (pit_deref tb) = (\<Union>n\<in>?D. (\<lambda>pe. pe_key pe) ` set (pit_at tb n))"
  proof (intro set_eqI iffI)
    fix k assume "k \<in> dom (pit_deref tb)"
    then obtain pe where "pit_deref tb k = Some pe" by auto
    then show "k \<in> (\<Union>n\<in>?D. (\<lambda>pe. pe_key pe) ` set (pit_at tb n))"
      using pit_deref_key[of tb k pe] slot_present(2)[of pe tb "pit_nte k"] by blast
  next
    fix k assume "k \<in> (\<Union>n\<in>?D. (\<lambda>pe. pe_key pe) ` set (pit_at tb n))"
    then obtain n pe where "pe \<in> set (pit_at tb n)" "k = pe_key pe" by blast
    then have "pit_deref tb k = Some pe" using pit_deref_iff[OF tb] by blast
    then show "k \<in> dom (pit_deref tb)" by blast
  qed
  also have "card \<dots> = (\<Sum>n\<in>?D. card ((\<lambda>pe. pe_key pe) ` set (pit_at tb n)))"
  proof (rule card_UN_disjoint)
    have "pit_nte k = n" if "k \<in> (\<lambda>pe. pe_key pe) ` set (pit_at tb n)" for k n
      using that pit_slotD(2)[OF tb] by auto
    then show "\<forall>n\<in>?D. \<forall>n'\<in>?D. n \<noteq> n' \<longrightarrow>
        (\<lambda>pe. pe_key pe) ` set (pit_at tb n) \<inter> (\<lambda>pe. pe_key pe) ` set (pit_at tb n') = {}"
      by blast
  qed simp_all
  also have "\<dots> = (\<Sum>n\<in>?D. cnt_pit (nt_slots (nameTree tb) n))"
  proof (rule sum.cong)
    fix n
    show "card ((\<lambda>pe. pe_key pe) ` set (pit_at tb n)) = cnt_pit (nt_slots (nameTree tb) n)"
      using distinct_card[OF pit_distinct[OF tb, of n]] by (simp add: cnt_pit_def)
  qed simp
  finally show ?thesis by (simp add: attached_def)
qed

lemma pit_size: "tables_ok H tb \<Longrightarrow> pit_nItems tb = of_nat (card (dom (pit_deref tb)))"
  using tables_ok_counts(2) attached_pit by fastforce


lemma full_begin:
  fixes pred :: "'i nt_entry \<Rightarrow> bool"
  assumes "ht_inv H nt"
  defines "i \<equiv> mk_iterator (full_advance pred nt) None"
  shows "(it_entry i = None \<and> fullEnumerate pred nt = []) \<or>
    (\<exists>e. it_entry i = Some e \<and> e \<in> dom (ht_map nt) \<and> fullEnumerate pred nt = e # full_todo pred nt i)"
proof -
  let ?adv = "\<lambda>i. Some (full_advance pred nt i)"
  have r: "full_range pred nt = enum_loop ?adv i" by (simp add: full_range_def enum_range_def mk_iterator_def i_def)
  have f: "enum_loop ?adv i = Some (fullEnumerate pred nt)"
    using full_range_nodes[OF assms(1), of pred] fullEnumerate_nodes[OF assms(1), of pred] r by simp
  show ?thesis
  proof (cases "it_entry i")
    case None
    then show ?thesis using f by (simp add: enum_loop.simps[of ?adv i])
  next
    case (Some e)
    then obtain es where "e # es = fullEnumerate pred nt" using f by (auto simp: enum_loop.simps[of ?adv i] bind_eq_Some_conv)
    then have "e \<in> set (fullEnumerate pred nt)" by (metis list.set_intros(1))
    then have e: "e \<in> dom (ht_map nt)" unfolding fullEnumerate_set(2)[OF assms(1)] by (auto simp: nt_selects_iff)
    then have "enum_loop ?adv i = Some (e # full_todo pred nt i)"
      by (intro full.enum_todo[of H]) (use assms(1) Some in auto)
    then show ?thesis using Some e f by simp
  qed
qed

lemma pit_enum_end: "it_entry (pi_ntIt it) = None \<Longrightarrow> pi_iPitEntry it = 0 \<Longrightarrow> pit_enum tb it = Some []"
  by (simp add: pit_enum.simps)

lemma pit_enum_from:
  assumes tb: "tables_ok H tb"
  shows "it_entry (pi_ntIt it) = Some e \<Longrightarrow> e \<in> dom (ht_map (nameTree tb)) \<Longrightarrow>
    pi_iPitEntry it < length (pit_at tb e) \<Longrightarrow>
    \<forall>q\<in>set (full_todo nteHasPitEntries (nameTree tb) (pi_ntIt it)). pit_at tb q \<noteq> [] \<Longrightarrow>
    length (drop (pi_iPitEntry it) (pit_at tb e) @
      concat (map (pit_at tb) (full_todo nteHasPitEntries (nameTree tb) (pi_ntIt it)))) \<le> n \<Longrightarrow>
    pit_enum tb it = Some (drop (pi_iPitEntry it) (pit_at tb e) @
      concat (map (pit_at tb) (full_todo nteHasPitEntries (nameTree tb) (pi_ntIt it))))"
proof (induction n arbitrary: it e)
  case (Suc n)
  let ?nt = "nameTree tb" and ?todo = "full_todo nteHasPitEntries (nameTree tb)" and ?i = "pi_iPitEntry it"
  have h: "ht_inv H ?nt" by (rule tables_okD(2)[OF tb])
  have good: "ht_inv H ?nt \<and> (\<forall>e. it_entry (pi_ntIt it) = Some e \<longrightarrow> e \<in> dom (ht_map ?nt))" 
    using h Suc.prems(1,2) by simp
  have dr: "drop ?i (pit_at tb e) = pit_at tb e ! ?i # drop (Suc ?i) (pit_at tb e)"
    by (rule Cons_nth_drop_Suc[OF Suc.prems(3), symmetric])
  have en: "pit_enum tb it = Option.bind (pit_enum tb it') (\<lambda>pes. Some ((pit_at tb e ! ?i) # pes))"
    if "pit_next tb it = Some it'" for it'
    using that Suc.prems(1,3) by (simp add: pit_enum.simps[of tb it])
  show ?case
  proof (cases "length (pit_at tb e) \<le> Suc ?i")
    case False
    let ?it = "it\<lparr>pi_iPitEntry := Suc ?i\<rparr>"
    have nx: "pit_next tb it = Some ?it" using Suc.prems(1,3) False by (simp add: pit_next_def)
    show ?thesis using en[OF nx] Suc.IH[of ?it e] Suc.prems False dr by simp
  next
    case True
    let ?ntIt = "full_advance nteHasPitEntries ?nt (pi_ntIt it)" let ?it = "\<lparr>pi_ntIt = ?ntIt, pi_iPitEntry = 0\<rparr>"
    have d0: "drop (Suc ?i) (pit_at tb e) = []" using True by simp
    show ?thesis
    proof (cases "?todo (pi_ntIt it)")
      case Nil
      then have e: "?ntIt = end_iterator"
        using full.advance_end[OF good, of nteHasPitEntries] Suc.prems(1) by simp
      have nx: "pit_next tb it = Some ?it" using Suc.prems(1,3) True e by (simp add: pit_next_def)
      show ?thesis using en[OF nx] pit_enum_end[of ?it tb] e Nil dr d0 by simp
    next
      case (Cons q qs)
      have q: "it_entry ?ntIt = Some q" "?todo ?ntIt = qs" "q \<in> dom (ht_map ?nt)"
        using full.advance_next[OF good _ Cons] Suc.prems(1) by auto
      have nx: "pit_next tb it = Some ?it" using Suc.prems(1,3,4) True q(1) Cons by (simp add: pit_next_def)
      show ?thesis using en[OF nx] Suc.IH[of ?it q] Suc.prems Cons q dr d0 by simp
    qed
  qed
qed (use Cons_nth_drop_Suc in force)

lemma pit_enum_all:
  assumes tb: "tables_ok H tb"
  shows "pit_enum tb (pit_begin tb) =
    Some (concat (map (pit_at tb) (fullEnumerate nteHasPitEntries (nameTree tb))))"
proof -
  let ?nt = "nameTree tb" and ?en = "fullEnumerate nteHasPitEntries (nameTree tb)"
  have h: "ht_inv H ?nt" by (rule tables_okD(2)[OF tb])
  have ne: "pit_at tb q \<noteq> []" if "q \<in> set ?en" for q
    using that unfolding fullEnumerate_set(2)[OF h]
    by (auto simp: nt_selects_def nteHasPitEntries_def hasPitEntries_def map_slots_def nte_slots_def split: option.splits)
  from full_begin[OF h, of nteHasPitEntries] show ?thesis
  proof (elim disjE exE conjE)
    assume "it_entry (mk_iterator (full_advance nteHasPitEntries ?nt) None) = None" "?en = []"
    then show ?thesis by (simp add: pit_begin_def pit_enum_end)
  next
    fix e
    assume a: "it_entry (mk_iterator (full_advance nteHasPitEntries ?nt) None) = Some e"
      "e \<in> dom (ht_map ?nt)"
      "?en = e # full_todo nteHasPitEntries ?nt (mk_iterator (full_advance nteHasPitEntries ?nt) None)"
    have "pit_at tb e \<noteq> []" using ne a(3) by simp
    then show ?thesis
      using pit_enum_from[OF tb _ _ _ _ order.refl, of "pit_begin tb" e] a ne by (simp add: pit_begin_def)
  qed
qed


section \<open>Sequences of operations\<close>

datatype pit_op =
    PitInsert interest
  | PitErase pit_key
  | PitInRecord pit_key time_point face_id interest
  | PitOutRecord pit_key time_point face_id interest
  | PitDeleteRecords pit_key face_id

fun pit_exec :: "(component \<Rightarrow> u64) \<Rightarrow> pit_op \<Rightarrow> 'i tables \<Rightarrow> 'i tables" where
  "pit_exec H (PitInsert i) tb = snd (pit_insert H i tb)"
| "pit_exec H (PitErase k) tb = pit_erase k tb"
| "pit_exec H (PitInRecord k now f i) tb = pit_modify k (insertOrUpdateInRecord now f i) tb"
| "pit_exec H (PitOutRecord k now f i) tb = pit_modify k (insertOrUpdateOutRecord now f i) tb"
| "pit_exec H (PitDeleteRecords k f) tb = pit_deleteInOutRecords k f tb"

type_synonym 'i pit_view = "pit_key \<rightharpoonup> 'i pit_entry"

fun spec_pit_exec :: "pit_op \<Rightarrow> 'i pit_view \<Rightarrow> 'i pit_view" where
  "spec_pit_exec (PitInsert i) V =
     (if V (interest_key i) = None then V(interest_key i \<mapsto> new_pit_entry i) else V)"
| "spec_pit_exec (PitErase k) V = V(k := None)"
| "spec_pit_exec (PitInRecord k now f i) V = V(k := map_option (insertOrUpdateInRecord now f i) (V k))"
| "spec_pit_exec (PitOutRecord k now f i) V = V(k := map_option (insertOrUpdateOutRecord now f i) (V k))"
| "spec_pit_exec (PitDeleteRecords k f) V =
     V(k := map_option (\<lambda>pe. deleteOutRecord f (deleteInRecord f pe)) (V k))"

lemma pit_exec_refines:
  assumes tb: "tables_ok H tb"
  shows "tables_ok H (pit_exec H op tb) \<and> pit_deref (pit_exec H op tb) = spec_pit_exec op (pit_deref tb)"
proof (cases op)
  case (PitInsert i)
  have "pit_deref (snd (pit_insert H i tb)) k = spec_pit_exec (PitInsert i) (pit_deref tb) k" for k
    using pit_insert_view[OF tb, of i k] by (auto split: option.splits)
  then show ?thesis using PitInsert pit_insert_props(3)[OF tb, of i] by (auto simp: fun_eq_iff)
next
  case (PitErase k)
  then show ?thesis
    using tb pit_erase_props(2,4)[OF tb, of k _ True]
    by (cases "pit_deref tb k") (auto simp: pit_erase_def fun_upd_idem_iff)
next
  case (PitInRecord k now f i)
  then show ?thesis using pit_modify_ok[OF tb] by (auto simp: pit_modify_view fun_eq_iff)
next
  case (PitOutRecord k now f i)
  then show ?thesis using pit_modify_ok[OF tb] by (auto simp: pit_modify_view fun_eq_iff)
next
  case (PitDeleteRecords k f)
  then show ?thesis
    using pit_modify_ok[OF tb] by (auto simp: pit_deleteInOutRecords_def pit_modify_view fun_eq_iff)
qed

lemma pit_run_refines:
  "tables_ok H tb \<Longrightarrow> tables_ok H (fold (pit_exec H) ops tb) \<and>
   pit_deref (fold (pit_exec H) ops tb) = fold spec_pit_exec ops (pit_deref tb)"
proof (induction ops arbitrary: tb)
  case (Cons op ops)
  then show ?case using pit_exec_refines[of H tb op] by simp
qed simp

lemma pit_deref_mk [simp]: "pit_deref (mk_tables k) = Map.empty"
  by (simp add: pit_deref_def fun_eq_iff mk_tables_def mk_name_tree_def map_slots_def no_slots_def)

section \<open>Properties\<close>

text \<open>
  C7: the PIT implements a map from (name, CanBePrefix, MustBeFresh) to entries. After any sequence of
  insertions, erasures and record changes the entry found for a key is the one the map operations
  give, there is never a second entry for a key, the size counter is the number of entries, and
  the name tree is in order.
\<close>

theorem pit_implements_map:
  assumes "0 < nBuckets"
  shows "let tb = fold (pit_exec H) ops (mk_tables nBuckets :: 'i tables);
             V = fold spec_pit_exec ops Map.empty
         in pit_deref tb = V \<and> pit_nItems tb = of_nat (card (dom V)) \<and> tables_ok H tb \<and>
            (\<forall>i. pit_find H i tb = (if V (interest_key i) = None then None else Some (interest_key i)))"
proof -
  let ?tb = "fold (pit_exec H) ops (mk_tables nBuckets :: 'i tables)"
  have ok: "tables_ok H (mk_tables nBuckets :: 'i tables)" by (rule tables_ok_mk[OF assms])
  define V where "V = (fold spec_pit_exec ops Map.empty :: 'i pit_view)"
  have r: "tables_ok H ?tb" "pit_deref ?tb = V"
    using pit_run_refines[OF ok, of ops] by (simp_all add: V_def)
  have "pit_find H i ?tb = (if V (interest_key i) = None then None else Some (interest_key i))" for i
    using pit_find_correct[OF r(1), of i] pit_deref_key[of ?tb "interest_key i"] by (auto simp: r(2))
  then show ?thesis using r pit_size[OF r(1)] by (simp add: Let_def V_def)
qed

theorem pit_implements_map_witness:
  "pit_find (\<lambda>_. 7) (mk_interest [generic_comp ''a''] 2)
     (fold (pit_exec (\<lambda>_. 7)) [PitInsert (mk_interest [generic_comp ''a''] 1)] (mk_tables 16 :: unit tables)) =
   Some (interest_key (mk_interest [generic_comp ''a''] 1))"
  using pit_implements_map[of 16 "\<lambda>_. 7" "[PitInsert (mk_interest [generic_comp ''a''] 1)]", where 'i = unit]
  by (simp add: Let_def interest_key_def mk_interest_def)

text \<open>
  C12: a Data packet finds exactly the pending Interests it satisfies. Although only the prefixes of
  the Data name are looked up, no matching entry is missed: entries whose Interest name ends with
  the implicit digest of the Data and entries whose name is deeper than the name tree are attached
  to one of these prefixes. \<open>matchesData\<close> is the matching rule of the packet library; the theorem uses
  that it only accepts Data whose full name extends the Interest name. No entry is returned twice.
\<close>

theorem pit_data_match_complete:
  assumes "tables_ok H tb" and "\<And>i. matchesData i d \<Longrightarrow> prefix (int_name i) (data_fullName d)"
  shows "set (pit_findAllDataMatches matchesData H d tb) =
      {pe. pit_deref tb (pe_key pe) = Some pe \<and> matchesData (pe_interest pe) d} \<and>
    distinct (map (\<lambda>pe. pe_key pe) (pit_findAllDataMatches matchesData H d tb))"
  using pit_matches_set[OF assms] pit_matches_distinct[OF assms(1)] by blast

text \<open>The matching rule for Interests without digest, for the witness.\<close>

definition matches_example :: "interest \<Rightarrow> data \<Rightarrow> bool" where
  "matches_example i d \<longleftrightarrow>
     (if int_canBePrefix i then prefix (int_name i) (data_fullName d)
      else int_name i = data_name d \<or> int_name i = data_fullName d)"

theorem pit_data_match_complete_witness:
  "new_pit_entry (mk_interest [generic_comp ''a''] 1) \<in>
     set (pit_findAllDataMatches matches_example (\<lambda>_. 7) (mk_data [generic_comp ''a''] ''x'' 0)
       (snd (pit_insert (\<lambda>_. 7) (mk_interest [generic_comp ''a''] 1) (mk_tables 16 :: unit tables))))"
proof -
  let ?i = "mk_interest [generic_comp ''a''] 1" and ?d = "mk_data [generic_comp ''a''] ''x'' 0"
  let ?tb0 = "mk_tables 16 :: unit tables"
  have ok: "tables_ok (\<lambda>_. 7) ?tb0" by (rule tables_ok_mk) simp
  have m: "matches_example i ?d \<Longrightarrow> prefix (int_name i) (data_fullName ?d)" for i
    by (auto simp: matches_example_def mk_data_def data_fullName_def split: if_splits)
  have "pit_deref (snd (pit_insert (\<lambda>_. 7) ?i ?tb0)) (interest_key ?i) = Some (new_pit_entry ?i)"
    using pit_insert_view[OF ok, of ?i "interest_key ?i"] by simp
  moreover have "matches_example ?i ?d" by (simp add: matches_example_def mk_interest_def mk_data_def)
  ultimately show ?thesis
    using pit_data_match_complete[OF pit_insert_props(3)[OF ok, of ?i] m] by simp
qed

text \<open>
  C22: iterating over the PIT visits every entry once. The iterator walks the vector of entries of a
  name tree entry and moves to the next name tree entry with PIT entries at its end; from \<open>begin()\<close> it
  goes through exactly the entries of the table, reaches \<open>end()\<close>, and satisfies its assertions on the way.
\<close>

theorem pit_iteration_complete:
  assumes "tables_ok H tb"
  shows "\<exists>pes. pit_enum tb (pit_begin tb) = Some pes \<and> set pes = {pe. pit_deref tb (pe_key pe) = Some pe} \<and>
    length pes = card (dom (pit_deref tb))"
proof -
  let ?nt = "nameTree tb" and ?en = "fullEnumerate nteHasPitEntries (nameTree tb)"
  have h: "ht_inv H ?nt" by (rule tables_okD(2)[OF assms])
  have en: "q \<in> set ?en \<longleftrightarrow> pit_at tb q \<noteq> []" for q
    unfolding fullEnumerate_set(2)[OF h]
    by (auto simp: nt_selects_def nteHasPitEntries_def hasPitEntries_def map_slots_def nte_slots_def no_slots_def
        split: option.splits)
  have "set (concat (map (pit_at tb) ?en)) = {pe. \<exists>n. pe \<in> set (pit_at tb n)}"
    unfolding set_concat set_map using en by fastforce
  moreover have "length (concat (map (pit_at tb) ?en)) = attached cnt_pit tb"
  proof -
    have "length (concat (map (pit_at tb) ?en)) = (\<Sum>q\<in>set ?en. length (pit_at tb q))"
      using fullEnumerate_set(1)[OF h, of nteHasPitEntries]
      by (simp add: length_concat comp_def sum_list_distinct_conv_sum_set)
    also have "\<dots> = (\<Sum>q\<in>dom (ht_map ?nt). length (pit_at tb q))"
    proof (rule sum.mono_neutral_left)
      show "set ?en \<subseteq> dom (ht_map ?nt)"
        unfolding fullEnumerate_set(2)[OF h] by (auto simp: nt_selects_iff)
    qed (auto simp: en)
    finally show ?thesis by (simp add: attached_def cnt_pit_def)
  qed
  then have "length (concat (map (pit_at tb) ?en)) = card (dom (pit_deref tb))"
    by (simp only: attached_pit[OF assms])
  ultimately show ?thesis using pit_deref_iff[OF assms] pit_enum_all[OF assms] by simp
qed

theorem pit_iteration_complete_witness:
  "\<exists>pe. pit_enum (snd (pit_insert (\<lambda>_. 7) (mk_interest [generic_comp ''a''] 1) (mk_tables 16 :: unit tables)))
     (pit_begin (snd (pit_insert (\<lambda>_. 7) (mk_interest [generic_comp ''a''] 1) (mk_tables 16 :: unit tables)))) = Some [pe] \<and>
     pe_key pe = interest_key (mk_interest [generic_comp ''a''] 1)"
proof -
  let ?i = "mk_interest [generic_comp ''a''] 1" and ?start = "mk_tables 16 :: unit tables"
  let ?tb = "snd (pit_insert (\<lambda>_. 7) ?i ?start)"
  have ok: "tables_ok (\<lambda>_. 7) ?start" by (rule tables_ok_mk) simp
  note ok1 = pit_insert_props(3)[OF ok, of ?i]
  have d: "dom (pit_deref ?tb) = {interest_key ?i}"
    by (intro set_eqI) (simp only: domIff pit_insert_view[OF ok], simp)
  then have "card (dom (pit_deref ?tb)) = 1" by simp
  then obtain pes where pes: "pit_enum ?tb (pit_begin ?tb) = Some pes" "length pes = 1"
    "set pes = {pe. pit_deref ?tb (pe_key pe) = Some pe}"
    using pit_iteration_complete[OF ok1] by auto
  then obtain pe where pe: "pes = [pe]" by (auto simp: length_Suc_conv)
  then have "pe_key pe \<in> dom (pit_deref ?tb)" using pes(3) by auto
  then show ?thesis using pes(1) pe d by simp
qed

end
