(* ===== verification/Measurements.thy ===== *)
theory Measurements
  imports Pit
begin

text \<open>
  The Measurements table (\<open>daemon/table/measurements.cpp\<close>). An entry lives until its expiry, at
  which the scheduled \<open>cleanup\<close> removes it; \<open>me_cleanup\<close> is the time for which the event is
  scheduled. A reference to an entry is its name; the current time is an argument.
\<close>

section \<open>Operations\<close>

definition getInitialLifetime :: int where
  "getInitialLifetime = ms 4000"

definition meas_get_nte :: "time_point \<Rightarrow> name \<Rightarrow> 'i tables \<Rightarrow> 'i tables" where
  "meas_get_nte now nte tb =
     (case meas_at tb nte of
        Some entry \<Rightarrow> tb
      | None \<Rightarrow>
          let entry = (mk_measurements_entry nte)
                \<lparr>me_expiry := now + getInitialLifetime, me_cleanup := Some (now + getInitialLifetime)\<rparr>
          in tb\<lparr>nameTree := ht_modify nte (setMeasurementsEntry (Some entry)) (nameTree tb),
                meas_nItems := meas_nItems tb + 1\<rparr>)"

definition meas_get :: "(component \<Rightarrow> u64) \<Rightarrow> time_point \<Rightarrow> name \<Rightarrow> 'i tables \<Rightarrow> name option \<times> 'i tables" where
  "meas_get H now n tb =
     (let (nte, nt) = nt_lookup H n (min (length n) getMaxDepth) (nameTree tb);
          tb1 = tb\<lparr>nameTree := nt\<rparr>
      in (nte, case nte of None \<Rightarrow> tb1 | Some q \<Rightarrow> meas_get_nte now q tb1))"

definition meas_get_fib ::
  "(component \<Rightarrow> u64) \<Rightarrow> time_point \<Rightarrow> fib_entry \<Rightarrow> 'i tables \<Rightarrow> name option \<times> 'i tables" where
  "meas_get_fib H now fe tb =
     (let (nte, nt) = nt_lookup_fib H fe (nameTree tb);
          tb1 = tb\<lparr>nameTree := nt\<rparr>
      in (nte, case nte of None \<Rightarrow> tb1 | Some q \<Rightarrow> meas_get_nte now q tb1))"

definition meas_get_pit ::
  "(component \<Rightarrow> u64) \<Rightarrow> time_point \<Rightarrow> 'i pit_entry \<Rightarrow> 'i tables \<Rightarrow> name option \<times> 'i tables" where
  "meas_get_pit H now pe tb =
     (let (nte, nt) = nt_lookup_pit H pe (nameTree tb);
          tb1 = tb\<lparr>nameTree := nt\<rparr>
      in (nte, case nte of None \<Rightarrow> tb1 | Some q \<Rightarrow> meas_get_nte now q tb1))"

definition meas_getParent :: "time_point \<Rightarrow> 'i measurements_entry \<Rightarrow> 'i tables \<Rightarrow> name option \<times> 'i tables" where
  "meas_getParent now child tb =
     (if me_name child = [] then (None, tb)
      else (case Option.bind (me_nameTreeEntry child) (ht_map (nameTree tb)) of
              None \<Rightarrow> (None, tb)
            | Some nteChild \<Rightarrow>
                (case nte_parent nteChild of
                   None \<Rightarrow> (None, tb)
                 | Some nte \<Rightarrow> (Some nte, meas_get_nte now nte tb))))"

definition nte_meas_pred :: "('i measurements_entry \<Rightarrow> bool) \<Rightarrow> 'i nt_entry \<Rightarrow> bool" where
  "nte_meas_pred pred nte = (case nte_meas nte of None \<Rightarrow> False | Some entry \<Rightarrow> pred entry)"

definition meas_findLongestPrefixMatch ::
  "(component \<Rightarrow> u64) \<Rightarrow> name \<Rightarrow> ('i measurements_entry \<Rightarrow> bool) \<Rightarrow> 'i tables \<Rightarrow> 'i measurements_entry option" where
  "meas_findLongestPrefixMatch H n pred tb =
     (case nt_findLongestPrefixMatch H (take getMaxDepth n) (nte_meas_pred pred) (nameTree tb) of
        None \<Rightarrow> None
      | Some match \<Rightarrow> nte_meas match)"

definition meas_findLongestPrefixMatch_pit ::
  "(component \<Rightarrow> u64) \<Rightarrow> 'i pit_entry \<Rightarrow> ('i measurements_entry \<Rightarrow> bool) \<Rightarrow> 'i tables \<Rightarrow> 'i measurements_entry option" where
  "meas_findLongestPrefixMatch_pit H pe pred tb = meas_findLongestPrefixMatch H (pe_name pe) pred tb"

definition meas_findExactMatch :: "(component \<Rightarrow> u64) \<Rightarrow> name \<Rightarrow> 'i tables \<Rightarrow> 'i measurements_entry option" where
  "meas_findExactMatch H n tb =
     (case nt_findExactMatch H n (length n) (nameTree tb) of None \<Rightarrow> None | Some nte \<Rightarrow> nte_meas nte)"

text \<open>Writing through a reference to a Measurements entry.\<close>

definition meas_modify :: "name \<Rightarrow> ('i measurements_entry \<Rightarrow> 'i measurements_entry) \<Rightarrow> 'i tables \<Rightarrow> 'i tables" where
  "meas_modify n f tb = tb\<lparr>nameTree := ht_modify n (nte_meas_update (map_option f)) (nameTree tb)\<rparr>"

definition meas_extendLifetime :: "time_point \<Rightarrow> name \<Rightarrow> int \<Rightarrow> 'i tables \<Rightarrow> 'i tables" where
  "meas_extendLifetime now n lifetime tb =
     (case meas_at tb n of
        None \<Rightarrow> tb
      | Some entry \<Rightarrow>
          let expiry = now + lifetime
          in if me_expiry entry \<ge> expiry then tb
             else meas_modify n (\<lambda>e. e\<lparr>me_expiry := expiry, me_cleanup := Some (now + lifetime)\<rparr>) tb)"

definition meas_cleanup :: "name \<Rightarrow> 'i tables \<Rightarrow> 'i tables" where
  "meas_cleanup nte tb =
     tb\<lparr>nameTree := snd (eraseIfEmpty nte True (ht_modify nte (setMeasurementsEntry None) (nameTree tb))),
        meas_nItems := meas_nItems tb - 1\<rparr>"

section \<open>Effect of the operations\<close>

lemma slot_effect_meas:
  "slot_effect (setMeasurementsEntry me) n sl =
     (fst sl, fst (snd sl), map_option (me_nameTreeEntry_update (\<lambda>_. Some n)) me, snd (snd (snd sl)))"
  "slot_effect (nte_meas_update m) n sl = (fst sl, fst (snd sl), m (fst (snd (snd sl))), snd (snd (snd sl)))"
  by (cases sl, simp)+

definition set_meas_slot :: "name \<Rightarrow> 'i measurements_entry option \<Rightarrow> (name \<Rightarrow> 'i table_slots) \<Rightarrow> name \<Rightarrow> 'i table_slots" where
  "set_meas_slot n v S = S(n := (fst (S n), fst (snd (S n)), v, snd (snd (snd (S n)))))"

lemma set_meas_slot_simps [simp]:
  "fst (set_meas_slot n v S q) = fst (S q)"
  "fst (snd (set_meas_slot n v S q)) = fst (snd (S q))"
  "fst (snd (snd (set_meas_slot n v S q))) = (if q = n then v else fst (snd (snd (S q))))"
  "snd (snd (snd (set_meas_slot n v S q))) = snd (snd (snd (S q)))"
  by (simp_all add: set_meas_slot_def)

lemma slots_ok_set_meas:
  "slots_ok n sl \<Longrightarrow> meas_slot_ok n v \<Longrightarrow> slots_ok n (fst sl, fst (snd sl), v, snd (snd (snd sl)))"
  by (auto simp: slots_ok_def split_beta)

definition new_meas_entry :: "time_point \<Rightarrow> name \<Rightarrow> 'i measurements_entry" where
  "new_meas_entry now n =
     \<lparr>me_name = n, me_expiry = now + getInitialLifetime, me_cleanup = Some (now + getInitialLifetime),
      me_nameTreeEntry = Some n, me_info = Map.empty\<rparr>"

lemma meas_get_nte_props:
  assumes tb: "tables_ok H tb" and n: "n \<in> names tb"
  shows "nt_slots (nameTree (meas_get_nte now n tb)) =
      (if meas_at tb n = None then set_meas_slot n (Some (new_meas_entry now n)) (nt_slots (nameTree tb))
       else nt_slots (nameTree tb))"
    and "tables_ok H (meas_get_nte now n tb)"
    and "names (meas_get_nte now n tb) = names tb"
proof -
  have p: "n \<in> dom (ht_map (nameTree tb))" using n by (simp add: names_def)
  have e: "(mk_measurements_entry n)\<lparr>me_expiry := now + getInitialLifetime,
      me_cleanup := Some (now + getInitialLifetime), me_nameTreeEntry := Some n\<rparr> = new_meas_entry now n"
    by (simp add: mk_measurements_entry_def new_meas_entry_def)
  show "nt_slots (nameTree (meas_get_nte now n tb)) =
      (if meas_at tb n = None then set_meas_slot n (Some (new_meas_entry now n)) (nt_slots (nameTree tb))
       else nt_slots (nameTree tb))"
    using e by (auto simp: meas_get_nte_def Let_def ht_modify_slots p slot_effect_meas set_meas_slot_def
        split: option.splits)
  show "names (meas_get_nte now n tb) = names tb"
    by (simp add: meas_get_nte_def Let_def names_def ht_modify_dom split: option.splits)
  show "tables_ok H (meas_get_nte now n tb)"
  proof (cases "meas_at tb n")
    case None
    let ?e = "(mk_measurements_entry n :: 'a measurements_entry)
        \<lparr>me_expiry := now + getInitialLifetime, me_cleanup := Some (now + getInitialLifetime)\<rparr>"
    have "meas_slot_ok n (Some (new_meas_entry now n :: 'a measurements_entry))"
      by (simp add: meas_slot_ok_def new_meas_entry_def)
    then have "tables_ok H (tb\<lparr>nameTree := ht_modify n (setMeasurementsEntry (Some ?e)) (nameTree tb),
        meas_nItems := meas_nItems tb + 1\<rparr>)"
      by (intro tables_ok_write[OF tb, of "setMeasurementsEntry (Some ?e)" n])
        (simp_all add: p slot_effect_meas None cnt_defs e slots_ok_set_meas[OF tables_okD(4)[OF tb]])
    then show ?thesis by (simp add: meas_get_nte_def None Let_def)
  qed (use tb in \<open>simp add: meas_get_nte_def\<close>)
qed

lemma meas_get_props:
  fixes n :: name
  assumes tb: "tables_ok H tb"
  defines "q \<equiv> take getMaxDepth n"
  shows "fst (meas_get H now n tb) = Some q"
    and "nt_slots (nameTree (snd (meas_get H now n tb))) =
      (if meas_at tb q = None then set_meas_slot q (Some (new_meas_entry now q)) (nt_slots (nameTree tb))
       else nt_slots (nameTree tb))"
    and "tables_ok H (snd (meas_get H now n tb))"
    and "names (snd (meas_get H now n tb)) = names tb \<union> {p. prefix p q}"
proof -
  let ?k = "min (length n) getMaxDepth"
  have k: "?k \<le> length n" "?k \<le> getMaxDepth" and tq: "take ?k n = q" by (simp_all add: q_def min_def)
  note lk = nt_lookup_props[OF tables_okD(1)[OF tb] k]
  let ?tb1 = "tb\<lparr>nameTree := snd (nt_lookup H n ?k (nameTree tb))\<rparr>"
  have ok1: "tables_ok H ?tb1" by (rule tables_ok_lookup[OF tb k])
  have eq: "meas_get H now n tb = (Some q, meas_get_nte now q ?tb1)"
    using lk(1) by (simp add: meas_get_def split_beta tq Let_def)
  have nm: "names ?tb1 = names tb \<union> {p. prefix p q}" using lk(4) by (simp add: names_def tq)
  then have q: "q \<in> names ?tb1" by simp
  note g = meas_get_nte_props[OF ok1 q, of now]
  show "fst (meas_get H now n tb) = Some q" by (simp add: eq)
  show "nt_slots (nameTree (snd (meas_get H now n tb))) =
      (if meas_at tb q = None then set_meas_slot q (Some (new_meas_entry now q)) (nt_slots (nameTree tb))
       else nt_slots (nameTree tb))"
    using g(1) lk(3) by (simp add: eq)
  show "tables_ok H (snd (meas_get H now n tb))" using g(2) by (simp add: eq)
  show "names (snd (meas_get H now n tb)) = names tb \<union> {p. prefix p q}" using g(3) nm by (simp add: eq)
qed

lemma meas_modify_props:
  assumes tb: "tables_ok H tb" and e: "meas_at tb n = Some e"
    and f: "me_name (f e) = me_name e" "me_nameTreeEntry (f e) = me_nameTreeEntry e"
  shows "nt_slots (nameTree (meas_modify n f tb)) = set_meas_slot n (Some (f e)) (nt_slots (nameTree tb))"
    and "tables_ok H (meas_modify n f tb)"
proof -
  note p = slot_present(3)[OF e]
  show "nt_slots (nameTree (meas_modify n f tb)) = set_meas_slot n (Some (f e)) (nt_slots (nameTree tb))"
    by (simp add: meas_modify_def ht_modify_slots p slot_effect_meas set_meas_slot_def e)
  have "meas_slot_ok n (Some (f e))" using tables_okD(7)[OF tb, of n] e f by (simp add: meas_slot_ok_def)
  then show "tables_ok H (meas_modify n f tb)"
    by (intro tables_ok_write[OF tb, of "nte_meas_update (map_option f)" n])
      (simp_all add: p meas_modify_def slot_effect_meas e cnt_defs slots_ok_set_meas[OF tables_okD(4)[OF tb]])
qed

lemma meas_extend_props:
  assumes tb: "tables_ok H tb" and e: "meas_at tb n = Some e"
  shows "tables_ok H (meas_extendLifetime now n lifetime tb)"
    and "nt_slots (nameTree (meas_extendLifetime now n lifetime tb)) =
      (if me_expiry e \<ge> now + lifetime then nt_slots (nameTree tb)
       else set_meas_slot n (Some (e\<lparr>me_expiry := now + lifetime, me_cleanup := Some (now + lifetime)\<rparr>))
         (nt_slots (nameTree tb)))"
  using tb meas_modify_props[OF tb e, of "\<lambda>e. e\<lparr>me_expiry := now + lifetime, me_cleanup := Some (now + lifetime)\<rparr>"]
  by (simp_all add: meas_extendLifetime_def e Let_def)

lemma meas_cleanup_props:
  assumes tb: "tables_ok H tb" and e: "meas_at tb n = Some e"
  shows "nt_slots (nameTree (meas_cleanup n tb)) = set_meas_slot n None (nt_slots (nameTree tb))"
    and "tables_ok H (meas_cleanup n tb)"
proof -
  let ?f = "setMeasurementsEntry None :: 'a nt_entry \<Rightarrow> 'a nt_entry"
  let ?nt1 = "ht_modify n ?f (nameTree tb)"
  let ?tb1 = "tb\<lparr>nameTree := ?nt1, meas_nItems := meas_nItems tb - 1\<rparr>"
  note p = slot_present(3)[OF e]
  have p1: "n \<in> dom (ht_map ?nt1)" using p by (simp add: ht_modify_dom)
  have ok1: "tables_ok H ?tb1"
    by (rule tables_ok_write[OF tb, of ?f n])
      (simp_all add: p slot_effect_meas e cnt_defs slots_ok_set_meas[OF tables_okD(4)[OF tb]] meas_slot_ok_def)
  have i1: "nt_inv H ?nt1" using tables_okD(1)[OF ok1] by simp
  show "nt_slots (nameTree (meas_cleanup n tb)) = set_meas_slot n None (nt_slots (nameTree tb))"
    using eraseIfEmpty_props(2)[OF i1 p1]
    by (simp add: meas_cleanup_def ht_modify_slots p slot_effect_meas set_meas_slot_def)
  show "tables_ok H (meas_cleanup n tb)"
    using tables_ok_prune[OF ok1, of n] p1 by (simp add: meas_cleanup_def)
qed

section \<open>Longest prefix match\<close>

lemma longest_match_cong:
  assumes "\<And>q. P q \<Longrightarrow> prefix q m \<longleftrightarrow> prefix q n"
  shows "longest_match P m = longest_match P n"
proof -
  have "longest_match P m = Some q \<longleftrightarrow> longest_match P n = Some q" for q
    unfolding longest_match_Some_iff using assms by blast
  then show ?thesis by (rule option_eqI)
qed

lemma meas_lpm:
  assumes tb: "tables_ok H tb"
  shows "meas_findLongestPrefixMatch H n pred tb =
    (case longest_match (\<lambda>q. \<exists>e. meas_at tb q = Some e \<and> pred e) n of None \<Rightarrow> None | Some q \<Rightarrow> meas_at tb q)"
proof -
  let ?P = "\<lambda>q. \<exists>e. meas_at tb q = Some e \<and> pred e" and ?M = "ht_map (nameTree tb)"
  have P: "?P q \<longleftrightarrow> (\<exists>e. ?M q = Some e \<and> nte_meas_pred pred e)" for q
    by (auto simp: map_slots_def nte_slots_def no_slots_def nte_meas_pred_def split: option.splits)
  have "length q \<le> getMaxDepth" if "?P q" for q
    using that tree_depth[OF tables_okD(3)[OF tb], of q] slot_present(3) by blast
  then have lm: "longest_match ?P (take getMaxDepth n) = longest_match ?P n"
  proof -
    have "prefix q (take getMaxDepth n) \<longleftrightarrow> prefix q n" if "?P q" for q
      using \<open>\<And>q. ?P q \<Longrightarrow> length q \<le> getMaxDepth\<close>[OF that] by (auto simp: prefix_take_iff min_def)
    then show ?thesis by (intro longest_match_cong)
  qed
  have r: "nt_findLongestPrefixMatch H (take getMaxDepth n) (nte_meas_pred pred) (nameTree tb) =
      (case longest_match ?P n of None \<Rightarrow> None | Some q \<Rightarrow> ?M q)"
    using is_lpm_longest_match[OF nt_findLongestPrefixMatch_lpm[OF tables_okD(1)[OF tb],
          of "nte_meas_pred pred" "take getMaxDepth n"] P] lm by simp
  show ?thesis
  proof (cases "longest_match ?P n")
    case (Some q)
    then have "?P q" by (simp add: longest_match_Some_iff)
    then obtain e where "?M q = Some e" "nte_meas e = meas_at tb q"
      using P[of q] by (auto simp: map_slots_def nte_slots_def)
    then show ?thesis by (simp add: meas_findLongestPrefixMatch_def r Some)
  qed (simp add: meas_findLongestPrefixMatch_def r)
qed


section \<open>Sequences of operations\<close>

text \<open>The view of the table: the expiry of every entry.\<close>

definition meas_view :: "'i tables \<Rightarrow> name \<rightharpoonup> time_point" where
  "meas_view tb n = map_option me_expiry (meas_at tb n)"

datatype meas_op =
    MeasGet time_point name
  | MeasExtend time_point name int
  | MeasCleanup name

fun meas_exec :: "(component \<Rightarrow> u64) \<Rightarrow> meas_op \<Rightarrow> 'i tables \<Rightarrow> 'i tables" where
  "meas_exec H (MeasGet now n) tb = snd (meas_get H now n tb)"
| "meas_exec H (MeasExtend now n lifetime) tb = meas_extendLifetime now n lifetime tb"
| "meas_exec H (MeasCleanup n) tb = meas_cleanup n tb"

fun spec_meas_exec :: "meas_op \<Rightarrow> (name \<rightharpoonup> time_point) \<Rightarrow> name \<rightharpoonup> time_point" where
  "spec_meas_exec (MeasGet now n) V =
     (case V (take getMaxDepth n) of
        None \<Rightarrow> V(take getMaxDepth n \<mapsto> now + getInitialLifetime)
      | Some _ \<Rightarrow> V)"
| "spec_meas_exec (MeasExtend now n lifetime) V = V(n := map_option (\<lambda>e. max e (now + lifetime)) (V n))"
| "spec_meas_exec (MeasCleanup n) V = V(n := None)"

text \<open>Only entries of the table are extended or cleaned up.\<close>

fun meas_allowed :: "meas_op \<Rightarrow> (name \<rightharpoonup> time_point) \<Rightarrow> bool" where
  "meas_allowed (MeasGet now n) V \<longleftrightarrow> True"
| "meas_allowed (MeasExtend now n lifetime) V \<longleftrightarrow> V n \<noteq> None"
| "meas_allowed (MeasCleanup n) V \<longleftrightarrow> V n \<noteq> None"

fun meas_allowed_all :: "meas_op list \<Rightarrow> (name \<rightharpoonup> time_point) \<Rightarrow> bool" where
  "meas_allowed_all [] V \<longleftrightarrow> True"
| "meas_allowed_all (op # ops) V \<longleftrightarrow> meas_allowed op V \<and> meas_allowed_all ops (spec_meas_exec op V)"

text \<open>Every entry has its cleanup scheduled for its expiry.\<close>

definition cleanup_scheduled :: "'i tables \<Rightarrow> bool" where
  "cleanup_scheduled tb \<longleftrightarrow> (\<forall>n e. meas_at tb n = Some e \<longrightarrow> me_cleanup e = Some (me_expiry e))"

lemma meas_exec_refines:
  assumes tb: "tables_ok H tb" and al: "meas_allowed op (meas_view tb)" and cs: "cleanup_scheduled tb"
  shows "tables_ok H (meas_exec H op tb) \<and> meas_view (meas_exec H op tb) = spec_meas_exec op (meas_view tb) \<and>
    cleanup_scheduled (meas_exec H op tb)"
proof (cases op)
  case (MeasGet now n)
  note g = meas_get_props[OF tb, of now n]
  show ?thesis
    using g(2,3) cs MeasGet
    by (auto simp: meas_view_def fun_eq_iff cleanup_scheduled_def new_meas_entry_def split: if_splits option.splits)
next
  case (MeasExtend now n lifetime)
  then obtain e where e: "meas_at tb n = Some e" using al by (auto simp: meas_view_def)
  note x = meas_extend_props[OF tb e, of now lifetime]
  show ?thesis
    using x cs MeasExtend e
    by (auto simp: meas_view_def fun_eq_iff cleanup_scheduled_def split: if_splits)
next
  case (MeasCleanup n)
  then obtain e where e: "meas_at tb n = Some e" using al by (auto simp: meas_view_def)
  note x = meas_cleanup_props[OF tb e]
  show ?thesis
    using x cs MeasCleanup by (auto simp: meas_view_def fun_eq_iff cleanup_scheduled_def split: if_splits)
qed

lemma meas_run_refines:
  "tables_ok H tb \<Longrightarrow> meas_allowed_all ops (meas_view tb) \<Longrightarrow> cleanup_scheduled tb \<Longrightarrow>
   tables_ok H (fold (meas_exec H) ops tb) \<and>
   meas_view (fold (meas_exec H) ops tb) = fold spec_meas_exec ops (meas_view tb) \<and>
   cleanup_scheduled (fold (meas_exec H) ops tb)"
proof (induction ops arbitrary: tb)
  case (Cons op ops)
  then show ?case using meas_exec_refines[of H tb op] by simp
qed simp

lemma attached_meas: "attached cnt_meas tb = card (dom (meas_view tb))"
proof -
  have d: "dom (meas_view tb) = {n \<in> dom (ht_map (nameTree tb)). meas_at tb n \<noteq> None}"
    using slot_present(3)[of tb] by (fastforce simp: meas_view_def)
  show ?thesis
    unfolding attached_def d cnt_meas_def by (simp add: sum.If_cases Int_def del: not_None_eq)
qed

section \<open>Properties\<close>

text \<open>
  C25: lifetimes of Measurements entries. After any sequence of lookups, extensions and cleanups every
  entry expires at the latest time any of the operations asked for (an extension never shortens a
  lifetime), the cleanup event of an entry is scheduled exactly for its expiry, and the size counter
  is the number of entries.
\<close>

theorem measurements_lifetime:
  assumes "0 < nBuckets" and "meas_allowed_all ops Map.empty"
  shows "let tb = fold (meas_exec H) ops (mk_tables nBuckets :: 'i tables);
             V = fold spec_meas_exec ops Map.empty
         in meas_view tb = V \<and> (\<forall>n e. meas_at tb n = Some e \<longrightarrow> me_cleanup e = Some (me_expiry e)) \<and>
            meas_nItems tb = of_nat (card (dom V)) \<and> tables_ok H tb"
proof -
  let ?t = "mk_tables nBuckets :: 'i tables"
  have ok: "tables_ok H ?t" by (rule tables_ok_mk[OF assms(1)])
  have v: "meas_at ?t n = None" for n
    by (simp add: mk_tables_def mk_name_tree_def map_slots_def no_slots_def)
  then have "meas_view ?t = Map.empty" "cleanup_scheduled ?t"
    by (auto simp: meas_view_def cleanup_scheduled_def)
  then have r: "tables_ok H (fold (meas_exec H) ops ?t)"
      "meas_view (fold (meas_exec H) ops ?t) = fold spec_meas_exec ops Map.empty"
      "cleanup_scheduled (fold (meas_exec H) ops ?t)"
    using meas_run_refines[OF ok, of ops] assms(2) by simp_all
  then show ?thesis
    using tables_ok_counts(3)[OF r(1)] by (simp add: Let_def attached_meas cleanup_scheduled_def)
qed

theorem measurements_lifetime_witness:
  "meas_view (fold (meas_exec (\<lambda>_. 7))
     [MeasGet 0 [generic_comp ''a''], MeasExtend 5 [generic_comp ''a''] (ms 16000), MeasExtend 6 [generic_comp ''a''] (ms 1)]
     (mk_tables 16 :: unit tables)) [generic_comp ''a''] = Some (5 + ms 16000)"
  using measurements_lifetime[of 16 "[MeasGet 0 [generic_comp ''a''],
      MeasExtend 5 [generic_comp ''a''] (ms 16000), MeasExtend 6 [generic_comp ''a''] (ms 1)]" "\<lambda>_. 7", where 'i = unit]
  by (simp add: Let_def getMaxDepth_def ms_def getInitialLifetime_def)

end
