(* ===== verification/Name_Order.thy ===== *)
theory Name_Order
  imports NDN_Packets
begin

text \<open>
  The order of names and the successor of a name. \<open>Name::getSuccessor\<close> belongs to the packet
  library, so it is a parameter wherever the daemon uses it; the code relies on its being the first
  name in canonical order after all names that extend the given one (\<open>successor_law\<close>). The last
  section shows that the law can hold: it is fulfilled by advancing the last component to the next
  possible value, which is how the library documents the function.
\<close>

section \<open>The law\<close>

definition successor_law :: "(name \<Rightarrow> name) \<Rightarrow> bool" where
  "successor_law succ \<longleftrightarrow> (\<forall>x z. x \<noteq> [] \<longrightarrow> (z < succ x \<longleftrightarrow> z < x \<or> prefix x z))"

lemma successor_lawD: "successor_law succ \<Longrightarrow> x \<noteq> [] \<Longrightarrow> z < succ x \<longleftrightarrow> z < x \<or> prefix x z"
  by (simp add: successor_law_def)

lemma prefix_le: "prefix x z \<Longrightarrow> x \<le> (z :: name)"
proof (induction x arbitrary: z)
  case (Cons a x)
  then show ?case by (cases z) auto
qed simp

section \<open>A function that fulfils it\<close>

text \<open>Advance a byte string, seen as a big-endian number; the flag tells that it overflowed.\<close>

fun advance_bytes :: "string \<Rightarrow> bool \<times> string" where
  "advance_bytes [] = (True, [])"
| "advance_bytes (b # bs) =
     (let (overflow, bs') = advance_bytes bs
      in if overflow
         then (if of_char b = (255 :: nat) then (True, CHR 0x00 # bs') else (False, char_of (of_char b + 1 :: nat) # bs'))
         else (False, b # bs'))"

definition comp_successor :: "component \<Rightarrow> component" where
  "comp_successor c =
     (let (overflow, v) = advance_bytes (comp_value c)
      in Component (comp_type c) (if overflow then CHR 0x00 # v else v))"

fun name_successor :: "name \<Rightarrow> name" where
  "name_successor [] = []"
| "name_successor [c] = [comp_successor c]"
| "name_successor (c # d # cs) = c # name_successor (d # cs)"

lemma of_char_less_256: "of_char (c :: char) < (256 :: nat)"
  using of_char_of[of "of_char c :: nat"] by (metis of_char_mod_256 mod_less_divisor zero_less_numeral)

lemma char_le_iff: "(a :: char) \<le> b \<longleftrightarrow> (of_char a :: nat) \<le> of_char b"
  by (simp add: less_eq_char_def)

lemma char_less_iff: "(a :: char) < b \<longleftrightarrow> (of_char a :: nat) < of_char b"
  by (simp add: less_char_def)

lemma advance_char:
  assumes "of_char b \<noteq> (255 :: nat)"
  shows "(c :: char) < char_of (of_char b + 1 :: nat) \<longleftrightarrow> c \<le> b"
proof -
  have "of_char b + 1 < (256 :: nat)" using assms of_char_less_256[of b] by linarith
  then have "(of_char (char_of (of_char b + 1 :: nat) :: char) :: nat) = of_char b + 1" by simp
  then show ?thesis by (simp add: char_le_iff char_less_iff less_Suc_eq_le)
qed

lemma zero_least: "CHR 0x00 \<le> (c :: char)"
  by (simp add: char_le_iff)

lemma zeros_least: "length w = n \<Longrightarrow> replicate n (CHR 0x00) \<le> w"
proof (induction w arbitrary: n)
  case (Cons b w)
  then show ?case using zero_least[of b] by (cases n) (auto simp: le_less)
qed simp

lemma advance_bytes_overflow:
  "fst (advance_bytes v) \<Longrightarrow> snd (advance_bytes v) = replicate (length v) (CHR 0x00) \<and>
   (\<forall>w. length w = length v \<longrightarrow> w \<le> v)"
proof (induction v)
  case (Cons b v)
  obtain ov v' where av: "advance_bytes v = (ov, v')" by force
  have o: "ov" "of_char b = (255 :: nat)" using Cons.prems av by (auto split: if_splits)
  have "c \<le> b" for c unfolding char_le_iff using of_char_less_256[of c] o(2) by linarith
  then have "w \<le> b # v" if "length w = length (b # v)" for w
    using that Cons.IH av o(1) by (cases w) (auto simp: le_less)
  then show ?case using Cons.IH av o by auto
qed simp

lemma length_advance_bytes [simp]: "length (snd (advance_bytes v)) = length v"
  by (induction v) (auto simp: split_beta Let_def)

lemma advance_bytes_next:
  "\<not> fst (advance_bytes v) \<Longrightarrow> length w = length v \<Longrightarrow> w < snd (advance_bytes v) \<longleftrightarrow> w \<le> v"
proof (induction v arbitrary: w)
  case (Cons b v)
  obtain c w' where w: "w = c # w'" "length w' = length v" using Cons.prems(2) by (cases w) auto
  obtain ov v' where av: "advance_bytes v = (ov, v')" by force
  show ?case
  proof (cases ov)
    case False
    then show ?thesis using Cons.IH[of w'] av w by auto
  next
    case True
    then have nb: "of_char b \<noteq> (255 :: nat)" using Cons.prems(1) av by auto
    have z: "v' = replicate (length v) (CHR 0x00)" and mx: "w' \<le> v"
      using advance_bytes_overflow[of v] True av w by auto
    have "\<not> w' < v'" using zeros_least[OF w(2)] z by (simp add: not_less)
    then show ?thesis using True nb advance_char[OF nb, of c] av w mx by (auto simp: le_less)
  qed
qed simp

lemma comp_less_iff:
  "c < d \<longleftrightarrow> component_key c < component_key d" "c \<le> d \<longleftrightarrow> component_key c \<le> component_key d"
  by (simp_all add: less_component_def less_eq_component_def)

lemma comp_successor_next: "d < comp_successor c \<longleftrightarrow> d \<le> c"
proof -
  obtain t v where c: "c = Component t v" by (cases c)
  obtain t' w where d: "d = Component t' w" by (cases d)
  obtain ov v' where av: "advance_bytes v = (ov, v')" by force
  have l: "length v' = length v" using length_advance_bytes[of v] av by simp
  show ?thesis
  proof (cases ov)
    case False
    then show ?thesis
      using advance_bytes_next[of v w] av l
      by (auto simp: comp_less_iff component_key_def comp_successor_def c d less_prod_def less_eq_prod_def)
  next
    case True
    have z: "v' = replicate (length v) (CHR 0x00)" and mx: "\<And>w. length w = length v \<Longrightarrow> w \<le> v"
      using advance_bytes_overflow[of v] True av by auto
    have "\<not> w < CHR 0x00 # v'" if "length w = Suc (length v)"
      using zeros_least[OF that] z by (simp add: not_less)
    then show ?thesis
      using True av l mx[of w]
      by (cases "length w = length v"; cases "length w = Suc (length v)")
        (auto simp: comp_less_iff component_key_def comp_successor_def c d less_prod_def less_eq_prod_def)
  qed
qed

lemma name_successor_law: "successor_law name_successor"
proof -
  have "z < name_successor x \<longleftrightarrow> z < x \<or> prefix x z" if "x \<noteq> []" for x z
    using that
  proof (induction x arbitrary: z rule: name_successor.induct)
    case (2 c)
    show ?case
      by (cases z) (auto simp: comp_successor_next le_less dest: less_imp_neq)
  next
    case (3 c d cs)
    then show ?case by (cases z) auto
  qed simp
  then show ?thesis by (simp add: successor_law_def)
qed

end
