(* ===== verification/Strategy_Registry.thy ===== *)
theory Strategy_Registry
  imports Name_Order Table_Entries
begin

text \<open>
  The registry of forwarding strategies (\<open>daemon/fw/strategy.cpp\<close>, first part, and \<open>registerType\<close> of
  \<open>strategy.hpp\<close>). The registry is a \<open>std::map\<close> from versioned strategy names to functions that
  create an instance; here it is the list of its elements in key order. Whether a component is a
  version and the successor of a name are functions of the packet library and are parameters.
  Creating an instance either throws \<open>std::invalid_argument\<close> (\<open>Inl\<close>) or gives a strategy.
\<close>

section \<open>State and operations\<close>

type_synonym create_func = "name \<Rightarrow> string + strategy"

record strategy_env =
  env_registry :: "(name \<times> create_func) list"
  env_isVersion :: "component \<Rightarrow> bool"
  env_toVersion :: "component \<Rightarrow> nat"
  env_getSuccessor :: "name \<Rightarrow> name"

record parsed_instance_name =
  pin_strategyName :: name
  pin_version :: "nat option"
  pin_parameters :: name

fun parse_loop :: "strategy_env \<Rightarrow> name \<Rightarrow> nat \<Rightarrow> parsed_instance_name" where
  "parse_loop env input 0 = \<lparr>pin_strategyName = input, pin_version = None, pin_parameters = []\<rparr>"
| "parse_loop env input (Suc i) =
     (if env_isVersion env (input ! Suc i)
      then \<lparr>pin_strategyName = take (Suc i + 1) input, pin_version = Some (env_toVersion env (input ! Suc i)),
            pin_parameters = drop (Suc i + 1) input\<rparr>
      else parse_loop env input i)"

definition parseInstanceName :: "strategy_env \<Rightarrow> name \<Rightarrow> parsed_instance_name" where
  "parseInstanceName env input = parse_loop env input (length input - 1)"

definition makeInstanceName :: "strategy_env \<Rightarrow> name \<Rightarrow> name \<Rightarrow> name" where
  "makeInstanceName env input strategyName =
     (if list_ex (env_isVersion env) (rev input) then input else input @ [last strategyName])"

definition registerType :: "name \<Rightarrow> create_func \<Rightarrow> strategy_env \<Rightarrow> strategy_env" where
  "registerType strategyName create env =
     env\<lparr>env_registry := insort_key fst (strategyName, create) (env_registry env)\<rparr>"

text \<open>\<open>lower_bound\<close> and the element before it.\<close>

definition reg_lower_bound :: "name \<Rightarrow> (name \<times> create_func) list \<Rightarrow> (name \<times> create_func) option" where
  "reg_lower_bound x reg = find (\<lambda>(k, c). x \<le> k) reg"

definition reg_before_lower_bound :: "name \<Rightarrow> (name \<times> create_func) list \<Rightarrow> (name \<times> create_func) option" where
  "reg_before_lower_bound x reg =
     (let before = takeWhile (\<lambda>(k, c). k < x) reg in if before = [] then None else Some (last before))"

definition strategy_find :: "strategy_env \<Rightarrow> name \<Rightarrow> (name \<times> create_func) option" where
  "strategy_find env instanceName =
     (let parsed = parseInstanceName env instanceName; sn = pin_strategyName parsed
      in if pin_version parsed \<noteq> None then
           (case reg_lower_bound sn (env_registry env) of
              None \<Rightarrow> None
            | Some found \<Rightarrow> if prefix (butlast sn) (fst found) then Some found else None)
         else if sn \<noteq> [] then
           (case reg_before_lower_bound (env_getSuccessor env sn) (env_registry env) of
              None \<Rightarrow> None
            | Some found \<Rightarrow> if prefix sn (fst found) then Some found else None)
         else None)"

definition canCreate :: "strategy_env \<Rightarrow> name \<Rightarrow> bool" where
  "canCreate env instanceName \<longleftrightarrow> strategy_find env instanceName \<noteq> None"

definition strategy_create :: "strategy_env \<Rightarrow> name \<Rightarrow> (string + strategy) option" where
  "strategy_create env instanceName =
     (case strategy_find env instanceName of None \<Rightarrow> None | Some found \<Rightarrow> Some (snd found instanceName))"

text \<open>Comparing iterators of the map is comparing keys.\<close>

definition areSameType :: "strategy_env \<Rightarrow> name \<Rightarrow> name \<Rightarrow> bool" where
  "areSameType env a b \<longleftrightarrow> map_option fst (strategy_find env a) = map_option fst (strategy_find env b)"

definition listRegistered :: "strategy_env \<Rightarrow> name list" where
  "listRegistered env = map fst (env_registry env)"

text \<open>
  The constructor of a strategy that takes no parameters; \<open>label\<close> is the class name that appears in
  the messages.
\<close>

definition plain_strategy_ctor :: "strategy_env \<Rightarrow> string \<Rightarrow> name \<Rightarrow> create_func" where
  "plain_strategy_ctor env label strategyName name =
     (let parsed = parseInstanceName env name
      in if pin_parameters parsed \<noteq> [] then Inl (label @ '' does not accept parameters'')
         else if (case pin_version parsed of None \<Rightarrow> False | Some v \<Rightarrow> v \<noteq> env_toVersion env (last strategyName))
         then Inl (label @ '' does not support version'')
         else Inr \<lparr>st_instanceName = makeInstanceName env name strategyName\<rparr>)"

section \<open>Invariant\<close>

definition registry_ok :: "(name \<times> create_func) list \<Rightarrow> bool" where
  "registry_ok reg \<longleftrightarrow> sorted (map fst reg) \<and> distinct (map fst reg)"

lemma registerType_ok:
  assumes "registry_ok (env_registry env)" and "sn \<notin> fst ` set (env_registry env)"
  shows "registry_ok (env_registry (registerType sn c env))"
proof -
  have "set (map fst (insort_key fst (sn, c) (env_registry env))) = insert sn (fst ` set (env_registry env))"
    by (simp add: set_insort_key)
  moreover have "sorted (map fst (insort_key fst (sn, c) (env_registry env)))"
    using assms(1) by (simp add: sorted_insort_key registry_ok_def)
  moreover have "mset (map fst (insort_key fst (sn, c) (env_registry env))) = mset (map fst ((sn, c) # env_registry env))"
    by simp
  then have "distinct (map fst (insort_key fst (sn, c) (env_registry env)))"
    using assms mset_eq_imp_distinct_iff[of "map fst (insort_key fst (sn, c) (env_registry env))"
        "map fst ((sn, c) # env_registry env)"] by (simp add: registry_ok_def)
  ultimately show ?thesis by (simp add: registerType_def registry_ok_def)
qed

section \<open>Search\<close>

lemma lower_bound_iff:
  assumes "registry_ok reg"
  shows "reg_lower_bound x reg = Some (k, c) \<longleftrightarrow>
    (k, c) \<in> set reg \<and> x \<le> k \<and> (\<forall>k'\<in>fst ` set reg. x \<le> k' \<longrightarrow> k \<le> k')"
  using assms
proof (induction reg)
  case (Cons kc reg)
  obtain k0 c0 where kc: "kc = (k0, c0)" by force
  have le: "\<And>k' c'. (k', c') \<in> set reg \<Longrightarrow> k0 \<le> k'" and ne: "\<And>k' c'. (k', c') \<in> set reg \<Longrightarrow> k' \<noteq> k0"
    using Cons.prems by (force simp: kc registry_ok_def)+
  have ok: "registry_ok reg" using Cons.prems by (simp add: registry_ok_def)
  show ?case
  proof (cases "x \<le> k0")
    case True
    then show ?thesis using le ne by (force simp: reg_lower_bound_def kc)
  next
    case False
    then show ?thesis using Cons.IH[OF ok] by (auto simp: reg_lower_bound_def kc)
  qed
qed (simp add: reg_lower_bound_def)

lemma before_lower_bound_iff:
  assumes "registry_ok reg"
  shows "reg_before_lower_bound x reg = Some (k, c) \<longleftrightarrow>
    (k, c) \<in> set reg \<and> k < x \<and> (\<forall>k'\<in>fst ` set reg. k' < x \<longrightarrow> k' \<le> k)"
  using assms
proof (induction reg)
  case (Cons kc reg)
  obtain k0 c0 where kc: "kc = (k0, c0)" by force
  have le: "\<And>k' c'. (k', c') \<in> set reg \<Longrightarrow> k0 < k'"
    using Cons.prems by (force simp: kc registry_ok_def le_less)
  have ok: "registry_ok reg" using Cons.prems by (simp add: registry_ok_def)
  have none: "reg_before_lower_bound x reg = None \<longleftrightarrow> (\<forall>k'\<in>fst ` set reg. \<not> k' < x)"
    using ok by (cases reg) (auto simp: reg_before_lower_bound_def Let_def registry_ok_def)
  show ?case
  proof (cases "k0 < x")
    case True
    have "reg_before_lower_bound x (kc # reg) =
        (case reg_before_lower_bound x reg of None \<Rightarrow> Some kc | Some y \<Rightarrow> Some y)"
      using True by (simp add: reg_before_lower_bound_def kc Let_def)
    then have step: "reg_before_lower_bound x (kc # reg) = Some (k, c) \<longleftrightarrow>
        (if reg_before_lower_bound x reg = None then (k, c) = (k0, c0) else reg_before_lower_bound x reg = Some (k, c))"
      by (auto simp: kc split: option.splits)
    show ?thesis
    proof (cases "reg_before_lower_bound x reg = None")
      case True
      then have no: "\<And>k' c'. (k', c') \<in> set reg \<Longrightarrow> \<not> k' < x" using none by force
      show ?thesis using step True no \<open>k0 < x\<close> by (auto simp: kc)
    next
      case False
      then obtain k1 c1 where k1: "(k1, c1) \<in> set reg" "k1 < x" using none by force
      have "\<not> (k1 \<le> k0)" using le[OF k1(1)] by simp
      then show ?thesis using step False Cons.IH[OF ok] k1 le \<open>k0 < x\<close> by (auto simp: kc)
    qed
  next
    case False
    then show ?thesis using le by (auto simp: reg_before_lower_bound_def kc Let_def) fastforce+
  qed
qed (simp add: reg_before_lower_bound_def)

lemma prefix_convex: "prefix p x \<Longrightarrow> prefix p z \<Longrightarrow> x \<le> y \<Longrightarrow> y \<le> z \<Longrightarrow> prefix p (y :: name)"
proof (induction p arbitrary: x y z)
  case (Cons a p)
  obtain x' z' where xz: "x = a # x'" "z = a # z'"
    using Cons.prems(1,2) unfolding prefix_def by auto
  then obtain b y' where y: "y = b # y'" using Cons.prems(3) by (cases y) auto
  have "b = a" using Cons.prems(3,4) xz y by auto
  then show ?case using Cons.IH[of x' z' y'] Cons.prems xz y by auto
qed simp

lemma find_versioned:
  assumes ok: "registry_ok (env_registry env)" and v: "pin_version (parseInstanceName env n) \<noteq> None"
  defines "sn \<equiv> pin_strategyName (parseInstanceName env n)"
  shows "map_option fst (strategy_find env n) = Some k \<longleftrightarrow>
    k \<in> set (listRegistered env) \<and> sn \<le> k \<and> prefix (butlast sn) k \<and>
    (\<forall>k'\<in>set (listRegistered env). sn \<le> k' \<longrightarrow> prefix (butlast sn) k' \<longrightarrow> k \<le> k')"
proof -
  let ?reg = "env_registry env"
  have pre: "prefix (butlast sn) sn" by (rule prefixeq_butlast)
  have f: "strategy_find env n = (case reg_lower_bound sn ?reg of None \<Rightarrow> None
      | Some found \<Rightarrow> if prefix (butlast sn) (fst found) then Some found else None)"
    unfolding sn_def using v by (simp add: strategy_find_def Let_def)
  show ?thesis
  proof (cases "reg_lower_bound sn ?reg")
    case None
    then have "\<not> sn \<le> k'" if "k' \<in> set (listRegistered env)" for k'
      using that by (auto simp: reg_lower_bound_def find_None_iff listRegistered_def)
    then show ?thesis using None f by auto
  next
    case (Some kc)
    obtain k0 c0 where kc: "kc = (k0, c0)" by force
    have lb: "(k0, c0) \<in> set ?reg" "sn \<le> k0" "\<And>k'. k' \<in> set (listRegistered env) \<Longrightarrow> sn \<le> k' \<Longrightarrow> k0 \<le> k'"
      using Some lower_bound_iff[OF ok, of sn k0 c0] kc by (auto simp: listRegistered_def)
    have k0: "k0 \<in> set (listRegistered env)" using lb(1) by (force simp: listRegistered_def)
    have conv: "prefix (butlast sn) k0" if "k' \<in> set (listRegistered env)" "sn \<le> k'" "prefix (butlast sn) k'" for k'
      using prefix_convex[OF pre that(3) lb(2) lb(3)[OF that(1,2)]] .
    show ?thesis
      using Some f kc k0 lb(2,3) conv by (auto intro: antisym)
  qed
qed

lemma find_unversioned:
  assumes ok: "registry_ok (env_registry env)" and v: "pin_version (parseInstanceName env n) = None"
    and ne: "n \<noteq> []" and law: "successor_law (env_getSuccessor env)"
  shows "map_option fst (strategy_find env n) = Some k \<longleftrightarrow>
    k \<in> set (listRegistered env) \<and> prefix n k \<and> (\<forall>k'\<in>set (listRegistered env). prefix n k' \<longrightarrow> k' \<le> k)"
proof -
  let ?reg = "env_registry env" and ?s = "env_getSuccessor env n"
  have "pin_strategyName (parse_loop env n i) = n" if "pin_version (parse_loop env n i) = None" for i
    using that by (induction i) (auto split: if_splits)
  then have sn: "pin_strategyName (parseInstanceName env n) = n" using v by (simp add: parseInstanceName_def)
  have f: "strategy_find env n = (case reg_before_lower_bound ?s ?reg of None \<Rightarrow> None
      | Some found \<Rightarrow> if prefix n (fst found) then Some found else None)"
    unfolding strategy_find_def Let_def sn using v ne by simp
  have less: "k' < ?s \<longleftrightarrow> k' < n \<or> prefix n k'" for k' by (rule successor_lawD[OF law ne])
  show ?thesis
  proof (cases "reg_before_lower_bound ?s ?reg")
    case None
    have "\<not> k' < ?s" if "k' \<in> set (listRegistered env)" for k'
    proof -
      have "takeWhile (\<lambda>(k, c). k < ?s) ?reg = []" using None by (simp add: reg_before_lower_bound_def Let_def split: if_splits)
      then show ?thesis
        using that ok by (cases ?reg) (auto simp: listRegistered_def registry_ok_def split: if_splits)
    qed
    then show ?thesis using None f less by auto
  next
    case (Some kc)
    obtain k0 c0 where kc: "kc = (k0, c0)" by force
    have lb: "(k0, c0) \<in> set ?reg" "k0 < ?s" "\<And>k'. k' \<in> set (listRegistered env) \<Longrightarrow> k' < ?s \<Longrightarrow> k' \<le> k0"
      using Some before_lower_bound_iff[OF ok, of ?s k0 c0] kc by (auto simp: listRegistered_def)
    have k0: "k0 \<in> set (listRegistered env)" using lb(1) by (force simp: listRegistered_def)
    have conv: "prefix n k0" if "k' \<in> set (listRegistered env)" "prefix n k'" for k'
    proof -
      have "n \<le> k0" using lb(3)[OF that(1)] less[of k'] that(2) prefix_le[OF that(2)] by auto
      then show ?thesis using lb(2) less[of k0] by auto
    qed
    have "prefix n k' \<Longrightarrow> k' \<in> set (listRegistered env) \<Longrightarrow> k' \<le> k0" for k' using lb(3) less by blast
    then show ?thesis using Some f kc k0 conv by (auto intro: antisym)
  qed
qed

text \<open>
  The registered programs an instance name may stand for, and the one it selects: the lowest that is
  not below the name when the name has a version, the highest otherwise.
\<close>

definition strategy_candidates :: "strategy_env \<Rightarrow> name \<Rightarrow> name set" where
  "strategy_candidates env n =
     (let parsed = parseInstanceName env n; sn = pin_strategyName parsed
      in {k \<in> set (listRegistered env).
            if pin_version parsed \<noteq> None then sn \<le> k \<and> prefix (butlast sn) k else n \<noteq> [] \<and> prefix n k})"

definition selected_program :: "strategy_env \<Rightarrow> name \<Rightarrow> name" where
  "selected_program env n =
     (if pin_version (parseInstanceName env n) \<noteq> None then Min (strategy_candidates env n)
      else Max (strategy_candidates env n))"

lemma find_in_registry:
  assumes "strategy_find env n = Some (k, c)"
  shows "(k, c) \<in> set (env_registry env)"
proof -
  have "y \<in> set (env_registry env)" if "reg_lower_bound x (env_registry env) = Some y" for x y
    using that by (auto simp: reg_lower_bound_def find_Some_iff) (metis nth_mem)
  moreover have "y \<in> set (env_registry env)" if "reg_before_lower_bound x (env_registry env) = Some y" for x y
    using that last_in_set[THEN set_takeWhileD]
    by (simp add: reg_before_lower_bound_def Let_def split: if_splits) blast
  ultimately show ?thesis using assms by (simp add: strategy_find_def Let_def split: if_splits option.splits)
qed

lemma strategy_find_key:
  assumes ok: "registry_ok (env_registry env)" and law: "successor_law (env_getSuccessor env)"
  shows "map_option fst (strategy_find env n) = Some k \<longleftrightarrow> strategy_candidates env n \<noteq> {} \<and> k = selected_program env n"
proof -
  let ?C = "strategy_candidates env n" and ?v = "pin_version (parseInstanceName env n)"
  have fin: "finite ?C" by (simp add: strategy_candidates_def Let_def)
  consider "?v \<noteq> None" | "?v = None" "n \<noteq> []" | "n = []" by blast
  then show ?thesis
  proof cases
    case 1
    have "map_option fst (strategy_find env n) = Some k \<longleftrightarrow> k \<in> ?C \<and> (\<forall>k'\<in>?C. k \<le> k')"
      unfolding find_versioned[OF ok 1] using 1 by (auto simp: strategy_candidates_def Let_def)
    also have "\<dots> \<longleftrightarrow> ?C \<noteq> {} \<and> k = Min ?C" using fin Min_eq_iff[OF fin, of k] by auto
    finally show ?thesis using 1 by (simp add: selected_program_def)
  next
    case 2
    have "map_option fst (strategy_find env n) = Some k \<longleftrightarrow> k \<in> ?C \<and> (\<forall>k'\<in>?C. k' \<le> k)"
      unfolding find_unversioned[OF ok 2 law] using 2 by (auto simp: strategy_candidates_def Let_def)
    also have "\<dots> \<longleftrightarrow> ?C \<noteq> {} \<and> k = Max ?C" using fin Max_eq_iff[OF fin, of k] by auto
    finally show ?thesis using 2 by (simp add: selected_program_def)
  next
    case 3
    then show ?thesis
      by (simp add: strategy_find_def strategy_candidates_def parseInstanceName_def)
  qed
qed

lemma strategy_find_cases:
  assumes "registry_ok (env_registry env)" and "successor_law (env_getSuccessor env)"
  obtains (none) "strategy_candidates env n = {}" "strategy_find env n = None"
  | (found) c where "strategy_candidates env n \<noteq> {}" "strategy_find env n = Some (selected_program env n, c)"
      "(selected_program env n, c) \<in> set (env_registry env)"
proof (cases "strategy_find env n")
  case None
  then show ?thesis using strategy_find_key[OF assms, of n "selected_program env n"] none by simp
next
  case (Some kc)
  obtain k c where kc: "kc = (k, c)" by force
  then have "strategy_candidates env n \<noteq> {} \<and> k = selected_program env n"
    using strategy_find_key[OF assms, of n k] Some by simp
  then show ?thesis using found[of c] Some kc find_in_registry by simp
qed

text \<open>All registered programs have constructors that take no parameters.\<close>

definition plain_registry :: "strategy_env \<Rightarrow> bool" where
  "plain_registry env \<longleftrightarrow>
     (\<forall>(k, create)\<in>set (env_registry env). \<exists>label. \<forall>n. create n = plain_strategy_ctor env label k n)"

section \<open>Properties\<close>

text \<open>
  C26: which strategy program an instance name selects. A versioned name selects the registered
  program of that name with the same or else the next higher version; a name without version selects
  the highest registered version of the programs that extend it; nothing is found exactly when no
  registered program qualifies. Both are found by one binary search in the ordered registry and a
  prefix test on its result.
\<close>

theorem strategy_find_spec:
  assumes "registry_ok (env_registry env)" and "successor_law (env_getSuccessor env)" and "n \<noteq> []"
  defines "sn \<equiv> pin_strategyName (parseInstanceName env n)"
  shows "map_option fst (strategy_find env n) = Some k \<longleftrightarrow>
    k \<in> set (listRegistered env) \<and>
    (if pin_version (parseInstanceName env n) \<noteq> None
     then sn \<le> k \<and> prefix (butlast sn) k \<and>
       (\<forall>k'\<in>set (listRegistered env). sn \<le> k' \<and> prefix (butlast sn) k' \<longrightarrow> k \<le> k')
     else prefix n k \<and> (\<forall>k'\<in>set (listRegistered env). prefix n k' \<longrightarrow> k' \<le> k))"
  using find_versioned[OF assms(1), of n k] find_unversioned[OF assms(1) _ assms(3,2), of k]
  unfolding sn_def by auto

definition env_example :: strategy_env where
  "env_example =
     (let env = \<lparr>env_registry = [], env_isVersion = (\<lambda>c. take 1 (comp_value c) = [CHR 0xFD]),
                 env_toVersion = (\<lambda>c. of_char (last (comp_value c))), env_getSuccessor = name_successor\<rparr>;
          v = (\<lambda>b. [generic_comp ''s'', generic_comp [CHR 0xFD, b]])
      in registerType (v (CHR 0x01)) (plain_strategy_ctor env ''S'' (v (CHR 0x01)))
           (registerType (v (CHR 0x05)) (plain_strategy_ctor env ''S'' (v (CHR 0x05))) env))"

lemma env_example_props:
  "registry_ok (env_registry env_example)" "env_getSuccessor env_example = name_successor"
  "listRegistered env_example =
     [[generic_comp ''s'', generic_comp [CHR 0xFD, CHR 0x01]], [generic_comp ''s'', generic_comp [CHR 0xFD, CHR 0x05]]]"
  by (simp_all add: env_example_def registerType_def Let_def registry_ok_def listRegistered_def
      less_eq_component_def less_component_def component_key_def less_eq_char_def less_char_def)

lemma plain_ctor_cong:
  assumes "env_isVersion e = env_isVersion e'" and "env_toVersion e = env_toVersion e'"
  shows "plain_strategy_ctor e l k = plain_strategy_ctor e' l k"
proof
  have "parse_loop e n i = parse_loop e' n i" for n i by (induction i) (simp_all add: assms)
  then show "plain_strategy_ctor e l k n = plain_strategy_ctor e' l k n" for n
    unfolding plain_strategy_ctor_def parseInstanceName_def makeInstanceName_def assms by simp
qed

lemma env_example_plain: "plain_registry env_example"
proof -
  let ?e = "\<lparr>env_registry = [], env_isVersion = (\<lambda>c. take 1 (comp_value c) = [CHR 0xFD]),
    env_toVersion = (\<lambda>c. of_char (last (comp_value c))), env_getSuccessor = name_successor\<rparr>"
  have "create = plain_strategy_ctor ?e ''S'' k" if "(k, create) \<in> set (env_registry env_example)" for k create
    using that by (auto simp: env_example_def registerType_def Let_def set_insort_key split: if_splits)
  moreover have "plain_strategy_ctor ?e l k = plain_strategy_ctor env_example l k" for l k
    by (rule plain_ctor_cong) (simp_all add: env_example_def registerType_def Let_def)
  ultimately have "create = plain_strategy_ctor env_example ''S'' k" if "(k, create) \<in> set (env_registry env_example)" for k create
    using that by metis
  then show ?thesis unfolding plain_registry_def by (auto intro!: exI[of _ "''S''"])
qed

theorem strategy_find_spec_witness:
  "map_option fst (strategy_find env_example [generic_comp ''s'']) =
     Some [generic_comp ''s'', generic_comp [CHR 0xFD, CHR 0x05]]"
proof -
  have v: "pin_version (parseInstanceName env_example [generic_comp ''s'']) = None"
    by (simp add: parseInstanceName_def)
  have le: "[generic_comp ''s'', generic_comp [CHR 0xFD, CHR 0x01]] \<le> [generic_comp ''s'', generic_comp [CHR 0xFD, CHR 0x05]]"
    by (simp add: less_eq_component_def less_component_def component_key_def less_eq_char_def less_char_def)
  have ne: "[generic_comp ''s''] \<noteq> []" by simp
  show ?thesis
    unfolding strategy_find_spec[OF env_example_props(1) name_successor_law[folded env_example_props(2)] ne]
    using le by (simp add: v env_example_props(3))
qed

end
