(* ===== verification/Strategy_Choice.thy ===== *)
theory Strategy_Choice
  imports Measurements Strategy_Registry
begin

text \<open>
  The Strategy Choice table (\<open>daemon/table/strategy-choice.cpp\<close>) and the filter that shows a
  strategy only the Measurements entries of its own namespace (\<open>measurements-accessor.cpp\<close>). The
  effective strategy of a name is that of the longest prefix with a Strategy Choice entry; the root
  always has one. When the effective strategy of a region changes its type, the strategy
  information stored in that region is discarded.
\<close>

section \<open>Operations\<close>

datatype InsertResult = SC_OK | SC_NOT_REGISTERED | SC_EXCEPTION string | SC_DEPTH_EXCEEDED

fun insertResult_ok :: "InsertResult \<Rightarrow> bool" where
  "insertResult_ok SC_OK = True"
| "insertResult_ok _ = False"

fun isRegistered :: "InsertResult \<Rightarrow> bool" where
  "isRegistered SC_OK = True"
| "isRegistered (SC_EXCEPTION m) = True"
| "isRegistered _ = False"

fun getStatusCode :: "InsertResult \<Rightarrow> nat" where
  "getStatusCode SC_OK = 200"
| "getStatusCode SC_NOT_REGISTERED = 404"
| "getStatusCode (SC_EXCEPTION m) = 409"
| "getStatusCode SC_DEPTH_EXCEEDED = 414"

definition nteHasStrategyChoiceEntry :: "'i nt_entry \<Rightarrow> bool" where
  "nteHasStrategyChoiceEntry nte \<longleftrightarrow> nte_sc nte \<noteq> None"

definition sc_match_result :: "'i nt_entry option \<Rightarrow> strategy option" where
  "sc_match_result nte = Option.bind (Option.bind nte nte_sc) sce_strategy"

definition sc_findEffectiveStrategy :: "(component \<Rightarrow> u64) \<Rightarrow> name \<Rightarrow> 'i tables \<Rightarrow> strategy option" where
  "sc_findEffectiveStrategy H p tb =
     sc_match_result (nt_findLongestPrefixMatch H p nteHasStrategyChoiceEntry (nameTree tb))"

definition sc_findEffectiveStrategy_pit ::
  "(component \<Rightarrow> u64) \<Rightarrow> 'i pit_entry \<Rightarrow> 'i tables \<Rightarrow> strategy option" where
  "sc_findEffectiveStrategy_pit H pe tb =
     sc_match_result (nt_findLongestPrefixMatch_pit H pe nteHasStrategyChoiceEntry (nameTree tb))"

definition sc_findEffectiveStrategy_meas :: "'i measurements_entry \<Rightarrow> 'i tables \<Rightarrow> strategy option" where
  "sc_findEffectiveStrategy_meas me tb =
     sc_match_result
       (case me_nameTreeEntry me of
          None \<Rightarrow> None
        | Some nte \<Rightarrow> nt_findLongestPrefixMatch_entry nte nteHasStrategyChoiceEntry (nameTree tb))"

definition sc_get :: "(component \<Rightarrow> u64) \<Rightarrow> name \<Rightarrow> 'i tables \<Rightarrow> bool \<times> name" where
  "sc_get H p tb =
     (case nt_findExactMatch H p (length p) (nameTree tb) of
        None \<Rightarrow> (False, [])
      | Some nte \<Rightarrow>
          (case nte_sc nte of
             None \<Rightarrow> (False, [])
           | Some entry \<Rightarrow> (True, case sce_strategy entry of None \<Rightarrow> [] | Some s \<Rightarrow> st_instanceName s)))"

text \<open>\<open>clearStrategyInfo\<close> on a name tree entry.\<close>

definition clear_pit_info :: "'i pit_entry \<Rightarrow> 'i pit_entry" where
  "clear_pit_info pe =
     pe\<lparr>pe_info := clearStrategyInfoHost (pe_info pe),
        pe_inRecords := map (fr_info_update clearStrategyInfoHost) (pe_inRecords pe),
        pe_outRecords := map (fr_info_update clearStrategyInfoHost) (pe_outRecords pe)\<rparr>"

definition clearStrategyInfo :: "'i nt_entry \<Rightarrow> 'i nt_entry" where
  "clearStrategyInfo nte =
     nte\<lparr>nte_pit := map clear_pit_info (nte_pit nte),
         nte_meas := map_option (me_info_update clearStrategyInfoHost) (nte_meas nte)\<rparr>"

definition change_selector :: "name \<Rightarrow> 'i nt_entry \<Rightarrow> bool \<times> bool" where
  "change_selector rootNte nte =
     (if nte_name nte = rootNte then (True, True)
      else if nte_sc nte \<noteq> None then (False, False)
      else (True, True))"

definition sc_changeStrategy ::
  "(component \<Rightarrow> u64) \<Rightarrow> strategy_env \<Rightarrow> name \<Rightarrow> strategy \<Rightarrow> strategy \<Rightarrow> 'i tables \<Rightarrow> 'i tables" where
  "sc_changeStrategy H env p oldStrategy newStrategy tb =
     (if areSameType env (st_instanceName oldStrategy) (st_instanceName newStrategy) then tb
      else tb\<lparr>nameTree := fold (\<lambda>n. ht_modify n clearStrategyInfo)
                 (partialEnumerate H p (change_selector p) (nameTree tb)) (nameTree tb)\<rparr>)"

text \<open>Writing through a reference to a Strategy Choice entry.\<close>

definition sc_modify :: "name \<Rightarrow> (strategy_choice_entry \<Rightarrow> strategy_choice_entry) \<Rightarrow> 'i tables \<Rightarrow> 'i tables" where
  "sc_modify n f tb = tb\<lparr>nameTree := ht_modify n (nte_sc_update (map_option f)) (nameTree tb)\<rparr>"

definition sc_setDefaultStrategy ::
  "(component \<Rightarrow> u64) \<Rightarrow> strategy_env \<Rightarrow> name \<Rightarrow> 'i tables \<Rightarrow> 'i tables option" where
  "sc_setDefaultStrategy H env strategyName tb =
     (case strategy_create env strategyName of
        Some (Inr s) \<Rightarrow>
          let entry = sce_setStrategy s (mk_strategy_choice_entry []);
              nt = snd (nt_lookup H [] 0 (nameTree tb))
          in Some (tb\<lparr>nameTree := ht_modify [] (setStrategyChoiceEntry (Some entry)) nt,
                      sc_nItems := sc_nItems tb + 1\<rparr>)
      | _ \<Rightarrow> None)"

definition sc_insert ::
  "(component \<Rightarrow> u64) \<Rightarrow> strategy_env \<Rightarrow> name \<Rightarrow> name \<Rightarrow> 'i tables \<Rightarrow> InsertResult \<times> 'i tables" where
  "sc_insert H env p strategyName tb =
     (if length p > getMaxDepth then (SC_DEPTH_EXCEEDED, tb)
      else (case strategy_create env strategyName of
              None \<Rightarrow> (SC_NOT_REGISTERED, tb)
            | Some (Inl what) \<Rightarrow> (SC_EXCEPTION what, tb)
            | Some (Inr strategy) \<Rightarrow>
                let nt = snd (nt_lookup H p (length p) (nameTree tb));
                    tb1 = tb\<lparr>nameTree := nt\<rparr>
                in (case sc_at tb1 p of
                      Some entry \<Rightarrow>
                        (case sce_strategy entry of
                           None \<Rightarrow> (SC_OK, tb1)
                         | Some oldStrategy \<Rightarrow>
                             if st_instanceName oldStrategy = st_instanceName strategy then (SC_OK, tb1)
                             else (SC_OK, sc_modify p (sce_setStrategy strategy)
                                    (sc_changeStrategy H env p oldStrategy strategy tb1)))
                    | None \<Rightarrow>
                        (case sc_findEffectiveStrategy H p tb1 of
                           None \<Rightarrow> (SC_OK, tb1)
                         | Some oldStrategy \<Rightarrow>
                             let tb2 = tb1\<lparr>nameTree := ht_modify p
                                     (setStrategyChoiceEntry (Some (mk_strategy_choice_entry p))) nt,
                                   sc_nItems := sc_nItems tb1 + 1\<rparr>
                             in (SC_OK, sc_modify p (sce_setStrategy strategy)
                                   (sc_changeStrategy H env p oldStrategy strategy tb2))))))"

definition sc_erase :: "(component \<Rightarrow> u64) \<Rightarrow> strategy_env \<Rightarrow> name \<Rightarrow> 'i tables \<Rightarrow> 'i tables" where
  "sc_erase H env p tb =
     (case nt_findExactMatch H p (length p) (nameTree tb) of
        None \<Rightarrow> tb
      | Some nte \<Rightarrow>
          (case nte_sc nte of
             None \<Rightarrow> tb
           | Some entry \<Rightarrow>
               (case (sce_strategy entry, sc_findEffectiveStrategy H (butlast p) tb) of
                  (Some oldStrategy, Some parentStrategy) \<Rightarrow>
                    let tb1 = sc_changeStrategy H env p oldStrategy parentStrategy tb;
                        nt2 = ht_modify p (setStrategyChoiceEntry None) (nameTree tb1)
                    in tb1\<lparr>nameTree := snd (eraseIfEmpty p True nt2), sc_nItems := sc_nItems tb1 - 1\<rparr>
                | _ \<Rightarrow> tb)))"

text \<open>\<open>MeasurementsAccessor::filter\<close>; strategies are compared by identity, here by instance.\<close>

definition measAccessor_filter ::
  "strategy \<Rightarrow> 'i measurements_entry option \<Rightarrow> 'i tables \<Rightarrow> 'i measurements_entry option" where
  "measAccessor_filter self entry tb =
     (case entry of
        None \<Rightarrow> None
      | Some e \<Rightarrow> if sc_findEffectiveStrategy_meas e tb = Some self then Some e else None)"

section \<open>Specification\<close>

definition sc_inv :: "'i tables \<Rightarrow> bool" where
  "sc_inv tb \<longleftrightarrow> sc_at tb [] \<noteq> None \<and> (\<forall>n e. sc_at tb n = Some e \<longrightarrow> sce_strategy e \<noteq> None)"

text \<open>The view of the table: the strategy chosen at each prefix.\<close>

definition sc_view :: "'i tables \<Rightarrow> name \<rightharpoonup> strategy" where
  "sc_view tb n = Option.bind (sc_at tb n) sce_strategy"

text \<open>The effective strategy: that of the longest prefix with a choice.\<close>

definition effective :: "(name \<rightharpoonup> strategy) \<Rightarrow> name \<Rightarrow> strategy option" where
  "effective V n = Option.bind (longest_match (\<lambda>q. V q \<noteq> None) n) V"

definition clear_slots :: "'i table_slots \<Rightarrow> 'i table_slots" where
  "clear_slots sl =
     (fst sl, map clear_pit_info (fst (snd sl)),
      map_option (me_info_update clearStrategyInfoHost) (fst (snd (snd sl))), snd (snd (snd sl)))"

section \<open>Looking up the effective strategy\<close>

lemma sc_view_dom: "sc_inv tb \<Longrightarrow> sc_view tb n \<noteq> None \<longleftrightarrow> sc_at tb n \<noteq> None"
  by (cases "sc_at tb n") (auto simp: sc_view_def sc_inv_def)

lemma sc_match_result_lpm:
  assumes inv: "sc_inv tb" and lpm: "is_lpm (ht_map (nameTree tb)) nteHasStrategyChoiceEntry n r"
  shows "sc_match_result r = effective (sc_view tb) n"
proof -
  let ?M = "ht_map (nameTree tb)" and ?P = "\<lambda>q. sc_view tb q \<noteq> None"
  have P: "?P q \<longleftrightarrow> (\<exists>e. ?M q = Some e \<and> nteHasStrategyChoiceEntry e)" for q
    unfolding sc_view_dom[OF inv]
    by (simp add: map_slots_def nteHasStrategyChoiceEntry_def no_slots_def nte_slots_def split: option.splits)
  have r: "r = (case longest_match ?P n of None \<Rightarrow> None | Some q \<Rightarrow> ?M q)"
    by (rule is_lpm_longest_match[OF lpm P])
  show ?thesis
  proof (cases "longest_match ?P n")
    case (Some q)
    then have "?P q" by (simp add: longest_match_Some_iff)
    then obtain e where "?M q = Some e" using P by blast
    moreover have "effective (sc_view tb) n = sc_view tb q"
      unfolding effective_def Some by simp
    moreover have "r = ?M q" unfolding r Some by simp
    ultimately show ?thesis
      by (simp add: sc_match_result_def sc_view_def[of tb q] map_slots_def nte_slots_def)
  next
    case None
    then have "r = None" "effective (sc_view tb) n = None" unfolding r effective_def None by simp_all
    then show ?thesis by (simp add: sc_match_result_def)
  qed
qed

lemma sc_effective_name:
  "tables_ok H tb \<Longrightarrow> sc_inv tb \<Longrightarrow> sc_findEffectiveStrategy H n tb = effective (sc_view tb) n"
  unfolding sc_findEffectiveStrategy_def
  by (rule sc_match_result_lpm) (simp_all add: nt_findLongestPrefixMatch_lpm tables_okD(1))

lemma sc_effective_pit:
  assumes "tables_ok H tb" and "sc_inv tb" and "pe \<in> set (pit_at tb q)"
  shows "sc_findEffectiveStrategy_pit H pe tb = effective (sc_view tb) (pe_name pe)"
  unfolding sc_findEffectiveStrategy_pit_def
proof (rule sc_match_result_lpm[OF assms(2)], rule nt_findLongestPrefixMatch_pit_lpm[OF tables_okD(1)[OF assms(1)]])
  show "pe_nameTreeEntry pe = Some q" by (rule pit_slotD(1)[OF assms(1,3)])
  show "q \<in> dom (ht_map (nameTree tb))" by (rule slot_present(2)[OF assms(3)])
  show "prefix q (pe_name pe)"
    using pit_slotD(2)[OF assms(1,3)] take_is_prefix by (force simp: pit_nte_def interest_key_def)
qed

lemma sc_effective_meas:
  assumes "tables_ok H tb" and "sc_inv tb" and "meas_at tb q = Some me"
  shows "sc_findEffectiveStrategy_meas me tb = effective (sc_view tb) (me_name me)"
proof -
  have me: "me_name me = q" "me_nameTreeEntry me = Some q"
    using tables_okD(7)[OF assms(1), of q] assms(3) by (auto simp: meas_slot_ok_def)
  show ?thesis
    unfolding sc_findEffectiveStrategy_meas_def me
    using sc_match_result_lpm[OF assms(2) nt_findLongestPrefixMatch_entry_lpm[OF tables_okD(1)[OF assms(1)]
        slot_present(3)[OF assms(3)]]] by simp
qed

lemma effective_total: "sc_inv tb \<Longrightarrow> effective (sc_view tb) n \<noteq> None"
proof -
  assume inv: "sc_inv tb"
  have "sc_view tb [] \<noteq> None" using inv sc_view_dom[OF inv, of "[]"] by (simp add: sc_inv_def)
  then obtain q where q: "longest_match (\<lambda>q. sc_view tb q \<noteq> None) n = Some q"
    using longest_match_None_iff[of "\<lambda>q. sc_view tb q \<noteq> None" n] by fastforce
  then have "sc_view tb q \<noteq> None" unfolding longest_match_Some_iff by blast
  then show ?thesis unfolding effective_def q by simp
qed

section \<open>Changing the strategy of a region\<close>

lemma clearStrategyInfo_write [simp]: "slot_write clearStrategyInfo"
  by (simp add: slot_write_def slot_effect_def entry_of_slots_def nte_slots_def clearStrategyInfo_def)

lemma clearStrategyInfo_effect [simp]: "slot_effect clearStrategyInfo n sl = clear_slots sl"
  by (simp add: slot_effect_def entry_of_slots_def nte_slots_def clearStrategyInfo_def clear_slots_def)

lemma clear_pit_info_simps [simp]:
  "pe_interest (clear_pit_info pe) = pe_interest pe" "pe_nameTreeEntry (clear_pit_info pe) = pe_nameTreeEntry pe"
  "pit_entry_ok (clear_pit_info pe) = pit_entry_ok pe"
  by (simp_all add: clear_pit_info_def pit_entry_ok_def comp_def)

lemma slots_ok_clear: "slots_ok n sl \<Longrightarrow> slots_ok n (clear_slots sl)"
  by (auto simp: slots_ok_def clear_slots_def pit_slot_ok_def meas_slot_ok_def comp_def split_beta
      split: option.splits)

lemma cnt_clear [simp]:
  "cnt_fib (clear_slots sl) = cnt_fib sl" "cnt_pit (clear_slots sl) = cnt_pit sl"
  "cnt_meas (clear_slots sl) = cnt_meas sl" "cnt_sc (clear_slots sl) = cnt_sc sl"
  by (simp_all add: cnt_defs clear_slots_def)

lemma clear_fold:
  "tables_ok H tb \<Longrightarrow> distinct qs \<Longrightarrow> set qs \<subseteq> names tb \<Longrightarrow>
   tables_ok H (tb\<lparr>nameTree := fold (\<lambda>n. ht_modify n clearStrategyInfo) qs (nameTree tb)\<rparr>) \<and>
   nt_slots (fold (\<lambda>n. ht_modify n clearStrategyInfo) qs (nameTree tb)) =
     (\<lambda>q. if q \<in> set qs then clear_slots (nt_slots (nameTree tb) q) else nt_slots (nameTree tb) q) \<and>
   dom (ht_map (fold (\<lambda>n. ht_modify n clearStrategyInfo) qs (nameTree tb))) = dom (ht_map (nameTree tb))"
proof (induction qs arbitrary: tb)
  case (Cons n qs)
  let ?tb1 = "tb\<lparr>nameTree := ht_modify n clearStrategyInfo (nameTree tb)\<rparr>"
  have n: "n \<in> dom (ht_map (nameTree tb))" using Cons.prems(3) by (simp add: names_def)
  have ok1: "tables_ok H ?tb1"
    by (rule tables_ok_write[OF Cons.prems(1), of clearStrategyInfo n])
      (simp_all add: n slots_ok_clear tables_okD(4)[OF Cons.prems(1)])
  have "set qs \<subseteq> names ?tb1" using Cons.prems(3) by (simp add: names_def ht_modify_dom)
  then show ?case
    using Cons.IH[OF ok1] Cons.prems(2) ht_modify_slots[OF clearStrategyInfo_write n]
    by (auto simp: fun_eq_iff ht_modify_dom)
qed simp

lemma change_selector_region:
  assumes tb: "tables_ok H tb" and p: "sc_at tb p \<noteq> None"
  shows "set (partialEnumerate H p (change_selector p) (nameTree tb)) =
    {q \<in> names tb. longest_match (\<lambda>q. sc_at tb q \<noteq> None) q = Some p}"
proof -
  let ?nt = "nameTree tb" and ?S = "change_selector p"
  have inv: "nt_inv H ?nt" by (rule tables_okD(1)[OF tb])
  have t: "tree_ok (ht_map ?nt)" by (rule tables_okD(3)[OF tb])
  have pd: "p \<in> dom (ht_map ?nt)" using p slot_present(4) by blast
  have sel: "sel_at ?S ?nt q = (if q = p \<or> sc_at tb q = None then (True, True) else (False, False))"
    if q: "q \<in> dom (ht_map ?nt)" for q
  proof -
    obtain e where e: "ht_map ?nt q = Some e" using q by auto
    then show ?thesis
      by (simp add: sel_at_def change_selector_def ht_map_name[OF e] map_slots_def nte_slots_def)
  qed
  have "set (partialEnumerate H p ?S ?nt) = {q. wanted ?S ?nt p q}"
    using partialEnumerate_preorder[OF inv] preorder_props[OF inv pd] pd by simp
  also have "\<dots> = {q \<in> names tb. longest_match (\<lambda>q. sc_at tb q \<noteq> None) q = Some p}"
  proof (intro set_eqI iffI CollectI; elim CollectE)
    fix q assume w: "wanted ?S ?nt p q"
    then have q: "q \<in> dom (ht_map ?nt)" "prefix p q" "fst (sel_at ?S ?nt q)"
      "\<And>r. prefix p r \<Longrightarrow> strict_prefix r q \<Longrightarrow> snd (sel_at ?S ?nt r)" by (auto simp: wanted_def)
    have "length r \<le> length p" if r: "prefix r q" "sc_at tb r \<noteq> None" for r
    proof (rule ccontr)
      assume "\<not> length r \<le> length p"
      then have pr: "strict_prefix p r" using q(2) r(1) prefix_length_prefix[of p q r] by (auto simp: strict_prefix_def)
      have rd: "r \<in> dom (ht_map ?nt)" using r(2) slot_present(4) by blast
      then have "sel_at ?S ?nt r = (False, False)" using sel[OF rd] r(2) pr by (auto simp: strict_prefix_def)
      then show False using q(3) q(4)[of r] pr r(1) by (cases "r = q") (auto simp: strict_prefix_def)
    qed
    then show "q \<in> names tb \<and> longest_match (\<lambda>q. sc_at tb q \<noteq> None) q = Some p"
      using q(1,2) p by (auto simp: longest_match_Some_iff names_def)
  next
    fix q assume a: "q \<in> names tb \<and> longest_match (\<lambda>q. sc_at tb q \<noteq> None) q = Some p"
    then have q: "q \<in> dom (ht_map ?nt)" "prefix p q"
      and mx: "\<And>r. prefix r q \<Longrightarrow> sc_at tb r \<noteq> None \<Longrightarrow> length r \<le> length p"
      by (auto simp: longest_match_Some_iff names_def)
    have "sel_at ?S ?nt r = (True, True)" if r: "prefix p r" "prefix r q" for r
    proof -
      have "r \<in> dom (ht_map ?nt)" by (rule tree_prefix_closed[OF t q(1) r(2)])
      moreover have "r = p \<or> sc_at tb r = None"
        using mx[OF r(2)] r(1) prefix_length_le[OF r(1)] by (auto simp: prefix_def)
      ultimately show ?thesis using sel by simp
    qed
    then show "wanted ?S ?nt p q" using q by (auto simp: wanted_def strict_prefix_def)
  qed
  finally show ?thesis .
qed

lemma sc_changeStrategy_props:
  assumes tb: "tables_ok H tb" and p: "sc_at tb p \<noteq> None"
  shows "tables_ok H (sc_changeStrategy H env p old new tb)"
    and "nt_slots (nameTree (sc_changeStrategy H env p old new tb)) =
      (\<lambda>q. if \<not> areSameType env (st_instanceName old) (st_instanceName new) \<and> q \<in> names tb \<and>
               longest_match (\<lambda>q. sc_at tb q \<noteq> None) q = Some p
           then clear_slots (nt_slots (nameTree tb) q) else nt_slots (nameTree tb) q)"
    and "names (sc_changeStrategy H env p old new tb) = names tb"
proof -
  let ?qs = "partialEnumerate H p (change_selector p) (nameTree tb)"
  have pd: "p \<in> dom (ht_map (nameTree tb))" using p slot_present(4) by blast
  note region = change_selector_region[OF tb p]
  have "distinct ?qs"
    using partialEnumerate_preorder[OF tables_okD(1)[OF tb]] preorder_props[OF tables_okD(1)[OF tb] pd] pd by simp
  moreover have "set ?qs \<subseteq> names tb" using region by blast
  ultimately have cf: "tables_ok H (tb\<lparr>nameTree := fold (\<lambda>n. ht_modify n clearStrategyInfo) ?qs (nameTree tb)\<rparr>)"
      "nt_slots (fold (\<lambda>n. ht_modify n clearStrategyInfo) ?qs (nameTree tb)) =
        (\<lambda>q. if q \<in> set ?qs then clear_slots (nt_slots (nameTree tb) q) else nt_slots (nameTree tb) q)"
      "dom (ht_map (fold (\<lambda>n. ht_modify n clearStrategyInfo) ?qs (nameTree tb))) = dom (ht_map (nameTree tb))"
    using clear_fold[OF tb] by blast+
  show "tables_ok H (sc_changeStrategy H env p old new tb)"
    using tb cf(1) by (simp add: sc_changeStrategy_def)
  show "nt_slots (nameTree (sc_changeStrategy H env p old new tb)) =
      (\<lambda>q. if \<not> areSameType env (st_instanceName old) (st_instanceName new) \<and> q \<in> names tb \<and>
               longest_match (\<lambda>q. sc_at tb q \<noteq> None) q = Some p
           then clear_slots (nt_slots (nameTree tb) q) else nt_slots (nameTree tb) q)"
    using cf(2) region by (auto simp: sc_changeStrategy_def fun_eq_iff)
  show "names (sc_changeStrategy H env p old new tb) = names tb"
    using cf(3) by (simp add: sc_changeStrategy_def names_def)
qed


section \<open>How the effective strategy changes\<close>

lemma longest_match_cong_pred:
  assumes "\<And>q. prefix q n \<Longrightarrow> P q \<longleftrightarrow> Q q"
  shows "longest_match P n = longest_match Q n"
proof -
  have "longest_match P n = Some q \<longleftrightarrow> longest_match Q n = Some q" for q
    unfolding longest_match_Some_iff using assms by blast
  then show ?thesis by (rule option_eqI)
qed

lemma longest_match_eqI:
  assumes "prefix q n" and "P q" and "\<And>q'. prefix q' n \<Longrightarrow> P q' \<Longrightarrow> length q' \<le> length q"
  shows "longest_match P n = Some q"
  using assms by (simp add: longest_match_Some_iff)

lemma effective_update_outside:
  assumes "longest_match (\<lambda>q. (V(p \<mapsto> s)) q \<noteq> None) n \<noteq> Some p"
  shows "effective (V(p \<mapsto> s)) n = effective V n"
proof -
  let ?V = "V(p \<mapsto> s)"
  have "longest_match (\<lambda>q. ?V q \<noteq> None) n = longest_match (\<lambda>q. V q \<noteq> None) n"
  proof (cases "prefix p n")
    case False
    then show ?thesis by (intro longest_match_cong_pred) auto
  next
    case True
    then obtain q where q: "longest_match (\<lambda>q. ?V q \<noteq> None) n = Some q"
      using longest_match_None_iff[of "\<lambda>q. ?V q \<noteq> None" n] by fastforce
    then have "q \<noteq> p" using assms by auto
    then have "longest_match (\<lambda>q. V q \<noteq> None) n = Some q"
      using q unfolding longest_match_Some_iff by (auto split: if_splits)
    then show ?thesis using q by simp
  qed
  moreover have "?V q = V q" if "longest_match (\<lambda>q. ?V q \<noteq> None) n = Some q" for q
    using that assms by auto
  ultimately show ?thesis
    unfolding effective_def by (cases "longest_match (\<lambda>q. V q \<noteq> None) n") auto
qed

lemma effective_update_region:
  assumes "longest_match (\<lambda>q. (V(p \<mapsto> s)) q \<noteq> None) n = Some p"
  shows "effective (V(p \<mapsto> s)) n = Some s" and "effective V n = effective V p"
proof -
  have p: "prefix p n" and mx: "\<And>q. prefix q n \<Longrightarrow> V q \<noteq> None \<Longrightarrow> length q \<le> length p"
    using assms by (auto simp: longest_match_Some_iff)
  show "effective (V(p \<mapsto> s)) n = Some s" unfolding effective_def assms by simp
  have "prefix q p \<longleftrightarrow> prefix q n" if "V q \<noteq> None" for q
    using mx[of q] that p prefix_length_prefix[of q n p] prefix_order.trans[of q p n] by blast
  then have "longest_match (\<lambda>q. V q \<noteq> None) p = longest_match (\<lambda>q. V q \<noteq> None) n"
    by (intro longest_match_cong)
  then show "effective V n = effective V p" by (simp only: effective_def)
qed

lemma effective_delete:
  assumes "V p \<noteq> None" and "p \<noteq> []"
  shows "effective (V(p := None)) n =
    (if longest_match (\<lambda>q. V q \<noteq> None) n = Some p then effective V (butlast p) else effective V n)"
proof -
  obtain s where s: "V p = Some s" using assms(1) by auto
  let ?V = "V(p := None)"
  have V: "V = ?V(p \<mapsto> s)" using s by auto
  show ?thesis
  proof (cases "longest_match (\<lambda>q. V q \<noteq> None) n = Some p")
    case True
    have a: "effective ?V n = effective ?V p"
      by (rule effective_update_region(2)[of ?V p s]) (use True V in simp)
    have b: "prefix q p \<longleftrightarrow> prefix q (butlast p)" if "?V q \<noteq> None" for q
      using that prefix_butlast[of q p] prefix_butlast_trans[of q p] by (auto split: if_splits)
    have "effective ?V p = effective ?V (butlast p)"
      unfolding effective_def using longest_match_cong[of "\<lambda>q. ?V q \<noteq> None" p "butlast p"] b by simp
    also have "\<dots> = effective (?V(p \<mapsto> s)) (butlast p)"
    proof (rule effective_update_outside[symmetric])
      have "length (butlast p) < length p" using assms(2) by simp
      then show "longest_match (\<lambda>q. (?V(p \<mapsto> s)) q \<noteq> None) (butlast p) \<noteq> Some p"
        using prefix_length_le[of p "butlast p"] by (auto simp: longest_match_Some_iff)
    qed
    finally show ?thesis using True a V by simp
  next
    case False
    have "effective (?V(p \<mapsto> s)) n = effective ?V n"
      by (rule effective_update_outside) (use False V in metis)
    then show ?thesis unfolding V[symmetric] using False by (simp only: if_False)
  qed
qed


section \<open>Effect of the operations\<close>

lemma slot_effect_sc:
  "slot_effect (setStrategyChoiceEntry sce) n sl =
     (fst sl, fst (snd sl), fst (snd (snd sl)), map_option (sce_nameTreeEntry_update (\<lambda>_. Some n)) sce)"
  "slot_effect (nte_sc_update g) n sl = (fst sl, fst (snd sl), fst (snd (snd sl)), g (snd (snd (snd sl))))"
  by (cases sl, simp)+

definition set_sc_slot :: "name \<Rightarrow> strategy_choice_entry option \<Rightarrow> (name \<Rightarrow> 'i table_slots) \<Rightarrow> name \<Rightarrow> 'i table_slots" where
  "set_sc_slot n v S = S(n := (fst (S n), fst (snd (S n)), fst (snd (snd (S n))), v))"

lemma set_sc_slot_simps [simp]:
  "fst (set_sc_slot n v S q) = fst (S q)"
  "fst (snd (set_sc_slot n v S q)) = fst (snd (S q))"
  "fst (snd (snd (set_sc_slot n v S q))) = fst (snd (snd (S q)))"
  "snd (snd (snd (set_sc_slot n v S q))) = (if q = n then v else snd (snd (snd (S q))))"
  by (simp_all add: set_sc_slot_def)

lemma slots_ok_set_sc:
  "slots_ok n sl \<Longrightarrow> sc_slot_ok n v \<Longrightarrow> slots_ok n (fst sl, fst (snd sl), fst (snd (snd sl)), v)"
  by (auto simp: slots_ok_def split_beta)

lemma clear_slots_simps [simp]:
  "fst (clear_slots sl) = fst sl" "fst (snd (clear_slots sl)) = map clear_pit_info (fst (snd sl))"
  "fst (snd (snd (clear_slots sl))) = map_option (me_info_update clearStrategyInfoHost) (fst (snd (snd sl)))"
  "snd (snd (snd (clear_slots sl))) = snd (snd (snd sl))"
  by (simp_all add: clear_slots_def)

lemma sc_slotD:
  "tables_ok H tb \<Longrightarrow> sc_at tb n = Some e \<Longrightarrow> sce_prefix e = n \<and> sce_nameTreeEntry e = Some n"
  using tables_okD(8)[of H tb n] by (simp add: sc_slot_ok_def)

lemma sc_modify_props:
  assumes tb: "tables_ok H tb" and e: "sc_at tb p = Some e"
  shows "nt_slots (nameTree (sc_modify p (sce_setStrategy s) tb)) =
      set_sc_slot p (Some (sce_setStrategy s e)) (nt_slots (nameTree tb))"
    and "tables_ok H (sc_modify p (sce_setStrategy s) tb)"
    and "names (sc_modify p (sce_setStrategy s) tb) = names tb"
proof -
  note pr = slot_present(4)[OF e]
  show "nt_slots (nameTree (sc_modify p (sce_setStrategy s) tb)) =
      set_sc_slot p (Some (sce_setStrategy s e)) (nt_slots (nameTree tb))"
    by (simp add: sc_modify_def ht_modify_slots pr slot_effect_sc set_sc_slot_def e)
  have "sc_slot_ok p (Some (sce_setStrategy s e))"
    using sc_slotD[OF tb e] by (simp add: sc_slot_ok_def sce_setStrategy_def)
  then show "tables_ok H (sc_modify p (sce_setStrategy s) tb)"
    by (intro tables_ok_write[OF tb, of "nte_sc_update (map_option (sce_setStrategy s))" p])
      (simp_all add: pr sc_modify_def slot_effect_sc e cnt_defs slots_ok_set_sc[OF tables_okD(4)[OF tb]])
  show "names (sc_modify p (sce_setStrategy s) tb) = names tb"
    by (simp add: sc_modify_def names_def ht_modify_dom)
qed

text \<open>The part of the tables that changes when the strategies in a region are switched.\<close>

definition info_cleared :: "(name \<Rightarrow> bool) \<Rightarrow> 'i tables \<Rightarrow> 'i tables \<Rightarrow> bool" where
  "info_cleared R tb tb' \<longleftrightarrow>
     (\<forall>q. fib_at tb' q = fib_at tb q \<and>
        pit_at tb' q = (if R q then map clear_pit_info (pit_at tb q) else pit_at tb q) \<and>
        meas_at tb' q = (if R q then map_option (me_info_update clearStrategyInfoHost) (meas_at tb q) else meas_at tb q))"

lemma sc_switch:
  fixes s old :: strategy and env :: strategy_env
  assumes tb: "tables_ok H tb" and e: "sc_at tb p = Some e"
  defines "tb' \<equiv> sc_modify p (sce_setStrategy s) (sc_changeStrategy H env p old s tb)"
  shows "tables_ok H tb'" and "names tb' = names tb"
    and "sc_at tb' n = (if n = p then Some (sce_setStrategy s e) else sc_at tb n)"
    and "info_cleared (\<lambda>q. \<not> areSameType env (st_instanceName old) (st_instanceName s) \<and>
          longest_match (\<lambda>q. sc_at tb q \<noteq> None) q = Some p) tb tb'"
proof -
  have pn: "sc_at tb p \<noteq> None" using e by simp
  note ch = sc_changeStrategy_props[OF tb pn, of env old s]
  have e1: "sc_at (sc_changeStrategy H env p old s tb) p = Some e" using e by (simp add: ch(2))
  note md = sc_modify_props[OF ch(1) e1, of s]
  show "tables_ok H tb'" unfolding tb'_def by (rule md(2))
  show "names tb' = names tb" unfolding tb'_def using md(3) ch(3) by simp
  show "sc_at tb' n = (if n = p then Some (sce_setStrategy s e) else sc_at tb n)"
    unfolding tb'_def md(1) ch(2) by simp
  have "pit_at tb q = []" "meas_at tb q = None" if "q \<notin> names tb" for q
    using that by (simp_all add: names_def map_slots_def domIff no_slots_def)
  then show "info_cleared (\<lambda>q. \<not> areSameType env (st_instanceName old) (st_instanceName s) \<and>
          longest_match (\<lambda>q. sc_at tb q \<noteq> None) q = Some p) tb tb'"
    unfolding info_cleared_def tb'_def md(1) ch(2) by auto
qed

lemma lookup_same_view:
  assumes "tables_ok H tb" and "length p \<le> getMaxDepth"
  defines "tb1 \<equiv> tb\<lparr>nameTree := snd (nt_lookup H p (length p) (nameTree tb))\<rparr>"
  shows "tables_ok H tb1" and "nt_slots (nameTree tb1) = nt_slots (nameTree tb)"
    and "p \<in> dom (ht_map (nameTree tb1))" and "names tb1 = names tb \<union> {q. prefix q p}"
  using nt_lookup_props[OF tables_okD(1)[OF assms(1)] order.refl assms(2)]
    tables_ok_lookup[OF assms(1) order.refl assms(2)]
  by (simp_all add: tb1_def names_def)

lemma sc_inv_cong: "(\<And>n. sc_at tb' n = sc_at tb n) \<Longrightarrow> sc_inv tb' = sc_inv tb"
  by (simp add: sc_inv_def)

lemma areSameType_refl [simp]: "areSameType env a a"
  by (simp add: areSameType_def)

lemma sc_get_view:
  "tables_ok H tb \<Longrightarrow> sc_view tb p = Some s \<Longrightarrow> sc_get H p tb = (True, st_instanceName s)"
  by (auto simp: sc_get_def sc_view_def nt_findExactMatch_map tables_okD(1) map_slots_def no_slots_def nte_slots_def
      Option.bind_eq_Some_conv split: option.splits)

lemma sc_at_none_iff: "sc_inv tb \<Longrightarrow> sc_at tb q = None \<longleftrightarrow> sc_view tb q = None"
  using sc_view_dom by blast

lemma strategy_eqI: "st_instanceName s = st_instanceName t \<Longrightarrow> s = (t :: strategy)"
  by simp

lemma info_cleared_cong: "(\<And>q. R q = R' q) \<Longrightarrow> info_cleared R tb tb' = info_cleared R' tb tb'"
  by (simp add: info_cleared_def)

text \<open>Where the type of the effective strategy differs between two tables.\<close>

definition type_changed :: "strategy_env \<Rightarrow> (name \<rightharpoonup> strategy) \<Rightarrow> (name \<rightharpoonup> strategy) \<Rightarrow> name \<Rightarrow> bool" where
  "type_changed env V V' q \<longleftrightarrow>
     (case (effective V q, effective V' q) of
        (Some old, Some new) \<Rightarrow> \<not> areSameType env (st_instanceName old) (st_instanceName new)
      | _ \<Rightarrow> False)"

lemma sc_insert_props:
  assumes tb: "tables_ok H tb" and inv: "sc_inv tb" and d: "length p \<le> getMaxDepth"
    and cr: "strategy_create env sname = Some (Inr s)"
  shows "fst (sc_insert H env p sname tb) = SC_OK"
    and "tables_ok H (snd (sc_insert H env p sname tb))"
    and "sc_inv (snd (sc_insert H env p sname tb))"
    and "sc_view (snd (sc_insert H env p sname tb)) = (sc_view tb)(p \<mapsto> s)"
    and "info_cleared (type_changed env (sc_view tb) ((sc_view tb)(p \<mapsto> s))) tb (snd (sc_insert H env p sname tb))"
proof -
  let ?nt = "snd (nt_lookup H p (length p) (nameTree tb))"
  let ?tb1 = "tb\<lparr>nameTree := ?nt\<rparr>" and ?V = "sc_view tb"
  note lk = lookup_same_view[OF tb d]
  have inv1: "sc_inv ?tb1" using inv lk(2) by (simp add: sc_inv_def)
  have V1: "sc_view ?tb1 = ?V" using lk(2) by (simp add: sc_view_def fun_eq_iff)
  let ?r = "sc_insert H env p sname tb"
  have nd: "\<not> getMaxDepth < length p" using d by simp
  have def: "?r = (case sc_at ?tb1 p of
      Some entry \<Rightarrow>
        (case sce_strategy entry of
           None \<Rightarrow> (SC_OK, ?tb1)
         | Some old \<Rightarrow> if st_instanceName old = st_instanceName s then (SC_OK, ?tb1)
             else (SC_OK, sc_modify p (sce_setStrategy s) (sc_changeStrategy H env p old s ?tb1)))
    | None \<Rightarrow>
        (case sc_findEffectiveStrategy H p ?tb1 of
           None \<Rightarrow> (SC_OK, ?tb1)
         | Some old \<Rightarrow> (SC_OK, sc_modify p (sce_setStrategy s) (sc_changeStrategy H env p old s
             (?tb1\<lparr>nameTree := ht_modify p (setStrategyChoiceEntry (Some (mk_strategy_choice_entry p))) ?nt,
                   sc_nItems := sc_nItems ?tb1 + 1\<rparr>)))))"
    unfolding sc_insert_def if_not_P[OF nd] cr Let_def option.case sum.case ..
  have main: "\<exists>tb2 e old. tables_ok H tb2 \<and> sc_at tb2 p = Some e \<and> (\<forall>q. fib_at tb2 q = fib_at tb q \<and>
      pit_at tb2 q = pit_at tb q \<and> meas_at tb2 q = meas_at tb q) \<and> (\<forall>q. q \<noteq> p \<longrightarrow> sc_at tb2 q = sc_at tb q) \<and>
      effective ?V p = Some old \<and>
      ?r = (SC_OK, sc_modify p (sce_setStrategy s) (sc_changeStrategy H env p old s tb2))"
    if "?V p \<noteq> Some s"
  proof (cases "sc_at tb p")
    case (Some entry)
    then obtain old where old: "sce_strategy entry = Some old" using inv by (auto simp: sc_inv_def)
    then have vp: "?V p = Some old" by (simp add: sc_view_def Some)
    have "st_instanceName old \<noteq> st_instanceName s" using that vp strategy_eqI by blast
    then have r: "?r = (SC_OK, sc_modify p (sce_setStrategy s) (sc_changeStrategy H env p old s ?tb1))"
      unfolding def using Some old lk(2) by simp
    have "longest_match (\<lambda>q. ?V q \<noteq> None) p = Some p"
      by (rule longest_match_eqI) (simp_all add: vp prefix_length_le)
    then have "effective ?V p = Some old" unfolding effective_def by (simp add: vp)
    then show ?thesis
      using lk(1,2) Some r by (intro exI[of _ ?tb1] exI[of _ entry] exI[of _ old]) simp
  next
    case None
    obtain old where old: "effective ?V p = Some old" using effective_total[OF inv, of p] by auto
    have ef: "sc_findEffectiveStrategy H p ?tb1 = Some old"
      using sc_effective_name[OF lk(1) inv1, of p] V1 old by simp
    let ?f = "setStrategyChoiceEntry (Some (mk_strategy_choice_entry p)) :: 'a nt_entry \<Rightarrow> 'a nt_entry"
    let ?tb2 = "?tb1\<lparr>nameTree := ht_modify p ?f ?nt, sc_nItems := sc_nItems ?tb1 + 1\<rparr>"
    let ?e = "(mk_strategy_choice_entry p)\<lparr>sce_nameTreeEntry := Some p\<rparr>"
    have pr: "p \<in> dom (ht_map ?nt)" using lk(3) by simp
    have s2: "nt_slots (nameTree ?tb2) = set_sc_slot p (Some ?e) (nt_slots (nameTree tb))"
      using lk(2) by (simp add: ht_modify_slots pr slot_effect_sc set_sc_slot_def)
    have "sc_slot_ok p (Some ?e)" by (simp add: sc_slot_ok_def mk_strategy_choice_entry_def)
    then have "tables_ok H ?tb2"
      by (intro tables_ok_write[OF lk(1), of ?f p])
        (use lk(2) in \<open>simp_all add: pr slot_effect_sc None cnt_defs slots_ok_set_sc[OF tables_okD(4)[OF tb]]\<close>)
    moreover have "?r = (SC_OK, sc_modify p (sce_setStrategy s) (sc_changeStrategy H env p old s ?tb2))"
      unfolding def using None lk(2) ef by simp
    ultimately show ?thesis
      using old s2 by (intro exI[of _ ?tb2] exI[of _ ?e] exI[of _ old]) simp
  qed
  have goal: "fst ?r = SC_OK \<and> tables_ok H (snd ?r) \<and> sc_inv (snd ?r) \<and> sc_view (snd ?r) = ?V(p \<mapsto> s) \<and>
      info_cleared (type_changed env ?V (?V(p \<mapsto> s))) tb (snd ?r)"
  proof (cases "?V p = Some s")
    case True
    then obtain entry where en: "sc_at tb p = Some entry" "sce_strategy entry = Some s"
      by (auto simp: sc_view_def bind_eq_Some_conv)
    then have r: "?r = (SC_OK, ?tb1)" unfolding def using lk(2) by simp
    have "?V(p \<mapsto> s) = ?V" using True by auto
    then have "\<not> type_changed env ?V (?V(p \<mapsto> s)) q" for q
      by (simp add: type_changed_def split: option.splits)
    then show ?thesis using r lk(1,2) inv1 V1 True by (simp add: info_cleared_def fun_upd_idem)
  next
    case False
    then obtain tb2 e old where t2: "tables_ok H tb2" "sc_at tb2 p = Some e"
      and same: "\<And>q. fib_at tb2 q = fib_at tb q" "\<And>q. pit_at tb2 q = pit_at tb q" "\<And>q. meas_at tb2 q = meas_at tb q"
      and scs: "\<And>q. q \<noteq> p \<Longrightarrow> sc_at tb2 q = sc_at tb q" and old: "effective ?V p = Some old"
      and r: "?r = (SC_OK, sc_modify p (sce_setStrategy s) (sc_changeStrategy H env p old s tb2))"
      using main by blast
    note sw = sc_switch[OF t2, where s = s and env = env and old = old]
    have sc': "sc_at (snd ?r) n = (if n = p then Some (sce_setStrategy s e) else sc_at tb n)" for n
      using sw(3)[of n] scs r by simp
    have view: "sc_view (snd ?r) = ?V(p \<mapsto> s)"
      using sc' by (auto simp: sc_view_def fun_eq_iff sce_setStrategy_def)
    have inv': "sc_inv (snd ?r)"
      using inv sc' by (auto simp: sc_inv_def sce_setStrategy_def split: if_splits)
    have lm: "longest_match (\<lambda>q. sc_at tb2 q \<noteq> None) q = longest_match (\<lambda>q. (?V(p \<mapsto> s)) q \<noteq> None) q" for q
      by (rule longest_match_cong_pred)
        (use scs t2(2) in \<open>simp add: sc_at_none_iff[OF inv] del: not_None_eq\<close>)
    have req: "(\<not> areSameType env (st_instanceName old) (st_instanceName s) \<and>
          longest_match (\<lambda>q. sc_at tb2 q \<noteq> None) q = Some p) = type_changed env ?V (?V(p \<mapsto> s)) q" for q
    proof (cases "longest_match (\<lambda>q. (?V(p \<mapsto> s)) q \<noteq> None) q = Some p")
      case True
      then show ?thesis
        using effective_update_region[OF True] old unfolding lm by (simp add: type_changed_def)
    next
      case False
      then show ?thesis
        using effective_update_outside[OF False] unfolding lm by (auto simp: type_changed_def split: option.splits)
    qed
    have "info_cleared (type_changed env ?V (?V(p \<mapsto> s))) tb2 (snd ?r)"
      unfolding r snd_conv by (rule info_cleared_cong[THEN iffD1, OF req sw(4)])
    then have "info_cleared (type_changed env ?V (?V(p \<mapsto> s))) tb (snd ?r)"
      using same by (simp add: info_cleared_def)
    then show ?thesis using sw(1) r inv' view by simp
  qed
  show "fst ?r = SC_OK" "tables_ok H (snd ?r)" "sc_inv (snd ?r)" "sc_view (snd ?r) = ?V(p \<mapsto> s)"
    "info_cleared (type_changed env ?V (?V(p \<mapsto> s))) tb (snd ?r)"
    using goal by blast+
qed


lemma sc_erase_props:
  assumes tb: "tables_ok H tb" and inv: "sc_inv tb" and p0: "p \<noteq> []" and e: "sc_at tb p = Some e"
  shows "tables_ok H (sc_erase H env p tb)"
    and "sc_inv (sc_erase H env p tb)"
    and "sc_view (sc_erase H env p tb) = (sc_view tb)(p := None)"
    and "info_cleared (type_changed env (sc_view tb) ((sc_view tb)(p := None))) tb (sc_erase H env p tb)"
proof -
  let ?V = "sc_view tb"
  obtain old where old: "sce_strategy e = Some old" using inv e by (auto simp: sc_inv_def)
  have vp: "?V p = Some old" using e old by (simp add: sc_view_def)
  obtain new where new: "effective ?V (butlast p) = Some new" using effective_total[OF inv] by blast
  have pn: "sc_at tb p \<noteq> None" using e by simp
  let ?tb1 = "sc_changeStrategy H env p old new tb"
  let ?f = "setStrategyChoiceEntry None :: 'a nt_entry \<Rightarrow> 'a nt_entry"
  let ?nt2 = "ht_modify p ?f (nameTree ?tb1)"
  let ?tb2 = "?tb1\<lparr>nameTree := ?nt2, sc_nItems := sc_nItems ?tb1 - 1\<rparr>"
  note ch = sc_changeStrategy_props[OF tb pn, of env old new]
  obtain nte where nte: "ht_map (nameTree tb) p = Some nte" using slot_present(4)[OF e] by auto
  have "nte_sc nte = Some e" using e nte by (simp add: map_slots_def nte_slots_def)
  then have eq: "sc_erase H env p tb = ?tb1\<lparr>nameTree := snd (eraseIfEmpty p True ?nt2), sc_nItems := sc_nItems ?tb1 - 1\<rparr>"
    using nt_findExactMatch_map[OF tables_okD(1)[OF tb], of p "length p"] nte old
      sc_effective_name[OF tb inv, of "butlast p"] new
    by (simp add: sc_erase_def Let_def)
  have e1: "sc_at ?tb1 p = Some e" using e by (simp add: ch(2))
  note pr = slot_present(4)[OF e1]
  have ok2: "tables_ok H ?tb2"
    by (rule tables_ok_write[OF ch(1), of ?f p])
      (simp_all add: pr slot_effect_sc e1 cnt_defs slots_ok_set_sc[OF tables_okD(4)[OF ch(1)]] sc_slot_ok_def)
  have p2: "p \<in> dom (ht_map ?nt2)" using pr by (simp add: ht_modify_dom)
  have i2: "nt_inv H ?nt2" using tables_okD(1)[OF ok2] by simp
  have sl: "nt_slots (nameTree (sc_erase H env p tb)) = set_sc_slot p None (nt_slots (nameTree ?tb1))"
    using eraseIfEmpty_props(2)[OF i2 p2] by (simp add: eq ht_modify_slots pr slot_effect_sc set_sc_slot_def)
  show "tables_ok H (sc_erase H env p tb)" using tables_ok_prune[OF ok2, of p] p2 by (simp add: eq)
  have sc': "sc_at (sc_erase H env p tb) n = (if n = p then None else sc_at tb n)" for n
    unfolding sl ch(2) by simp
  show "sc_inv (sc_erase H env p tb)" using inv sc' p0 by (auto simp: sc_inv_def split: if_splits)
  show "sc_view (sc_erase H env p tb) = ?V(p := None)" using sc' by (auto simp: sc_view_def fun_eq_iff)
  have lm: "longest_match (\<lambda>q. sc_at tb q \<noteq> None) q = longest_match (\<lambda>q. ?V q \<noteq> None) q" for q
    by (rule longest_match_cong_pred) (simp add: sc_at_none_iff[OF inv] del: not_None_eq)
  have vn: "?V p \<noteq> None" using vp by simp
  have req: "(\<not> areSameType env (st_instanceName old) (st_instanceName new) \<and>
      longest_match (\<lambda>q. sc_at tb q \<noteq> None) q = Some p) = type_changed env ?V (?V(p := None)) q" for q
  proof (cases "longest_match (\<lambda>q. ?V q \<noteq> None) q = Some p")
    case True
    then have "effective ?V q = Some old" unfolding effective_def True by (simp add: vp)
    moreover have "effective (?V(p := None)) q = Some new"
      unfolding effective_delete[of ?V p, OF vn p0] if_P[OF True] by (rule new)
    ultimately show ?thesis unfolding lm True by (simp add: type_changed_def)
  next
    case False
    have "effective (?V(p := None)) q = effective ?V q"
      unfolding effective_delete[of ?V p, OF vn p0] if_not_P[OF False] ..
    then show ?thesis using False unfolding lm by (simp add: type_changed_def split: option.splits)
  qed
  have "pit_at tb q = []" "meas_at tb q = None" if "q \<notin> names tb" for q
    using that by (simp_all add: names_def map_slots_def domIff no_slots_def)
  then have "info_cleared (\<lambda>q. \<not> areSameType env (st_instanceName old) (st_instanceName new) \<and>
      longest_match (\<lambda>q. sc_at tb q \<noteq> None) q = Some p) tb (sc_erase H env p tb)"
    unfolding info_cleared_def sl ch(2) by auto
  then show "info_cleared (type_changed env ?V (?V(p := None))) tb (sc_erase H env p tb)"
    by (rule info_cleared_cong[THEN iffD1, OF req])
qed

lemma sc_setDefault_props:
  assumes tb: "tables_ok H tb" and none: "\<And>n. sc_at tb n = None"
    and cr: "strategy_create env sname = Some (Inr s)"
  shows "\<exists>tb'. sc_setDefaultStrategy H env sname tb = Some tb' \<and> tables_ok H tb' \<and> sc_inv tb' \<and>
    sc_view tb' = [[] \<mapsto> s] \<and> fib_at tb' = fib_at tb \<and> pit_at tb' = pit_at tb \<and> meas_at tb' = meas_at tb"
proof -
  let ?nt = "snd (nt_lookup H [] 0 (nameTree tb))" and ?e = "sce_setStrategy s (mk_strategy_choice_entry [])"
  let ?f = "setStrategyChoiceEntry (Some ?e) :: 'a nt_entry \<Rightarrow> 'a nt_entry"
  let ?tb1 = "tb\<lparr>nameTree := ?nt\<rparr>" and ?tb2 = "tb\<lparr>nameTree := ht_modify [] ?f ?nt, sc_nItems := sc_nItems tb + 1\<rparr>"
  have d: "length [] \<le> getMaxDepth" by simp
  note lk = lookup_same_view[OF tb d, simplified]
  have pr: "[] \<in> dom (ht_map ?nt)" using lk(3) by simp
  have sl: "nt_slots (nameTree ?tb2) = set_sc_slot [] (Some (?e\<lparr>sce_nameTreeEntry := Some []\<rparr>)) (nt_slots (nameTree tb))"
    using lk(2) by (simp add: ht_modify_slots pr slot_effect_sc set_sc_slot_def)
  have "sc_slot_ok [] (Some (?e\<lparr>sce_nameTreeEntry := Some []\<rparr>))"
    by (simp add: sc_slot_ok_def sce_setStrategy_def mk_strategy_choice_entry_def)
  then have ok: "tables_ok H ?tb2"
    by (intro tables_ok_write[OF lk(1), of ?f "[]"])
      (use lk(2) in \<open>simp_all add: pr slot_effect_sc none cnt_defs slots_ok_set_sc[OF tables_okD(4)[OF tb]]\<close>)
  have st: "sce_strategy ?e = Some s" by (simp add: sce_setStrategy_def)
  have "sc_at ?tb2 n = (if n = [] then Some (?e\<lparr>sce_nameTreeEntry := Some []\<rparr>) else None)" for n
    unfolding sl using none by simp
  then have "sc_inv ?tb2" "sc_view ?tb2 = [[] \<mapsto> s]"
    using st by (auto simp: sc_inv_def sc_view_def fun_eq_iff split: if_splits)
  moreover have "fib_at ?tb2 = fib_at tb" "pit_at ?tb2 = pit_at tb" "meas_at ?tb2 = meas_at tb"
    unfolding sl by (simp_all add: fun_eq_iff)
  moreover have "sc_setDefaultStrategy H env sname tb = Some ?tb2"
    by (simp add: sc_setDefaultStrategy_def cr Let_def)
  ultimately show ?thesis using ok by blast
qed

lemma sc_insert_outside:
  assumes "tables_ok H tb" and "sc_inv tb" and "length p \<le> getMaxDepth"
    and "strategy_create env sname = Some (Inr s)" and np: "\<not> prefix p q"
  shows "pit_at (snd (sc_insert H env p sname tb)) q = pit_at tb q"
proof -
  have "effective ((sc_view tb)(p \<mapsto> s)) q = effective (sc_view tb) q"
    by (rule effective_update_outside) (use np in \<open>auto simp: longest_match_Some_iff\<close>)
  then have "\<not> type_changed env (sc_view tb) ((sc_view tb)(p \<mapsto> s)) q"
    by (simp add: type_changed_def areSameType_def split: option.splits)
  then show ?thesis using sc_insert_props(5)[OF assms(1-4)] by (simp add: info_cleared_def)
qed

section \<open>Example\<close>

text \<open>
  A default strategy, another strategy at \<open>/a\<close>, a Measurements entry at \<open>/b\<close> and a PIT entry for a
  name that ends with an implicit digest.
\<close>

definition strategy_v :: "char \<Rightarrow> name" where
  "strategy_v b = [generic_comp ''s'', generic_comp [CHR 0xFD, b]]"

definition digest_interest :: interest where
  "digest_interest = mk_interest [generic_comp ''a'', Component 1 ''d''] 1"

definition sc_example :: "unit tables" where
  "sc_example =
     (let tb0 = the (sc_setDefaultStrategy (\<lambda>_. 7) env_example (strategy_v (CHR 0x05)) (mk_tables 16));
          tb1 = snd (sc_insert (\<lambda>_. 7) env_example [generic_comp ''a''] (strategy_v (CHR 0x01)) tb0);
          tb2 = snd (meas_get (\<lambda>_. 7) 0 [generic_comp ''b''] tb1)
      in snd (pit_insert (\<lambda>_. 7) digest_interest tb2))"

lemma strategy_create_example:
  "b \<in> {CHR 0x01, CHR 0x05} \<Longrightarrow>
     strategy_create env_example (strategy_v b) = Some (Inr \<lparr>st_instanceName = strategy_v b\<rparr>)"
  by (auto simp: strategy_create_def strategy_find_def env_example_def registerType_def Let_def
      parseInstanceName_def strategy_v_def reg_lower_bound_def plain_strategy_ctor_def makeInstanceName_def
      less_eq_component_def less_component_def component_key_def less_eq_char_def less_char_def)

lemma sc_example_props:
  "tables_ok (\<lambda>_. 7) sc_example" "sc_inv sc_example"
  "sc_view sc_example = [[] \<mapsto> \<lparr>st_instanceName = strategy_v (CHR 0x05)\<rparr>,
     [generic_comp ''a''] \<mapsto> \<lparr>st_instanceName = strategy_v (CHR 0x01)\<rparr>]"
  "pit_at sc_example [generic_comp ''a''] = [new_pit_entry digest_interest]"
  "meas_at sc_example [generic_comp ''b''] = Some (new_meas_entry 0 [generic_comp ''b''])"
proof -
  let ?H = "\<lambda>_. 7 :: u64" and ?a = "[generic_comp ''a'']" and ?b = "[generic_comp ''b'']"
  let ?t = "mk_tables 16 :: unit tables"
  have ok: "tables_ok ?H ?t" by (rule tables_ok_mk) simp
  have em: "nt_slots (nameTree ?t) n = no_slots" for n
    by (simp add: mk_tables_def mk_name_tree_def map_slots_def)
  have c1: "strategy_create env_example (strategy_v (CHR 0x01)) = Some (Inr \<lparr>st_instanceName = strategy_v (CHR 0x01)\<rparr>)"
    and c5: "strategy_create env_example (strategy_v (CHR 0x05)) = Some (Inr \<lparr>st_instanceName = strategy_v (CHR 0x05)\<rparr>)"
    by (simp_all add: strategy_create_example)
  obtain u where u: "sc_setDefaultStrategy ?H env_example (strategy_v (CHR 0x05)) ?t = Some u" "tables_ok ?H u" "sc_inv u"
    "sc_view u = [[] \<mapsto> \<lparr>st_instanceName = strategy_v (CHR 0x05)\<rparr>]"
    "pit_at u = pit_at ?t" "meas_at u = meas_at ?t"
    using sc_setDefault_props[OF ok _ c5] em by (auto simp: no_slots_def)
  have d: "length ?a \<le> getMaxDepth" by (simp add: getMaxDepth_def)
  define v where "v = snd (sc_insert ?H env_example ?a (strategy_v (CHR 0x01)) u)"
  note iv = sc_insert_props[OF u(2,3) d c1, folded v_def]
  have ue: "pit_at u n = []" "meas_at u n = None" for n
    using fun_cong[OF u(5), of n] fun_cong[OF u(6), of n] em[of n] by (simp_all add: no_slots_def)
  have ve: "pit_at v n = []" "meas_at v n = None" for n
    using iv(5) by (simp_all add: info_cleared_def ue)
  define w where "w = snd (meas_get ?H 0 ?b v)"
  have t: "take getMaxDepth ?b = ?b" by (simp add: getMaxDepth_def)
  note gw = meas_get_props[OF iv(2), of 0 ?b, folded w_def, unfolded t]
  have sw: "nt_slots (nameTree w) = set_meas_slot ?b (Some (new_meas_entry 0 ?b)) (nt_slots (nameTree v))"
    using gw(2) ve by simp
  have x: "sc_example = snd (pit_insert ?H digest_interest w)"
    by (simp add: sc_example_def u(1) v_def w_def Let_def)
  have q: "pit_nte (interest_key digest_interest) = ?a"
    by (simp add: digest_interest_def mk_interest_def pit_nte_def pit_nteDepth_def getMaxDepth_def
        endsWithDigest_def isImplicitSha256Digest_def interest_key_def)
  have wp: "pit_at w n = []" "sc_at w n = sc_at v n" for n using ve by (simp_all add: sw set_meas_slot_def)
  then have nd: "pit_deref w (interest_key digest_interest) = None"
    by (simp add: pit_deref_def)
  note px = pit_insert_props[OF gw(3), of digest_interest, folded x, unfolded q]
  have sl: "nt_slots (nameTree sc_example) = (nt_slots (nameTree w))(?a := (fib_at w ?a, [new_pit_entry digest_interest],
      snd (snd (nt_slots (nameTree w) ?a))))"
    using px(2) nd wp(1) by simp
  show "tables_ok ?H sc_example" by (rule px(3))
  have sc: "sc_at sc_example n = sc_at v n" for n unfolding sl using wp(2) by simp
  then show "sc_inv sc_example" using iv(3) by (simp add: sc_inv_def)
  have "sc_view sc_example = sc_view v" using sc by (simp add: sc_view_def fun_eq_iff)
  then show "sc_view sc_example = [[] \<mapsto> \<lparr>st_instanceName = strategy_v (CHR 0x05)\<rparr>,
     ?a \<mapsto> \<lparr>st_instanceName = strategy_v (CHR 0x01)\<rparr>]"
    using iv(4) u(4) by simp
  show "pit_at sc_example ?a = [new_pit_entry digest_interest]" unfolding sl by simp
  show "meas_at sc_example ?b = Some (new_meas_entry 0 ?b)" unfolding sl sw by (simp add: set_meas_slot_def)
qed

section \<open>Properties\<close>

text \<open>
  C23: the effective strategy. The lookup by name, the lookup by PIT entry and the lookup by
  Measurements entry give the strategy chosen at the longest prefix of the name in question that has
  a choice, and, because the root always has one, they always give a strategy.
\<close>

theorem effective_strategy_found:
  assumes "tables_ok H tb" and "sc_inv tb"
  shows "sc_findEffectiveStrategy H n tb = effective (sc_view tb) n \<and> effective (sc_view tb) n \<noteq> None \<and>
    (\<forall>pe q. pe \<in> set (pit_at tb q) \<longrightarrow> sc_findEffectiveStrategy_pit H pe tb = effective (sc_view tb) (pe_name pe)) \<and>
    (\<forall>me q. meas_at tb q = Some me \<longrightarrow> sc_findEffectiveStrategy_meas me tb = effective (sc_view tb) (me_name me))"
  using sc_effective_name[OF assms] sc_effective_pit[OF assms] sc_effective_meas[OF assms]
    effective_total[OF assms(2)] by blast

theorem effective_strategy_found_witness:
  "sc_findEffectiveStrategy_pit (\<lambda>_. 7) (new_pit_entry digest_interest) sc_example =
     Some \<lparr>st_instanceName = strategy_v (CHR 0x01)\<rparr>"
proof -
  have n: "int_name digest_interest = [generic_comp ''a'', Component 1 ''d'']"
    by (simp add: digest_interest_def mk_interest_def)
  have "effective (sc_view sc_example) [generic_comp ''a'', Component 1 ''d''] =
      Some \<lparr>st_instanceName = strategy_v (CHR 0x01)\<rparr>"
    by (simp add: effective_def longest_match_def sc_example_props(3))
  then show ?thesis
    using effective_strategy_found[OF sc_example_props(1,2)] sc_example_props(4) n
    by (metis list.set_intros(1) new_pit_entry_simps(1))
qed

text \<open>
  C9: choosing a strategy. When the prefix is not too deep and the strategy can be created, \<open>insert\<close>
  succeeds, the choice at the prefix becomes the new strategy and no other choice changes; the
  strategy information of PIT and Measurements entries is discarded exactly at those name tree
  entries whose effective strategy changed its type, although the code only walks the subtree and
  prunes it at deeper choices. The same holds for \<open>erase\<close>.
\<close>

theorem strategy_choice_change:
  assumes "tables_ok H tb" and "sc_inv tb"
  shows "let V = sc_view tb; (res, tb') = sc_insert H env p sname tb; tb'' = sc_erase H env p' tb
    in (length p \<le> getMaxDepth \<and> strategy_create env sname = Some (Inr s) \<longrightarrow>
          res = SC_OK \<and> sc_view tb' = V(p \<mapsto> s) \<and> info_cleared (type_changed env V (V(p \<mapsto> s))) tb tb' \<and>
          tables_ok H tb' \<and> sc_inv tb') \<and>
       (p' \<noteq> [] \<and> sc_at tb p' \<noteq> None \<longrightarrow>
          sc_view tb'' = V(p' := None) \<and> info_cleared (type_changed env V (V(p' := None))) tb tb'' \<and>
          tables_ok H tb'' \<and> sc_inv tb'')"
  using sc_insert_props[OF assms, of p env sname s] sc_erase_props[OF assms, of p' _ env]
  by (auto simp: Let_def split_beta)

theorem strategy_choice_change_witness:
  "fst (sc_insert (\<lambda>_. 7) env_example [generic_comp ''b''] (strategy_v (CHR 0x01)) sc_example) = SC_OK \<and>
   sc_view (sc_erase (\<lambda>_. 7) env_example [generic_comp ''a''] sc_example) [generic_comp ''a''] = None"
proof -
  have d: "length [generic_comp ''b''] \<le> getMaxDepth" by (simp add: getMaxDepth_def)
  have c: "strategy_create env_example (strategy_v (CHR 0x01)) = Some (Inr \<lparr>st_instanceName = strategy_v (CHR 0x01)\<rparr>)"
    by (simp add: strategy_create_example)
  have "sc_view sc_example [generic_comp ''a''] \<noteq> None" by (simp add: sc_example_props(3))
  then have "sc_at sc_example [generic_comp ''a''] \<noteq> None"
    unfolding sc_at_none_iff[OF sc_example_props(2)] .
  then show ?thesis
    using strategy_choice_change[OF sc_example_props(1,2), of env_example "[generic_comp ''b'']" _ "[generic_comp ''a'']"] d c
    by (simp add: Let_def split_beta)
qed

text \<open>
  C31: a strategy keeps information of another strategy. A PIT entry whose name ends with an implicit
  digest is attached to the name tree entry of the name without the digest. When a Strategy Choice
  entry is inserted at the full name of such a PIT entry, which is not deeper than the name tree, and
  the strategy can be created, the lookup for the PIT entry finds the new strategy, but the PIT
  entries at the shorter name, this one with all its strategy information included, are left as they
  were, whatever the type of the strategy that wrote this information.
\<close>

theorem strategy_info_kept_at_digest:
  assumes "tables_ok H tb" and "sc_inv tb" and "pe \<in> set (pit_at tb q)" and "q \<noteq> pe_name pe"
    and "length (pe_name pe) \<le> getMaxDepth" and "strategy_create env sname = Some (Inr s)"
  shows "let tb' = snd (sc_insert H env (pe_name pe) sname tb)
    in sc_findEffectiveStrategy_pit H pe tb' = Some s \<and> pit_at tb' q = pit_at tb q"
proof -
  let ?p = "pe_name pe"
  let ?tb = "snd (sc_insert H env ?p sname tb)"
  have "q = take (pit_nteDepth ?p) ?p"
    using pit_slotD(2)[OF assms(1,3)] by (simp add: pit_nte_def interest_key_def)
  then have np: "\<not> prefix ?p q" using assms(4) by (metis prefix_order.antisym take_is_prefix)
  note ins = sc_insert_props[OF assms(1,2,5,6)]
  note same = sc_insert_outside[OF assms(1,2,5,6) np]
  have "longest_match (\<lambda>q. ((sc_view tb)(?p \<mapsto> s)) q \<noteq> None) ?p = Some ?p"
    by (auto simp: longest_match_Some_iff prefix_length_le)
  then have "effective (sc_view ?tb) ?p = Some s" unfolding ins(4) by (rule effective_update_region(1))
  moreover have "sc_findEffectiveStrategy_pit H pe ?tb = effective (sc_view ?tb) ?p"
    by (rule sc_effective_pit[OF ins(2,3), of _ q]) (use same assms(3) in simp)
  ultimately show ?thesis using same by (simp add: Let_def)
qed

theorem strategy_info_kept_at_digest_witness:
  "sc_findEffectiveStrategy_pit (\<lambda>_. 7) (new_pit_entry digest_interest)
     (snd (sc_insert (\<lambda>_. 7) env_example [generic_comp ''a'', Component 1 ''d''] (strategy_v (CHR 0x05)) sc_example)) =
       Some \<lparr>st_instanceName = strategy_v (CHR 0x05)\<rparr>"
proof -
  have n: "int_name digest_interest = [generic_comp ''a'', Component 1 ''d'']"
    by (simp add: digest_interest_def mk_interest_def)
  have c: "strategy_create env_example (strategy_v (CHR 0x05)) = Some (Inr \<lparr>st_instanceName = strategy_v (CHR 0x05)\<rparr>)"
    by (simp add: strategy_create_example)
  show ?thesis
    using strategy_info_kept_at_digest[OF sc_example_props(1,2) _ _ _ c,
        of "new_pit_entry digest_interest" "[generic_comp ''a'']"]
    by (simp add: sc_example_props(4) n getMaxDepth_def Let_def)
qed

text \<open>
  C27: every outcome of \<open>insert\<close>, with its status code, for programs that accept no parameters. A
  prefix with too many components gives 414. Otherwise, a name for which no registered program
  qualifies gives 404. Otherwise the program is selected: the lowest one that is not below a
  versioned name, the highest one for a name without version; when parameters follow the version in
  the name, or when the version of the selected program is not the requested one, its constructor
  throws and the code is 409. None of these changes anything. In all other cases the code is 200, the
  instance name, with the version of the program where the name has none, is what \<open>get\<close> reports at
  the prefix, and this strategy becomes the effective one of all names under the prefix that
  have no choice at a longer prefix.
\<close>

theorem strategy_choice_insert_errors:
  assumes "tables_ok H tb" and "sc_inv tb" and "registry_ok (env_registry env)"
    and "successor_law (env_getSuccessor env)" and "plain_registry env"
  shows "let parsed = parseInstanceName env sname; program = selected_program env sname;
      (res, tb') = sc_insert H env p sname tb; code = getStatusCode res
    in code =
         (if getMaxDepth < length p then 414
          else if strategy_candidates env sname = {} then 404
          else if pin_parameters parsed \<noteq> [] \<or>
            (\<exists>v. pin_version parsed = Some v \<and> v \<noteq> env_toVersion env (last program)) then 409
          else 200) \<and>
       (code \<noteq> 200 \<longrightarrow> tb' = tb) \<and>
       (code = 200 \<longrightarrow>
          sc_get H p tb' = (True, makeInstanceName env sname program) \<and>
          (\<forall>n. prefix p n \<and> (\<forall>q. strict_prefix p q \<and> prefix q n \<longrightarrow> sc_at tb q = None) \<longrightarrow>
             sc_findEffectiveStrategy H n tb' = Some \<lparr>st_instanceName = makeInstanceName env sname program\<rparr>))"
proof (cases "getMaxDepth < length p")
  case True
  then show ?thesis by (simp add: sc_insert_def)
next
  case d: False
  let ?k = "selected_program env sname" and ?parsed = "parseInstanceName env sname"
  show ?thesis
  proof (cases rule: strategy_find_cases[OF assms(3,4), of sname, case_names none found])
    case none
    then show ?thesis using d by (simp add: sc_insert_def strategy_create_def)
  next
    case (found c)
    then obtain label where c: "c sname = plain_strategy_ctor env label ?k sname"
      using assms(5) by (fastforce simp: plain_registry_def)
    let ?bad = "pin_parameters ?parsed \<noteq> [] \<or> (\<exists>v. pin_version ?parsed = Some v \<and> v \<noteq> env_toVersion env (last ?k))"
    let ?s = "\<lparr>st_instanceName = makeInstanceName env sname ?k\<rparr>" and ?r = "sc_insert H env p sname tb"
    show ?thesis
    proof (cases ?bad)
      case True
      then have "\<exists>what. plain_strategy_ctor env label ?k sname = Inl what"
        by (cases "pin_version ?parsed") (auto simp: plain_strategy_ctor_def Let_def)
      then obtain what where "strategy_create env sname = Some (Inl what)"
        using found(2) c by (auto simp: strategy_create_def)
      then show ?thesis using d found(1) True by (simp add: sc_insert_def)
    next
      case False
      then have "strategy_create env sname = Some (Inr ?s)"
        using found(2) c by (auto simp: strategy_create_def plain_strategy_ctor_def Let_def split: option.splits)
      note ins = sc_insert_props[OF assms(1,2) _ this, of p, OF leI[OF d]]
      have g: "sc_get H p (snd ?r) = (True, makeInstanceName env sname ?k)"
        using fun_cong[OF ins(4), of p] by (simp add: sc_get_view[OF ins(2)])
      have e: "sc_findEffectiveStrategy H n (snd ?r) = Some ?s"
        if "prefix p n" "\<And>q. strict_prefix p q \<Longrightarrow> prefix q n \<Longrightarrow> sc_at tb q = None" for n
      proof -
        have "length q \<le> length p" if "prefix q n" "sc_view tb q \<noteq> None" for q
        proof (rule ccontr)
          assume "\<not> length q \<le> length p"
          then have "strict_prefix p q"
            using prefix_length_prefix[OF \<open>prefix p n\<close> \<open>prefix q n\<close>] by (auto simp: strict_prefix_def)
          then show False using \<open>\<And>q. strict_prefix p q \<Longrightarrow> prefix q n \<Longrightarrow> sc_at tb q = None\<close> that sc_at_none_iff[OF assms(2), of q] by metis
        qed
        then have "longest_match (\<lambda>q. ((sc_view tb)(p \<mapsto> ?s)) q \<noteq> None) n = Some p"
          using that(1) by (intro longest_match_eqI) (auto split: if_splits)
        then show ?thesis
          unfolding sc_effective_name[OF ins(2,3)] ins(4) by (rule effective_update_region(1))
      qed
      show ?thesis using d found(1) False ins(1) g e by (simp add: Let_def split_beta)
    qed
  qed
qed

theorem strategy_choice_insert_errors_witness:
  "getStatusCode (fst (sc_insert (\<lambda>_. 7) env_example [generic_comp ''b''] (strategy_v (CHR 0x03)) sc_example)) = 409 \<and>
   getStatusCode (fst (sc_insert (\<lambda>_. 7) env_example [generic_comp ''b''] (strategy_v (CHR 0x07)) sc_example)) = 404 \<and>
   sc_get (\<lambda>_. 7) [generic_comp ''b'']
     (snd (sc_insert (\<lambda>_. 7) env_example [generic_comp ''b''] [generic_comp ''s''] sc_example)) = (True, strategy_v (CHR 0x05))"
proof -
  have law: "successor_law (env_getSuccessor env_example)" by (simp add: env_example_props(2) name_successor_law)
  have d: "\<not> getMaxDepth < length [generic_comp ''b'']" by (simp add: getMaxDepth_def)
  note th = strategy_choice_insert_errors[OF sc_example_props(1,2) env_example_props(1) law env_example_plain,
      where p = "[generic_comp ''b'']", unfolded Let_def split_beta if_not_P[OF d]]
  have e: "env_isVersion env_example = (\<lambda>c. take 1 (comp_value c) = [CHR 0xFD])"
    "env_toVersion env_example = (\<lambda>c. of_char (last (comp_value c)))"
    by (simp_all add: env_example_def registerType_def Let_def)
  note cmp = less_eq_component_def less_component_def component_key_def less_eq_char_def less_char_def
  note c = strategy_candidates_def env_example_props(3) parseInstanceName_def strategy_v_def e cmp
  have v: "strategy_v (CHR 0x01) < strategy_v (CHR 0x05)" by (simp add: strategy_v_def cmp)
  have pv: "pin_version (parseInstanceName env_example (strategy_v b)) = Some (of_char b)"
    "pin_version (parseInstanceName env_example [generic_comp ''s'']) = None"
    "pin_parameters (parseInstanceName env_example [generic_comp ''s'']) = []" for b
    by (simp_all add: parseInstanceName_def strategy_v_def e)
  have 3: "strategy_candidates env_example (strategy_v (CHR 0x03)) = {strategy_v (CHR 0x05)}" by (auto simp: c)
  have 7: "strategy_candidates env_example (strategy_v (CHR 0x07)) = {}" by (auto simp: c)
  have 0: "strategy_candidates env_example [generic_comp ''s''] = {strategy_v (CHR 0x01), strategy_v (CHR 0x05)}"
    by (auto simp: c)
  have s: "selected_program env_example (strategy_v (CHR 0x03)) = strategy_v (CHR 0x05)"
    "selected_program env_example [generic_comp ''s''] = strategy_v (CHR 0x05)"
    using less_imp_le[OF v] by (simp_all add: selected_program_def pv 3 0 max_def)
  have l: "env_toVersion env_example (last (strategy_v (CHR 0x05))) = 5" by (simp add: strategy_v_def e)
  have m: "makeInstanceName env_example [generic_comp ''s''] (strategy_v (CHR 0x05)) = strategy_v (CHR 0x05)"
    by (simp add: makeInstanceName_def e strategy_v_def)
  show ?thesis
    using th[of "strategy_v (CHR 0x03)"] th[of "strategy_v (CHR 0x07)"] th[of "[generic_comp ''s'']"]
    unfolding 3 7 0 s pv l m by simp
qed

end
