(* ===== verification/Fib.thy ===== *)
theory Fib
  imports Tables
begin

text \<open>
  The Forwarding Information Base (\<open>daemon/table/fib.cpp\<close>). A reference to a FIB entry is its
  prefix. The abstract view of the FIB is a map from prefixes to maps from faces to costs; every
  operation of the class is shown to implement the obvious operation on the view.
\<close>

section \<open>Operations\<close>

datatype RemoveNextHopResult = NO_SUCH_NEXTHOP | NEXTHOP_REMOVED | FIB_ENTRY_REMOVED

definition s_emptyEntry :: fib_entry where
  "s_emptyEntry = mk_fib_entry []"

definition nteHasFibEntry :: "'i nt_entry \<Rightarrow> bool" where
  "nteHasFibEntry nte \<longleftrightarrow> nte_fib nte \<noteq> None"

definition fib_match_result :: "'i nt_entry option \<Rightarrow> fib_entry" where
  "fib_match_result nte =
     (case nte of
        None \<Rightarrow> s_emptyEntry
      | Some e \<Rightarrow> (case nte_fib e of None \<Rightarrow> s_emptyEntry | Some fe \<Rightarrow> fe))"

definition fib_findLongestPrefixMatch :: "(component \<Rightarrow> u64) \<Rightarrow> name \<Rightarrow> 'i tables \<Rightarrow> fib_entry" where
  "fib_findLongestPrefixMatch H p tb =
     fib_match_result (nt_findLongestPrefixMatch H p nteHasFibEntry (nameTree tb))"

definition fib_findLongestPrefixMatch_pit ::
  "(component \<Rightarrow> u64) \<Rightarrow> 'i pit_entry \<Rightarrow> 'i tables \<Rightarrow> fib_entry" where
  "fib_findLongestPrefixMatch_pit H pitEntry tb =
     fib_match_result (nt_findLongestPrefixMatch_pit H pitEntry nteHasFibEntry (nameTree tb))"

definition fib_findLongestPrefixMatch_meas :: "'i measurements_entry \<Rightarrow> 'i tables \<Rightarrow> fib_entry" where
  "fib_findLongestPrefixMatch_meas me tb =
     fib_match_result
       (case me_nameTreeEntry me of
          None \<Rightarrow> None
        | Some nte \<Rightarrow> nt_findLongestPrefixMatch_entry nte nteHasFibEntry (nameTree tb))"

definition fib_findExactMatch :: "(component \<Rightarrow> u64) \<Rightarrow> name \<Rightarrow> 'i tables \<Rightarrow> fib_entry option" where
  "fib_findExactMatch H p tb =
     (case nt_findExactMatch H p (length p) (nameTree tb) of
        None \<Rightarrow> None
      | Some nte \<Rightarrow> nte_fib nte)"

definition fib_insert :: "(component \<Rightarrow> u64) \<Rightarrow> name \<Rightarrow> 'i tables \<Rightarrow> bool \<times> 'i tables" where
  "fib_insert H p tb =
     (let nt = snd (nt_lookup H p (length p) (nameTree tb));
          tb1 = tb\<lparr>nameTree := nt\<rparr>
      in if fib_at tb1 p \<noteq> None then (False, tb1)
         else (True, tb1\<lparr>nameTree := ht_modify p (setFibEntry (Some (mk_fib_entry p))) nt,
                         fib_nItems := fib_nItems tb1 + 1\<rparr>))"

definition fib_erase_nte :: "name \<Rightarrow> bool \<Rightarrow> 'i tables \<Rightarrow> 'i tables" where
  "fib_erase_nte nte canDeleteNte tb =
     (let nt1 = ht_modify nte (setFibEntry None) (nameTree tb);
          nt2 = (if canDeleteNte then snd (eraseIfEmpty nte True nt1) else nt1)
      in tb\<lparr>nameTree := nt2, fib_nItems := fib_nItems tb - 1\<rparr>)"

definition fib_erase :: "(component \<Rightarrow> u64) \<Rightarrow> name \<Rightarrow> 'i tables \<Rightarrow> 'i tables" where
  "fib_erase H p tb =
     (case nt_findExactMatch H p (length p) (nameTree tb) of
        None \<Rightarrow> tb
      | Some nte \<Rightarrow> fib_erase_nte (nte_name nte) True tb)"

definition fib_erase_entry :: "fib_entry \<Rightarrow> 'i tables \<Rightarrow> 'i tables" where
  "fib_erase_entry entry tb =
     (case fe_nameTreeEntry entry of None \<Rightarrow> tb | Some nte \<Rightarrow> fib_erase_nte nte True tb)"

text \<open>Writing through a reference to the FIB entry attached to a name.\<close>

definition fib_modify :: "name \<Rightarrow> (fib_entry \<Rightarrow> fib_entry) \<Rightarrow> 'i tables \<Rightarrow> 'i tables" where
  "fib_modify n f tb = tb\<lparr>nameTree := ht_modify n (nte_fib_update (map_option f)) (nameTree tb)\<rparr>"

text \<open>
  \<open>addOrUpdateNextHop\<close> emits \<open>afterNewNextHop\<close> with the next hop the iterator denotes after the
  entry has been changed; the signal is the first component of the result.
\<close>

definition fib_addOrUpdateNextHop ::
  "name \<Rightarrow> face_id \<Rightarrow> u64 \<Rightarrow> 'i tables \<Rightarrow> (name \<times> nexthop) option \<times> 'i tables" where
  "fib_addOrUpdateNextHop n face cost tb =
     (case fib_at tb n of
        None \<Rightarrow> (None, tb)
      | Some entry \<Rightarrow>
          let ((it, isNew), entry') = addOrUpdateNextHop entry face cost
          in (if isNew then Some (fe_prefix entry', fe_nextHops entry' ! it) else None,
              fib_modify n (\<lambda>_. entry') tb))"

definition fib_removeNextHop :: "name \<Rightarrow> face_id \<Rightarrow> 'i tables \<Rightarrow> RemoveNextHopResult \<times> 'i tables" where
  "fib_removeNextHop n face tb =
     (case fib_at tb n of
        None \<Rightarrow> (NO_SUCH_NEXTHOP, tb)
      | Some entry \<Rightarrow>
          let (isRemoved, entry') = removeNextHop entry face;
              tb1 = fib_modify n (\<lambda>_. entry') tb
          in if \<not> isRemoved then (NO_SUCH_NEXTHOP, tb1)
             else if \<not> hasNextHops entry' then
               (FIB_ENTRY_REMOVED,
                case fe_nameTreeEntry entry' of None \<Rightarrow> tb1 | Some nte \<Rightarrow> fib_erase_nte nte False tb1)
             else (NEXTHOP_REMOVED, tb1))"

section \<open>Specification\<close>

type_synonym fib_view = "name \<rightharpoonup> (face_id \<rightharpoonup> u64)"

definition fib_view :: "'i tables \<Rightarrow> fib_view" where
  "fib_view tb n = map_option fe_costs (fib_at tb n)"

definition spec_fib_insert :: "name \<Rightarrow> fib_view \<Rightarrow> fib_view" where
  "spec_fib_insert n V = (case V n of None \<Rightarrow> V(n \<mapsto> Map.empty) | Some _ \<Rightarrow> V)"

definition spec_fib_add :: "name \<Rightarrow> face_id \<Rightarrow> u64 \<Rightarrow> fib_view \<Rightarrow> fib_view" where
  "spec_fib_add n f c V = (case V n of None \<Rightarrow> V | Some m \<Rightarrow> V(n \<mapsto> m(f \<mapsto> c)))"

definition spec_fib_remove :: "name \<Rightarrow> face_id \<Rightarrow> fib_view \<Rightarrow> fib_view" where
  "spec_fib_remove n f V =
     (case V n of
        None \<Rightarrow> V
      | Some m \<Rightarrow> if m f = None then V
                  else V(n := if dom m = {f} then None else Some (m(f := None))))"

section \<open>Longest prefix match\<close>

lemma fib_match_result_lpm:
  assumes "is_lpm (ht_map (nameTree tb)) nteHasFibEntry n r"
  shows "fib_match_result r =
    (case longest_match (\<lambda>q. fib_at tb q \<noteq> None) n of None \<Rightarrow> s_emptyEntry | Some q \<Rightarrow> the (fib_at tb q))"
proof -
  have P: "fib_at tb q \<noteq> None \<longleftrightarrow> (\<exists>e. ht_map (nameTree tb) q = Some e \<and> nteHasFibEntry e)" for q
    by (simp add: map_slots_def nteHasFibEntry_def no_slots_def nte_slots_def split: option.splits)
  have "r = (case longest_match (\<lambda>q. fib_at tb q \<noteq> None) n of
      None \<Rightarrow> None | Some q \<Rightarrow> ht_map (nameTree tb) q)"
    using is_lpm_longest_match[OF assms P] .
  moreover have "\<exists>e fe. ht_map (nameTree tb) q = Some e \<and> nte_fib e = Some fe \<and> fib_at tb q = Some fe"
    if "longest_match (\<lambda>q. fib_at tb q \<noteq> None) n = Some q" for q
    using that P[of q] unfolding longest_match_Some_iff
    by (auto simp: nteHasFibEntry_def map_slots_def nte_slots_def)
  ultimately show ?thesis
    by (cases "longest_match (\<lambda>q. fib_at tb q \<noteq> None) n") (auto simp: fib_match_result_def)
qed


section \<open>Effect of the operations\<close>

lemma slot_effect_fib:
  "slot_effect (setFibEntry fe) n sl = (map_option (fe_nameTreeEntry_update (\<lambda>_. Some n)) fe, snd sl)"
  "slot_effect (nte_fib_update g) n sl = (g (fst sl), snd sl)"
  by (cases sl, simp)+

lemma slots_ok_set_fib: "slots_ok n sl \<Longrightarrow> fib_slot_ok n v \<Longrightarrow> slots_ok n (v, snd sl)"
  by (auto simp: slots_ok_def split_beta)

lemma cnt_set_fib [simp]:
  "cnt_fib (v, r) = (if v = None then 0 else 1)"
  "cnt_pit (v, r) = length (fst r)" "cnt_meas (v, r) = (if fst (snd r) = None then 0 else 1)"
  "cnt_sc (v, r) = (if snd (snd r) = None then 0 else 1)"
  by (simp_all add: cnt_defs)

definition new_fib_entry :: "name \<Rightarrow> fib_entry" where
  "new_fib_entry n = (mk_fib_entry n)\<lparr>fe_nameTreeEntry := Some n\<rparr>"

lemma new_fib_entry_ok: "fib_slot_ok n (Some (new_fib_entry n))"
  by (simp add: fib_slot_ok_def new_fib_entry_def mk_fib_entry_def fib_entry_ok_def)

lemma new_fib_entry_costs [simp]: "fe_costs (new_fib_entry n) = Map.empty"
  by (simp add: new_fib_entry_def mk_fib_entry_def fe_costs_def)

lemma fib_insert_props:
  assumes tb: "tables_ok H tb" and d: "length n \<le> getMaxDepth"
  shows "fst (fib_insert H n tb) \<longleftrightarrow> fib_at tb n = None"
    and "nt_slots (nameTree (snd (fib_insert H n tb))) =
      (if fib_at tb n = None then (nt_slots (nameTree tb))(n := (Some (new_fib_entry n), snd (nt_slots (nameTree tb) n)))
       else nt_slots (nameTree tb))"
    and "tables_ok H (snd (fib_insert H n tb))"
    and "names (snd (fib_insert H n tb)) = names tb \<union> {q. prefix q n}"
proof -
  let ?nt = "snd (nt_lookup H n (length n) (nameTree tb))"
  let ?tb1 = "tb\<lparr>nameTree := ?nt\<rparr>"
  note lk = nt_lookup_props[OF tables_okD(1)[OF tb] order.refl[of "length n"] d]
  have ok1: "tables_ok H ?tb1" by (rule tables_ok_lookup[OF tb _ d]) simp
  have sl: "nt_slots ?nt = nt_slots (nameTree tb)" by (rule lk(3))
  have pres: "n \<in> dom (ht_map ?nt)" using lk(4) by simp
  show "fst (fib_insert H n tb) \<longleftrightarrow> fib_at tb n = None"
    by (simp add: fib_insert_def Let_def sl)
  show "nt_slots (nameTree (snd (fib_insert H n tb))) =
      (if fib_at tb n = None then (nt_slots (nameTree tb))(n := (Some (new_fib_entry n), snd (nt_slots (nameTree tb) n)))
       else nt_slots (nameTree tb))"
    by (simp add: fib_insert_def Let_def sl ht_modify_slots pres slot_effect_fib new_fib_entry_def)
  show "names (snd (fib_insert H n tb)) = names tb \<union> {q. prefix q n}"
    using lk(4) by (simp add: fib_insert_def Let_def names_def ht_modify_dom)
  show "tables_ok H (snd (fib_insert H n tb))"
  proof (cases "fib_at tb n")
    case None
    have "tables_ok H (?tb1\<lparr>nameTree := ht_modify n (setFibEntry (Some (mk_fib_entry n))) ?nt,
        fib_nItems := fib_nItems ?tb1 + 1\<rparr>)"
      by (rule tables_ok_write[OF ok1, of "setFibEntry (Some (mk_fib_entry n))" n])
        (simp_all add: pres slot_effect_fib sl None cnt_defs
          slots_ok_set_fib[OF tables_okD(4)[OF tb]] new_fib_entry_ok[unfolded new_fib_entry_def])
    then show ?thesis by (simp add: fib_insert_def Let_def sl None)
  next
    case (Some e)
    then show ?thesis using ok1 by (simp add: fib_insert_def Let_def sl)
  qed
qed

lemma fib_modify_slots:
  "fib_at tb n = Some fe \<Longrightarrow>
   nt_slots (nameTree (fib_modify n f tb)) =
     (nt_slots (nameTree tb))(n := (Some (f fe), snd (nt_slots (nameTree tb) n)))"
  by (simp add: fib_modify_def ht_modify_slots slot_present(1) slot_effect_fib)

lemma fib_modify_names [simp]: "names (fib_modify n f tb) = names tb"
  by (simp add: fib_modify_def names_def ht_modify_dom)

lemma fib_modify_ok:
  assumes tb: "tables_ok H tb" and e: "fib_at tb n = Some e" and e': "fib_slot_ok n (Some (f e))"
  shows "tables_ok H (fib_modify n f tb)"
  by (rule tables_ok_write[OF tb, of "nte_fib_update (map_option f)" n])
    (simp_all add: slot_present(1)[OF e] fib_modify_def slot_effect_fib e cnt_defs
      slots_ok_set_fib[OF tables_okD(4)[OF tb] e'])

lemma fib_erase_nte_props:
  assumes tb: "tables_ok H tb" and e: "fib_at tb n = Some e"
  shows "nt_slots (nameTree (fib_erase_nte n canDelete tb)) =
      (nt_slots (nameTree tb))(n := (None, snd (nt_slots (nameTree tb) n)))"
    and "tables_ok H (fib_erase_nte n canDelete tb)"
    and "names (fib_erase_nte n canDelete tb) \<subseteq> names tb"
    and "\<not> canDelete \<Longrightarrow> names (fib_erase_nte n canDelete tb) = names tb"
proof -
  let ?nt1 = "ht_modify n (setFibEntry None) (nameTree tb)"
  let ?tb1 = "tb\<lparr>nameTree := ?nt1, fib_nItems := fib_nItems tb - 1\<rparr>"
  note p = slot_present(1)[OF e]
  have p1: "n \<in> dom (ht_map ?nt1)" using p by (simp add: ht_modify_dom)
  have ok1: "tables_ok H ?tb1"
    by (rule tables_ok_write[OF tb, of "setFibEntry None" n])
      (simp_all add: p slot_effect_fib e cnt_defs slots_ok_set_fib[OF tables_okD(4)[OF tb]] fib_slot_ok_def)
  have i1: "nt_inv H ?nt1" using tables_okD(1)[OF ok1] by simp
  have s1: "nt_slots ?nt1 = (nt_slots (nameTree tb))(n := (None, snd (nt_slots (nameTree tb) n)))"
    by (simp add: ht_modify_slots p slot_effect_fib)
  note pr = eraseIfEmpty_props[OF i1 p1]
  show "nt_slots (nameTree (fib_erase_nte n canDelete tb)) =
      (nt_slots (nameTree tb))(n := (None, snd (nt_slots (nameTree tb) n)))"
    using pr(2) s1 by (simp add: fib_erase_nte_def Let_def)
  show "tables_ok H (fib_erase_nte n canDelete tb)"
    using ok1 tables_ok_prune[OF ok1, of n] p1 by (simp add: fib_erase_nte_def Let_def)
  show "names (fib_erase_nte n canDelete tb) \<subseteq> names tb"
    using pr(3) by (auto simp: fib_erase_nte_def Let_def names_def ht_modify_dom)
  show "\<not> canDelete \<Longrightarrow> names (fib_erase_nte n canDelete tb) = names tb"
    by (simp add: fib_erase_nte_def Let_def names_def ht_modify_dom)
qed

lemma fib_slot_okD:
  assumes "tables_ok H tb" and "fib_at tb n = Some e"
  shows "fe_prefix e = n" and "fe_nameTreeEntry e = Some n" and "fib_entry_ok e"
  using tables_okD(5)[OF assms(1), of n] assms(2) by (simp_all add: fib_slot_ok_def)

lemma fib_at_exact: "tables_ok H tb \<Longrightarrow> fib_findExactMatch H n tb = fib_at tb n"
  by (simp add: fib_findExactMatch_def nt_findExactMatch_map tables_okD(1) map_slots_def no_slots_def
      nte_slots_def split: option.splits)

lemma fib_erase_present:
  assumes "tables_ok H tb" and "fib_at tb n = Some e"
  shows "fib_erase H n tb = fib_erase_nte n True tb"
proof -
  obtain nte where "ht_map (nameTree tb) n = Some nte" using slot_present(1)[OF assms(2)] by auto
  then show ?thesis
    by (simp add: fib_erase_def nt_findExactMatch_map tables_okD(1)[OF assms(1)] ht_map_name)
qed

lemma fib_add_props:
  fixes f :: face_id and c :: u64
  assumes tb: "tables_ok H tb" and e: "fib_at tb n = Some e"
  defines "e' \<equiv> snd (addOrUpdateNextHop e f c)"
  shows "nt_slots (nameTree (snd (fib_addOrUpdateNextHop n f c tb))) =
      (nt_slots (nameTree tb))(n := (Some e', snd (nt_slots (nameTree tb) n)))"
    and "tables_ok H (snd (fib_addOrUpdateNextHop n f c tb))"
    and "names (snd (fib_addOrUpdateNextHop n f c tb)) = names tb"
proof -
  have eq: "snd (fib_addOrUpdateNextHop n f c tb) = fib_modify n (\<lambda>_. e') tb"
    by (simp add: fib_addOrUpdateNextHop_def e e'_def split_beta)
  have "fib_slot_ok n (Some e')"
    using fib_slot_okD[OF tb e] by (simp add: fib_slot_ok_def e'_def addOrUpdateNextHop_ok)
  then show "tables_ok H (snd (fib_addOrUpdateNextHop n f c tb))"
    unfolding eq by (rule fib_modify_ok[OF tb e])
  show "nt_slots (nameTree (snd (fib_addOrUpdateNextHop n f c tb))) =
      (nt_slots (nameTree tb))(n := (Some e', snd (nt_slots (nameTree tb) n)))"
    unfolding eq by (rule fib_modify_slots[OF e])
  show "names (snd (fib_addOrUpdateNextHop n f c tb)) = names tb" by (simp add: eq)
qed

lemma hasNextHops_iff: "hasNextHops e \<longleftrightarrow> fe_costs e \<noteq> Map.empty"
  by (cases "fe_nextHops e") (auto simp: hasNextHops_def fe_costs_def)

lemma fib_remove_props:
  fixes f :: face_id
  assumes tb: "tables_ok H tb" and e: "fib_at tb n = Some e"
  defines "e' \<equiv> snd (removeNextHop e f)"
  defines "v \<equiv> (if fst (removeNextHop e f) \<and> \<not> hasNextHops e' then None else Some e')"
  shows "nt_slots (nameTree (snd (fib_removeNextHop n f tb))) =
      (nt_slots (nameTree tb))(n := (v, snd (nt_slots (nameTree tb) n)))"
    and "tables_ok H (snd (fib_removeNextHop n f tb))"
    and "names (snd (fib_removeNextHop n f tb)) = names tb"
    and "fst (fib_removeNextHop n f tb) =
      (if \<not> fst (removeNextHop e f) then NO_SUCH_NEXTHOP
       else if v = None then FIB_ENTRY_REMOVED else NEXTHOP_REMOVED)"
proof -
  let ?tb1 = "fib_modify n (\<lambda>_. e') tb"
  have e'ok: "fib_slot_ok n (Some e')"
    using fib_slot_okD[OF tb e] by (simp add: fib_slot_ok_def e'_def removeNextHop_ok)
  have nte: "fe_nameTreeEntry e' = Some n" using fib_slot_okD(2)[OF tb e] by (simp add: e'_def)
  have ok1: "tables_ok H ?tb1" by (rule fib_modify_ok[OF tb e e'ok])
  have s1: "nt_slots (nameTree ?tb1) = (nt_slots (nameTree tb))(n := (Some e', snd (nt_slots (nameTree tb) n)))"
    by (rule fib_modify_slots[OF e])
  then have e1: "fib_at ?tb1 n = Some e'" by simp
  have eq: "fib_removeNextHop n f tb =
      (if \<not> fst (removeNextHop e f) then (NO_SUCH_NEXTHOP, ?tb1)
       else if \<not> hasNextHops e' then (FIB_ENTRY_REMOVED, fib_erase_nte n False ?tb1)
       else (NEXTHOP_REMOVED, ?tb1))"
    using nte by (simp add: fib_removeNextHop_def e e'_def split_beta)
  note er = fib_erase_nte_props[OF ok1 e1, of False]
  show "nt_slots (nameTree (snd (fib_removeNextHop n f tb))) =
      (nt_slots (nameTree tb))(n := (v, snd (nt_slots (nameTree tb) n)))"
    using er(1) s1 by (simp add: eq v_def)
  show "tables_ok H (snd (fib_removeNextHop n f tb))" using er(2) ok1 by (simp add: eq)
  show "names (snd (fib_removeNextHop n f tb)) = names tb" using er(4) by (simp add: eq)
  show "fst (fib_removeNextHop n f tb) =
      (if \<not> fst (removeNextHop e f) then NO_SUCH_NEXTHOP
       else if v = None then FIB_ENTRY_REMOVED else NEXTHOP_REMOVED)"
    by (simp add: eq v_def)
qed


section \<open>Sequences of operations\<close>

datatype fib_op =
    FibInsert name
  | FibAddOrUpdate name face_id u64
  | FibRemove name face_id
  | FibErase name

fun fib_exec :: "(component \<Rightarrow> u64) \<Rightarrow> fib_op \<Rightarrow> 'i tables \<Rightarrow> 'i tables" where
  "fib_exec H (FibInsert n) tb = snd (fib_insert H n tb)"
| "fib_exec H (FibAddOrUpdate n f c) tb = snd (fib_addOrUpdateNextHop n f c tb)"
| "fib_exec H (FibRemove n f) tb = snd (fib_removeNextHop n f tb)"
| "fib_exec H (FibErase n) tb = fib_erase H n tb"

fun spec_fib_exec :: "fib_op \<Rightarrow> fib_view \<Rightarrow> fib_view" where
  "spec_fib_exec (FibInsert n) V = spec_fib_insert n V"
| "spec_fib_exec (FibAddOrUpdate n f c) V = spec_fib_add n f c V"
| "spec_fib_exec (FibRemove n f) V = spec_fib_remove n f V"
| "spec_fib_exec (FibErase n) V = V(n := None)"

text \<open>
  What the class requires of its callers: a prefix to insert has at most \<open>getMaxDepth\<close> components,
  and only existing entries are changed or erased.
\<close>

fun fib_allowed :: "fib_op \<Rightarrow> fib_view \<Rightarrow> bool" where
  "fib_allowed (FibInsert n) V \<longleftrightarrow> length n \<le> getMaxDepth"
| "fib_allowed (FibAddOrUpdate n f c) V \<longleftrightarrow> V n \<noteq> None"
| "fib_allowed (FibRemove n f) V \<longleftrightarrow> V n \<noteq> None"
| "fib_allowed (FibErase n) V \<longleftrightarrow> V n \<noteq> None"

fun fib_allowed_all :: "fib_op list \<Rightarrow> fib_view \<Rightarrow> bool" where
  "fib_allowed_all [] V \<longleftrightarrow> True"
| "fib_allowed_all (op # ops) V \<longleftrightarrow> fib_allowed op V \<and> fib_allowed_all ops (spec_fib_exec op V)"

lemma fib_view_Some: "fib_view tb n = Some m \<longleftrightarrow> (\<exists>e. fib_at tb n = Some e \<and> m = fe_costs e)"
  by (auto simp: fib_view_def)

lemma fib_view_slots:
  "nt_slots (nameTree tb') = (nt_slots (nameTree tb))(n := (v, r)) \<Longrightarrow>
   fib_view tb' = (fib_view tb)(n := map_option fe_costs v)"
  by (auto simp: fib_view_def fun_eq_iff)

lemma fib_view_eq:
  "nt_slots (nameTree tb') = nt_slots (nameTree tb) \<Longrightarrow> fib_view tb' = fib_view tb"
  by (auto simp: fib_view_def fun_eq_iff)

lemma fib_insert_view:
  assumes "tables_ok H tb" and "length n \<le> getMaxDepth"
  shows "fib_view (snd (fib_insert H n tb)) = spec_fib_insert n (fib_view tb)"
proof (cases "fib_at tb n")
  case None
  then show ?thesis
    using fib_view_slots[of "snd (fib_insert H n tb)" tb n "Some (new_fib_entry n)"]
      fib_insert_props(2)[OF assms]
    by (auto simp: spec_fib_insert_def fib_view_def[of tb n] )
next
  case (Some e)
  then show ?thesis
    using fib_view_eq[of "snd (fib_insert H n tb)" tb] fib_insert_props(2)[OF assms]
    by (auto simp: spec_fib_insert_def fib_view_def[of tb n])
qed

lemma fib_add_view:
  assumes "tables_ok H tb" and "fib_at tb n = Some e"
  shows "fib_view (snd (fib_addOrUpdateNextHop n f c tb)) = spec_fib_add n f c (fib_view tb)"
  using fib_view_slots[OF fib_add_props(1)[OF assms]] fib_slot_okD(3)[OF assms] assms(2)
  by (simp add: spec_fib_add_def fib_view_def[of tb n] addOrUpdateNextHop_costs)

lemma dom_upd_None_empty: "m f \<noteq> None \<Longrightarrow> m(f := None) = Map.empty \<longleftrightarrow> dom m = {f}"
  by (auto simp: fun_eq_iff dom_def split: if_splits)

lemma fib_remove_view:
  assumes tb: "tables_ok H tb" and e: "fib_at tb n = Some e"
  shows "fib_view (snd (fib_removeNextHop n f tb)) = spec_fib_remove n f (fib_view tb)"
    and "fst (fib_removeNextHop n f tb) =
      (if fe_costs e f = None then NO_SUCH_NEXTHOP
       else if dom (fe_costs e) = {f} then FIB_ENTRY_REMOVED else NEXTHOP_REMOVED)"
proof -
  note ok = fib_slot_okD(3)[OF tb e]
  have last: "fst (removeNextHop e f) \<Longrightarrow> hasNextHops (snd (removeNextHop e f)) \<longleftrightarrow> dom (fe_costs e) \<noteq> {f}"
    by (simp add: removeNextHop_result hasNextHops_iff removeNextHop_costs[OF ok] dom_upd_None_empty
        del: not_None_eq)
  have same: "fe_costs e f = None \<Longrightarrow> (fe_costs e)(f := None) = fe_costs e" by auto
  show "fib_view (snd (fib_removeNextHop n f tb)) = spec_fib_remove n f (fib_view tb)"
    using fib_view_slots[OF fib_remove_props(1)[OF tb e]] last e same
    by (auto simp: spec_fib_remove_def fib_view_def[of tb n] removeNextHop_costs[OF ok] removeNextHop_result
        fun_upd_idem_iff)
  show "fst (fib_removeNextHop n f tb) =
      (if fe_costs e f = None then NO_SUCH_NEXTHOP
       else if dom (fe_costs e) = {f} then FIB_ENTRY_REMOVED else NEXTHOP_REMOVED)"
    using last by (simp add: fib_remove_props(4)[OF tb e] removeNextHop_result)
qed

lemma fib_erase_view:
  assumes "tables_ok H tb" and "fib_at tb n = Some e"
  shows "fib_view (fib_erase H n tb) = (fib_view tb)(n := None)"
  using fib_view_slots[OF fib_erase_nte_props(1)[OF assms, of True]]
  by (simp add: fib_erase_present[OF assms])

lemma fib_exec_refines:
  assumes tb: "tables_ok H tb" and "fib_allowed op (fib_view tb)"
  shows "tables_ok H (fib_exec H op tb) \<and> fib_view (fib_exec H op tb) = spec_fib_exec op (fib_view tb)"
proof (cases op)
  case (FibInsert n)
  then show ?thesis using assms fib_insert_props(3)[OF tb] fib_insert_view[OF tb] by simp
next
  case (FibAddOrUpdate n f c)
  then obtain e where "fib_at tb n = Some e" using assms by (auto simp: fib_view_def)
  with FibAddOrUpdate show ?thesis using fib_add_props(2)[OF tb] fib_add_view[OF tb] by simp
next
  case (FibRemove n f)
  then obtain e where "fib_at tb n = Some e" using assms by (auto simp: fib_view_def)
  with FibRemove show ?thesis using fib_remove_props(2)[OF tb] fib_remove_view[OF tb] by simp
next
  case (FibErase n)
  then obtain e where "fib_at tb n = Some e" using assms by (auto simp: fib_view_def)
  with FibErase show ?thesis
    using fib_erase_nte_props(2)[OF tb] fib_erase_view[OF tb] fib_erase_present[OF tb] by simp
qed

lemma fib_run_refines:
  assumes "tables_ok H tb" and "fib_allowed_all ops (fib_view tb)"
  shows "tables_ok H (fold (fib_exec H) ops tb) \<and>
    fib_view (fold (fib_exec H) ops tb) = fold spec_fib_exec ops (fib_view tb)"
  using assms
proof (induction ops arbitrary: tb)
  case (Cons op ops)
  then show ?case using fib_exec_refines[of H tb op] by simp
qed simp

text \<open>What the counter counts.\<close>

lemma attached_fib: "attached cnt_fib tb = card (dom (fib_view tb))"
proof -
  have d: "dom (fib_view tb) = {n \<in> dom (ht_map (nameTree tb)). fib_at tb n \<noteq> None}"
    using slot_present(1)[of tb] by (fastforce simp: fib_view_def)
  show ?thesis
    unfolding attached_def d cnt_fib_def by (simp add: sum.If_cases Int_def del: not_None_eq)
qed

lemma fib_size: "tables_ok H tb \<Longrightarrow> fib_nItems tb = of_nat (card (dom (fib_view tb)))"
  using tables_ok_counts(1) by (simp add: attached_fib)

lemma fib_view_mk [simp]: "fib_view (mk_tables k) = Map.empty"
  by (simp add: fib_view_def fun_eq_iff mk_tables_def mk_name_tree_def map_slots_def no_slots_def)


lemma fib_lpm_name:
  assumes "tables_ok H tb"
  shows "fib_findLongestPrefixMatch H n tb =
    (case longest_match (\<lambda>q. fib_at tb q \<noteq> None) n of None \<Rightarrow> s_emptyEntry | Some q \<Rightarrow> the (fib_at tb q))"
  unfolding fib_findLongestPrefixMatch_def
  by (rule fib_match_result_lpm) (rule nt_findLongestPrefixMatch_lpm[OF tables_okD(1)[OF assms]])

lemma fib_lpm_pit:
  assumes "tables_ok H tb" and "pe \<in> set (pit_at tb q)"
  shows "fib_findLongestPrefixMatch_pit H pe tb = fib_findLongestPrefixMatch H (pe_name pe) tb"
proof -
  have pe: "pe_nameTreeEntry pe = Some q" "prefix q (pe_name pe)"
    using tables_okD(6)[OF assms(1), of q] assms(2) take_is_prefix[of "pit_nteDepth (pe_name pe)" "pe_name pe"]
    by (auto simp: pit_slot_ok_def)
  show ?thesis
    unfolding fib_findLongestPrefixMatch_pit_def fib_findLongestPrefixMatch_def
    using is_lpm_unique[OF nt_findLongestPrefixMatch_pit_lpm[OF tables_okD(1)[OF assms(1)] pe(1)
        slot_present(2)[OF assms(2)] pe(2)] nt_findLongestPrefixMatch_lpm[OF tables_okD(1)[OF assms(1)]]]
    by simp
qed

lemma fib_lpm_meas:
  assumes "tables_ok H tb" and "meas_at tb q = Some me"
  shows "fib_findLongestPrefixMatch_meas me tb = fib_findLongestPrefixMatch H (me_name me) tb"
proof -
  have me: "me_name me = q" "me_nameTreeEntry me = Some q"
    using tables_okD(7)[OF assms(1), of q] assms(2) by (auto simp: meas_slot_ok_def)
  show ?thesis
    unfolding fib_findLongestPrefixMatch_meas_def fib_findLongestPrefixMatch_def me
    using is_lpm_unique[OF nt_findLongestPrefixMatch_entry_lpm[OF tables_okD(1)[OF assms(1)]
        slot_present(3)[OF assms(2)]] nt_findLongestPrefixMatch_lpm[OF tables_okD(1)[OF assms(1)]]]
    by simp
qed

section \<open>Properties\<close>

text \<open>
  C8: the FIB implements a map from prefixes to next hops. After any sequence of allowed
  operations on an empty FIB, the entries are what the operations on the map give, the counter
  is the number of entries, and the name tree is in order.
\<close>

theorem fib_implements_map:
  assumes "0 < nBuckets" and "fib_allowed_all ops Map.empty"
  shows "let tb = fold (fib_exec H) ops (mk_tables nBuckets :: 'i tables);
             V = fold spec_fib_exec ops Map.empty
         in fib_view tb = V \<and> fib_nItems tb = of_nat (card (dom V)) \<and> tables_ok H tb"
proof -
  have "tables_ok H (mk_tables nBuckets :: 'i tables)" by (rule tables_ok_mk[OF assms(1)])
  then show ?thesis
    using fib_run_refines[of H "mk_tables nBuckets :: 'i tables" ops] assms(2)
      fib_size[of H "fold (fib_exec H) ops (mk_tables nBuckets :: 'i tables)"]
    by (simp add: Let_def)
qed

theorem fib_implements_map_witness:
  "fib_view (fold (fib_exec (\<lambda>_. 7))
     [FibInsert [generic_comp ''a''], FibAddOrUpdate [generic_comp ''a''] 5 10, FibAddOrUpdate [generic_comp ''a''] 6 3,
      FibRemove [generic_comp ''a''] 5] (mk_tables 16 :: unit tables)) [generic_comp ''a''] = Some [6 \<mapsto> 3]"
proof -
  let ?n = "[generic_comp ''a'']"
  let ?ops = "[FibInsert ?n, FibAddOrUpdate ?n 5 10, FibAddOrUpdate ?n 6 3, FibRemove ?n 5]"
  have allowed: "fib_allowed_all ?ops Map.empty"
    by (simp add: getMaxDepth_def spec_fib_insert_def spec_fib_add_def)
  have "dom [5 \<mapsto> 10, 6 \<mapsto> (3::u64)] \<noteq> {5 :: face_id}" by auto
  then have "fold spec_fib_exec ?ops Map.empty ?n = Some [6 \<mapsto> 3]"
    by (simp add: spec_fib_insert_def spec_fib_add_def spec_fib_remove_def fun_upd_twist)
  then show ?thesis
    using fib_implements_map[OF _ allowed, of 16 "\<lambda>_. 7", where 'i = unit] by (simp only: Let_def)
qed

text \<open>
  C29: the signal of a new next hop names the wrong one. \<open>Entry::addOrUpdateNextHop\<close> returns
  the iterator it had before \<open>sortNextHops\<close> reordered the vector, so when the added face is
  cheaper than another next hop of the entry, \<open>afterNewNextHop\<close> is emitted with a next hop of some
  other face.
\<close>

theorem fib_signal_after_sort:
  assumes "tables_ok H tb" and "fib_at tb n = Some e" and "fe_costs e f = None"
    and "\<exists>g c'. fe_costs e g = Some c' \<and> c < c'"
  shows "\<exists>nh. fst (fib_addOrUpdateNextHop n f c tb) = Some (n, nh) \<and> nh_face nh \<noteq> f"
proof -
  let ?e' = "snd (addOrUpdateNextHop e f c)"
  note ok = fib_slot_okD(3)[OF assms(1,2)]
  have ok': "fib_entry_ok ?e'" by (rule addOrUpdateNextHop_ok[OF ok])
  have new: "\<not> hasNextHop e f" using assms(3) by (simp add: hasNextHop_iff fe_costs_None_iff)
  have len: "length (fe_nextHops ?e') = Suc (length (fe_nextHops e))"
    by (simp add: addOrUpdateNextHop_eq new)
  have it: "fst (fst (addOrUpdateNextHop e f c)) = length (fe_nextHops e)" "snd (fst (addOrUpdateNextHop e f c))"
    by (simp_all add: addOrUpdateNextHop_eq new)
  define nh where "nh = fe_nextHops ?e' ! length (fe_nextHops e)"
  obtain g c' where g: "fe_costs e g = Some c'" "c < c'" using assms(4) by blast
  then have "fe_costs ?e' g = Some c'"
    using assms(3) by (auto simp: addOrUpdateNextHop_costs[OF ok])
  then obtain i where i: "i < length (fe_nextHops ?e')" "nh_cost (fe_nextHops ?e' ! i) = c'"
    by (auto simp: fe_costs_Some_iff[OF ok'] in_set_conv_nth)
  have "nh_cost (fe_nextHops ?e' ! i) \<le> nh_cost nh"
    using ok' i(1) len sorted_nth_mono[of "map nh_cost (fe_nextHops ?e')" i "length (fe_nextHops e)"]
    by (simp add: fib_entry_ok_def nh_def)
  moreover have "nh_cost nh = c" if "nh_face nh = f"
  proof -
    have "nh \<in> set (fe_nextHops ?e')" using len by (simp add: nh_def)
    then have "fe_costs ?e' f = Some (nh_cost nh)" using that by (auto simp: fe_costs_Some_iff[OF ok'])
    then show ?thesis by (simp add: addOrUpdateNextHop_costs[OF ok])
  qed
  ultimately have "nh_face nh \<noteq> f" using g(2) i(2) by auto
  moreover have "fst (fib_addOrUpdateNextHop n f c tb) = Some (n, nh)"
    using it fib_slot_okD(1)[OF assms(1,2)]
    by (simp add: fib_addOrUpdateNextHop_def assms(2) split_beta nh_def)
  ultimately show ?thesis by blast
qed


text \<open>A FIB with one entry and one next hop, for the witnesses.\<close>

definition fib_example :: "unit tables" where
  "fib_example = snd (fib_addOrUpdateNextHop [generic_comp ''a'', generic_comp ''b''] 5 10
     (snd (fib_insert (\<lambda>_. 7) [generic_comp ''a'', generic_comp ''b''] (mk_tables 16))))"

lemma fib_example_props:
  shows "tables_ok (\<lambda>_. 7) fib_example"
    and "\<exists>e. fib_at fib_example [generic_comp ''a'', generic_comp ''b''] = Some e \<and> fe_costs e = [5 \<mapsto> 10]"
    and "fib_at fib_example [generic_comp ''a''] = None"
    and "[generic_comp ''a''] \<in> names fib_example"
proof -
  let ?n = "[generic_comp ''a'', generic_comp ''b'']"
  let ?t0 = "mk_tables 16 :: unit tables"
  let ?t1 = "snd (fib_insert (\<lambda>_. 7) ?n ?t0)"
  have ok0: "tables_ok (\<lambda>_. 7) ?t0" by (rule tables_ok_mk) simp
  have d: "length ?n \<le> getMaxDepth" by (simp add: getMaxDepth_def)
  have e0: "nt_slots (nameTree ?t0) = (\<lambda>_. no_slots)"
    by (simp add: mk_tables_def mk_name_tree_def map_slots_def fun_eq_iff)
  note ins = fib_insert_props[OF ok0 d]
  have s1: "nt_slots (nameTree ?t1) = (\<lambda>_. no_slots)(?n := (Some (new_fib_entry ?n), snd no_slots))"
    unfolding ins(2) e0 by (simp add: no_slots_def)
  then have e1: "fib_at ?t1 ?n = Some (new_fib_entry ?n)" by simp
  note add = fib_add_props[OF ins(3) e1, of 5 10]
  show "tables_ok (\<lambda>_. 7) fib_example" using add(2) by (simp add: fib_example_def)
  show "fib_at fib_example [generic_comp ''a''] = None"
    using add(1) s1 by (simp add: fib_example_def no_slots_def)
  show "\<exists>e. fib_at fib_example ?n = Some e \<and> fe_costs e = [5 \<mapsto> 10]"
    using add(1) addOrUpdateNextHop_costs[OF fib_slot_okD(3)[OF ins(3) e1], of 5 10]
    by (simp add: fib_example_def)
  show "[generic_comp ''a''] \<in> names fib_example"
    using add(3) ins(4) by (simp add: fib_example_def)
qed

theorem fib_signal_after_sort_witness:
  "\<exists>nh. fst (fib_addOrUpdateNextHop [generic_comp ''a'', generic_comp ''b''] 6 3 fib_example) =
     Some ([generic_comp ''a'', generic_comp ''b''], nh) \<and> nh_face nh \<noteq> 6"
proof -
  obtain e where e: "fib_at fib_example [generic_comp ''a'', generic_comp ''b''] = Some e" "fe_costs e = [5 \<mapsto> 10]"
    using fib_example_props(2) by blast
  have "\<exists>g c'. fe_costs e g = Some c' \<and> (3::u64) < c'" by (intro exI[of _ 5] exI[of _ 10]) (simp add: e(2))
  then show ?thesis
    using fib_signal_after_sort[OF fib_example_props(1) e(1), of 6 3] by (simp add: e(2))
qed

text \<open>
  C30: \<open>Fib::erase(const Name&)\<close> on a prefix that has a name tree entry but no FIB entry, for
  instance an ancestor of a FIB entry, leaves every FIB entry in place and still decrements the
  counter, so that \<open>size()\<close> no longer is the number of entries.
\<close>

theorem fib_erase_without_entry:
  assumes "tables_ok H tb" and "n \<in> names tb" and "fib_at tb n = None"
  shows "fib_view (fib_erase H n tb) = fib_view tb \<and> fib_nItems (fib_erase H n tb) = fib_nItems tb - 1 \<and>
    fib_nItems (fib_erase H n tb) \<noteq> of_nat (card (dom (fib_view (fib_erase H n tb))))"
proof -
  obtain nte where nte: "ht_map (nameTree tb) n = Some nte" using assms(2) by (auto simp: names_def)
  then have eq: "fib_erase H n tb = fib_erase_nte n True tb"
    by (simp add: fib_erase_def nt_findExactMatch_map tables_okD(1)[OF assms(1)] ht_map_name)
  let ?nt1 = "ht_modify n (setFibEntry None) (nameTree tb)"
  have p: "n \<in> dom (ht_map (nameTree tb))" "n \<in> dom (ht_map ?nt1)" using nte by (auto simp: ht_modify_dom)
  have "nt_slots (snd (eraseIfEmpty n True ?nt1)) = nt_slots ?nt1"
    by (rule eraseIfEmpty_props(2)[OF ht_modify_nt_inv[OF _ tables_okD(1)[OF assms(1)]] p(2)]) simp
  also have "\<dots> = nt_slots (nameTree tb)"
    using assms(3) by (simp add: ht_modify_slots p(1) slot_effect_fib fun_upd_idem_iff prod_eq_iff)
  finally have "nt_slots (nameTree (fib_erase H n tb)) = nt_slots (nameTree tb)"
    by (simp add: eq fib_erase_nte_def Let_def)
  then have v: "fib_view (fib_erase H n tb) = fib_view tb" by (rule fib_view_eq)
  moreover have c: "fib_nItems (fib_erase H n tb) = fib_nItems tb - 1"
    by (simp add: eq fib_erase_nte_def Let_def)
  moreover have "fib_nItems tb - 1 \<noteq> fib_nItems tb" by simp
  ultimately show ?thesis by (simp only: v c fib_size[OF assms(1), symmetric] simp_thms)
qed

theorem fib_erase_without_entry_witness:
  "fib_view (fib_erase (\<lambda>_. 7) [generic_comp ''a''] fib_example) = fib_view fib_example \<and>
   fib_nItems (fib_erase (\<lambda>_. 7) [generic_comp ''a''] fib_example) = fib_nItems fib_example - 1"
  using fib_erase_without_entry[OF fib_example_props(1,4,3)] by simp

end
