(* ===== verification/Cleanup.thy ===== *)
theory Cleanup
  imports Fib Pit
begin

text \<open>
  Cleaning up the tables when a face is destroyed (\<open>daemon/table/cleanup.cpp\<close>) and the network
  region table (\<open>daemon/table/network-region-table.cpp\<close>). \<open>cleanupOnFaceRemoval\<close> visits every name
  tree entry once, removes the next hops and the in- and out-records of the face, remembers entries
  that are left without a table entry, and finally erases those, the longest names first.
\<close>

section \<open>Operations\<close>

definition isInProducerRegion :: "name list \<Rightarrow> name list \<Rightarrow> bool" where
  "isInProducerRegion regions forwardingHint \<longleftrightarrow>
     list_ex (\<lambda>regionName. list_ex (\<lambda>delegation. prefix delegation regionName) forwardingHint) regions"

text \<open>
  The body of the enumeration loop. Removing a next hop may detach the FIB entry but does not erase
  name tree entries, so the enumeration is not disturbed. The multimap is the list of its insertions.
\<close>

definition cleanup_visit :: "face_id \<Rightarrow> name \<Rightarrow> 'i tables \<times> (nat \<times> name) list \<Rightarrow> 'i tables \<times> (nat \<times> name) list" where
  "cleanup_visit face n st =
     (let (tb, maybeEmptyNtes) = st;
          tb = (if fib_at tb n \<noteq> None then snd (fib_removeNextHop n face tb) else tb);
          tb = fold (\<lambda>pe. pit_deleteInOutRecords (pe_key pe) face) (pit_at tb n) tb
      in (tb, case ht_map (nameTree tb) n of
                Some nte \<Rightarrow> if \<not> hasTableEntries nte then maybeEmptyNtes @ [(length n, n)] else maybeEmptyNtes
              | None \<Rightarrow> maybeEmptyNtes))"

text \<open>A multimap keeps equal keys in order of insertion; the loop runs from its end.\<close>

definition cleanup_order :: "(nat \<times> name) list \<Rightarrow> name list" where
  "cleanup_order maybeEmptyNtes = rev (map snd (sort_key fst maybeEmptyNtes))"

definition cleanupOnFaceRemoval :: "face_id \<Rightarrow> 'i tables \<Rightarrow> 'i tables" where
  "cleanupOnFaceRemoval face tb =
     (let (tb, maybeEmptyNtes) = fold (cleanup_visit face) (fullEnumerate (\<lambda>_. True) (nameTree tb)) (tb, [])
      in fold (\<lambda>n tb. tb\<lparr>nameTree := snd (eraseIfEmpty n False (nameTree tb))\<rparr>) (cleanup_order maybeEmptyNtes) tb)"

section \<open>One visit\<close>

definition remove_face_fib :: "face_id \<Rightarrow> fib_entry \<Rightarrow> fib_entry option" where
  "remove_face_fib face e =
     (let e' = snd (removeNextHop e face) in if fst (removeNextHop e face) \<and> \<not> hasNextHops e' then None else Some e')"

definition cleanup_slots :: "face_id \<Rightarrow> 'i table_slots \<Rightarrow> 'i table_slots" where
  "cleanup_slots face sl =
     (Option.bind (fst sl) (remove_face_fib face),
      map (\<lambda>pe. deleteOutRecord face (deleteInRecord face pe)) (fst (snd sl)), snd (snd sl))"

lemma cleanup_no_slots [simp]: "cleanup_slots face no_slots = no_slots"
  by (simp add: cleanup_slots_def no_slots_def)

lemma update_first_map:
  assumes "distinct (map k xs)"
  shows "update_first (\<lambda>x. k x = a) f xs = map (\<lambda>x. if k x = a then f x else x) xs"
  using assms
proof (induction xs)
  case (Cons x xs)
  then have "k y \<noteq> k x" if "y \<in> set xs" for y using imageI[OF that, of k] by fastforce
  then show ?case using Cons by (cases "k x = a") (auto intro!: map_idI[symmetric])
qed simp

lemma pit_delete_fold:
  assumes "tables_ok H tb" and "pit_keeps f" and "distinct ks" and "\<forall>k\<in>set ks. pit_nte k = n"
  shows "tables_ok H (fold (\<lambda>k. pit_modify k f) ks tb) \<and> names (fold (\<lambda>k. pit_modify k f) ks tb) = names tb \<and>
    nt_slots (nameTree (fold (\<lambda>k. pit_modify k f) ks tb)) =
      (nt_slots (nameTree tb))(n := (fib_at tb n, map (\<lambda>pe. if pe_key pe \<in> set ks then f pe else pe) (pit_at tb n),
         snd (snd (nt_slots (nameTree tb) n))))"
  using assms
proof (induction ks arbitrary: tb)
  case (Cons k ks)
  let ?tb = "pit_modify k f tb"
  have n: "pit_nte k = n" using Cons.prems(4) by simp
  have ok: "tables_ok H ?tb" by (rule pit_modify_ok[OF Cons.prems(1,2)])
  have k: "pe_key (f pe) = pe_key pe" for pe using pit_keepsD(1)[OF Cons.prems(2)] by simp
  have "pit_at ?tb n = map (\<lambda>pe. if pe_key pe = k then f pe else pe) (pit_at tb n)"
    unfolding pit_modify_slots n by (simp add: update_first_map[OF pit_distinct[OF Cons.prems(1)]])
  then have "map (\<lambda>pe. if pe_key pe \<in> set ks then f pe else pe) (pit_at ?tb n) =
      map (\<lambda>pe. if pe_key pe \<in> set (k # ks) then f pe else pe) (pit_at tb n)"
    using Cons.prems(3) k by auto
  then show ?case
    using Cons.IH[OF ok Cons.prems(2)] Cons.prems(3,4) by (simp add: pit_modify_slots n pit_modify_names fun_eq_iff)
qed (simp add: fun_eq_iff)

lemma cleanup_visit_props:
  assumes tb: "tables_ok H tb" and n: "n \<in> names tb"
  shows "tables_ok H (fst (cleanup_visit face n (tb, m)))"
    and "names (fst (cleanup_visit face n (tb, m))) = names tb"
    and "nt_slots (nameTree (fst (cleanup_visit face n (tb, m)))) =
      (nt_slots (nameTree tb))(n := cleanup_slots face (nt_slots (nameTree tb) n))"
    and "snd (cleanup_visit face n (tb, m)) =
      (if cleanup_slots face (nt_slots (nameTree tb) n) = no_slots then m @ [(length n, n)] else m)"
proof -
  define tb1 where "tb1 = (if fib_at tb n \<noteq> None then snd (fib_removeNextHop n face tb) else tb)"
  let ?ks = "map (\<lambda>pe. pe_key pe) (pit_at tb1 n)" and ?f = "\<lambda>pe. deleteOutRecord face (deleteInRecord face pe)"
  define tb2 where "tb2 = fold (\<lambda>k. pit_modify k ?f) ?ks tb1"
  have v: "cleanup_visit face n (tb, m) = (tb2, case ht_map (nameTree tb2) n of
      Some nte \<Rightarrow> if \<not> hasTableEntries nte then m @ [(length n, n)] else m | None \<Rightarrow> m)"
    unfolding cleanup_visit_def tb2_def tb1_def by (simp add: fold_map pit_deleteInOutRecords_def[abs_def] comp_def Let_def)
  have 1: "tables_ok H tb1" "names tb1 = names tb"
    "nt_slots (nameTree tb1) = (nt_slots (nameTree tb))(n := (Option.bind (fib_at tb n) (remove_face_fib face), snd (nt_slots (nameTree tb) n)))"
  proof -
    have "tables_ok H tb1 \<and> names tb1 = names tb \<and>
      nt_slots (nameTree tb1) = (nt_slots (nameTree tb))(n := (Option.bind (fib_at tb n) (remove_face_fib face), snd (nt_slots (nameTree tb) n)))"
    proof (cases "fib_at tb n")
      case None
      then show ?thesis using tb by (auto simp: tb1_def fun_eq_iff prod_eq_iff)
    next
      case (Some e)
      then show ?thesis using fib_remove_props[OF tb Some, of face]
        by (simp add: tb1_def remove_face_fib_def Let_def del: not_None_eq)
    qed
    then show "tables_ok H tb1" "names tb1 = names tb"
      "nt_slots (nameTree tb1) = (nt_slots (nameTree tb))(n := (Option.bind (fib_at tb n) (remove_face_fib face), snd (nt_slots (nameTree tb) n)))"
      by blast+
  qed
  have 2: "tables_ok H tb2 \<and> names tb2 = names tb1 \<and> nt_slots (nameTree tb2) =
      (nt_slots (nameTree tb1))(n := (fib_at tb1 n, map (\<lambda>pe. if pe_key pe \<in> set ?ks then ?f pe else pe) (pit_at tb1 n),
         snd (snd (nt_slots (nameTree tb1) n))))"
    unfolding tb2_def
    by (rule pit_delete_fold[OF 1(1)]) (use pit_distinct[OF 1(1)] pit_slotD(2)[OF 1(1)] in auto)
  have mf: "map (\<lambda>pe. if pe_key pe \<in> (\<lambda>pe. pe_key pe) ` set es then ?f pe else pe) es = map ?f es" for es :: "'a pit_entry list"
    by (rule map_cong[OF refl]) simp
  show sl: "nt_slots (nameTree (fst (cleanup_visit face n (tb, m)))) =
      (nt_slots (nameTree tb))(n := cleanup_slots face (nt_slots (nameTree tb) n))"
    using 2 by (simp add: v cleanup_slots_def 1(3) mf)
  show "tables_ok H (fst (cleanup_visit face n (tb, m)))" "names (fst (cleanup_visit face n (tb, m))) = names tb"
    using 2 1(2) by (simp_all add: v)
  have "n \<in> names tb2" using 2 1(2) n by simp
  then obtain e where e: "ht_map (nameTree tb2) n = Some e" by (auto simp: names_def)
  have "hasTableEntries e \<longleftrightarrow> nt_slots (nameTree tb2) n \<noteq> no_slots"
    using e by (simp add: map_slots_def hasTableEntries_slots)
  also have "nt_slots (nameTree tb2) n = cleanup_slots face (nt_slots (nameTree tb) n)" using sl by (simp add: v)
  finally show "snd (cleanup_visit face n (tb, m)) =
      (if cleanup_slots face (nt_slots (nameTree tb) n) = no_slots then m @ [(length n, n)] else m)"
    using e by (simp add: v)
qed

lemma cleanup_visits:
  assumes "tables_ok H tb" and "distinct ns" and "set ns \<subseteq> names tb"
  shows "tables_ok H (fst (fold (cleanup_visit face) ns (tb, m))) \<and>
    names (fst (fold (cleanup_visit face) ns (tb, m))) = names tb \<and>
    nt_slots (nameTree (fst (fold (cleanup_visit face) ns (tb, m)))) =
      (\<lambda>q. if q \<in> set ns then cleanup_slots face (nt_slots (nameTree tb) q) else nt_slots (nameTree tb) q) \<and>
    snd (fold (cleanup_visit face) ns (tb, m)) =
      m @ map (\<lambda>n. (length n, n)) (filter (\<lambda>n. cleanup_slots face (nt_slots (nameTree tb) n) = no_slots) ns)"
  using assms
proof (induction ns arbitrary: tb m)
  case (Cons n ns)
  have n: "n \<in> names tb" using Cons.prems(3) by simp
  note v = cleanup_visit_props[OF Cons.prems(1) n, of face m]
  obtain tb1 m1 where e: "cleanup_visit face n (tb, m) = (tb1, m1)" by fastforce
  have nn: "n \<notin> set ns" using Cons.prems(2) by simp
  have f: "filter (\<lambda>q. cleanup_slots face (nt_slots (nameTree tb1) q) = no_slots) ns =
      filter (\<lambda>q. cleanup_slots face (nt_slots (nameTree tb) q) = no_slots) ns"
    using v(3) nn by (intro filter_cong) (auto simp: e)
  have "tables_ok H tb1" "set ns \<subseteq> names tb1" "distinct ns" using v(1,2) Cons.prems(2,3) by (simp_all add: e)
  from Cons.IH[OF this(1,3,2), of m1] show ?case
    using v(2-4) nn by (auto simp: e f fun_eq_iff)
qed (auto simp: fun_eq_iff)

section \<open>The erase loop\<close>

lemma tables_ok_erase_one [inv_intros]:
  assumes tb: "tables_ok H tb" and n: "n \<in> dom (ht_map (nameTree tb))"
  shows "tables_ok H (tb\<lparr>nameTree := snd (eraseIfEmpty n False (nameTree tb))\<rparr>)"
proof -
  obtain e where e: "ht_map (nameTree tb) n = Some e" using n by auto
  note er = eraseIfEmpty_single[OF tables_okD(1)[OF tb] e]
  let ?nt = "snd (eraseIfEmpty n False (nameTree tb))"
  have sub: "dom (ht_map ?nt) \<subseteq> dom (ht_map (nameTree tb))"
    unfolding er(3) using dom_remove_leaf[of "ht_map (nameTree tb)" n] by auto
  have fin: "finite (dom (ht_map (nameTree tb)))" by (rule nt.finite_present[OF tables_okD(1)[OF tb]])
  note sums = fibt.total_superset[OF er(1) fin sub] pitt.total_superset[OF er(1) fin sub]
    meast.total_superset[OF er(1) fin sub] sct.total_superset[OF er(1) fin sub]
  show ?thesis using tb er(1,2) sums by (simp add: tables_ok_def attached_def)
qed

text \<open>A name has to stay if it is a prefix of a name with table entries.\<close>

definition needed :: "(name \<Rightarrow> 'i table_slots) \<Rightarrow> name \<Rightarrow> bool" where
  "needed S q \<longleftrightarrow> (\<exists>r. prefix q r \<and> S r \<noteq> no_slots)"

lemma erase_one_needed:
  assumes inv: "nt_inv H nt" and dom: "dom (ht_map nt) = N - {q \<in> P. \<not> needed (nt_slots nt) q}"
    and q: "q \<in> N" "q \<notin> P" "nt_slots nt q = no_slots"
    and longer: "\<And>p. p \<in> N \<Longrightarrow> nt_slots nt p = no_slots \<Longrightarrow> length q < length p \<Longrightarrow> p \<in> P"
  shows "dom (ht_map (snd (eraseIfEmpty q False nt))) = N - {x \<in> insert q P. \<not> needed (nt_slots nt) x}"
proof -
  have t: "tree_ok (ht_map nt)" using inv by (simp add: nt_inv_def)
  have "q \<in> dom (ht_map nt)" using dom q by simp
  then obtain e where e: "ht_map nt q = Some e" by auto
  have nt: "\<not> hasTableEntries e" using q(3) e by (simp add: map_slots_def hasTableEntries_slots)
  have "hasChildren e \<longleftrightarrow> needed (nt_slots nt) q"
  proof
    assume "hasChildren e"
    then obtain c where "c \<in> set (nte_children e)"
      using hd_in_set[of "nte_children e"] unfolding hasChildren_def by blast
    then have c: "c \<in> dom (ht_map nt)" "c \<noteq> []" "butlast c = q" using tree_okD(6)[OF t e] by auto
    then have pc: "prefix q c" "length q < length c" by (auto simp: prefixeq_butlast)
    show "needed (nt_slots nt) q"
    proof (cases "nt_slots nt c = no_slots")
      case True
      then have "c \<in> P" using longer[of c] c(1) dom pc(2) by auto
      then have "needed (nt_slots nt) c" using c(1) dom by auto
      then show ?thesis using pc(1) by (auto simp: needed_def intro: prefix_order.trans)
    qed (use pc in \<open>auto simp: needed_def\<close>)
  next
    assume "needed (nt_slots nt) q"
    then obtain r where r: "prefix q r" "nt_slots nt r \<noteq> no_slots" by (auto simp: needed_def)
    then have "r \<in> dom (ht_map nt)" by (auto simp: map_slots_def split: option.splits)
    moreover have "strict_prefix q r" using r q(3) by (auto simp: strict_prefix_def)
    ultimately show "hasChildren e" using has_child_below[OF t e] by (simp add: hasChildren_def)
  qed
  then have "nte_isEmpty e \<longleftrightarrow> \<not> needed (nt_slots nt) q" using nt by (simp add: nte_isEmpty_def)
  then show ?thesis
    unfolding eraseIfEmpty_single(3)[OF inv e] using dom dom_remove_leaf[of "ht_map nt" q] by auto
qed

lemma erase_loop_needed:
  assumes "tables_ok H tb" and "names tb = N - {q \<in> P. \<not> needed S q}" and "nt_slots (nameTree tb) = S"
    and "distinct ns" and "set ns \<inter> P = {}" and "\<forall>q\<in>set ns. q \<in> N \<and> S q = no_slots"
    and "sorted_wrt (\<lambda>a b. length b \<le> length a) ns"
    and "\<And>p. p \<in> N \<Longrightarrow> S p = no_slots \<Longrightarrow> p \<in> P \<union> set ns"
  defines "erase \<equiv> (\<lambda>n tb. tb\<lparr>nameTree := snd (eraseIfEmpty n False (nameTree tb))\<rparr>)"
  shows "tables_ok H (fold erase ns tb) \<and> nt_slots (nameTree (fold erase ns tb)) = S \<and>
    names (fold erase ns tb) = N - {q \<in> P \<union> set ns. \<not> needed S q}"
  using assms(1-8)
proof (induction ns arbitrary: tb P)
  case (Cons q ns)
  let ?tb = "erase q tb"
  note inv = tables_okD(1)[OF Cons.prems(1)]
  have q: "q \<in> N" "q \<notin> P" "S q = no_slots" using Cons.prems(5,6) by auto
  have qd: "q \<in> dom (ht_map (nameTree tb))" using q Cons.prems(2) by (auto simp: names_def)
  have lo: "p \<in> P" if "p \<in> N" "S p = no_slots" "length q < length p" for p
  proof -
    have "p \<notin> set (q # ns)" using that(3) Cons.prems(7) by auto
    then show ?thesis using Cons.prems(8)[OF that(1,2)] by blast
  qed
  have dm: "names ?tb = N - {x \<in> insert q P. \<not> needed S x}"
    using erase_one_needed[OF inv, of N P q] Cons.prems(2,3) q lo by (simp add: erase_def names_def)
  obtain e where e: "ht_map (nameTree tb) q = Some e" using qd by auto
  have sl: "nt_slots (nameTree ?tb) = S"
    using eraseIfEmpty_single(2)[OF inv e] Cons.prems(3) by (simp add: erase_def)
  have ok: "tables_ok H ?tb" unfolding erase_def by (rule tables_ok_erase_one[OF Cons.prems(1) qd])
  have "tables_ok H (fold erase ns ?tb) \<and> nt_slots (nameTree (fold erase ns ?tb)) = S \<and>
      names (fold erase ns ?tb) = N - {x \<in> insert q P \<union> set ns. \<not> needed S x}"
    by (rule Cons.IH[OF ok dm sl]) (use Cons.prems in auto)
  then show ?case by auto
qed simp

lemma cleanup_order_props:
  assumes "distinct ns"
  shows "distinct (cleanup_order (map (\<lambda>n. (length n, n)) ns))"
    and "set (cleanup_order (map (\<lambda>n. (length n, n)) ns)) = set ns"
    and "sorted_wrt (\<lambda>a b. length b \<le> length a) (cleanup_order (map (\<lambda>n. (length n, n)) ns))"
proof -
  have s: "sort_key fst (map (\<lambda>n. (length n, n)) ns) = map (\<lambda>n. (length n, n)) (sort_key length ns)"
  proof (rule properties_for_sort_key)
    fix x
    have st: "filter (\<lambda>y. length y = k) (sort_key length ns) = filter (\<lambda>y. length y = k) ns" for k
      by (rule sort_key_stable)
    show "filter (\<lambda>y. fst x = fst y) (map (\<lambda>n. (length n, n)) (sort_key length ns)) =
        filter (\<lambda>y. fst x = fst y) (map (\<lambda>n. (length n, n)) ns)"
      using st[of "fst x"] by (simp add: filter_map comp_def eq_commute[of "fst x"])
  qed (simp_all add: comp_def)
  show "distinct (cleanup_order (map (\<lambda>n. (length n, n)) ns))"
    "set (cleanup_order (map (\<lambda>n. (length n, n)) ns)) = set ns"
    "sorted_wrt (\<lambda>a b. length b \<le> length a) (cleanup_order (map (\<lambda>n. (length n, n)) ns))"
    using assms sorted_sort_key[of length ns]
    by (simp_all add: cleanup_order_def s comp_def sorted_wrt_rev sorted_wrt_map)
qed

section \<open>The views\<close>

lemma remove_face_fib_view:
  assumes "fib_entry_ok e"
  shows "map_option fe_costs (remove_face_fib face e) =
    (if dom (fe_costs e) = {face} then None else Some ((fe_costs e)(face := None)))"
proof -
  have "dom (fe_costs e) = {face} \<longleftrightarrow> fe_costs e face \<noteq> None \<and> (fe_costs e)(face := None) = Map.empty"
    by (auto simp: dom_def fun_eq_iff set_eq_iff)
  then show ?thesis
    by (auto simp: remove_face_fib_def Let_def hasNextHops_iff removeNextHop_result removeNextHop_costs[OF assms])
qed

lemma find_map_key:
  assumes "\<And>x. k (f x) = k x"
  shows "find (\<lambda>x. k x = a) (map f xs) = map_option f (find (\<lambda>x. k x = a) xs)"
  by (induction xs) (simp_all add: assms)

lemma cleanup_effect:
  assumes tb: "tables_ok H tb"
  shows "tables_ok H (cleanupOnFaceRemoval face tb)"
    and "nt_slots (nameTree (cleanupOnFaceRemoval face tb)) = (\<lambda>q. cleanup_slots face (nt_slots (nameTree tb) q))"
    and "names (cleanupOnFaceRemoval face tb) =
      {q \<in> names tb. \<exists>r. prefix q r \<and> nt_slots (nameTree (cleanupOnFaceRemoval face tb)) r \<noteq> no_slots}"
proof -
  let ?ns = "fullEnumerate (\<lambda>_. True) (nameTree tb)"
  let ?S = "\<lambda>q. cleanup_slots face (nt_slots (nameTree tb) q)"
  have ns: "distinct ?ns" "set ?ns = names tb"
    using fullEnumerate_set[OF tables_okD(2)[OF tb], of "\<lambda>_. True"] by (auto simp: nt_selects_def names_def split: option.splits)
  have out: "nt_slots (nameTree tb) q = no_slots" if "q \<notin> names tb" for q
    using that by (simp add: names_def map_slots_def domIff)
  obtain tb1 m where f: "fold (cleanup_visit face) ?ns (tb, []) = (tb1, m)" by fastforce
  have v: "tables_ok H tb1" "names tb1 = names tb" "nt_slots (nameTree tb1) = ?S"
    "m = map (\<lambda>n. (length n, n)) (filter (\<lambda>n. ?S n = no_slots) ?ns)"
    using cleanup_visits[OF tb ns(1), of face "[]"] ns(2) out by (auto simp: f fun_eq_iff)
  let ?es = "cleanup_order m" and ?erase = "\<lambda>n tb. tb\<lparr>nameTree := snd (eraseIfEmpty n False (nameTree tb))\<rparr>"
  have es: "distinct ?es" "set ?es = {q \<in> names tb. ?S q = no_slots}" "sorted_wrt (\<lambda>a b. length b \<le> length a) ?es"
    using cleanup_order_props[of "filter (\<lambda>n. ?S n = no_slots) ?ns"] ns unfolding v(4) by auto
  have "tables_ok H (fold ?erase ?es tb1) \<and> nt_slots (nameTree (fold ?erase ?es tb1)) = ?S \<and>
      names (fold ?erase ?es tb1) = names tb - {q \<in> {} \<union> set ?es. \<not> needed ?S q}"
    by (rule erase_loop_needed[OF v(1) _ v(3) es(1) _ _ es(3)]) (use v(2) es(2) in auto)
  moreover have "cleanupOnFaceRemoval face tb = fold ?erase ?es tb1" by (simp add: cleanupOnFaceRemoval_def f)
  ultimately have r: "tables_ok H (cleanupOnFaceRemoval face tb)" "nt_slots (nameTree (cleanupOnFaceRemoval face tb)) = ?S"
    "names (cleanupOnFaceRemoval face tb) = names tb - {q \<in> set ?es. \<not> needed ?S q}" by auto
  show "tables_ok H (cleanupOnFaceRemoval face tb)" "nt_slots (nameTree (cleanupOnFaceRemoval face tb)) = ?S"
    by (rule r(1), rule r(2))
  show "names (cleanupOnFaceRemoval face tb) =
      {q \<in> names tb. \<exists>r. prefix q r \<and> nt_slots (nameTree (cleanupOnFaceRemoval face tb)) r \<noteq> no_slots}"
    unfolding r(2,3) es(2) by (auto simp: needed_def)
qed

lemma cleanup_pit:
  assumes "tables_ok H tb"
  shows "pit_deref (cleanupOnFaceRemoval face tb) k =
    map_option (\<lambda>pe. deleteOutRecord face (deleteInRecord face pe)) (pit_deref tb k)"
  by (simp add: pit_deref_def cleanup_effect(2)[OF assms] cleanup_slots_def find_map_key[where k = "\<lambda>pe. pe_key pe"]
      pit_keepsD(1)[OF pit_keeps_ops(6)])

section \<open>Properties\<close>

text \<open>
  C24: removing a face cleans all tables. After \<open>cleanupOnFaceRemoval\<close> no FIB entry has a next hop and no
  PIT entry has an in-record or out-record with the face; the other next hops and records, and the
  Measurements and Strategy Choice tables, are as before; a FIB entry is gone exactly if the face was
  its last next hop; the counters are right; and the name tree has exactly the names that are
  prefixes of names with table entries, so the assertion at the end of the function holds.
\<close>

theorem face_removal_cleans_up:
  assumes tb: "tables_ok H tb"
  shows "let tb' = cleanupOnFaceRemoval face tb
    in tables_ok H tb' \<and>
       (\<forall>n. fib_view tb' n = (case fib_view tb n of None \<Rightarrow> None
                               | Some hops \<Rightarrow> if dom hops = {face} then None else Some (hops(face := None)))) \<and>
       (\<forall>k. pit_deref tb' k = map_option (\<lambda>pe. deleteOutRecord face (deleteInRecord face pe)) (pit_deref tb k)) \<and>
       meas_at tb' = meas_at tb \<and> sc_at tb' = sc_at tb \<and>
       names tb' = {q \<in> names tb. \<exists>r. prefix q r \<and> nt_slots (nameTree tb') r \<noteq> no_slots}"
proof -
  note r = cleanup_effect[OF tb, of face]
  have "fib_view (cleanupOnFaceRemoval face tb) n = (case fib_view tb n of None \<Rightarrow> None
      | Some hops \<Rightarrow> if dom hops = {face} then None else Some (hops(face := None)))" for n
    using fib_slot_okD(3)[OF tb, of n]
    by (auto simp: fib_view_def r(2) cleanup_slots_def remove_face_fib_view split: option.splits)
  then show ?thesis using r cleanup_pit[OF tb] by (simp add: Let_def fun_eq_iff cleanup_slots_def)
qed

theorem face_removal_cleans_up_witness:
  "fib_view (cleanupOnFaceRemoval 5 fib_example) [generic_comp ''a'', generic_comp ''b''] = None \<and>
   fib_view (cleanupOnFaceRemoval 6 fib_example) [generic_comp ''a'', generic_comp ''b''] = Some [5 \<mapsto> 10]"
proof -
  obtain e where e: "fib_at fib_example [generic_comp ''a'', generic_comp ''b''] = Some e" "fe_costs e = [5 \<mapsto> 10]"
    using fib_example_props(2) by blast
  then have v: "fib_view fib_example [generic_comp ''a'', generic_comp ''b''] = Some [5 \<mapsto> 10]"
    by (simp add: fib_view_def)
  have "fib_view (cleanupOnFaceRemoval face fib_example) [generic_comp ''a'', generic_comp ''b''] =
      (if dom [5 \<mapsto> 10 :: u64] = {face} then None else Some ([5 \<mapsto> 10](face := None)))" for face
    using face_removal_cleans_up[OF fib_example_props(1), of face] v by (simp add: Let_def)
  from this[of 5] this[of 6] show ?thesis by simp
qed

end
