(* ===== verification/Content_Store.thy ===== *)
theory Content_Store
  imports Name_Order
begin

text \<open>
  The Content Store (\<open>daemon/table/cs.cpp\<close>, \<open>cs-entry.cpp\<close>) with its two replacement policies
  (\<open>cs-policy.cpp\<close>, \<open>cs-policy-lru.cpp\<close>, \<open>cs-policy-priority-fifo.cpp\<close>). The table is the ordered set
  of entries as a sorted list; an iterator into it (\<open>Policy::EntryRef\<close>) is the full name of the Data
  packet it points to, by which the entries are ordered and unique. The hooks of a policy take the
  table along, because \<open>beforeEvict\<close> makes the store erase the victim while the policy is running.
  \<open>now\<close> is the reading of the steady clock during the operation. \<open>Interest::matchesData\<close> and
  \<open>Name::getSuccessor\<close> are functions of the packet library and hence parameters.
\<close>

section \<open>Entries\<close>

record cs_entry =
  ce_data :: data
  ce_isUnsolicited :: bool
  ce_freshUntil :: time_point

text \<open>Times are unbounded: the sum does not overflow.\<close>

definition updateFreshUntil :: "time_point \<Rightarrow> cs_entry \<Rightarrow> cs_entry" where
  "updateFreshUntil now e = e\<lparr>ce_freshUntil := now + ms (data_freshnessPeriod (ce_data e))\<rparr>"

definition mk_cs_entry :: "time_point \<Rightarrow> data \<Rightarrow> bool \<Rightarrow> cs_entry" where
  "mk_cs_entry now d isUnsolicited =
     updateFreshUntil now \<lparr>ce_data = d, ce_isUnsolicited = isUnsolicited, ce_freshUntil = 0\<rparr>"

definition clearUnsolicited :: "cs_entry \<Rightarrow> cs_entry" where
  "clearUnsolicited e = e\<lparr>ce_isUnsolicited := False\<rparr>"

definition isFresh :: "time_point \<Rightarrow> cs_entry \<Rightarrow> bool" where
  "isFresh now e \<longleftrightarrow> ce_freshUntil e \<ge> now"

definition canSatisfy :: "(interest \<Rightarrow> data \<Rightarrow> bool) \<Rightarrow> time_point \<Rightarrow> interest \<Rightarrow> cs_entry \<Rightarrow> bool" where
  "canSatisfy matchesData now i e =
     (if \<not> matchesData i (ce_data e) then False
      else if int_mustBeFresh i \<and> \<not> isFresh now e then False
      else True)"

abbreviation ce_key :: "cs_entry \<Rightarrow> name" where
  "ce_key e \<equiv> data_fullName (ce_data e)"

text \<open>\<open>compare\<close> of the packet library: negative, zero or positive.\<close>

definition compare_order :: "'a :: linorder \<Rightarrow> 'a \<Rightarrow> int" where
  "compare_order a b = (if a < b then - 1 else if a = b then 0 else 1)"

definition compareQueryWithData :: "name \<Rightarrow> data \<Rightarrow> int" where
  "compareQueryWithData queryName d =
     (let queryIsFullName = endsWithDigest queryName;
          cmp = (if queryIsFullName then compare_order (butlast queryName) (data_name d)
                 else compare_order queryName (data_name d))
      in if cmp \<noteq> 0 then cmp
         else if queryIsFullName then compare_order (last queryName) (last (data_fullName d))
         else - 1)"

definition compareDataWithData :: "data \<Rightarrow> data \<Rightarrow> int" where
  "compareDataWithData lhs rhs =
     (let cmp = compare_order (data_name lhs) (data_name rhs)
      in if cmp \<noteq> 0 then cmp
         else compare_order (last (data_fullName lhs)) (last (data_fullName rhs)))"

definition entry_less_name :: "cs_entry \<Rightarrow> name \<Rightarrow> bool" where
  "entry_less_name e queryName \<longleftrightarrow> compareQueryWithData queryName (ce_data e) > 0"

definition entry_less :: "cs_entry \<Rightarrow> cs_entry \<Rightarrow> bool" where
  "entry_less lhs rhs \<longleftrightarrow> compareDataWithData (ce_data lhs) (ce_data rhs) < 0"

text \<open>\<open>Table\<close>, a \<open>std::set\<close>: \<open>emplace\<close>, \<open>lower_bound\<close> (a position) and \<open>erase\<close>.\<close>

type_synonym cs_table = "cs_entry list"

definition table_emplace :: "cs_entry \<Rightarrow> cs_table \<Rightarrow> (name \<times> bool) \<times> cs_table" where
  "table_emplace e t =
     (case find (\<lambda>x. \<not> entry_less x e \<and> \<not> entry_less e x) t of
        Some x \<Rightarrow> ((ce_key x, False), t)
      | None \<Rightarrow> ((ce_key e, True), takeWhile (\<lambda>x. entry_less x e) t @ e # dropWhile (\<lambda>x. entry_less x e) t))"

definition table_lower_bound :: "name \<Rightarrow> cs_table \<Rightarrow> nat" where
  "table_lower_bound queryName t = length (takeWhile (\<lambda>e. entry_less_name e queryName) t)"

definition table_erase :: "name \<Rightarrow> cs_table \<Rightarrow> cs_table" where
  "table_erase i t = erase_first (\<lambda>e. ce_key e = i) t"

definition table_at :: "cs_table \<Rightarrow> name \<rightharpoonup> cs_entry" where
  "table_at t i = find (\<lambda>e. ce_key e = i) t"

definition table_modify :: "name \<Rightarrow> (cs_entry \<Rightarrow> cs_entry) \<Rightarrow> cs_table \<Rightarrow> cs_table" where
  "table_modify i f t = update_first (\<lambda>e. ce_key e = i) f t"

section \<open>The LRU policy\<close>

text \<open>The queue is a sequence without duplicates, the least recently used entry first.\<close>

type_synonym lru_queue = "name list"

definition lru_insertToQueue :: "name \<Rightarrow> bool \<Rightarrow> lru_queue \<Rightarrow> lru_queue" where
  "lru_insertToQueue i isNewEntry q =
     (let q1 = (if i \<in> set q then q else q @ [i])
      in if \<not> isNewEntry then erase_first (\<lambda>k. k = i) q1 @ [i] else q1)"

fun lru_evictEntries :: "nat \<Rightarrow> lru_queue \<Rightarrow> cs_table \<Rightarrow> lru_queue \<times> cs_table" where
  "lru_evictEntries limit [] t = ([], t)"
| "lru_evictEntries limit (i # q) t =
     (if length t > limit then lru_evictEntries limit q (table_erase i t) else (i # q, t))"

definition lru_doAfterInsert :: "time_point \<Rightarrow> nat \<Rightarrow> name \<Rightarrow> lru_queue \<Rightarrow> cs_table \<Rightarrow> lru_queue \<times> cs_table" where
  "lru_doAfterInsert now limit i q t = lru_evictEntries limit (lru_insertToQueue i True q) t"

definition lru_doAfterRefresh :: "time_point \<Rightarrow> name \<Rightarrow> cs_table \<Rightarrow> lru_queue \<Rightarrow> lru_queue" where
  "lru_doAfterRefresh now i t q = lru_insertToQueue i False q"

definition lru_doBeforeErase :: "name \<Rightarrow> lru_queue \<Rightarrow> lru_queue" where
  "lru_doBeforeErase i q = erase_first (\<lambda>k. k = i) q"

definition lru_doBeforeUse :: "name \<Rightarrow> lru_queue \<Rightarrow> lru_queue" where
  "lru_doBeforeUse i q = lru_insertToQueue i False q"

section \<open>The priority FIFO policy\<close>

datatype QueueType = QUEUE_UNSOLICITED | QUEUE_STALE | QUEUE_FIFO

text \<open>\<open>EntryInfo\<close>; the event is the time at which \<open>moveToStaleQueue\<close> is scheduled.\<close>

record EntryInfo =
  queueType :: QueueType
  moveStaleEventId :: "time_point option"

record priority_fifo =
  pf_queues :: "QueueType \<Rightarrow> name list"
  pf_entryInfoMap :: "name \<rightharpoonup> EntryInfo"

definition pf_new :: priority_fifo where
  "pf_new = \<lparr>pf_queues = (\<lambda>_. []), pf_entryInfoMap = Map.empty\<rparr>"

definition pf_attachQueue :: "time_point \<Rightarrow> cs_entry \<Rightarrow> priority_fifo \<Rightarrow> priority_fifo" where
  "pf_attachQueue now e pf =
     (let i = ce_key e;
          info = (if ce_isUnsolicited e then \<lparr>queueType = QUEUE_UNSOLICITED, moveStaleEventId = None\<rparr>
                  else if \<not> isFresh now e then \<lparr>queueType = QUEUE_STALE, moveStaleEventId = None\<rparr>
                  else \<lparr>queueType = QUEUE_FIFO,
                        moveStaleEventId = Some (now + ms (data_freshnessPeriod (ce_data e)))\<rparr>);
          q = queueType info
      in \<lparr>pf_queues = (pf_queues pf)(q := pf_queues pf q @ [i]),
          pf_entryInfoMap = (pf_entryInfoMap pf)(i \<mapsto> info)\<rparr>)"

definition pf_detachQueue :: "name \<Rightarrow> priority_fifo \<Rightarrow> priority_fifo" where
  "pf_detachQueue i pf =
     (case pf_entryInfoMap pf i of
        None \<Rightarrow> pf
      | Some info \<Rightarrow>
          \<lparr>pf_queues = (pf_queues pf)(queueType info := erase_first (\<lambda>k. k = i) (pf_queues pf (queueType info))),
           pf_entryInfoMap = (pf_entryInfoMap pf)(i := None)\<rparr>)"

definition pf_moveToStaleQueue :: "name \<Rightarrow> priority_fifo \<Rightarrow> priority_fifo" where
  "pf_moveToStaleQueue i pf =
     (let qs = (pf_queues pf)(QUEUE_FIFO := erase_first (\<lambda>k. k = i) (pf_queues pf QUEUE_FIFO))
      in \<lparr>pf_queues = qs(QUEUE_STALE := qs QUEUE_STALE @ [i]),
          pf_entryInfoMap = (pf_entryInfoMap pf)(i \<mapsto> \<lparr>queueType = QUEUE_STALE, moveStaleEventId = None\<rparr>)\<rparr>)"

definition pf_victim :: "priority_fifo \<Rightarrow> name option" where
  "pf_victim pf =
     (if pf_queues pf QUEUE_UNSOLICITED \<noteq> [] then Some (hd (pf_queues pf QUEUE_UNSOLICITED))
      else if pf_queues pf QUEUE_STALE \<noteq> [] then Some (hd (pf_queues pf QUEUE_STALE))
      else if pf_queues pf QUEUE_FIFO \<noteq> [] then Some (hd (pf_queues pf QUEUE_FIFO))
      else None)"

definition pf_evictOne :: "priority_fifo \<Rightarrow> cs_table \<Rightarrow> priority_fifo \<times> cs_table" where
  "pf_evictOne pf t =
     (case pf_victim pf of None \<Rightarrow> (pf, t) | Some i \<Rightarrow> (pf_detachQueue i pf, table_erase i t))"

text \<open>The eviction loop; every round that has a victim erases it, so the size of the table bounds the rounds.\<close>

fun pf_evict_loop :: "nat \<Rightarrow> nat \<Rightarrow> priority_fifo \<times> cs_table \<Rightarrow> priority_fifo \<times> cs_table" where
  "pf_evict_loop 0 limit st = st"
| "pf_evict_loop (Suc fuel) limit st =
     (if length (snd st) > limit then pf_evict_loop fuel limit (pf_evictOne (fst st) (snd st)) else st)"

definition pf_evictEntries :: "nat \<Rightarrow> priority_fifo \<Rightarrow> cs_table \<Rightarrow> priority_fifo \<times> cs_table" where
  "pf_evictEntries limit pf t = pf_evict_loop (length t) limit (pf, t)"

definition pf_doAfterInsert ::
  "time_point \<Rightarrow> nat \<Rightarrow> name \<Rightarrow> priority_fifo \<Rightarrow> cs_table \<Rightarrow> priority_fifo \<times> cs_table" where
  "pf_doAfterInsert now limit i pf t =
     pf_evictEntries limit (case table_at t i of None \<Rightarrow> pf | Some e \<Rightarrow> pf_attachQueue now e pf) t"

definition pf_doAfterRefresh :: "time_point \<Rightarrow> name \<Rightarrow> cs_table \<Rightarrow> priority_fifo \<Rightarrow> priority_fifo" where
  "pf_doAfterRefresh now i t pf =
     (let pf1 = pf_detachQueue i pf in case table_at t i of None \<Rightarrow> pf1 | Some e \<Rightarrow> pf_attachQueue now e pf1)"

definition pf_doBeforeErase :: "name \<Rightarrow> priority_fifo \<Rightarrow> priority_fifo" where
  "pf_doBeforeErase i pf = pf_detachQueue i pf"

definition pf_doBeforeUse :: "name \<Rightarrow> priority_fifo \<Rightarrow> priority_fifo" where
  "pf_doBeforeUse i pf = pf"

section \<open>Policies\<close>

text \<open>The subclasses of \<open>Policy\<close>; the virtual functions dispatch on the subclass.\<close>

datatype policy_impl = LruPolicy lru_queue | PriorityFifoPolicy priority_fifo

definition policy_create :: "string \<Rightarrow> policy_impl option" where
  "policy_create policyName =
     (if policyName = ''lru'' then Some (LruPolicy [])
      else if policyName = ''priority_fifo'' then Some (PriorityFifoPolicy pf_new)
      else None)"

definition evictEntries :: "nat \<Rightarrow> policy_impl \<Rightarrow> cs_table \<Rightarrow> policy_impl \<times> cs_table" where
  "evictEntries limit p t =
     (case p of
        LruPolicy q \<Rightarrow> apfst LruPolicy (lru_evictEntries limit q t)
      | PriorityFifoPolicy pf \<Rightarrow> apfst PriorityFifoPolicy (pf_evictEntries limit pf t))"

definition afterInsert :: "time_point \<Rightarrow> nat \<Rightarrow> name \<Rightarrow> policy_impl \<Rightarrow> cs_table \<Rightarrow> policy_impl \<times> cs_table" where
  "afterInsert now limit i p t =
     (case p of
        LruPolicy q \<Rightarrow> apfst LruPolicy (lru_doAfterInsert now limit i q t)
      | PriorityFifoPolicy pf \<Rightarrow> apfst PriorityFifoPolicy (pf_doAfterInsert now limit i pf t))"

definition afterRefresh :: "time_point \<Rightarrow> name \<Rightarrow> cs_table \<Rightarrow> policy_impl \<Rightarrow> policy_impl" where
  "afterRefresh now i t p =
     (case p of
        LruPolicy q \<Rightarrow> LruPolicy (lru_doAfterRefresh now i t q)
      | PriorityFifoPolicy pf \<Rightarrow> PriorityFifoPolicy (pf_doAfterRefresh now i t pf))"

definition beforeErase :: "name \<Rightarrow> policy_impl \<Rightarrow> policy_impl" where
  "beforeErase i p =
     (case p of
        LruPolicy q \<Rightarrow> LruPolicy (lru_doBeforeErase i q)
      | PriorityFifoPolicy pf \<Rightarrow> PriorityFifoPolicy (pf_doBeforeErase i pf))"

definition beforeUse :: "name \<Rightarrow> policy_impl \<Rightarrow> policy_impl" where
  "beforeUse i p =
     (case p of
        LruPolicy q \<Rightarrow> LruPolicy (lru_doBeforeUse i q)
      | PriorityFifoPolicy pf \<Rightarrow> PriorityFifoPolicy (pf_doBeforeUse i pf))"

section \<open>The store\<close>

record cs =
  cs_table :: cs_table
  cs_policy :: policy_impl
  cs_limit :: nat
  cs_shouldAdmit :: bool
  cs_shouldServe :: bool

definition cs_setLimit :: "nat \<Rightarrow> cs \<Rightarrow> cs" where
  "cs_setLimit nMaxEntries c =
     (let (p, t) = evictEntries nMaxEntries (cs_policy c) (cs_table c)
      in c\<lparr>cs_limit := nMaxEntries, cs_policy := p, cs_table := t\<rparr>)"

definition mk_cs :: "nat \<Rightarrow> cs" where
  "mk_cs nMaxPackets =
     cs_setLimit nMaxPackets
       \<lparr>cs_table = [], cs_policy = LruPolicy [], cs_limit = 0, cs_shouldAdmit = True, cs_shouldServe = True\<rparr>"

definition cs_insert :: "time_point \<Rightarrow> data \<Rightarrow> bool \<Rightarrow> cs \<Rightarrow> cs" where
  "cs_insert now d isUnsolicited c =
     (if \<not> cs_shouldAdmit c \<or> cs_limit c = 0 then c
      else if data_noCache d then c
      else
        let ((it, isNewEntry), t) = table_emplace (mk_cs_entry now d isUnsolicited) (cs_table c);
            t = table_modify it (updateFreshUntil now) t
        in if \<not> isNewEntry
           then let t = table_modify it (\<lambda>e. if ce_isUnsolicited e \<and> \<not> isUnsolicited then clearUnsolicited e else e) t
                in c\<lparr>cs_table := t, cs_policy := afterRefresh now it t (cs_policy c)\<rparr>
           else let (p, t) = afterInsert now (cs_limit c) it (cs_policy c) t
                in c\<lparr>cs_table := t, cs_policy := p\<rparr>)"

definition cs_findPrefixRange :: "(name \<Rightarrow> name) \<Rightarrow> name \<Rightarrow> cs \<Rightarrow> nat \<times> nat" where
  "cs_findPrefixRange getSuccessor p c =
     (table_lower_bound p (cs_table c),
      if length p > 0 then table_lower_bound (getSuccessor p) (cs_table c) else length (cs_table c))"

text \<open>The entries between two positions of the table.\<close>

definition table_slice :: "nat \<times> nat \<Rightarrow> cs_table \<Rightarrow> cs_table" where
  "table_slice bounds t = take (snd bounds - fst bounds) (drop (fst bounds) t)"

definition cs_eraseImpl :: "(name \<Rightarrow> name) \<Rightarrow> name \<Rightarrow> nat \<Rightarrow> cs \<Rightarrow> nat \<times> cs" where
  "cs_eraseImpl getSuccessor p limit c =
     (let victims = map (\<lambda>e. ce_key e) (take limit (table_slice (cs_findPrefixRange getSuccessor p c) (cs_table c)))
      in (length victims,
          fold (\<lambda>i c. c\<lparr>cs_policy := beforeErase i (cs_policy c), cs_table := table_erase i (cs_table c)\<rparr>) victims c))"

definition cs_findImpl ::
  "(interest \<Rightarrow> data \<Rightarrow> bool) \<Rightarrow> (name \<Rightarrow> name) \<Rightarrow> time_point \<Rightarrow> interest \<Rightarrow> cs \<Rightarrow> cs_entry option \<times> cs" where
  "cs_findImpl matchesData getSuccessor now i c =
     (if \<not> cs_shouldServe c \<or> cs_limit c = 0 then (None, c)
      else
        let slice = table_slice (cs_findPrefixRange getSuccessor (int_name i) c) (cs_table c)
        in case find (canSatisfy matchesData now i) slice of
             None \<Rightarrow> (None, c)
           | Some match \<Rightarrow> (Some match, c\<lparr>cs_policy := beforeUse (ce_key match) (cs_policy c)\<rparr>))"

definition cs_find ::
  "(interest \<Rightarrow> data \<Rightarrow> bool) \<Rightarrow> (name \<Rightarrow> name) \<Rightarrow> time_point \<Rightarrow> interest \<Rightarrow> cs \<Rightarrow> data option \<times> cs" where
  "cs_find matchesData getSuccessor now i c =
     apfst (map_option ce_data) (cs_findImpl matchesData getSuccessor now i c)"

definition cs_setPolicy :: "policy_impl \<Rightarrow> cs \<Rightarrow> cs" where
  "cs_setPolicy p c = cs_setLimit (cs_limit c) (c\<lparr>cs_policy := p\<rparr>)"

definition cs_enableAdmit :: "bool \<Rightarrow> cs \<Rightarrow> cs" where
  "cs_enableAdmit b c = (if cs_shouldAdmit c = b then c else c\<lparr>cs_shouldAdmit := b\<rparr>)"

definition cs_enableServe :: "bool \<Rightarrow> cs \<Rightarrow> cs" where
  "cs_enableServe b c = (if cs_shouldServe c = b then c else c\<lparr>cs_shouldServe := b\<rparr>)"

text \<open>The scheduler fires a due \<open>moveToStaleQueue\<close> event.\<close>

definition cs_stale_event :: "time_point \<Rightarrow> name \<Rightarrow> cs \<Rightarrow> cs" where
  "cs_stale_event now i c =
     (case cs_policy c of
        LruPolicy q \<Rightarrow> c
      | PriorityFifoPolicy pf \<Rightarrow>
          (case Option.bind (pf_entryInfoMap pf i) moveStaleEventId of
             Some due \<Rightarrow> if due \<le> now then c\<lparr>cs_policy := PriorityFifoPolicy (pf_moveToStaleQueue i pf)\<rparr> else c
           | None \<Rightarrow> c))"

section \<open>The table\<close>

abbreviation ce_ord :: "cs_entry \<Rightarrow> name \<times> component" where
  "ce_ord e \<equiv> (data_name (ce_data e), data_digest_comp (ce_data e))"

abbreviation keys :: "cs_table \<Rightarrow> name set" where
  "keys t \<equiv> (\<lambda>e. ce_key e) ` set t"

definition table_ok :: "cs_table \<Rightarrow> bool" where
  "table_ok t \<longleftrightarrow> sorted_wrt entry_less t"

lemma compare_order_simps [simp]:
  "compare_order a b < 0 \<longleftrightarrow> a < b" "compare_order a b = 0 \<longleftrightarrow> a = b" "0 < compare_order a b \<longleftrightarrow> b < a"
  by (auto simp: compare_order_def)

lemma last_fullName [simp]: "last (data_fullName d) = data_digest_comp d"
  by (simp add: data_fullName_def)

lemma entry_less_iff: "entry_less a b \<longleftrightarrow> ce_ord a < ce_ord b"
  by (auto simp: entry_less_def compareDataWithData_def Let_def)

lemma ce_key_eq_iff: "ce_key a = ce_key b \<longleftrightarrow> ce_ord a = ce_ord b"
  by (simp add: data_fullName_def)

lemma entry_equiv_iff: "\<not> entry_less a b \<and> \<not> entry_less b a \<longleftrightarrow> ce_key a = ce_key b"
  unfolding entry_less_iff ce_key_eq_iff by (metis linorder_neq_iff)

lemma ce_ord_data: "ce_data a = ce_data b \<Longrightarrow> entry_less a x = entry_less b x \<and> entry_less x a = entry_less x b"
  by (simp add: entry_less_def)

lemma entry_less_trans: "entry_less a b \<Longrightarrow> entry_less b c \<Longrightarrow> entry_less a c"
  unfolding entry_less_iff by (rule less_trans)

lemma table_ok_distinct: "table_ok t \<Longrightarrow> distinct (map (\<lambda>e. ce_key e) t)"
proof (induction t)
  case (Cons a t)
  have "ce_key a \<noteq> ce_key x" if "x \<in> set t" for x
    using Cons.prems that entry_equiv_iff[of a x] by (auto simp: table_ok_def)
  then show ?case using Cons by (auto simp: table_ok_def)
qed simp

lemma table_ok_inj: "table_ok t \<Longrightarrow> a \<in> set t \<Longrightarrow> b \<in> set t \<Longrightarrow> ce_key a = ce_key b \<Longrightarrow> a = b"
  using table_ok_distinct[of t] by (simp add: distinct_map inj_on_def)

lemma table_at_Some_iff: "table_ok t \<Longrightarrow> table_at t i = Some e \<longleftrightarrow> e \<in> set t \<and> ce_key e = i"
  by (simp add: table_at_def find_key_Some_iff[OF table_ok_distinct])

lemma table_at_in: "table_ok t \<Longrightarrow> e \<in> set t \<Longrightarrow> table_at t (ce_key e) = Some e"
  by (simp add: table_at_Some_iff)

lemma table_at_None_iff: "table_at t i = None \<longleftrightarrow> i \<notin> keys t"
  by (simp add: table_at_def find_key_None_iff)

lemma table_ok_filter: "table_ok t \<Longrightarrow> table_ok (filter P t)"
  by (simp add: table_ok_def sorted_wrt_filter)

lemma table_ok_subseq: "subseq t' t \<Longrightarrow> table_ok t \<Longrightarrow> table_ok t'"
  unfolding table_ok_def by (induction rule: list_emb.induct) (auto dest: list_emb_set)

lemma table_erase_eq: "table_ok t \<Longrightarrow> table_erase i t = filter (\<lambda>e. ce_key e \<noteq> i) t"
  by (simp add: table_erase_def erase_first_key_eq_filter[OF table_ok_distinct])

lemma table_erase_props:
  assumes "table_ok t"
  shows "table_ok (table_erase i t)" and "set (table_erase i t) = {e \<in> set t. ce_key e \<noteq> i}"
    and "subseq (table_erase i t) t" and "keys (table_erase i t) = keys t - {i}"
    and "i \<in> keys t \<Longrightarrow> length (table_erase i t) = length t - 1"
  using assms length_erase_first[of t "\<lambda>e. ce_key e = i"]
  by (auto simp: table_erase_eq table_ok_filter) (auto simp: table_erase_def simp flip: table_erase_eq)

lemma table_modify_props:
  assumes "table_ok t" and f: "\<And>e. ce_data (f e) = ce_data e"
  shows "table_ok (table_modify i f t)" and "map ce_data (table_modify i f t) = map ce_data t"
    and "set (table_modify i f t) = (\<lambda>e. if ce_key e = i then f e else e) ` set t"
    and "keys (table_modify i f t) = keys t" and "length (table_modify i f t) = length t"
proof -
  show m: "map ce_data (table_modify i f t) = map ce_data t"
    by (simp add: table_modify_def map_update_first f)
  have so: "table_ok u \<longleftrightarrow> sorted_wrt (\<lambda>a b. compareDataWithData a b < 0) (map ce_data u)" for u
    by (simp add: table_ok_def sorted_wrt_map entry_less_def[abs_def])
  show "table_ok (table_modify i f t)" using assms(1) unfolding so m .
  show "set (table_modify i f t) = (\<lambda>e. if ce_key e = i then f e else e) ` set t"
    unfolding table_modify_def by (rule update_first_key_set[OF table_ok_distinct[OF assms(1)]])
  have k: "keys u = data_fullName ` set (map ce_data u)" for u by (simp add: image_image)
  show "keys (table_modify i f t) = keys t" unfolding k[of t] k[of "table_modify i f t"] m ..
  show "length (table_modify i f t) = length t" by (simp add: table_modify_def)
qed

lemma table_emplace_old:
  assumes "table_ok t" and "ce_key e \<in> keys t"
  shows "table_emplace e t = ((ce_key e, False), t)"
proof -
  obtain x where x: "x \<in> set t" "ce_key x = ce_key e" using assms(2) by auto
  have "find (\<lambda>x. ce_key x = ce_key e) t = Some x"
    using x by (simp add: find_key_Some_iff[OF table_ok_distinct[OF assms(1)]])
  then show ?thesis using x(2) by (simp add: table_emplace_def entry_equiv_iff)
qed

lemma table_emplace_new:
  assumes ok: "table_ok t" and new: "ce_key e \<notin> keys t"
  shows "\<exists>t'. table_emplace e t = ((ce_key e, True), t') \<and> table_ok t' \<and> set t' = insert e (set t) \<and>
    length t' = Suc (length t) \<and> table_erase (ce_key e) t' = t"
proof -
  let ?l = "takeWhile (\<lambda>x. entry_less x e) t" and ?r = "dropWhile (\<lambda>x. entry_less x e) t"
  let ?t = "?l @ e # ?r"
  have nk: "ce_key x \<noteq> ce_key e" if "x \<in> set t" for x using new imageI[OF that, of "\<lambda>e. ce_key e"] by metis
  then have "find (\<lambda>x. ce_key x = ce_key e) t = None" by (auto simp: find_None_iff)
  then have eq: "table_emplace e t = ((ce_key e, True), ?t)" by (simp add: table_emplace_def entry_equiv_iff)
  have lr: "?l @ ?r = t" by simp
  have so: "sorted_wrt entry_less (?l @ ?r)" using ok by (simp add: table_ok_def)
  have r: "entry_less e x" if "x \<in> set ?r" for x
  proof -
    have "?r \<noteq> []" using that by (metis empty_iff empty_set)
    then obtain y ys where ys: "?r = y # ys" by (meson neq_Nil_conv)
    have "\<not> entry_less y e" using ys by (metis dropWhile_eq_Cons_conv)
    moreover have yt: "y \<in> set t" using ys lr by (metis list.set_intros(1) set_dropWhileD)
    then have "ce_key y \<noteq> ce_key e" by (rule nk)
    ultimately have "entry_less e y" using entry_equiv_iff[of e y] by auto
    moreover have "x = y \<or> entry_less y x" using that so ys by (auto simp: sorted_wrt_append)
    ultimately show ?thesis using entry_less_trans by blast
  qed
  have l: "entry_less x e" if "x \<in> set ?l" for x using that by (rule set_takeWhileD[THEN conjunct2])
  have ok': "table_ok ?t"
    using so l r unfolding table_ok_def sorted_wrt_append sorted_wrt.simps list.set ball_simps by blast
  have st: "set ?t = insert e (set t)" using set_append[of ?l ?r, unfolded lr] by auto
  have "filter (\<lambda>x. ce_key x \<noteq> ce_key e) ?t = filter (\<lambda>x. ce_key x \<noteq> ce_key e) (?l @ ?r)"
    by (simp del: takeWhile_dropWhile_id)
  also have "\<dots> = t" unfolding lr using nk by (auto intro!: filter_True)
  finally have "table_erase (ce_key e) ?t = t" by (simp add: table_erase_eq[OF ok'])
  moreover have "length ?t = Suc (length t)" using length_append[of ?l ?r, unfolded lr] by simp
  ultimately show ?thesis using eq ok' st by blast
qed

section \<open>What the store expects of a policy\<close>

text \<open>
  The contract in the comments of \<open>cs-policy.hpp\<close>: a policy keeps a cleanup index over exactly the
  entries of the table (\<open>inv\<close>); after an insertion or an eviction the table is within the limit and
  has lost entries only; the other hooks keep the index in step with the table.
\<close>

definition refreshed :: "time_point \<Rightarrow> cs_entry \<Rightarrow> bool" where
  "refreshed now e \<longleftrightarrow> ce_freshUntil e = now + ms (data_freshnessPeriod (ce_data e))"

locale replacement_policy =
  fixes inv :: "'p \<Rightarrow> cs_table \<Rightarrow> bool"
    and fresh :: 'p
    and after_insert :: "time_point \<Rightarrow> nat \<Rightarrow> name \<Rightarrow> 'p \<Rightarrow> cs_table \<Rightarrow> 'p \<times> cs_table"
    and after_refresh :: "time_point \<Rightarrow> name \<Rightarrow> cs_table \<Rightarrow> 'p \<Rightarrow> 'p"
    and before_erase :: "name \<Rightarrow> 'p \<Rightarrow> 'p"
    and before_use :: "name \<Rightarrow> 'p \<Rightarrow> 'p"
    and evict :: "nat \<Rightarrow> 'p \<Rightarrow> cs_table \<Rightarrow> 'p \<times> cs_table"
  assumes inv_new: "inv fresh []"
    and insert_law: "table_ok t \<Longrightarrow> e \<in> set t \<Longrightarrow> refreshed now e \<Longrightarrow> inv p (table_erase (ce_key e) t) \<Longrightarrow>
      after_insert now limit (ce_key e) p t = (p', t') \<Longrightarrow> inv p' t' \<and> length t' \<le> limit \<and> subseq t' t"
    and refresh_law: "table_ok t \<Longrightarrow> e \<in> set t \<Longrightarrow> refreshed now e \<Longrightarrow> inv p (table_modify (ce_key e) g t) \<Longrightarrow>
      (\<And>x. ce_data (g x) = ce_data x) \<Longrightarrow> inv (after_refresh now (ce_key e) t p) t"
    and erase_law: "table_ok t \<Longrightarrow> inv p t \<Longrightarrow> i \<in> keys t \<Longrightarrow> inv (before_erase i p) (table_erase i t)"
    and use_law: "table_ok t \<Longrightarrow> inv p t \<Longrightarrow> i \<in> keys t \<Longrightarrow> inv (before_use i p) t"
    and evict_law: "table_ok t \<Longrightarrow> inv p t \<Longrightarrow> evict limit p t = (p', t') \<Longrightarrow>
      inv p' t' \<and> length t' \<le> limit \<and> subseq t' t"
begin

text \<open>The erase loop of the store.\<close>

lemma erase_loop:
  assumes "table_ok t" and "inv p t" and "distinct ks" and "set ks \<subseteq> keys t"
  shows "inv (fold before_erase ks p) (fold table_erase ks t) \<and>
    fold table_erase ks t = filter (\<lambda>e. ce_key e \<notin> set ks) t"
  using assms
proof (induction ks arbitrary: t p)
  case (Cons k ks)
  note er = table_erase_props[OF Cons.prems(1), of k]
  have "set ks \<subseteq> keys (table_erase k t)" using Cons.prems(3,4) er(4) by auto
  then have "inv (fold before_erase ks (before_erase k p)) (fold table_erase ks (table_erase k t)) \<and>
    fold table_erase ks (table_erase k t) = filter (\<lambda>e. ce_key e \<notin> set ks) (table_erase k t)"
    by (intro Cons.IH[OF er(1) erase_law[OF Cons.prems(1,2)]]) (use Cons.prems(3,4) in simp_all)
  moreover have "filter (\<lambda>e. ce_key e \<notin> set ks) (table_erase k t) = filter (\<lambda>e. ce_key e \<notin> set (k # ks)) t"
    by (simp add: table_erase_eq[OF Cons.prems(1)])
  ultimately show ?case by (metis fold_simps(2))
qed simp

text \<open>Emplacing a new entry and telling the policy.\<close>

lemma insert_new:
  assumes "table_ok t" and "inv p t" and "ce_key e \<notin> keys t" and "refreshed now e"
    and "table_emplace e t = ((k, b), t1)" and "after_insert now limit k p t1 = (p', t')"
  shows "inv p' t' \<and> table_ok t' \<and> length t' \<le> limit \<and> set t' \<subseteq> insert e (set t)"
proof -
  obtain t2 where t2: "table_emplace e t = ((ce_key e, True), t2)" "table_ok t2" "set t2 = insert e (set t)"
    "table_erase (ce_key e) t2 = t"
    using table_emplace_new[OF assms(1,3)] by auto
  then have k: "k = ce_key e" "t1 = t2" using assms(5) by simp_all
  have "inv p' t' \<and> length t' \<le> limit \<and> subseq t' t2"
    by (rule insert_law[OF t2(2), of e now p]) (use assms t2 k in auto)
  then show ?thesis using table_ok_subseq[OF _ t2(2)] t2(3) by (metis notin_set_nthsI subseq_conv_nths subsetI)
qed

end

section \<open>The LRU policy keeps the contract\<close>

definition lru_inv :: "lru_queue \<Rightarrow> cs_table \<Rightarrow> bool" where
  "lru_inv q t \<longleftrightarrow> distinct q \<and> set q = keys t"

lemma erase_first_eq_remove: "distinct q \<Longrightarrow> erase_first (\<lambda>k. k = i) q = filter (\<lambda>k. k \<noteq> i) q"
  using erase_first_key_eq_filter[of "\<lambda>k. k" q i] by simp

lemma lru_move_to_back:
  assumes "distinct q" and "i \<in> set q"
  shows "lru_insertToQueue i False q = filter (\<lambda>k. k \<noteq> i) q @ [i]"
  using assms by (simp add: lru_insertToQueue_def erase_first_eq_remove)

lemma lru_evict_props:
  assumes "lru_evictEntries limit q t = (q', t')" and "table_ok t" and "lru_inv q t"
  shows "lru_inv q' t' \<and> length t' \<le> limit \<and> subseq t' t"
  using assms
proof (induction limit q t rule: lru_evictEntries.induct)
  case (1 limit t)
  then show ?case by (auto simp: lru_inv_def)
next
  case (2 limit i q t)
  note er = table_erase_props[OF 2(3), of i]
  have inv: "lru_inv q (table_erase i t)" using 2(4) er(4) by (auto simp: lru_inv_def)
  show ?case
  proof (cases "length t > limit")
    case True
    then have "lru_inv q' t' \<and> length t' \<le> limit \<and> subseq t' (table_erase i t)"
      using 2(1)[OF True _ er(1) inv] 2(2) by simp
    then show ?thesis using er(3) subseq_order.trans by blast
  qed (use 2 in auto)
qed

interpretation lru: replacement_policy lru_inv "[]" lru_doAfterInsert lru_doAfterRefresh lru_doBeforeErase lru_doBeforeUse lru_evictEntries
proof (unfold_locales, goal_cases)
  case (2 t e now p limit p' t')
  have "lru_inv (p @ [ce_key e]) t"
    using 2(2,4) table_erase_props(4)[OF 2(1), of "ce_key e"] by (auto simp: lru_inv_def)
  moreover have "lru_insertToQueue (ce_key e) True p = p @ [ce_key e]"
    using 2(4) table_erase_props(4)[OF 2(1), of "ce_key e"] by (auto simp: lru_inv_def lru_insertToQueue_def)
  ultimately show ?case using lru_evict_props[OF _ 2(1)] 2(5) by (simp add: lru_doAfterInsert_def)
next
  case (3 t e now p g)
  then have "set p = keys t" "distinct p" by (simp_all add: lru_inv_def table_modify_props(4))
  then show ?case using 3(2) lru_move_to_back[of p "ce_key e"] by (auto simp: lru_inv_def lru_doAfterRefresh_def)
next
  case (4 t p i)
  then show ?case by (auto simp: lru_inv_def lru_doBeforeErase_def erase_first_eq_remove table_erase_props(4))
next
  case (5 t p i)
  then show ?case by (auto simp: lru_inv_def lru_doBeforeUse_def lru_move_to_back)
next
  case (6 t p limit p' t')
  then show ?case using lru_evict_props by blast
qed (simp add: lru_inv_def)

section \<open>The priority FIFO policy keeps the contract\<close>

text \<open>
  Every entry is in exactly one queue, the one its \<open>EntryInfo\<close> names; the unsolicited queue holds the
  unsolicited entries, and exactly the entries of the FIFO queue have an event, due when they turn
  stale.
\<close>

definition info_ok :: "cs_entry \<Rightarrow> EntryInfo \<Rightarrow> bool" where
  "info_ok e info \<longleftrightarrow> (queueType info = QUEUE_UNSOLICITED \<longleftrightarrow> ce_isUnsolicited e) \<and>
     moveStaleEventId info = (if queueType info = QUEUE_FIFO then Some (ce_freshUntil e) else None)"

definition pf_inv :: "priority_fifo \<Rightarrow> cs_table \<Rightarrow> bool" where
  "pf_inv pf t \<longleftrightarrow> dom (pf_entryInfoMap pf) = keys t \<and>
     (\<forall>q. distinct (pf_queues pf q) \<and> set (pf_queues pf q) = {k. map_option queueType (pf_entryInfoMap pf k) = Some q}) \<and>
     (\<forall>e\<in>set t. \<forall>info. pf_entryInfoMap pf (ce_key e) = Some info \<longrightarrow> info_ok e info)"

lemma pf_inv_attach:
  assumes ok: "table_ok t" and e: "e \<in> set t" and re: "refreshed now e"
    and inv: "pf_inv pf (table_erase (ce_key e) t)"
  shows "pf_inv (pf_attachQueue now e pf) t"
proof -
  let ?k = "ce_key e" and ?m = "pf_entryInfoMap pf"
  note er = table_erase_props[OF ok, of ?k]
  have d: "dom ?m = keys t - {?k}" using inv er(4) by (simp add: pf_inv_def)
  have q: "distinct (pf_queues pf q)" "set (pf_queues pf q) = {k. map_option queueType (?m k) = Some q}" for q
    using inv by (simp_all add: pf_inv_def)
  have kn: "?m ?k = None" using d by auto
  have fr: "isFresh now e" using re by (simp add: isFresh_def refreshed_def ms_def)
  define info where "info = (if ce_isUnsolicited e then \<lparr>queueType = QUEUE_UNSOLICITED, moveStaleEventId = None\<rparr>
    else \<lparr>queueType = QUEUE_FIFO, moveStaleEventId = Some (ce_freshUntil e)\<rparr>)"
  have info: "pf_attachQueue now e pf =
      \<lparr>pf_queues = (pf_queues pf)(queueType info := pf_queues pf (queueType info) @ [?k]), pf_entryInfoMap = ?m(?k \<mapsto> info)\<rparr>"
    using fr re by (simp add: pf_attachQueue_def info_def refreshed_def Let_def)
  have io: "info_ok e info" by (simp add: info_ok_def info_def)
  have "info_ok x i" if "x \<in> set t" "ce_key x \<noteq> ?k" "?m (ce_key x) = Some i" for x i
    using inv that er(2) by (auto simp: pf_inv_def)
  moreover have "x = e" if "x \<in> set t" "ce_key x = ?k" for x using table_ok_inj[OF ok that(1) e that(2)] .
  ultimately have "\<forall>x\<in>set t. \<forall>i. (?m(?k \<mapsto> info)) (ce_key x) = Some i \<longrightarrow> info_ok x i"
    using io by (metis fun_upd_apply option.inject)
  moreover have "dom (?m(?k \<mapsto> info)) = keys t" using d e by auto
  moreover have "distinct (pf_queues (pf_attachQueue now e pf) q) \<and>
      set (pf_queues (pf_attachQueue now e pf) q) = {k. map_option queueType ((?m(?k \<mapsto> info)) k) = Some q}" for q
    using q[of q] kn by (auto simp: info)
  ultimately show ?thesis by (simp add: pf_inv_def info)
qed

lemma pf_inv_detach:
  assumes ok: "table_ok t" and inv: "pf_inv pf t" and i: "i \<in> keys t"
  shows "pf_inv (pf_detachQueue i pf) (table_erase i t)"
proof -
  let ?m = "pf_entryInfoMap pf"
  note er = table_erase_props[OF ok, of i]
  have "i \<in> dom ?m" using inv i unfolding pf_inv_def by argo
  then obtain info where info: "?m i = Some info" by auto
  have q: "distinct (pf_queues pf q)" "set (pf_queues pf q) = {k. map_option queueType (?m k) = Some q}" for q
    using inv by (simp_all add: pf_inv_def)
  have eq: "pf_detachQueue i pf = \<lparr>pf_queues = (pf_queues pf)(queueType info := filter (\<lambda>k. k \<noteq> i) (pf_queues pf (queueType info))),
      pf_entryInfoMap = ?m(i := None)\<rparr>"
    by (simp add: pf_detachQueue_def info erase_first_eq_remove[OF q(1)])
  have "distinct (pf_queues (pf_detachQueue i pf) q) \<and>
      set (pf_queues (pf_detachQueue i pf) q) = {k. map_option queueType ((?m(i := None)) k) = Some q}" for q
    using q[of q] info by (auto simp: eq)
  moreover have "dom (?m(i := None)) = keys (table_erase i t)" using inv er(4) by (auto simp: pf_inv_def)
  moreover have "\<forall>e\<in>set (table_erase i t). \<forall>info. (?m(i := None)) (ce_key e) = Some info \<longrightarrow> info_ok e info"
    using inv er(2) by (auto simp: pf_inv_def)
  ultimately show ?thesis by (simp add: pf_inv_def eq)
qed

lemma pf_inv_stale:
  assumes inv: "pf_inv pf t" and i: "pf_entryInfoMap pf i = Some info" and ev: "moveStaleEventId info \<noteq> None"
    and ok: "table_ok t"
  shows "pf_inv (pf_moveToStaleQueue i pf) t"
proof -
  let ?m = "pf_entryInfoMap pf" and ?n = "\<lparr>queueType = QUEUE_STALE, moveStaleEventId = None\<rparr>"
  have "i \<in> keys t" using inv i unfolding pf_inv_def by blast
  then obtain e where e: "e \<in> set t" "ce_key e = i" by auto
  then have io: "info_ok e info" using inv i by (auto simp: pf_inv_def)
  then have fi: "queueType info = QUEUE_FIFO" "\<not> ce_isUnsolicited e" using ev by (auto simp: info_ok_def split: if_splits)
  have q: "distinct (pf_queues pf q)" "set (pf_queues pf q) = {k. map_option queueType (?m k) = Some q}" for q
    using inv by (simp_all add: pf_inv_def)
  have "distinct (pf_queues (pf_moveToStaleQueue i pf) q) \<and>
      set (pf_queues (pf_moveToStaleQueue i pf) q) = {k. map_option queueType ((?m(i \<mapsto> ?n)) k) = Some q}" for q
    using q[of q] q[of QUEUE_FIFO] q[of QUEUE_STALE] i fi
    by (cases q) (auto simp: pf_moveToStaleQueue_def Let_def erase_first_eq_remove)
  moreover have "info_ok x inf" if "x \<in> set t" "(?m(i \<mapsto> ?n)) (ce_key x) = Some inf" for x inf
  proof (cases "ce_key x = i")
    case True
    then have "x = e" using table_ok_inj[OF ok that(1) e(1)] e(2) by simp
    then show ?thesis using that(2) fi(2) e(2) by (auto simp: info_ok_def)
  qed (use that inv in \<open>auto simp: pf_inv_def\<close>)
  moreover have "dom (?m(i \<mapsto> ?n)) = keys t" using inv i by (auto simp: pf_inv_def)
  ultimately show ?thesis by (simp add: pf_inv_def pf_moveToStaleQueue_def Let_def)
qed

lemma pf_victim_tracked:
  assumes "pf_inv pf t" and "t \<noteq> []"
  shows "\<exists>i. pf_victim pf = Some i \<and> i \<in> keys t"
proof -
  have q: "set (pf_queues pf q) \<subseteq> keys t" for q using assms(1) by (auto simp: pf_inv_def)
  obtain e where "e \<in> set t" using assms(2) by (meson hd_in_set)
  then have "ce_key e \<in> dom (pf_entryInfoMap pf)" using assms(1) by (simp add: pf_inv_def)
  then obtain info where "pf_entryInfoMap pf (ce_key e) = Some info" by auto
  then have "ce_key e \<in> set (pf_queues pf (queueType info))" using assms(1) by (simp add: pf_inv_def)
  then have "pf_queues pf (queueType info) \<noteq> []" by auto
  then obtain q where "pf_victim pf = Some (hd (pf_queues pf q))" "pf_queues pf q \<noteq> []"
    unfolding pf_victim_def by (cases "queueType info") metis+
  then show ?thesis using q[of q] hd_in_set by blast
qed

lemma pf_evict_props:
  assumes "pf_evict_loop fuel limit (pf, t) = (pf', t')" and "table_ok t" and "pf_inv pf t"
    and "length t \<le> fuel + limit"
  shows "pf_inv pf' t' \<and> length t' \<le> limit \<and> subseq t' t"
  using assms
proof (induction fuel arbitrary: pf t)
  case (Suc fuel)
  show ?case
  proof (cases "length t > limit")
    case True
    then obtain i where i: "pf_victim pf = Some i" "i \<in> keys t"
      using pf_victim_tracked[OF Suc.prems(3)] by fastforce
    note er = table_erase_props[OF Suc.prems(2), of i]
    have "pf_evict_loop fuel limit (pf_detachQueue i pf, table_erase i t) = (pf', t')"
      using Suc.prems(1) True i by (simp add: pf_evictOne_def)
    then have "pf_inv pf' t' \<and> length t' \<le> limit \<and> subseq t' (table_erase i t)"
      by (rule Suc.IH[OF _ er(1) pf_inv_detach[OF Suc.prems(2,3) i(2)]]) (use Suc.prems(4) er(5) i(2) in simp)
    then show ?thesis using er(3) subseq_order.trans by blast
  qed (use Suc.prems in auto)
qed simp

interpretation pf: replacement_policy pf_inv pf_new pf_doAfterInsert pf_doAfterRefresh pf_doBeforeErase pf_doBeforeUse pf_evictEntries
proof (unfold_locales, goal_cases)
  case (2 t e now p limit p' t')
  have "pf_inv (pf_attachQueue now e p) t" by (rule pf_inv_attach[OF 2(1-4)])
  then show ?case
    using pf_evict_props[OF _ 2(1)] 2(5) table_at_in[OF 2(1,2)]
    by (simp add: pf_doAfterInsert_def pf_evictEntries_def)
next
  case (3 t e now p g)
  note mo = table_modify_props[OF 3(1,5), of "ce_key e"]
  have "pf_inv (pf_detachQueue (ce_key e) p) (table_erase (ce_key e) (table_modify (ce_key e) g t))"
    by (rule pf_inv_detach[OF mo(1) 3(4)]) (use mo(4) 3(2) in simp)
  moreover have "table_erase (ce_key e) (table_modify (ce_key e) g t) = table_erase (ce_key e) t"
    unfolding table_erase_def table_modify_def by (induction t) (simp_all add: 3(5))
  ultimately have "pf_inv (pf_attachQueue now e (pf_detachQueue (ce_key e) p)) t"
    by (intro pf_inv_attach[OF 3(1-3)]) simp
  then show ?case by (simp add: pf_doAfterRefresh_def table_at_in[OF 3(1,2)])
next
  case (4 t p i)
  then show ?case by (simp add: pf_doBeforeErase_def pf_inv_detach)
next
  case (6 t p limit p' t')
  then show ?case using pf_evict_props[OF _ 6(1,2)] by (simp add: pf_evictEntries_def)
qed (simp_all add: pf_inv_def pf_new_def pf_doBeforeUse_def)

section \<open>The dispatching policy keeps the contract\<close>

definition policy_inv :: "policy_impl \<Rightarrow> cs_table \<Rightarrow> bool" where
  "policy_inv p t = (case p of LruPolicy q \<Rightarrow> lru_inv q t | PriorityFifoPolicy pf \<Rightarrow> pf_inv pf t)"

interpretation pol: replacement_policy policy_inv "LruPolicy []" afterInsert afterRefresh beforeErase beforeUse evictEntries
proof (unfold_locales, goal_cases)
  case (2 t e now p limit p' t')
  then show ?case
    using lru.insert_law[OF 2(1-3)] pf.insert_law[OF 2(1-3)]
    by (auto simp: policy_inv_def afterInsert_def apfst_def map_prod_def split: policy_impl.splits prod.splits)
next
  case (3 t e now p g)
  then show ?case
    using lru.refresh_law[OF 3(1-3) _ 3(5)] pf.refresh_law[OF 3(1-3) _ 3(5)]
    by (auto simp: policy_inv_def afterRefresh_def split: policy_impl.splits)
next
  case (4 t p i)
  then show ?case
    using lru.erase_law pf.erase_law by (auto simp: policy_inv_def beforeErase_def split: policy_impl.splits)
next
  case (5 t p i)
  then show ?case
    using lru.use_law pf.use_law by (auto simp: policy_inv_def beforeUse_def split: policy_impl.splits)
next
  case (6 t p limit p' t')
  then show ?case
    using lru.evict_law[OF 6(1)] pf.evict_law[OF 6(1)]
    by (auto simp: policy_inv_def evictEntries_def apfst_def map_prod_def split: policy_impl.splits prod.splits)
qed (simp add: policy_inv_def lru_inv_def)

end
