(* ===== verification/Content_Store_Spec.thy ===== *)
theory Content_Store_Spec
  imports Content_Store
begin

text \<open>
  What the Content Store promises: the invariant of the store under every operation and either
  policy, lookup and erasure in terms of name prefixes, the LRU cache the store implements with its
  default policy, and the order in which the priority FIFO policy evicts.
\<close>

section \<open>Invariant\<close>

definition cs_ok :: "cs \<Rightarrow> bool" where
  "cs_ok c \<longleftrightarrow> table_ok (cs_table c) \<and> policy_inv (cs_policy c) (cs_table c) \<and> length (cs_table c) \<le> cs_limit c"

lemma cs_okD:
  assumes "cs_ok c"
  shows "table_ok (cs_table c)" "policy_inv (cs_policy c) (cs_table c)" "length (cs_table c) \<le> cs_limit c"
  using assms by (simp_all add: cs_ok_def)

lemma subseq_set_mono: "subseq xs ys \<Longrightarrow> set xs \<subseteq> set ys"
  by (metis notin_set_nthsI subseq_conv_nths subsetI)

lemma cs_setLimit_ok:
  assumes "table_ok (cs_table c)" and "policy_inv (cs_policy c) (cs_table c)"
  shows "cs_ok (cs_setLimit n c)" and "set (cs_table (cs_setLimit n c)) \<subseteq> set (cs_table c)"
proof -
  obtain p t where e: "evictEntries n (cs_policy c) (cs_table c) = (p, t)" by fastforce
  note l = pol.evict_law[OF assms e]
  show "cs_ok (cs_setLimit n c)"
    using l table_ok_subseq[OF _ assms(1)] by (simp add: cs_setLimit_def e cs_ok_def)
  show "set (cs_table (cs_setLimit n c)) \<subseteq> set (cs_table c)"
    using subseq_set_mono[of t "cs_table c"] l by (simp add: cs_setLimit_def e)
qed

lemma mk_cs_ok: "cs_ok (mk_cs n)"
  unfolding mk_cs_def by (rule cs_setLimit_ok) (simp_all add: table_ok_def policy_inv_def lru_inv_def)

text \<open>What a refresh does to the entry.\<close>

definition refresh :: "time_point \<Rightarrow> bool \<Rightarrow> cs_entry \<Rightarrow> cs_entry" where
  "refresh now isUnsolicited e =
     \<lparr>ce_data = ce_data e, ce_isUnsolicited = ce_isUnsolicited e \<and> isUnsolicited,
      ce_freshUntil = now + ms (data_freshnessPeriod (ce_data e))\<rparr>"

lemma refresh_simps [simp]: "ce_data (refresh now u e) = ce_data e" "refreshed now (refresh now u e)"
  by (simp_all add: refresh_def refreshed_def)

lemma update_first_update_first:
  "(\<And>x. k (f x) = k x) \<Longrightarrow> update_first (\<lambda>x. k x = a) g (update_first (\<lambda>x. k x = a) f xs) =
     update_first (\<lambda>x. k x = a) (g \<circ> f) xs"
  by (induction xs) auto

lemma update_first_same: "(\<And>x. x \<in> set xs \<Longrightarrow> P x \<Longrightarrow> f x = x) \<Longrightarrow> update_first P f xs = xs"
  by (induction xs) auto

lemma cs_insert_old:
  fixes now :: time_point and u :: bool and d :: data and c :: cs
  assumes "table_ok (cs_table c)" and "data_fullName d \<in> keys (cs_table c)"
    and "cs_shouldAdmit c" "cs_limit c \<noteq> 0" "\<not> data_noCache d"
  defines "t \<equiv> table_modify (data_fullName d) (refresh now u) (cs_table c)"
  shows "cs_insert now d u c = c\<lparr>cs_table := t, cs_policy := afterRefresh now (data_fullName d) t (cs_policy c)\<rparr>"
proof -
  have k: "ce_key (mk_cs_entry now d u) = data_fullName d" by (simp add: mk_cs_entry_def updateFreshUntil_def)
  have em: "table_emplace (mk_cs_entry now d u) (cs_table c) = ((data_fullName d, False), cs_table c)"
    using table_emplace_old[OF assms(1), of "mk_cs_entry now d u"] assms(2) k by simp
  have f: "(\<lambda>e. if ce_isUnsolicited e \<and> \<not> u then clearUnsolicited e else e) \<circ> updateFreshUntil now = refresh now u"
    by (rule ext) (auto simp: refresh_def updateFreshUntil_def clearUnsolicited_def)
  have "table_modify (data_fullName d) (\<lambda>e. if ce_isUnsolicited e \<and> \<not> u then clearUnsolicited e else e)
      (table_modify (data_fullName d) (updateFreshUntil now) (cs_table c)) = t"
    unfolding table_modify_def t_def f[symmetric]
    by (rule update_first_update_first) (simp add: updateFreshUntil_def)
  then show ?thesis using assms(3-5) by (simp add: cs_insert_def em Let_def)
qed

lemma cs_insert_new:
  fixes now :: time_point and u :: bool and d :: data and c :: cs
  assumes "table_ok (cs_table c)" and "data_fullName d \<notin> keys (cs_table c)"
    and "cs_shouldAdmit c" "cs_limit c \<noteq> 0" "\<not> data_noCache d"
  defines "e \<equiv> mk_cs_entry now d u"
  obtains t where "table_emplace e (cs_table c) = ((ce_key e, True), t)" and "table_ok t"
    and "set t = insert e (set (cs_table c))" and "table_erase (ce_key e) t = cs_table c"
    and "length t = Suc (length (cs_table c))"
    and "cs_insert now d u c = c\<lparr>cs_table := snd (afterInsert now (cs_limit c) (ce_key e) (cs_policy c) t),
       cs_policy := fst (afterInsert now (cs_limit c) (ce_key e) (cs_policy c) t)\<rparr>"
proof -
  have k: "ce_key e = data_fullName d" by (simp add: e_def mk_cs_entry_def updateFreshUntil_def)
  obtain t where t: "table_emplace e (cs_table c) = ((ce_key e, True), t)" "table_ok t"
    "set t = insert e (set (cs_table c))" "table_erase (ce_key e) t = cs_table c" "length t = Suc (length (cs_table c))"
    using table_emplace_new[OF assms(1), of e] assms(2) k by auto
  have "updateFreshUntil now e = e" by (simp add: e_def mk_cs_entry_def updateFreshUntil_def)
  then have "table_modify (ce_key e) (updateFreshUntil now) t = t"
    unfolding table_modify_def using table_ok_inj[OF t(2)] t(3) by (intro update_first_same) (metis insertI1)
  then have "cs_insert now d u c = c\<lparr>cs_table := snd (afterInsert now (cs_limit c) (ce_key e) (cs_policy c) t),
       cs_policy := fst (afterInsert now (cs_limit c) (ce_key e) (cs_policy c) t)\<rparr>"
    using assms(3-5) t(1) by (simp add: cs_insert_def Let_def split_beta flip: e_def)
  then show thesis using that t by blast
qed

lemma refreshed_mk [simp]: "refreshed now (mk_cs_entry now d u)" "ce_data (mk_cs_entry now d u) = d"
  by (simp_all add: refreshed_def mk_cs_entry_def updateFreshUntil_def)

lemma cs_insert_ok:
  assumes c: "cs_ok c"
  shows "cs_ok (cs_insert now d u c)"
proof (cases "cs_shouldAdmit c \<and> cs_limit c \<noteq> 0 \<and> \<not> data_noCache d")
  case True
  then have ad: "cs_shouldAdmit c" "cs_limit c \<noteq> 0" "\<not> data_noCache d" by simp_all
  note ok = cs_okD[OF c]
  show ?thesis
  proof (cases "data_fullName d \<in> keys (cs_table c)")
    case old: True
    let ?t = "table_modify (data_fullName d) (refresh now u) (cs_table c)"
    obtain x where x: "x \<in> set (cs_table c)" "ce_key x = data_fullName d" using old by auto
    note mo = table_modify_props[OF ok(1), of "refresh now u" "data_fullName d"]
    have e: "refresh now u x \<in> set ?t" using mo(3) x by (auto intro!: rev_image_eqI)
    have yx: "y = x" if "y \<in> set (cs_table c)" "ce_key y = data_fullName d" for y
      using table_ok_inj[OF ok(1) that(1) x(1)] that(2) x(2) by simp
    have undo: "table_modify (data_fullName d) (\<lambda>e. if ce_data e = ce_data x then x else e) ?t = cs_table c"
      unfolding table_modify_def
      by (subst update_first_update_first, simp, rule update_first_same) (use yx in \<open>auto dest: yx\<close>)
    have "policy_inv (afterRefresh now (ce_key (refresh now u x)) ?t (cs_policy c)) ?t"
      by (rule pol.refresh_law[OF mo(1) e, of now _ "\<lambda>e. if ce_data e = ce_data x then x else e"])
        (use ok x undo in simp_all)
    then show ?thesis
      using cs_insert_old[OF ok(1) old ad] mo(1,5) ok(3) x by (simp add: cs_ok_def)
  next
    case False
    let ?e = "mk_cs_entry now d u"
    obtain t where t: "table_emplace ?e (cs_table c) = ((ce_key ?e, True), t)" "table_ok t"
      "set t = insert ?e (set (cs_table c))" "table_erase (ce_key ?e) t = cs_table c"
      "cs_insert now d u c = c\<lparr>cs_table := snd (afterInsert now (cs_limit c) (ce_key ?e) (cs_policy c) t),
         cs_policy := fst (afterInsert now (cs_limit c) (ce_key ?e) (cs_policy c) t)\<rparr>"
      using cs_insert_new[OF ok(1) False ad] by metis
    have "?e \<in> set t" using t(3) by simp
    note l = pol.insert_law[OF t(2) this, of now "cs_policy c" "cs_limit c", unfolded t(4), OF _ ok(2) prod.collapse[symmetric]]
    show ?thesis using l table_ok_subseq[OF _ t(2)] by (simp add: t(5) cs_ok_def)
  qed
qed (use c in \<open>auto simp: cs_insert_def\<close>)

lemma cs_erase_fold:
  "fold (\<lambda>i c. c\<lparr>cs_policy := beforeErase i (cs_policy c), cs_table := table_erase i (cs_table c)\<rparr>) ks c =
     c\<lparr>cs_policy := fold beforeErase ks (cs_policy c), cs_table := fold table_erase ks (cs_table c)\<rparr>"
  by (induction ks arbitrary: c) simp_all

lemma set_table_slice: "set (table_slice b t) \<subseteq> set t"
  unfolding table_slice_def by (meson order_trans set_drop_subset set_take_subset)

lemma distinct_table_slice: "distinct (map f t) \<Longrightarrow> distinct (map f (take n (table_slice b t)))"
  unfolding table_slice_def by (metis distinct_drop distinct_take drop_map take_map)

lemma cs_eraseImpl_props:
  fixes c :: cs and p :: name and succ :: "name \<Rightarrow> name" and n :: nat
  assumes "cs_ok c"
  defines "victims \<equiv> take n (table_slice (cs_findPrefixRange succ p c) (cs_table c))"
  shows "cs_ok (snd (cs_eraseImpl succ p n c))"
    and "cs_table (snd (cs_eraseImpl succ p n c)) = filter (\<lambda>e. ce_key e \<notin> (\<lambda>e. ce_key e) ` set victims) (cs_table c)"
    and "fst (cs_eraseImpl succ p n c) = length victims"
    and "cs_limit (snd (cs_eraseImpl succ p n c)) = cs_limit c"
proof -
  note ok = cs_okD[OF assms(1)]
  let ?ks = "map (\<lambda>e. ce_key e) victims"
  have d: "distinct ?ks" unfolding victims_def by (rule distinct_table_slice[OF table_ok_distinct[OF ok(1)]])
  have "set victims \<subseteq> set (cs_table c)"
    unfolding victims_def using set_take_subset set_table_slice by (rule order_trans)
  then have s: "set ?ks \<subseteq> keys (cs_table c)" by auto
  note l = pol.erase_loop[OF ok(1,2) d s]
  have e: "cs_eraseImpl succ p n c = (length victims,
      c\<lparr>cs_policy := fold beforeErase ?ks (cs_policy c), cs_table := fold table_erase ?ks (cs_table c)\<rparr>)"
    by (simp add: cs_eraseImpl_def cs_erase_fold Let_def flip: victims_def)
  show t: "cs_table (snd (cs_eraseImpl succ p n c)) = filter (\<lambda>e. ce_key e \<notin> (\<lambda>e. ce_key e) ` set victims) (cs_table c)"
    using l by (simp add: e)
  have "length (filter P (cs_table c)) \<le> cs_limit c" for P using ok(3) by (meson length_filter_le order_trans)
  then show "cs_ok (snd (cs_eraseImpl succ p n c))"
    using l[THEN conjunct1, unfolded l[THEN conjunct2]] table_ok_filter[OF ok(1)]
    unfolding cs_ok_def e snd_conv cs.simps cs.update_convs l[THEN conjunct2] by simp
qed (simp_all add: cs_eraseImpl_def cs_erase_fold Let_def victims_def)

lemma cs_findImpl_ok: "cs_ok c \<Longrightarrow> cs_ok (snd (cs_findImpl md succ now i c))"
  using set_table_slice[of "cs_findPrefixRange succ (int_name i) c" "cs_table c"]
  by (auto simp: cs_findImpl_def Let_def cs_ok_def dest!: find_Some_in intro!: pol.use_law split: option.split)

lemma cs_stale_ok: "cs_ok c \<Longrightarrow> cs_ok (cs_stale_event now k c)"
  using pf_inv_stale
  by (auto simp: cs_stale_event_def cs_ok_def policy_inv_def bind_eq_Some_conv split: policy_impl.split option.split)

text \<open>Sequences of operations; the policy may be replaced only while the store is empty.\<close>

datatype cs_op =
    CsInsert time_point data bool
  | CsErase name nat
  | CsFind time_point interest
  | CsSetLimit nat
  | CsSetPolicy policy_impl
  | CsEnableAdmit bool
  | CsEnableServe bool
  | CsStaleEvent time_point name

fun cs_exec :: "(interest \<Rightarrow> data \<Rightarrow> bool) \<Rightarrow> (name \<Rightarrow> name) \<Rightarrow> cs_op \<Rightarrow> cs \<Rightarrow> cs" where
  "cs_exec md succ (CsInsert now d u) c = cs_insert now d u c"
| "cs_exec md succ (CsErase p n) c = snd (cs_eraseImpl succ p n c)"
| "cs_exec md succ (CsFind now i) c = snd (cs_find md succ now i c)"
| "cs_exec md succ (CsSetLimit n) c = cs_setLimit n c"
| "cs_exec md succ (CsSetPolicy p) c = cs_setPolicy p c"
| "cs_exec md succ (CsEnableAdmit b) c = cs_enableAdmit b c"
| "cs_exec md succ (CsEnableServe b) c = cs_enableServe b c"
| "cs_exec md succ (CsStaleEvent now k) c = cs_stale_event now k c"

fun cs_allowed :: "cs_op \<Rightarrow> cs \<Rightarrow> bool" where
  "cs_allowed (CsSetPolicy p) c \<longleftrightarrow> cs_table c = [] \<and> (\<exists>nm. policy_create nm = Some p)"
| "cs_allowed _ c \<longleftrightarrow> True"

fun cs_run :: "(interest \<Rightarrow> data \<Rightarrow> bool) \<Rightarrow> (name \<Rightarrow> name) \<Rightarrow> cs_op list \<Rightarrow> cs \<Rightarrow> cs option" where
  "cs_run md succ [] c = Some c"
| "cs_run md succ (op # ops) c = (if cs_allowed op c then cs_run md succ ops (cs_exec md succ op c) else None)"

lemma cs_exec_ok:
  assumes "cs_ok c" and "cs_allowed op c"
  shows "cs_ok (cs_exec md succ op c)"
proof (cases op)
  case (CsSetPolicy p)
  then have "cs_table c = []" "p = LruPolicy [] \<or> p = PriorityFifoPolicy pf_new"
    using assms(2) by (auto simp: policy_create_def split: if_splits)
  then have "policy_inv p []" using lru.inv_new pf.inv_new by (auto simp: policy_inv_def)
  then show ?thesis
    using \<open>cs_table c = []\<close> by (simp add: CsSetPolicy cs_setPolicy_def cs_setLimit_ok(1) table_ok_def)
next
  case (CsInsert now d u)
  then show ?thesis using cs_insert_ok[OF assms(1)] by simp
next
  case (CsErase p n)
  then show ?thesis using cs_eraseImpl_props(1)[OF assms(1)] by simp
next
  case (CsFind now i)
  then show ?thesis using cs_findImpl_ok[OF assms(1)] by (simp add: cs_find_def)
next
  case (CsSetLimit n)
  then show ?thesis using cs_setLimit_ok(1)[OF cs_okD(1,2)[OF assms(1)]] by simp
next
  case (CsStaleEvent now k)
  then show ?thesis using cs_stale_ok[OF assms(1)] by simp
qed (use assms(1) in \<open>simp_all add: cs_enableAdmit_def cs_enableServe_def cs_ok_def\<close>)

lemma cs_run_ok: "cs_ok c \<Longrightarrow> cs_run md succ ops c = Some c' \<Longrightarrow> cs_ok c'"
proof (induction ops arbitrary: c)
  case (Cons op ops)
  then show ?case using Cons.IH[OF cs_exec_ok[OF Cons.prems(1), of op md succ]] by (simp split: if_splits)
qed simp

section \<open>Lookup\<close>

text \<open>
  Names as the packet library lets them pass: no component has type 0, and an implicit digest can
  only be the last component of a query; the name of a Data packet has none.
\<close>

definition query_ok :: "name \<Rightarrow> bool" where
  "query_ok n \<longleftrightarrow> (\<forall>c\<in>set n. 1 \<le> comp_type c) \<and> (\<forall>c\<in>set (butlast n). 1 < comp_type c)"

definition data_ok :: "data \<Rightarrow> bool" where
  "data_ok d \<longleftrightarrow> (\<forall>c\<in>set (data_name d). 1 < comp_type c)"

definition successor_shape :: "(name \<Rightarrow> name) \<Rightarrow> bool" where
  "successor_shape succ \<longleftrightarrow> (\<forall>q c. \<exists>c'. succ (q @ [c]) = q @ [c'])"

lemma name_successor_snoc: "name_successor (q @ [c]) = q @ [comp_successor c]"
proof (induction q rule: name_successor.induct)
  case (2 d)
  then show ?case by simp
qed simp_all

lemma name_successor_shape: "successor_shape name_successor"
  by (simp add: successor_shape_def name_successor_snoc)

lemma comp_less_type: "comp_type c < comp_type d \<Longrightarrow> c < d"
  by (simp add: less_component_def component_key_def)

lemma comp_less_typeD: "c < d \<Longrightarrow> comp_type c \<le> comp_type d"
  by (auto simp: less_component_def component_key_def)

lemma query_ok_Cons: "query_ok (c # d # n) \<longleftrightarrow> 1 < comp_type c \<and> query_ok (d # n)"
  by (auto simp: query_ok_def)

lemma digest_order:
  assumes "\<forall>c\<in>set n. 1 < comp_type c" and "comp_type dg = 1" and "query_ok q"
  shows "n @ [dg] < q \<longleftrightarrow>
    (if endsWithDigest q then n < butlast q \<or> n = butlast q \<and> dg < last q else n < q)"
  using assms
proof (induction n arbitrary: q)
  case Nil
  consider "q = []" | c where "q = [c]" | c d r where "q = c # d # r" by (metis neq_Nil_conv)
  then show ?case
  proof cases
    case (2 c)
    have "dg < c" if "\<not> isImplicitSha256Digest c"
      using that Nil(2,3) 2 by (intro comp_less_type) (simp add: query_ok_def isImplicitSha256Digest_def)
    then show ?thesis using 2 by (auto simp: endsWithDigest_def)
  next
    case (3 c d r)
    then have "dg < c" using Nil by (intro comp_less_type) (simp add: query_ok_Cons)
    then show ?thesis using 3 by (simp add: endsWithDigest_def)
  qed (simp add: endsWithDigest_def)
next
  case (Cons a n)
  consider "q = []" | c where "q = [c]" | c d r where "q = c # d # r" by (metis neq_Nil_conv)
  then show ?case
  proof cases
    case (2 c)
    have "\<not> a < c \<and> a \<noteq> c" if "isImplicitSha256Digest c"
      using that Cons(2) comp_less_typeD[of a c] by (auto simp: isImplicitSha256Digest_def)
    then show ?thesis using 2 by (auto simp: endsWithDigest_def)
  next
    case (3 c d r)
    then have "n @ [dg] < d # r \<longleftrightarrow> (if endsWithDigest (d # r)
        then n < butlast (d # r) \<or> n = butlast (d # r) \<and> dg < last (d # r) else n < d # r)"
      using Cons by (intro Cons.IH) (simp_all add: query_ok_Cons)
    then show ?thesis using 3 by (auto simp: endsWithDigest_def)
  qed (simp add: endsWithDigest_def)
qed

lemma entry_less_name_iff:
  assumes "query_ok q" and "data_ok (ce_data e)"
  shows "entry_less_name e q \<longleftrightarrow> ce_key e < q"
proof -
  have "ce_key e < q \<longleftrightarrow> (if endsWithDigest q
      then data_name (ce_data e) < butlast q \<or> data_name (ce_data e) = butlast q \<and> data_digest_comp (ce_data e) < last q
      else data_name (ce_data e) < q)"
    unfolding data_fullName_def
    by (rule digest_order) (use assms in \<open>simp_all add: data_ok_def data_digest_comp_def\<close>)
  then show ?thesis
    by (auto simp: entry_less_name_def compareQueryWithData_def Let_def compare_order_def split: if_splits)
qed

lemma query_ok_fullName: "data_ok d \<Longrightarrow> query_ok (data_fullName d)"
  by (auto simp: query_ok_def data_ok_def data_fullName_def data_digest_comp_def butlast_append)

lemma entry_less_key:
  assumes "data_ok (ce_data a)" and "data_ok (ce_data b)"
  shows "entry_less a b \<longleftrightarrow> ce_key a < ce_key b"
proof -
  have "entry_less_name a (ce_key b) \<longleftrightarrow> entry_less a b"
    by (auto simp: entry_less_name_def entry_less_def compareQueryWithData_def compareDataWithData_def Let_def
        data_fullName_def endsWithDigest_def isImplicitSha256Digest_def data_digest_comp_def compare_order_def)
  then show ?thesis using entry_less_name_iff[OF query_ok_fullName[OF assms(2)] assms(1)] by simp
qed

lemma table_sorted:
  assumes "table_ok t" and "\<forall>e\<in>set t. data_ok (ce_data e)"
  shows "sorted_wrt (\<lambda>a b. ce_key a < ce_key b) t"
  using assms unfolding table_ok_def
  by (auto intro!: sorted_wrt_mono_rel[of t entry_less] simp: entry_less_key)

lemma slice_between:
  fixes k :: "'a \<Rightarrow> 'b :: linorder"
  assumes "sorted_wrt (\<lambda>a b. k a < k b) t" and "lo \<le> hi"
  shows "take (length (takeWhile (\<lambda>e. k e < hi) t) - length (takeWhile (\<lambda>e. k e < lo) t))
      (drop (length (takeWhile (\<lambda>e. k e < lo) t)) t) = filter (\<lambda>e. lo \<le> k e \<and> k e < hi) t"
  using assms
proof (induction t)
  case (Cons a t)
  have so: "sorted_wrt (\<lambda>a b. k a < k b) t" and a: "\<And>x. x \<in> set t \<Longrightarrow> k a < k x" using Cons.prems(1) by auto
  consider "k a < lo" | "lo \<le> k a" "k a < hi" | "hi \<le> k a" by fastforce
  then show ?case
  proof cases
    case 1
    then have "k a < hi" using Cons.prems(2) by simp
    then show ?thesis using 1 Cons.IH[OF so Cons.prems(2)] by simp
  next
    case 2
    then have "takeWhile (\<lambda>e. k e < lo) t = []"
      using a[of "hd t"] by (cases t) (auto simp: not_less)
    then show ?thesis using 2 Cons.IH[OF so Cons.prems(2)] by simp
  next
    case 3
    then have "filter (\<lambda>e. lo \<le> k e \<and> k e < hi) t = []"
      using a by (fastforce simp: filter_empty_conv)
    then show ?thesis using 3 Cons.prems(2) by auto
  qed
qed simp

lemma query_ok_successor:
  assumes law: "successor_law succ" and shape: "successor_shape succ" and q: "query_ok p" and ne: "p \<noteq> []"
  shows "query_ok (succ p)" and "p \<le> succ p"
proof -
  obtain c' where c': "succ p = butlast p @ [c']"
    using shape ne unfolding successor_shape_def by (metis append_butlast_last_id)
  have lt: "p < succ p" using successor_lawD[OF law ne, of p] by simp
  then show "p \<le> succ p" by simp
  have "a @ [x] < a @ [y] \<longleftrightarrow> x < y" for a :: name and x y by (induction a) simp_all
  then have "last p < c'" using lt c' ne by (metis append_butlast_last_id)
  then have "comp_type (last p) \<le> comp_type c'" by (rule comp_less_typeD)
  moreover have "1 \<le> comp_type (last p)" using q ne by (simp add: query_ok_def)
  ultimately show "query_ok (succ p)" using q unfolding c' query_ok_def by (auto dest: in_set_butlastD)
qed

lemma findPrefixRange_slice:
  assumes t: "table_ok (cs_table c)" and d: "\<forall>e\<in>set (cs_table c). data_ok (ce_data e)" and q: "query_ok p"
    and law: "successor_law succ" and shape: "successor_shape succ"
  shows "table_slice (cs_findPrefixRange succ p c) (cs_table c) = filter (\<lambda>e. prefix p (ce_key e)) (cs_table c)"
proof -
  let ?t = "cs_table c"
  have lb: "table_lower_bound r ?t = length (takeWhile (\<lambda>e. ce_key e < r) ?t)" if "query_ok r" for r
    unfolding table_lower_bound_def using d entry_less_name_iff[OF that] by (intro arg_cong[of _ _ length] takeWhile_cong) auto
  show ?thesis
  proof (cases "p = []")
    case True
    have "takeWhile (\<lambda>e. False) ?t = []" by (cases ?t) simp_all
    then show ?thesis using True lb[OF q] by (simp add: table_slice_def cs_findPrefixRange_def)
  next
    case False
    note s = query_ok_successor[OF law shape q False]
    have "table_slice (cs_findPrefixRange succ p c) ?t = filter (\<lambda>e. p \<le> ce_key e \<and> ce_key e < succ p) ?t"
      using slice_between[OF table_sorted[OF t d] s(2)] lb[OF q] lb[OF s(1)] False
      by (simp add: table_slice_def cs_findPrefixRange_def)
    also have "\<dots> = filter (\<lambda>e. prefix p (ce_key e)) ?t"
      using successor_lawD[OF law False] prefix_le by (auto intro!: filter_cong)
    finally show ?thesis .
  qed
qed

lemma find_filter_implied: "(\<And>x. P x \<Longrightarrow> Q x) \<Longrightarrow> find P (filter Q xs) = find P xs"
  by (induction xs) auto

lemma find_sorted_least:
  fixes k :: "'a \<Rightarrow> 'b :: linorder"
  assumes "sorted_wrt (\<lambda>a b. k a < k b) t"
  shows "find P t = Some e \<longleftrightarrow> e \<in> set t \<and> P e \<and> (\<forall>x\<in>set t. P x \<longrightarrow> k e \<le> k x)"
  using assms
proof (induction t)
  case (Cons a t)
  then have a: "\<And>x. x \<in> set t \<Longrightarrow> k a < k x" by auto
  show ?case using Cons a by (auto simp: not_le less_imp_le dest: leD)
qed simp

lemma cs_findImpl_least:
  assumes "cs_ok c" and "\<forall>e\<in>set (cs_table c). data_ok (ce_data e)" and "query_ok (int_name i)"
    and "successor_law succ" and "successor_shape succ"
    and md: "\<And>d. md i d \<Longrightarrow> prefix (int_name i) (data_fullName d)"
  shows "fst (cs_findImpl md succ now i c) = Some e \<longleftrightarrow>
    cs_shouldServe c \<and> cs_limit c \<noteq> 0 \<and> e \<in> set (cs_table c) \<and> canSatisfy md now i e \<and>
    (\<forall>x\<in>set (cs_table c). canSatisfy md now i x \<longrightarrow> ce_key e \<le> ce_key x)"
proof -
  have "find (canSatisfy md now i) (table_slice (cs_findPrefixRange succ (int_name i) c) (cs_table c)) =
      find (canSatisfy md now i) (cs_table c)"
    unfolding findPrefixRange_slice[OF cs_okD(1)[OF assms(1)] assms(2-5)]
    by (rule find_filter_implied) (auto simp: canSatisfy_def intro: md split: if_splits)
  then show ?thesis
    using find_sorted_least[OF table_sorted[OF cs_okD(1)[OF assms(1)] assms(2)], of "canSatisfy md now i" e]
    by (auto simp: cs_findImpl_def Let_def split: option.splits)
qed

section \<open>The LRU cache the store implements\<close>

text \<open>
  The specification is a bounded list of entries, the least recently used first: no table, no queue,
  no index. \<open>lru_view\<close> reads it off a store that runs the LRU policy.
\<close>

record lru_cache =
  lc_limit :: nat
  lc_admit :: bool
  lc_serve :: bool
  lc_entries :: "cs_entry list"

definition spec_touch :: "cs_entry \<Rightarrow> cs_entry list \<Rightarrow> cs_entry list" where
  "spec_touch e es = filter (\<lambda>x. ce_key x \<noteq> ce_key e) es @ [e]"

definition spec_cs_insert :: "time_point \<Rightarrow> data \<Rightarrow> bool \<Rightarrow> lru_cache \<Rightarrow> lru_cache" where
  "spec_cs_insert now d u lc =
     (if \<not> lc_admit lc \<or> lc_limit lc = 0 \<or> data_noCache d then lc
      else case find (\<lambda>e. ce_key e = data_fullName d) (lc_entries lc) of
             Some e \<Rightarrow> lc\<lparr>lc_entries := spec_touch (refresh now u e) (lc_entries lc)\<rparr>
           | None \<Rightarrow> lc\<lparr>lc_entries := drop (Suc (length (lc_entries lc)) - lc_limit lc)
                                         (lc_entries lc @ [mk_cs_entry now d u])\<rparr>)"

definition spec_cs_match :: "(interest \<Rightarrow> data \<Rightarrow> bool) \<Rightarrow> time_point \<Rightarrow> interest \<Rightarrow> lru_cache \<Rightarrow> cs_entry option" where
  "spec_cs_match md now i lc =
     (if \<not> lc_serve lc \<or> lc_limit lc = 0 then None
      else find (\<lambda>e. canSatisfy md now i e \<and> (\<forall>x\<in>set (lc_entries lc). canSatisfy md now i x \<longrightarrow> ce_key e \<le> ce_key x))
             (lc_entries lc))"

definition spec_cs_find :: "(interest \<Rightarrow> data \<Rightarrow> bool) \<Rightarrow> time_point \<Rightarrow> interest \<Rightarrow> lru_cache \<Rightarrow> lru_cache" where
  "spec_cs_find md now i lc =
     (case spec_cs_match md now i lc of None \<Rightarrow> lc | Some e \<Rightarrow> lc\<lparr>lc_entries := spec_touch e (lc_entries lc)\<rparr>)"

definition spec_cs_erase :: "name \<Rightarrow> nat \<Rightarrow> lru_cache \<Rightarrow> lru_cache" where
  "spec_cs_erase p n lc =
     (let victims = take n (sort (filter (prefix p) (map (\<lambda>e. ce_key e) (lc_entries lc))))
      in lc\<lparr>lc_entries := filter (\<lambda>e. ce_key e \<notin> set victims) (lc_entries lc)\<rparr>)"

fun spec_cs_exec :: "(interest \<Rightarrow> data \<Rightarrow> bool) \<Rightarrow> cs_op \<Rightarrow> lru_cache \<Rightarrow> lru_cache" where
  "spec_cs_exec md (CsInsert now d u) lc = spec_cs_insert now d u lc"
| "spec_cs_exec md (CsErase p n) lc = spec_cs_erase p n lc"
| "spec_cs_exec md (CsFind now i) lc = spec_cs_find md now i lc"
| "spec_cs_exec md (CsSetLimit n) lc = lc\<lparr>lc_limit := n, lc_entries := drop (length (lc_entries lc) - n) (lc_entries lc)\<rparr>"
| "spec_cs_exec md (CsEnableAdmit b) lc = lc\<lparr>lc_admit := b\<rparr>"
| "spec_cs_exec md (CsEnableServe b) lc = lc\<lparr>lc_serve := b\<rparr>"
| "spec_cs_exec md _ lc = lc"

definition lview :: "cs_table \<Rightarrow> lru_queue \<Rightarrow> cs_entry list" where
  "lview t q = map (\<lambda>k. the (table_at t k)) q"

definition lru_view :: "cs \<Rightarrow> lru_cache option" where
  "lru_view c =
     (case cs_policy c of
        LruPolicy q \<Rightarrow> Some \<lparr>lc_limit = cs_limit c, lc_admit = cs_shouldAdmit c, lc_serve = cs_shouldServe c,
                            lc_entries = lview (cs_table c) q\<rparr>
      | PriorityFifoPolicy _ \<Rightarrow> None)"

lemma lview_props:
  assumes "table_ok t" and "lru_inv q t"
  shows "map (\<lambda>e. ce_key e) (lview t q) = q" and "set (lview t q) = set t" and "length t = length q"
proof -
  have k: "\<exists>e. table_at t k = Some e \<and> e \<in> set t \<and> ce_key e = k" if "k \<in> set q" for k
    using that assms table_at_Some_iff[OF assms(1)] by (fastforce simp: lru_inv_def)
  show m: "map (\<lambda>e. ce_key e) (lview t q) = q" unfolding lview_def using k by (fastforce intro!: map_idI)
  have "e \<in> set (lview t q)" if "e \<in> set t" for e
    unfolding lview_def using that table_at_in[OF assms(1) that] assms(2) by (force simp: lru_inv_def image_iff)
  moreover have "the (table_at t k) \<in> set t" if "k \<in> set q" for k using k[OF that] by auto
  ultimately show "set (lview t q) = set t" by (auto simp: lview_def)
  have "length q = card (keys t)" using assms(2) distinct_card by (fastforce simp: lru_inv_def)
  also have "\<dots> = length t" using table_ok_distinct[OF assms(1)] distinct_card[of "map (\<lambda>e. ce_key e) t"] by simp
  finally show "length t = length q" ..
qed

lemma lview_cong: "(\<And>k. k \<in> set q \<Longrightarrow> table_at t k = table_at t' k) \<Longrightarrow> lview t q = lview t' q"
  by (simp add: lview_def)

lemma lview_filter:
  assumes "table_ok t" and "lru_inv q t"
  shows "lview t (filter P q) = filter (\<lambda>e. P (ce_key e)) (lview t q)"
proof -
  have "lview t (filter P q) = lview t (filter P (map (\<lambda>e. ce_key e) (lview t q)))"
    by (simp add: lview_props(1)[OF assms])
  also have "\<dots> = map (\<lambda>e. the (table_at t (ce_key e))) (filter (\<lambda>e. P (ce_key e)) (lview t q))"
    unfolding lview_def by (simp add: filter_map comp_def)
  also have "\<dots> = filter (\<lambda>e. P (ce_key e)) (lview t q)"
    by (rule map_idI) (use table_at_in[OF assms(1)] lview_props(2)[OF assms] in auto)
  finally show ?thesis .
qed

lemma lview_touch:
  assumes "table_ok t" and "lru_inv q t" and "e \<in> set t"
  shows "lview t (filter (\<lambda>k. k \<noteq> ce_key e) q @ [ce_key e]) = spec_touch e (lview t q)"
  using lview_filter[OF assms(1,2), of "\<lambda>k. k \<noteq> ce_key e"] table_at_in[OF assms(1,3)]
  by (simp add: spec_touch_def lview_def)

lemma table_at_modify:
  assumes "\<And>e. ce_data (f e) = ce_data e"
  shows "table_at (table_modify i f t) k = (if k = i then map_option f (table_at t i) else table_at t k)"
  unfolding table_at_def table_modify_def by (induction t) (auto simp: assms)

lemma lru_evict_drop:
  assumes "table_ok t" and "lru_inv q t"
  shows "lru_evictEntries limit q t =
    (drop (length t - limit) q, filter (\<lambda>e. ce_key e \<in> set (drop (length t - limit) q)) t)"
  using assms
proof (induction limit q t rule: lru_evictEntries.induct)
  case (1 limit t)
  then show ?case by (simp add: lru_inv_def)
next
  case (2 limit i q t)
  note er = table_erase_props[OF 2(2), of i]
  have i: "i \<in> keys t" and inv: "lru_inv q (table_erase i t)" using 2(3) er(4) by (auto simp: lru_inv_def)
  have sub: "set (drop n q) \<subseteq> set q" for n by (rule set_drop_subset)
  have iq: "i \<notin> set q" using 2(3) by (simp add: lru_inv_def)
  show ?case
  proof (cases "length t > limit")
    case True
    have n: "length t - limit = Suc (length (table_erase i t) - limit)" using True er(5)[OF i] by simp
    have f: "filter (\<lambda>e. ce_key e \<in> set (drop m q)) (table_erase i t) = filter (\<lambda>e. ce_key e \<in> set (drop m q)) t" for m
      using sub iq by (auto simp: table_erase_eq[OF 2(2)] intro!: filter_cong)
    show ?thesis using 2(1)[OF True er(1) inv] True unfolding n by (simp add: f)
  next
    case False
    then have "filter (\<lambda>e. ce_key e \<in> set (i # q)) t = t" using 2(3) by (auto simp: lru_inv_def intro!: filter_True)
    then show ?thesis using False by simp
  qed
qed

lemma table_at_filter:
  assumes "table_ok t" and "P k"
  shows "table_at (filter (\<lambda>e. P (ce_key e)) t) k = table_at t k"
  by (rule option_eqI) (use assms in \<open>auto simp: table_at_Some_iff table_ok_filter\<close>)

lemma lview_evict:
  assumes "table_ok t" and "lru_inv q t"
  shows "lview (snd (lru_evictEntries limit q t)) (fst (lru_evictEntries limit q t)) =
    drop (length (lview t q) - limit) (lview t q)"
proof -
  let ?q = "drop (length t - limit) q"
  have "lview (filter (\<lambda>e. ce_key e \<in> set ?q) t) ?q = lview t ?q"
    by (rule lview_cong) (simp add: table_at_filter[OF assms(1), where P = "\<lambda>k. k \<in> set ?q"])
  then show ?thesis
    by (simp add: lru_evict_drop[OF assms] lview_def drop_map lview_props(3)[OF assms])
qed

text \<open>Each operation of the store is the operation of the specification on the view.\<close>

lemma lru_view_Some:
  assumes "cs_ok c" and "lru_view c = Some lc"
  obtains q where "cs_policy c = LruPolicy q" and "lru_inv q (cs_table c)"
    and "lc = \<lparr>lc_limit = cs_limit c, lc_admit = cs_shouldAdmit c, lc_serve = cs_shouldServe c,
               lc_entries = lview (cs_table c) q\<rparr>"
  using assms by (auto simp: lru_view_def cs_ok_def policy_inv_def split: policy_impl.splits)

lemma lru_insert_refines:
  assumes c: "cs_ok c" and v: "lru_view c = Some lc"
  shows "lru_view (cs_insert now d u c) = Some (spec_cs_insert now d u lc)"
proof -
  obtain q where q: "cs_policy c = LruPolicy q" "lru_inv q (cs_table c)"
    "lc = \<lparr>lc_limit = cs_limit c, lc_admit = cs_shouldAdmit c, lc_serve = cs_shouldServe c, lc_entries = lview (cs_table c) q\<rparr>"
    by (rule lru_view_Some[OF c v])
  note ok = cs_okD[OF c] and lv = lview_props[OF cs_okD(1)[OF c] q(2)]
  let ?t = "cs_table c" and ?k = "data_fullName d"
  have di: "distinct (map (\<lambda>e. ce_key e) (lview ?t q))" using q(2) by (simp add: lv(1) lru_inv_def)
  show ?thesis
  proof (cases "cs_shouldAdmit c \<and> cs_limit c \<noteq> 0 \<and> \<not> data_noCache d")
    case ad: True
    then have ad': "cs_shouldAdmit c" "cs_limit c \<noteq> 0" "\<not> data_noCache d" by simp_all
    show ?thesis
    proof (cases "?k \<in> keys ?t")
      case True
      then obtain e where e: "e \<in> set ?t" "ce_key e = ?k" by auto
      let ?t' = "table_modify ?k (refresh now u) ?t"
      note mo = table_modify_props[OF ok(1), of "refresh now u" ?k]
      have ta: "table_at ?t' k = (if k = ?k then Some (refresh now u e) else table_at ?t k)" for k
        using table_at_in[OF ok(1) e(1)] e(2) by (simp add: table_at_modify)
      have kq: "?k \<in> set q" using q(2) True by (simp add: lru_inv_def)
      have "lview ?t' (filter (\<lambda>k. k \<noteq> ?k) q) = filter (\<lambda>x. ce_key x \<noteq> ?k) (lview ?t q)"
        using lview_cong[of "filter (\<lambda>k. k \<noteq> ?k) q" ?t' ?t] ta lview_filter[OF ok(1) q(2), of "\<lambda>k. k \<noteq> ?k"] by simp
      then have "lview ?t' (filter (\<lambda>k. k \<noteq> ?k) q @ [?k]) = spec_touch (refresh now u e) (lview ?t q)"
        using ta[of ?k] e(2) by (simp add: spec_touch_def lview_def)
      moreover have "find (\<lambda>e. ce_key e = ?k) (lview ?t q) = Some e"
        using e lv(2) by (simp add: find_key_Some_iff[OF di])
      ultimately show ?thesis
        using cs_insert_old[OF ok(1) True ad', of now u] ad lru_move_to_back[of q ?k] kq q
        by (simp add: lru_view_def afterRefresh_def lru_doAfterRefresh_def spec_cs_insert_def lru_inv_def)
    next
      case False
      let ?e = "mk_cs_entry now d u"
      obtain t where t: "table_ok t" "set t = insert ?e (set ?t)" "length t = Suc (length ?t)"
        "cs_insert now d u c = c\<lparr>cs_table := snd (afterInsert now (cs_limit c) (ce_key ?e) (cs_policy c) t),
           cs_policy := fst (afterInsert now (cs_limit c) (ce_key ?e) (cs_policy c) t)\<rparr>"
        using cs_insert_new[OF ok(1) False ad'] by metis
      have kq: "?k \<notin> set q" using q(2) False by (simp add: lru_inv_def)
      have inv: "lru_inv (q @ [?k]) t" using q(2) kq t(2) by (auto simp: lru_inv_def)
      have "table_at t k = table_at ?t k" if "k \<in> set q" for k
        by (rule option_eqI) (use t(2) kq that in \<open>auto simp: table_at_Some_iff t(1) ok(1)\<close>)
      then have "lview t q = lview ?t q" by (rule lview_cong)
      moreover have "table_at t ?k = Some ?e" using table_at_in[OF t(1), of ?e] t(2) by simp
      ultimately have "lview t (q @ [?k]) = lview ?t q @ [?e]" by (simp add: lview_def)
      then have ev: "lview (snd (lru_evictEntries n (q @ [?k]) t)) (fst (lru_evictEntries n (q @ [?k]) t)) =
          drop (Suc (length (lview ?t q)) - n) (lview ?t q @ [?e])" for n
        using lview_evict[OF t(1) inv, of n] by simp
      have "find (\<lambda>e. ce_key e = ?k) (lview ?t q) = None" using False lv(2) by (simp add: find_key_None_iff)
      moreover have "lru_insertToQueue ?k True q = q @ [?k]" using kq by (simp add: lru_insertToQueue_def)
      ultimately show ?thesis
        using ad q(1,3) ev
        by (simp add: t(4) lru_view_def afterInsert_def lru_doAfterInsert_def spec_cs_insert_def apfst_def
            map_prod_def split_beta)
    qed
  qed (use q in \<open>auto simp: cs_insert_def spec_cs_insert_def lru_view_def\<close>)
qed

lemma lru_setLimit_refines:
  assumes c: "cs_ok c" and v: "lru_view c = Some lc"
  shows "lru_view (cs_setLimit n c) = Some (lc\<lparr>lc_limit := n, lc_entries := drop (length (lc_entries lc) - n) (lc_entries lc)\<rparr>)"
proof -
  obtain q where q: "cs_policy c = LruPolicy q" "lru_inv q (cs_table c)"
    "lc = \<lparr>lc_limit = cs_limit c, lc_admit = cs_shouldAdmit c, lc_serve = cs_shouldServe c, lc_entries = lview (cs_table c) q\<rparr>"
    by (rule lru_view_Some[OF c v])
  show ?thesis
    using q(1,3) lview_evict[OF cs_okD(1)[OF c] q(2), of n]
    by (simp add: cs_setLimit_def evictEntries_def lru_view_def apfst_def map_prod_def split_beta)
qed

lemma find_unique:
  assumes "\<And>x y. x \<in> set xs \<Longrightarrow> y \<in> set xs \<Longrightarrow> P x \<Longrightarrow> P y \<Longrightarrow> x = y"
  shows "find P xs = Some e \<longleftrightarrow> e \<in> set xs \<and> P e"
  using assms by (induction xs) auto

definition cs_names_ok :: "cs \<Rightarrow> bool" where
  "cs_names_ok c \<longleftrightarrow> (\<forall>e\<in>set (cs_table c). data_ok (ce_data e))"

lemma lru_match_refines:
  assumes c: "cs_ok c" "cs_names_ok c" and v: "lru_view c = Some lc" and q: "query_ok (int_name i)"
    and law: "successor_law succ" "successor_shape succ"
    and md: "\<And>d. md i d \<Longrightarrow> prefix (int_name i) (data_fullName d)"
  shows "fst (cs_findImpl md succ now i c) = spec_cs_match md now i lc"
    and "lru_view (snd (cs_findImpl md succ now i c)) = Some (spec_cs_find md now i lc)"
proof -
  obtain qu where qu: "cs_policy c = LruPolicy qu" "lru_inv qu (cs_table c)"
    "lc = \<lparr>lc_limit = cs_limit c, lc_admit = cs_shouldAdmit c, lc_serve = cs_shouldServe c, lc_entries = lview (cs_table c) qu\<rparr>"
    by (rule lru_view_Some[OF c(1) v])
  note ok = cs_okD[OF c(1)]
  have st: "set (lview (cs_table c) qu) = set (cs_table c)" by (rule lview_props(2)[OF ok(1) qu(2)])
  have un: "x = y" if "x \<in> set (cs_table c)" "y \<in> set (cs_table c)" "canSatisfy md now i x" "canSatisfy md now i y"
    "\<forall>z\<in>set (cs_table c). canSatisfy md now i z \<longrightarrow> ce_key x \<le> ce_key z"
    "\<forall>z\<in>set (cs_table c). canSatisfy md now i z \<longrightarrow> ce_key y \<le> ce_key z" for x y
    using table_ok_inj[OF ok(1) that(1,2)] that by (meson antisym)
  have sm: "spec_cs_match md now i lc = Some e \<longleftrightarrow> cs_shouldServe c \<and> cs_limit c \<noteq> 0 \<and> e \<in> set (cs_table c) \<and>
      canSatisfy md now i e \<and> (\<forall>x\<in>set (cs_table c). canSatisfy md now i x \<longrightarrow> ce_key e \<le> ce_key x)" for e
    using find_unique[of "lview (cs_table c) qu" "\<lambda>e. canSatisfy md now i e \<and>
        (\<forall>x\<in>set (cs_table c). canSatisfy md now i x \<longrightarrow> ce_key e \<le> ce_key x)" e] un
    unfolding st by (auto simp: spec_cs_match_def qu(3) st)
  show fs: "fst (cs_findImpl md succ now i c) = spec_cs_match md now i lc"
    by (rule option_eqI)
      (simp only: sm cs_findImpl_least[OF c(1) c(2)[unfolded cs_names_ok_def] q law md])
  show "lru_view (snd (cs_findImpl md succ now i c)) = Some (spec_cs_find md now i lc)"
  proof (cases "spec_cs_match md now i lc")
    case None
    then have "snd (cs_findImpl md succ now i c) = c"
      using fs by (auto simp: cs_findImpl_def Let_def split: option.splits)
    then show ?thesis using None v by (simp add: spec_cs_find_def)
  next
    case (Some e)
    then have e: "e \<in> set (cs_table c)" using sm by simp
    then have eq: "ce_key e \<in> set qu" using qu(2) by (simp add: lru_inv_def)
    have "snd (cs_findImpl md succ now i c) = c\<lparr>cs_policy := beforeUse (ce_key e) (cs_policy c)\<rparr>"
      using fs Some by (auto simp: cs_findImpl_def Let_def split: option.splits if_splits)
    then show ?thesis
      using Some qu lview_touch[OF ok(1) qu(2) e] lru_move_to_back[of qu "ce_key e"] eq
      by (simp add: spec_cs_find_def lru_view_def beforeUse_def lru_doBeforeUse_def lru_inv_def)
  qed
qed

lemma lru_erase_fold:
  "distinct q \<Longrightarrow> fold beforeErase ks (LruPolicy q) = LruPolicy (filter (\<lambda>k. k \<notin> set ks) q)"
proof (induction ks arbitrary: q)
  case (Cons k ks)
  have "filter (\<lambda>x. x \<notin> set ks) (filter (\<lambda>x. x \<noteq> k) q) = filter (\<lambda>x. x \<notin> set (k # ks)) q" by simp
  then show ?case
    using Cons by (simp add: beforeErase_def lru_doBeforeErase_def erase_first_eq_remove)
qed simp

lemma lru_erase_refines:
  assumes c: "cs_ok c" "cs_names_ok c" and v: "lru_view c = Some lc" and p: "query_ok p"
    and law: "successor_law succ" "successor_shape succ"
  shows "lru_view (snd (cs_eraseImpl succ p n c)) = Some (spec_cs_erase p n lc)"
proof -
  obtain q where q: "cs_policy c = LruPolicy q" "lru_inv q (cs_table c)"
    "lc = \<lparr>lc_limit = cs_limit c, lc_admit = cs_shouldAdmit c, lc_serve = cs_shouldServe c, lc_entries = lview (cs_table c) q\<rparr>"
    by (rule lru_view_Some[OF c(1) v])
  note ok = cs_okD[OF c(1)]
  let ?t = "cs_table c"
  let ?f = "filter (\<lambda>e. prefix p (ce_key e)) ?t"
  have so: "sorted_wrt (\<lambda>a b. ce_key a < ce_key b) ?f"
    using table_sorted[OF ok(1)] c(2) by (simp add: cs_names_ok_def sorted_wrt_filter)
  have "map (\<lambda>e. ce_key e) ?f = sort (filter (prefix p) q)"
  proof (rule sorted_distinct_set_unique)
    show "sorted (map (\<lambda>e. ce_key e) ?f)" "distinct (map (\<lambda>e. ce_key e) ?f)"
      using so unfolding sorted_wrt_map[of "(<)" "\<lambda>e. ce_key e", symmetric] strict_sorted_iff by blast+
    show "distinct (sort (filter (prefix p) q))" using q(2) by (simp add: lru_inv_def)
    show "set (map (\<lambda>e. ce_key e) ?f) = set (sort (filter (prefix p) q))" using q(2) by (auto simp: lru_inv_def)
  qed simp
  then have ks: "map (\<lambda>e. ce_key e) (take n (table_slice (cs_findPrefixRange succ p c) ?t)) = take n (sort (filter (prefix p) q))"
    using findPrefixRange_slice[OF ok(1) _ p law] c(2) by (simp add: cs_names_ok_def flip: take_map)
  let ?ks = "take n (sort (filter (prefix p) q))"
  have s: "set ?ks \<subseteq> keys ?t" using q(2) set_take_subset[of n "sort (filter (prefix p) q)"] by (auto simp: lru_inv_def)
  have d: "distinct ?ks" using q(2) by (simp add: lru_inv_def)
  have "fold table_erase ?ks ?t = filter (\<lambda>e. ce_key e \<notin> set ?ks) ?t"
    using pol.erase_loop[OF ok(1,2) d s] by simp
  then have e: "snd (cs_eraseImpl succ p n c) =
      c\<lparr>cs_policy := LruPolicy (filter (\<lambda>k. k \<notin> set ?ks) q), cs_table := filter (\<lambda>e. ce_key e \<notin> set ?ks) ?t\<rparr>"
    using lru_erase_fold[of q ?ks] q(1,2) by (simp add: cs_eraseImpl_def ks cs_erase_fold Let_def lru_inv_def)
  have "lview (filter (\<lambda>e. ce_key e \<notin> set ?ks) ?t) (filter (\<lambda>k. k \<notin> set ?ks) q) = lview ?t (filter (\<lambda>k. k \<notin> set ?ks) q)"
    by (rule lview_cong) (simp add: table_at_filter[OF ok(1), where P = "\<lambda>k. k \<notin> set ?ks"])
  then show ?thesis
    using q(3) lview_filter[OF ok(1) q(2), of "\<lambda>k. k \<notin> set ?ks"] lview_props(1)[OF ok(1) q(2)]
    by (simp add: e lru_view_def spec_cs_erase_def Let_def)
qed

lemma cs_names_kept:
  assumes "cs_ok c" and "cs_names_ok c" and "case op of CsInsert now d u \<Rightarrow> data_ok d | CsSetPolicy p \<Rightarrow> False | _ \<Rightarrow> True"
  shows "cs_names_ok (cs_exec md succ op c)"
proof (cases op)
  case (CsInsert now d u)
  note ok = cs_okD[OF assms(1)]
  show ?thesis
  proof (cases "cs_shouldAdmit c \<and> cs_limit c \<noteq> 0 \<and> \<not> data_noCache d")
    case True
    then have ad: "cs_shouldAdmit c" "cs_limit c \<noteq> 0" "\<not> data_noCache d" by simp_all
    show ?thesis
    proof (cases "data_fullName d \<in> keys (cs_table c)")
      case True
      then show ?thesis
        using assms(2) table_modify_props(3)[OF ok(1), of "refresh now u" "data_fullName d"]
        by (auto simp: CsInsert cs_insert_old[OF ok(1) True ad] cs_names_ok_def)
    next
      case False
      let ?e = "mk_cs_entry now d u"
      obtain t where t: "table_ok t" "set t = insert ?e (set (cs_table c))" "table_erase (ce_key ?e) t = cs_table c"
        "cs_insert now d u c = c\<lparr>cs_table := snd (afterInsert now (cs_limit c) (ce_key ?e) (cs_policy c) t),
           cs_policy := fst (afterInsert now (cs_limit c) (ce_key ?e) (cs_policy c) t)\<rparr>"
        using cs_insert_new[OF ok(1) False ad] by metis
      have "?e \<in> set t" using t(2) by simp
      note l = pol.insert_law[OF t(1) this, of now "cs_policy c" "cs_limit c", unfolded t(3), OF _ ok(2) prod.collapse[symmetric]]
      then have "set (snd (afterInsert now (cs_limit c) (ce_key ?e) (cs_policy c) t)) \<subseteq> set t"
        using subseq_set_mono by auto
      then show ?thesis using assms(2,3) t(2) by (auto simp: CsInsert t(4) cs_names_ok_def)
    qed
  qed (use assms CsInsert in \<open>auto simp: cs_insert_def\<close>)
next
  case (CsErase p n)
  then show ?thesis using assms(2) by (simp add: cs_names_ok_def cs_eraseImpl_props(2)[OF assms(1)])
next
  case (CsFind now i)
  then show ?thesis using assms(2) by (auto simp: cs_names_ok_def cs_find_def cs_findImpl_def Let_def split: option.split)
next
  case (CsSetLimit n)
  then show ?thesis
    using assms(2) cs_setLimit_ok(2)[OF cs_okD(1,2)[OF assms(1)], of n] by (auto simp: cs_names_ok_def)
next
  case (CsStaleEvent now k)
  then show ?thesis using assms(2) by (auto simp: cs_names_ok_def cs_stale_event_def split: policy_impl.split option.split)
qed (use assms in \<open>auto simp: cs_names_ok_def cs_enableAdmit_def cs_enableServe_def\<close>)

text \<open>The operations the LRU specification covers, on packets with admissible names.\<close>

fun lru_op_ok :: "cs_op \<Rightarrow> bool" where
  "lru_op_ok (CsInsert now d u) \<longleftrightarrow> data_ok d"
| "lru_op_ok (CsErase p n) \<longleftrightarrow> query_ok p"
| "lru_op_ok (CsFind now i) \<longleftrightarrow> query_ok (int_name i)"
| "lru_op_ok (CsSetPolicy p) \<longleftrightarrow> False"
| "lru_op_ok _ \<longleftrightarrow> True"

lemma lru_exec_refines:
  assumes c: "cs_ok c" "cs_names_ok c" and v: "lru_view c = Some lc" and op: "lru_op_ok op"
    and law: "successor_law succ" "successor_shape succ"
    and md: "\<And>i d. md i d \<Longrightarrow> prefix (int_name i) (data_fullName d)"
  shows "cs_ok (cs_exec md succ op c) \<and> cs_names_ok (cs_exec md succ op c) \<and>
    lru_view (cs_exec md succ op c) = Some (spec_cs_exec md op lc)"
proof -
  have "cs_allowed op c" using op by (cases op) simp_all
  then have 1: "cs_ok (cs_exec md succ op c)" using cs_exec_ok[OF c(1)] by blast
  have 2: "cs_names_ok (cs_exec md succ op c)" by (rule cs_names_kept[OF c]) (use op in \<open>cases op; simp\<close>)
  have "lru_view (cs_exec md succ op c) = Some (spec_cs_exec md op lc)"
  proof (cases op)
    case (CsInsert now d u)
    then show ?thesis using lru_insert_refines[OF c(1) v] by simp
  next
    case (CsErase p n)
    then show ?thesis using lru_erase_refines[OF c v _ law] op by simp
  next
    case (CsFind now i)
    then show ?thesis using lru_match_refines(2)[OF c v _ law md] op by (simp add: cs_find_def)
  next
    case (CsSetLimit n)
    then show ?thesis using lru_setLimit_refines[OF c(1) v] by simp
  next
    case (CsStaleEvent now k)
    then show ?thesis using v by (auto simp: lru_view_def cs_stale_event_def split: policy_impl.splits)
  qed (use v op in \<open>auto simp: lru_view_def cs_enableAdmit_def cs_enableServe_def split: policy_impl.splits\<close>)
  then show ?thesis using 1 2 by blast
qed

definition lru_new :: "nat \<Rightarrow> lru_cache" where
  "lru_new n = \<lparr>lc_limit = n, lc_admit = True, lc_serve = True, lc_entries = []\<rparr>"

lemma lru_run_refines:
  assumes "list_all lru_op_ok ops" and law: "successor_law succ" "successor_shape succ"
    and md: "\<And>i d. md i d \<Longrightarrow> prefix (int_name i) (data_fullName d)"
  shows "cs_ok (fold (cs_exec md succ) ops (mk_cs n)) \<and> cs_names_ok (fold (cs_exec md succ) ops (mk_cs n)) \<and>
    lru_view (fold (cs_exec md succ) ops (mk_cs n)) = Some (fold (spec_cs_exec md) ops (lru_new n))"
  using assms(1)
proof (induction ops rule: rev_induct)
  case Nil
  show ?case using mk_cs_ok[of n]
    by (simp add: mk_cs_def cs_setLimit_def evictEntries_def lru_view_def lview_def cs_names_ok_def lru_new_def)
next
  case (snoc op ops)
  then show ?case using lru_exec_refines[OF _ _ _ _ law md, of _ _ op] by simp
qed

section \<open>Eviction order of the priority FIFO policy\<close>

text \<open>
  The order in which entries leave: unsolicited, then stale, then the others. \<open>evicted_queues k qs\<close> is
  what the queues hold after the first \<open>k\<close> entries of that order are gone.
\<close>

definition pf_order :: "(QueueType \<Rightarrow> name list) \<Rightarrow> name list" where
  "pf_order qs = qs QUEUE_UNSOLICITED @ qs QUEUE_STALE @ qs QUEUE_FIFO"

fun evicted_queues :: "nat \<Rightarrow> (QueueType \<Rightarrow> name list) \<Rightarrow> QueueType \<Rightarrow> name list" where
  "evicted_queues k qs QUEUE_UNSOLICITED = drop k (qs QUEUE_UNSOLICITED)"
| "evicted_queues k qs QUEUE_STALE = drop (k - length (qs QUEUE_UNSOLICITED)) (qs QUEUE_STALE)"
| "evicted_queues k qs QUEUE_FIFO =
     drop (k - length (qs QUEUE_UNSOLICITED) - length (qs QUEUE_STALE)) (qs QUEUE_FIFO)"

lemma evicted_queues_0 [simp]: "evicted_queues 0 qs = qs"
proof
  show "evicted_queues 0 qs q = qs q" for q by (cases q) simp_all
qed

lemma evicted_queues_Suc: "evicted_queues k (evicted_queues 1 qs) = evicted_queues (Suc k) qs"
proof
  show "evicted_queues k (evicted_queues 1 qs) q = evicted_queues (Suc k) qs q" for q
    by (cases q; cases "qs QUEUE_UNSOLICITED"; cases "qs QUEUE_STALE") (simp_all add: drop_Suc)
qed

lemma pf_order_evicted: "pf_order (evicted_queues k qs) = drop k (pf_order qs)"
  by (simp add: pf_order_def)

lemma pf_victim_order: "pf_victim pf = (case pf_order (pf_queues pf) of [] \<Rightarrow> None | i # _ \<Rightarrow> Some i)"
  by (auto simp: pf_victim_def pf_order_def split: list.split)

lemma pf_detach_victim:
  assumes inv: "pf_inv pf t" and v: "pf_order (pf_queues pf) = i # ks"
  shows "pf_queues (pf_detachQueue i pf) = evicted_queues 1 (pf_queues pf)"
proof -
  let ?qs = "pf_queues pf"
  obtain q where q: "?qs q = i # tl (?qs q)" "evicted_queues 1 ?qs = ?qs(q := tl (?qs q))"
  proof (cases "?qs QUEUE_UNSOLICITED")
    case (Cons x xs)
    have "evicted_queues 1 ?qs r = (?qs(QUEUE_UNSOLICITED := xs)) r" for r using Cons by (cases r) simp_all
    then show thesis using v Cons by (intro that[of QUEUE_UNSOLICITED]) (auto simp: pf_order_def)
  next
    case U: Nil
    show thesis
    proof (cases "?qs QUEUE_STALE")
      case (Cons x xs)
      have "evicted_queues 1 ?qs r = (?qs(QUEUE_STALE := xs)) r" for r using U Cons by (cases r) simp_all
      then show thesis using v U Cons by (intro that[of QUEUE_STALE]) (auto simp: pf_order_def)
    next
      case Nil
      then have f: "?qs QUEUE_FIFO = i # ks" using v U by (simp add: pf_order_def)
      have "evicted_queues 1 ?qs r = (?qs(QUEUE_FIFO := ks)) r" for r using U Nil f by (cases r) simp_all
      then show thesis using f by (intro that[of QUEUE_FIFO]) auto
    qed
  qed
  have "i \<in> set (?qs q)" using q(1) by (metis list.set_intros(1))
  then obtain info where info: "pf_entryInfoMap pf i = Some info" "queueType info = q"
    using inv by (auto simp: pf_inv_def)
  have "erase_first (\<lambda>k. k = i) (?qs q) = tl (?qs q)" by (subst q(1)) simp
  then show ?thesis using q(2) by (simp add: pf_detachQueue_def info)
qed

lemma pf_evict_exact:
  assumes "pf_evict_loop fuel limit (pf, t) = (pf', t')" "table_ok t" "pf_inv pf t" "length t \<le> fuel + limit"
  shows "pf_queues pf' = evicted_queues (length t - limit) (pf_queues pf) \<and>
    t' = filter (\<lambda>e. ce_key e \<notin> set (take (length t - limit) (pf_order (pf_queues pf)))) t"
  using assms
proof (induction fuel arbitrary: pf t)
  case (Suc fuel)
  show ?case
  proof (cases "length t > limit")
    case True
    then obtain i where i: "pf_victim pf = Some i" "i \<in> keys t"
      using pf_victim_tracked[OF Suc.prems(3)] by fastforce
    then obtain ks where ks: "pf_order (pf_queues pf) = i # ks" by (auto simp: pf_victim_order split: list.splits)
    note er = table_erase_props[OF Suc.prems(2), of i] and d = pf_detach_victim[OF Suc.prems(3) ks]
    obtain k where k: "length t - limit = Suc k" "length (table_erase i t) - limit = k"
      using True er(5)[OF i(2)] by (metis Suc_diff_Suc diff_Suc_1 diff_commute)
    have "pf_evict_loop fuel limit (pf_detachQueue i pf, table_erase i t) = (pf', t')"
      using Suc.prems(1) True i by (simp add: pf_evictOne_def)
    then have "pf_queues pf' = evicted_queues k (evicted_queues 1 (pf_queues pf)) \<and>
        t' = filter (\<lambda>e. ce_key e \<notin> set (take k ks)) (table_erase i t)"
      using Suc.IH[OF _ er(1) pf_inv_detach[OF Suc.prems(2,3) i(2)]] Suc.prems(4) er(5)[OF i(2)] k(2)
      by (simp add: d pf_order_evicted ks)
    then show ?thesis
      unfolding k(1) ks evicted_queues_Suc table_erase_eq[OF Suc.prems(2)] by (simp add: conj_ac cong: filter_cong)
  qed (use Suc.prems in simp)
qed simp

text \<open>The queue a new entry is put in.\<close>

definition arrival_queue :: "time_point \<Rightarrow> cs_entry \<Rightarrow> QueueType" where
  "arrival_queue now e =
     (if ce_isUnsolicited e then QUEUE_UNSOLICITED else if \<not> isFresh now e then QUEUE_STALE else QUEUE_FIFO)"

lemma pf_attach_queues:
  "pf_queues (pf_attachQueue now e pf) =
     (pf_queues pf)(arrival_queue now e := pf_queues pf (arrival_queue now e) @ [ce_key e])"
  by (simp add: pf_attachQueue_def arrival_queue_def Let_def)

lemma pf_insert_new:
  fixes now :: time_point and u :: bool
  assumes c: "cs_ok c" and p: "cs_policy c = PriorityFifoPolicy pf"
    and a: "cs_shouldAdmit c" "cs_limit c \<noteq> 0" "\<not> data_noCache d" and new: "data_fullName d \<notin> keys (cs_table c)"
  defines "e \<equiv> mk_cs_entry now d u" and "k \<equiv> Suc (length (cs_table c)) - cs_limit c"
  defines "qs \<equiv> (pf_queues pf)(arrival_queue now e := pf_queues pf (arrival_queue now e) @ [data_fullName d])"
  shows "(\<exists>pf'. cs_policy (cs_insert now d u c) = PriorityFifoPolicy pf' \<and> pf_queues pf' = evicted_queues k qs) \<and>
    set (cs_table (cs_insert now d u c)) = {x \<in> insert e (set (cs_table c)). ce_key x \<notin> set (take k (pf_order qs))}"
proof -
  have key: "ce_key e = data_fullName d" by (simp add: e_def)
  obtain t where t: "table_ok t" "set t = insert e (set (cs_table c))" "table_erase (ce_key e) t = cs_table c"
    "length t = Suc (length (cs_table c))"
    and ins: "cs_insert now d u c = c\<lparr>cs_table := snd (afterInsert now (cs_limit c) (ce_key e) (cs_policy c) t),
       cs_policy := fst (afterInsert now (cs_limit c) (ce_key e) (cs_policy c) t)\<rparr>"
    using cs_insert_new[OF cs_okD(1)[OF c] new a, of now u] unfolding e_def by blast
  let ?pf = "pf_attachQueue now e pf"
  have inv: "pf_inv ?pf t"
    using pf_inv_attach[OF t(1), of e now pf] t(2,3) cs_okD(2)[OF c] p by (simp add: policy_inv_def e_def)
  obtain pf' t' where l: "pf_evict_loop (length t) (cs_limit c) (?pf, t) = (pf', t')" by fastforce
  have q: "pf_queues ?pf = qs" by (simp add: pf_attach_queues qs_def key)
  have kt: "length t - cs_limit c = k" by (simp add: k_def t(4))
  have "afterInsert now (cs_limit c) (ce_key e) (cs_policy c) t = (PriorityFifoPolicy pf', t')"
    using table_at_in[OF t(1), of e] t(2) l by (simp add: afterInsert_def p pf_doAfterInsert_def pf_evictEntries_def)
  then show ?thesis
    using pf_evict_exact[OF l t(1) inv] unfolding ins q kt by (auto simp: t(2))
qed

section \<open>Properties\<close>

text \<open>
  C20: the Content Store stays within its limit and in step with its policy. After any sequence of
  insertions, lookups, erasures, changes of the limit or the flags, timer events and, while the store
  is empty, changes of the policy, the table holds no Data twice, never more packets than the limit,
  and the cleanup index of the policy tracks exactly the entries of the table; under the priority
  FIFO policy every entry is in exactly one queue.
\<close>

theorem content_store_invariant:
  assumes "cs_run md succ ops (mk_cs n) = Some c"
  shows "length (cs_table c) \<le> cs_limit c \<and> distinct (map (\<lambda>e. data_fullName (ce_data e)) (cs_table c)) \<and>
    (case cs_policy c of
       LruPolicy q \<Rightarrow> distinct q \<and> set q = (\<lambda>e. data_fullName (ce_data e)) ` set (cs_table c)
     | PriorityFifoPolicy pf \<Rightarrow>
         (\<forall>k. (\<exists>!q. k \<in> set (pf_queues pf q)) \<longleftrightarrow> k \<in> (\<lambda>e. data_fullName (ce_data e)) ` set (cs_table c)) \<and>
         (\<forall>q. distinct (pf_queues pf q)))"
proof -
  have c: "cs_ok c" using cs_run_ok[OF mk_cs_ok assms] .
  have "(\<exists>!q. k \<in> set (pf_queues pf q)) \<longleftrightarrow> k \<in> keys (cs_table c)" if "pf_inv pf (cs_table c)" for pf k
  proof -
    have st: "set (pf_queues pf q) = {k. map_option queueType (pf_entryInfoMap pf k) = Some q}" for q
      using that by (simp add: pf_inv_def)
    have "(\<exists>!q. k \<in> set (pf_queues pf q)) \<longleftrightarrow> k \<in> dom (pf_entryInfoMap pf)"
      unfolding st by (cases "pf_entryInfoMap pf k") auto
    then show ?thesis using that unfolding pf_inv_def by argo
  qed
  moreover have "distinct (pf_queues pf q)" if "pf_inv pf (cs_table c)" for pf q using that by (simp add: pf_inv_def)
  ultimately show ?thesis
    using cs_okD[OF c] table_ok_distinct[OF cs_okD(1)[OF c]]
    by (simp add: policy_inv_def lru_inv_def split: policy_impl.splits)
qed

definition cs_matches_example :: "interest \<Rightarrow> data \<Rightarrow> bool" where
  "cs_matches_example i d \<longleftrightarrow> prefix (int_name i) (data_fullName d)"

theorem content_store_invariant_witness:
  "\<exists>c. cs_run cs_matches_example name_successor [CsSetPolicy (PriorityFifoPolicy pf_new),
       CsInsert 0 (mk_data [generic_comp ''a''] ''x'' 1) False,
       CsStaleEvent (ms 1) (data_fullName (mk_data [generic_comp ''a''] ''x'' 1))] (mk_cs 1) = Some c \<and>
     length (cs_table c) \<le> cs_limit c" (is "\<exists>c. cs_run _ _ ?ops _ = _ \<and> _")
proof -
  have "policy_create ''priority_fifo'' = Some (PriorityFifoPolicy pf_new)" by (simp add: policy_create_def)
  then have "cs_allowed (CsSetPolicy (PriorityFifoPolicy pf_new)) (mk_cs 1)"
    by (auto simp: mk_cs_def cs_setLimit_def evictEntries_def)
  then obtain c where "cs_run cs_matches_example name_successor ?ops (mk_cs 1) = Some c"
    unfolding cs_run.simps by simp
  then show ?thesis using content_store_invariant by blast
qed

text \<open>
  C10: with its default policy the Content Store is an LRU cache. For any sequence of insertions,
  lookups, erasures and changes of limit and flags, the store shows the same entries, in the same
  order of eviction, as a bounded list that appends new packets, moves a packet to the end when it is
  refreshed or used, drops packets from the front when there are more than the limit, and answers a
  lookup with the matching packet whose full name is least. The names of the packets are those the
  packet library accepts, \<open>matchesData\<close> accepts only Data whose full name extends the Interest
  name, and \<open>getSuccessor\<close> advances the last component.
\<close>

theorem content_store_is_lru_cache:
  assumes "list_all lru_op_ok ops" and "query_ok (int_name i)"
    and "successor_law getSuccessor" and "successor_shape getSuccessor"
    and "\<And>i d. matchesData i d \<Longrightarrow> prefix (int_name i) (data_fullName d)"
  shows "let c = fold (cs_exec matchesData getSuccessor) ops (mk_cs n);
             lc = fold (spec_cs_exec matchesData) ops (lru_new n)
         in lru_view c = Some lc \<and>
            fst (cs_find matchesData getSuccessor now i c) = map_option ce_data (spec_cs_match matchesData now i lc)"
  using lru_run_refines[OF assms(1,3,4), of matchesData n, OF assms(5)]
    lru_match_refines(1)[OF _ _ _ assms(2-5), of "fold (cs_exec matchesData getSuccessor) ops (mk_cs n)"]
  by (simp add: Let_def cs_find_def)

theorem content_store_is_lru_cache_witness:
  "map_option data_digest (fst (cs_find cs_matches_example name_successor 5 (mk_interest [generic_comp ''a''] 0)
     (fold (cs_exec cs_matches_example name_successor)
        [CsInsert 1 (mk_data [generic_comp ''a''] ''x'' 0) False, CsInsert 2 (mk_data [generic_comp ''b''] ''y'' 0) False,
         CsFind 3 (mk_interest [generic_comp ''a''] 0), CsInsert 4 (mk_data [generic_comp ''c''] ''z'' 0) False] (mk_cs 2)))) =
   Some ''x''"
proof -
  let ?ops = "[CsInsert 1 (mk_data [generic_comp ''a''] ''x'' 0) False, CsInsert 2 (mk_data [generic_comp ''b''] ''y'' 0) False,
     CsFind 3 (mk_interest [generic_comp ''a''] 0), CsInsert 4 (mk_data [generic_comp ''c''] ''z'' 0) False]"
  have ops: "list_all lru_op_ok ?ops" by (simp add: data_ok_def query_ok_def mk_data_def mk_interest_def)
  have q: "query_ok (int_name (mk_interest [generic_comp ''a''] 0))" by (simp add: query_ok_def mk_interest_def)
  have m: "\<And>i d. cs_matches_example i d \<Longrightarrow> prefix (int_name i) (data_fullName d)" by (simp add: cs_matches_example_def)
  show ?thesis
    using content_store_is_lru_cache[where matchesData = cs_matches_example and n = 2 and now = 5,
        OF ops q name_successor_law name_successor_shape m]
    by (simp add: Let_def lru_new_def spec_cs_insert_def spec_cs_find_def spec_cs_match_def spec_touch_def
        mk_cs_entry_def updateFreshUntil_def canSatisfy_def cs_matches_example_def mk_data_def mk_interest_def
        data_fullName_def data_digest_comp_def)
qed

text \<open>
  C11: lookup and erasure by prefix. The range of the ordered table that \<open>findPrefixRange\<close> delimits
  holds exactly the packets whose full name, implicit digest included, extends the given name, and so
  a lookup finds the least matching packet of the whole store if there is any, under either policy,
  and an erasure with a limit removes that many packets under the prefix and nothing else.
\<close>

theorem content_store_lookup:
  assumes "cs_ok c" and "cs_names_ok c" and "query_ok (int_name i)"
    and "successor_law getSuccessor" and "successor_shape getSuccessor"
    and "\<And>d. matchesData i d \<Longrightarrow> prefix (int_name i) (data_fullName d)"
  shows "(fst (cs_findImpl matchesData getSuccessor now i c) = Some e \<longleftrightarrow>
      cs_shouldServe c \<and> cs_limit c \<noteq> 0 \<and> e \<in> set (cs_table c) \<and> canSatisfy matchesData now i e \<and>
      (\<forall>x\<in>set (cs_table c). canSatisfy matchesData now i x \<longrightarrow> ce_key e \<le> ce_key x)) \<and>
    (let (nErased, c') = cs_eraseImpl getSuccessor (int_name i) limit c;
         under = filter (\<lambda>e. prefix (int_name i) (ce_key e)) (cs_table c)
     in nErased = min limit (length under) \<and>
        cs_table c' = filter (\<lambda>e. ce_key e \<notin> (\<lambda>e. ce_key e) ` set (take limit under)) (cs_table c) \<and> cs_ok c')"
proof -
  have sl: "table_slice (cs_findPrefixRange getSuccessor (int_name i) c) (cs_table c) =
      filter (\<lambda>e. prefix (int_name i) (ce_key e)) (cs_table c)"
    by (rule findPrefixRange_slice[OF cs_okD(1)[OF assms(1)] assms(2)[unfolded cs_names_ok_def] assms(3-5)])
  have "length (take limit xs) = min limit (length xs)" for xs :: "cs_entry list" by simp
  then show ?thesis
    using cs_findImpl_least[OF assms(1) assms(2)[unfolded cs_names_ok_def] assms(3-6)]
      cs_eraseImpl_props[OF assms(1), of getSuccessor "int_name i" limit, unfolded sl]
    by (simp only: Let_def split_beta simp_thms)
qed

text \<open>
  C32: the priority FIFO policy evicts exactly what is over the limit, unsolicited packets first, then stale
  ones, then the others, each kind in order of arrival. When the limit is set to \<open>n\<close>, as many packets as
  the store holds over \<open>n\<close> leave, they are the first of that order, and the table and the queues keep all
  the others. A new packet joins the end of the queue of its kind, and then as many packets leave as
  there are over the limit, again the first of that order, the new one among them if it comes first.
\<close>

theorem priority_fifo_eviction:
  assumes "cs_ok c" and "cs_policy c = PriorityFifoPolicy pf"
  shows "(let k = length (cs_table c) - n
     in (\<exists>pf'. cs_policy (cs_setLimit n c) = PriorityFifoPolicy pf' \<and> pf_queues pf' = evicted_queues k (pf_queues pf)) \<and>
        cs_table (cs_setLimit n c) =
          filter (\<lambda>e. data_fullName (ce_data e) \<notin> set (take k (pf_order (pf_queues pf)))) (cs_table c)) \<and>
    (cs_shouldAdmit c \<and> cs_limit c \<noteq> 0 \<and> \<not> data_noCache d \<and>
     data_fullName d \<notin> (\<lambda>e. data_fullName (ce_data e)) ` set (cs_table c) \<longrightarrow>
       (let e = mk_cs_entry now d u; k = Suc (length (cs_table c)) - cs_limit c; c' = cs_insert now d u c;
            qs = (pf_queues pf)(arrival_queue now e := pf_queues pf (arrival_queue now e) @ [data_fullName d])
        in (\<exists>pf'. cs_policy c' = PriorityFifoPolicy pf' \<and> pf_queues pf' = evicted_queues k qs) \<and>
           set (cs_table c') =
             {x \<in> insert e (set (cs_table c)). data_fullName (ce_data x) \<notin> set (take k (pf_order qs))}))"
proof -
  obtain pf' t' where e: "pf_evict_loop (length (cs_table c)) n (pf, cs_table c) = (pf', t')" by fastforce
  have inv: "pf_inv pf (cs_table c)" using cs_okD(2)[OF assms(1)] assms(2) by (simp add: policy_inv_def)
  have "cs_policy (cs_setLimit n c) = PriorityFifoPolicy pf'" "cs_table (cs_setLimit n c) = t'"
    by (simp_all add: cs_setLimit_def assms(2) evictEntries_def pf_evictEntries_def e)
  then show ?thesis
    using pf_evict_exact[OF e cs_okD(1)[OF assms(1)] inv] pf_insert_new[OF assms, of d now u] by (simp add: Let_def)
qed

text \<open>A store with the priority FIFO policy, a solicited and an unsolicited packet.\<close>

definition cs_pf_example :: cs where
  "cs_pf_example =
     cs_insert 1 (mk_data [generic_comp ''b''] ''y'' 9) True
       (cs_insert 0 (mk_data [generic_comp ''a''] ''x'' 9) False (cs_setPolicy (PriorityFifoPolicy pf_new) (mk_cs 2)))"

lemma cs_pf_example_props:
  "cs_ok cs_pf_example" "cs_names_ok cs_pf_example" "\<exists>pf. cs_policy cs_pf_example = PriorityFifoPolicy pf"
proof -
  let ?p = "cs_setPolicy (PriorityFifoPolicy pf_new) (mk_cs 2)"
  have nm: "policy_create ''priority_fifo'' = Some (PriorityFifoPolicy pf_new)" by (simp add: policy_create_def)
  have em: "cs_table (mk_cs 2) = []" by (simp add: mk_cs_def cs_setLimit_def evictEntries_def)
  have p: "cs_ok ?p"
    using cs_exec_ok[OF mk_cs_ok, of "CsSetPolicy (PriorityFifoPolicy pf_new)" 2] nm em by auto
  have "cs_names_ok ?p"
    by (simp add: cs_names_ok_def cs_setPolicy_def cs_setLimit_def evictEntries_def em pf_evictEntries_def)
  then have "cs_names_ok (cs_exec cs_matches_example name_successor (CsInsert 0 (mk_data [generic_comp ''a''] ''x'' 9) False) ?p)"
    by (rule cs_names_kept[OF p]) (simp add: data_ok_def mk_data_def)
  then have "cs_names_ok (cs_exec cs_matches_example name_successor (CsInsert 1 (mk_data [generic_comp ''b''] ''y'' 9) True)
      (cs_exec cs_matches_example name_successor (CsInsert 0 (mk_data [generic_comp ''a''] ''x'' 9) False) ?p))"
    by (rule cs_names_kept[rotated]) (simp_all add: data_ok_def mk_data_def cs_insert_ok p)
  then show "cs_names_ok cs_pf_example" by (simp add: cs_pf_example_def)
  show "cs_ok cs_pf_example" by (simp add: cs_pf_example_def cs_insert_ok p)
  have pf: "\<exists>pf. cs_policy (cs_insert now d u c) = PriorityFifoPolicy pf" if "\<exists>pf. cs_policy c = PriorityFifoPolicy pf" for now d u c
    using that by (auto simp: cs_insert_def afterInsert_def afterRefresh_def Let_def apfst_def map_prod_def split_beta)
  have "\<exists>pf. cs_policy ?p = PriorityFifoPolicy pf"
    by (simp add: cs_setPolicy_def cs_setLimit_def evictEntries_def apfst_def map_prod_def split_beta)
  then show "\<exists>pf. cs_policy cs_pf_example = PriorityFifoPolicy pf" unfolding cs_pf_example_def by (intro pf)
qed

theorem content_store_lookup_witness:
  "fst (cs_eraseImpl name_successor [generic_comp ''a''] 0 cs_pf_example) = 0"
proof -
  have q: "query_ok (int_name (mk_interest [generic_comp ''a''] 0))" by (simp add: query_ok_def mk_interest_def)
  have m: "\<And>d. cs_matches_example i d \<Longrightarrow> prefix (int_name i) (data_fullName d)" for i by (simp add: cs_matches_example_def)
  show ?thesis
    using content_store_lookup[where matchesData = cs_matches_example and limit = 0,
        OF cs_pf_example_props(1,2) q name_successor_law name_successor_shape m]
    by (simp add: Let_def split_beta mk_interest_def)
qed

lemma cs_pf_example_state:
  "map ce_data (cs_table cs_pf_example) = [mk_data [generic_comp ''a''] ''x'' 9, mk_data [generic_comp ''b''] ''y'' 9] \<and>
   (case cs_policy cs_pf_example of
      PriorityFifoPolicy pf \<Rightarrow> pf_queues pf QUEUE_UNSOLICITED = [data_fullName (mk_data [generic_comp ''b''] ''y'' 9)] \<and>
        pf_queues pf QUEUE_STALE = [] \<and> pf_queues pf QUEUE_FIFO = [data_fullName (mk_data [generic_comp ''a''] ''x'' 9)]
    | _ \<Rightarrow> False) \<and> cs_limit cs_pf_example = 2 \<and> cs_shouldAdmit cs_pf_example"
  by code_simp

theorem priority_fifo_eviction_witness:
  "map ce_data (cs_table (cs_setLimit 1 cs_pf_example)) = [mk_data [generic_comp ''a''] ''x'' 9] \<and>
   ce_data ` set (cs_table (cs_insert 2 (mk_data [generic_comp ''c''] ''z'' 9) False cs_pf_example)) =
     {mk_data [generic_comp ''a''] ''x'' 9, mk_data [generic_comp ''c''] ''z'' 9}"
proof -
  let ?a = "mk_data [generic_comp ''a''] ''x'' 9" and ?b = "mk_data [generic_comp ''b''] ''y'' 9"
    and ?c = "mk_data [generic_comp ''c''] ''z'' 9"
  let ?e = "mk_cs_entry 2 ?c False" and ?t = "cs_table cs_pf_example"
  obtain pf where pf: "cs_policy cs_pf_example = PriorityFifoPolicy pf" using cs_pf_example_props(3) by blast
  note st = cs_pf_example_state[unfolded pf, simplified]
  have len: "length ?t = 2" using arg_cong[OF conjunct1[OF st], of length] by simp
  have o: "pf_order (pf_queues pf) = [data_fullName ?b, data_fullName ?a]" by (simp add: pf_order_def st)
  have n: "data_fullName ?a \<noteq> data_fullName ?b" "data_fullName ?c \<noteq> data_fullName ?b" "data_fullName ?c \<noteq> data_fullName ?a"
    by (simp_all add: data_fullName_def mk_data_def)
  note th = priority_fifo_eviction[OF cs_pf_example_props(1) pf, of 1 ?c 2 False]
  have "cs_table (cs_setLimit 1 cs_pf_example) = filter (\<lambda>e. ce_key e \<noteq> data_fullName ?b) ?t"
    using th by (simp add: Let_def len o)
  then have 1: "map ce_data (cs_table (cs_setLimit 1 cs_pf_example)) = filter (\<lambda>d. data_fullName d \<noteq> data_fullName ?b) [?a, ?b]"
    unfolding conjunct1[OF st, symmetric] by (simp add: filter_map comp_def)
  have d: "ce_data ` set ?t = {?a, ?b}" using arg_cong[OF conjunct1[OF st], of set] by simp
  have "data_fullName ?c \<notin> data_fullName ` ce_data ` set ?t" unfolding d using n by simp
  then have "data_fullName ?c \<notin> (\<lambda>e. data_fullName (ce_data e)) ` set ?t" by (simp only: image_image not_False_eq_True)
  moreover have "arrival_queue 2 ?e = QUEUE_FIFO" by code_simp
  ultimately have "set (cs_table (cs_insert 2 ?c False cs_pf_example)) =
      {x \<in> insert ?e (set ?t). data_fullName (ce_data x) \<noteq> data_fullName ?b}"
    using th st by (simp add: Let_def len pf_order_def mk_data_def)
  then have "ce_data ` set (cs_table (cs_insert 2 ?c False cs_pf_example)) =
      {y \<in> ce_data ` insert ?e (set ?t). data_fullName y \<noteq> data_fullName ?b}" by blast
  then show ?thesis using 1 n unfolding image_insert d refreshed_mk by auto
qed

end
