(* ===== verification/City_Hash.thy ===== *)
theory City_Hash
  imports NFD_Prelude "HOL-Library.Monad_Syntax"
begin

text \<open>
  CityHash (\<open>daemon/common/city-hash.cpp\<close>), which hashes name components for the name tree and
  names with nonces for the Dead Nonce List. The functions work on a pointer and a length; a pointer
  into the buffer \<open>s\<close> is an offset, an integer because the code computes offsets from both ends, and
  every access is checked: reading a byte outside the buffer gives \<open>None\<close>. Words are little-endian.
\<close>

section \<open>Access to the buffer\<close>

definition byte_at :: "string \<Rightarrow> int \<Rightarrow> nat option" where
  "byte_at s p = (if 0 \<le> p \<and> p < int (length s) then Some (of_char (s ! nat p)) else None)"

definition le_word :: "nat list \<Rightarrow> 'a :: len word" where
  "le_word bs = foldr (\<lambda>b w. of_nat b + push_bit 8 w) bs 0"

definition fetch_bytes :: "nat \<Rightarrow> string \<Rightarrow> int \<Rightarrow> nat list option" where
  "fetch_bytes n s p =
     (if 0 \<le> p \<and> p + int n \<le> int (length s) then Some (map of_char (take n (drop (nat p) s))) else None)"

definition Fetch64 :: "string \<Rightarrow> int \<Rightarrow> u64 option" where
  "Fetch64 s p = map_option le_word (fetch_bytes 8 s p)"

definition Fetch32 :: "string \<Rightarrow> int \<Rightarrow> u32 option" where
  "Fetch32 s p = map_option le_word (fetch_bytes 4 s p)"

definition bswap_32 :: "u32 \<Rightarrow> u32" where
  "bswap_32 x = le_word (rev (map (\<lambda>i. unat (drop_bit (8 * i) x AND 0xFF)) [0..<4]))"

definition bswap_64 :: "u64 \<Rightarrow> u64" where
  "bswap_64 x = le_word (rev (map (\<lambda>i. unat (drop_bit (8 * i) x AND 0xFF)) [0..<8]))"

section \<open>32-bit hashing\<close>

definition c1 :: u32 where "c1 = 0xcc9e2d51"
definition c2 :: u32 where "c2 = 0x1b873593"

definition fmix :: "u32 \<Rightarrow> u32" where
  "fmix h =
     (let h = h XOR drop_bit 16 h;
          h = h * 0x85ebca6b;
          h = h XOR drop_bit 13 h;
          h = h * 0xc2b2ae35
      in h XOR drop_bit 16 h)"

definition Rotate32 :: "u32 \<Rightarrow> nat \<Rightarrow> u32" where
  "Rotate32 val shift = (if shift = 0 then val else drop_bit shift val OR push_bit (32 - shift) val)"

definition Mur :: "u32 \<Rightarrow> u32 \<Rightarrow> u32" where
  "Mur a h =
     (let a = a * c1;
          a = Rotate32 a 17;
          a = a * c2;
          h = h XOR a;
          h = Rotate32 h 19
      in h * 5 + 0xe6546b64)"

definition Hash32Len13to24 :: "string \<Rightarrow> int \<Rightarrow> u32 option" where
  "Hash32Len13to24 s len =
     do { a \<leftarrow> Fetch32 s (- 4 + len div 2);
          b \<leftarrow> Fetch32 s 4;
          c \<leftarrow> Fetch32 s (len - 8);
          d \<leftarrow> Fetch32 s (len div 2);
          e \<leftarrow> Fetch32 s 0;
          f \<leftarrow> Fetch32 s (len - 4);
          Some (fmix (Mur f (Mur e (Mur d (Mur c (Mur b (Mur a (word_of_int len)))))))) }"

text \<open>One round of the loop over single bytes; the byte is read as a signed char.\<close>

definition hash32_byte :: "nat \<Rightarrow> u32 \<times> u32 \<Rightarrow> u32 \<times> u32" where
  "hash32_byte v bc =
     (let (b, c) = bc;
          b = b * c1 + word_of_int (if v < 128 then int v else int v - 256)
      in (b, c XOR b))"

definition Hash32Len0to4 :: "string \<Rightarrow> int \<Rightarrow> u32 option" where
  "Hash32Len0to4 s len =
     do { vs \<leftarrow> fetch_bytes (nat len) s 0;
          let (b, c) = fold hash32_byte vs (0, 9) in Some (fmix (Mur b (Mur (word_of_int len) c))) }"

definition Hash32Len5to12 :: "string \<Rightarrow> int \<Rightarrow> u32 option" where
  "Hash32Len5to12 s len =
     (let a = word_of_int len; b = word_of_int len * 5; c = 9; d = b
      in do { fa \<leftarrow> Fetch32 s 0;
              fb \<leftarrow> Fetch32 s (len - 4);
              fc \<leftarrow> Fetch32 s ((len div 2) AND 4);
              Some (fmix (Mur (c + fc) (Mur (b + fb) (Mur (a + fa) d)))) })"

text \<open>The state of \<open>CityHash32\<close>: \<open>h\<close>, \<open>g\<close>, \<open>f\<close>.\<close>

definition city32_mix :: "u32 \<Rightarrow> u32" where
  "city32_mix a = Rotate32 (a * c1) 17 * c2"

definition city32_round :: "string \<Rightarrow> int \<Rightarrow> u32 \<times> u32 \<times> u32 \<Rightarrow> (u32 \<times> u32 \<times> u32) option" where
  "city32_round s p st =
     (let (h, g, f) = st
      in do { f0 \<leftarrow> Fetch32 s p;
              a1 \<leftarrow> Fetch32 s (p + 4);
              f2 \<leftarrow> Fetch32 s (p + 8);
              f3 \<leftarrow> Fetch32 s (p + 12);
              a4 \<leftarrow> Fetch32 s (p + 16);
              let a0 = city32_mix f0;
                  a2 = city32_mix f2;
                  a3 = city32_mix f3;
                  h = h XOR a0;
                  h = Rotate32 h 18;
                  h = h * 5 + 0xe6546b64;
                  f = f + a1;
                  f = Rotate32 f 19;
                  f = f * c1;
                  g = g + a2;
                  g = Rotate32 g 18;
                  g = g * 5 + 0xe6546b64;
                  h = h XOR (a3 + a1);
                  h = Rotate32 h 19;
                  h = h * 5 + 0xe6546b64;
                  g = g XOR a4;
                  g = bswap_32 g * 5;
                  h = h + a4 * 5;
                  h = bswap_32 h;
                  f = f + a0
              in Some (f, h, g) })"

text \<open>
  \<open>PERMUTE3(f, h, g)\<close> swaps \<open>f\<close> and \<open>h\<close>, then \<open>f\<close> and \<open>g\<close>: the new \<open>h\<close> is the old \<open>f\<close>, the new
  \<open>f\<close> the old \<open>g\<close> and the new \<open>g\<close> the old \<open>h\<close>, which is the triple \<open>(h, g, f) = (f, h, g)\<close> above.
\<close>

fun city32_loop :: "nat \<Rightarrow> string \<Rightarrow> int \<Rightarrow> u32 \<times> u32 \<times> u32 \<Rightarrow> (u32 \<times> u32 \<times> u32) option" where
  "city32_loop 0 s p st = Some st"
| "city32_loop (Suc iters) s p st = do { st \<leftarrow> city32_round s p st; city32_loop iters s (p + 20) st }"

definition CityHash32 :: "string \<Rightarrow> u32 option" where
  "CityHash32 s =
     (let len = int (length s)
      in if len \<le> 24 then
           (if len \<le> 12 then (if len \<le> 4 then Hash32Len0to4 s len else Hash32Len5to12 s len)
            else Hash32Len13to24 s len)
         else
           do { f0 \<leftarrow> Fetch32 s (len - 4);
                f1 \<leftarrow> Fetch32 s (len - 8);
                f2 \<leftarrow> Fetch32 s (len - 16);
                f3 \<leftarrow> Fetch32 s (len - 12);
                f4 \<leftarrow> Fetch32 s (len - 20);
                let h = word_of_int len;
                    g = c1 * word_of_int len;
                    f = g;
                    h = h XOR city32_mix f0;
                    h = Rotate32 h 19;
                    h = h * 5 + 0xe6546b64;
                    h = h XOR city32_mix f2;
                    h = Rotate32 h 19;
                    h = h * 5 + 0xe6546b64;
                    g = g XOR city32_mix f1;
                    g = Rotate32 g 19;
                    g = g * 5 + 0xe6546b64;
                    g = g XOR city32_mix f3;
                    g = Rotate32 g 19;
                    g = g * 5 + 0xe6546b64;
                    f = f + city32_mix f4;
                    f = Rotate32 f 19;
                    f = f * 5 + 0xe6546b64
                in do { st \<leftarrow> city32_loop (nat ((len - 1) div 20)) s 0 (h, g, f);
                        let (h, g, f) = st;
                            g = Rotate32 g 11 * c1;
                            g = Rotate32 g 17 * c1;
                            f = Rotate32 f 11 * c1;
                            f = Rotate32 f 17 * c1;
                            h = Rotate32 (h + g) 19;
                            h = h * 5 + 0xe6546b64;
                            h = Rotate32 h 17 * c1;
                            h = Rotate32 (h + f) 19;
                            h = h * 5 + 0xe6546b64
                        in Some (Rotate32 h 17 * c1) } })"

section \<open>64-bit hashing\<close>

definition k0 :: u64 where "k0 = 0xc3a5c85c97cb3127"
definition k1 :: u64 where "k1 = 0xb492b66fbe98f273"
definition k2 :: u64 where "k2 = 0x9ae16a3b2f90404f"

definition Rotate :: "u64 \<Rightarrow> nat \<Rightarrow> u64" where
  "Rotate val shift = (if shift = 0 then val else drop_bit shift val OR push_bit (64 - shift) val)"

definition ShiftMix :: "u64 \<Rightarrow> u64" where
  "ShiftMix val = val XOR drop_bit 47 val"

definition HashLen16_mul :: "u64 \<Rightarrow> u64 \<Rightarrow> u64 \<Rightarrow> u64" where
  "HashLen16_mul u v mul =
     (let a = (u XOR v) * mul;
          a = a XOR drop_bit 47 a;
          b = (v XOR a) * mul;
          b = b XOR drop_bit 47 b
      in b * mul)"

definition Hash128to64 :: "u64 \<times> u64 \<Rightarrow> u64" where
  "Hash128to64 x =
     (let kMul = 0x9ddfea08eb382d69;
          a = (fst x XOR snd x) * kMul;
          a = a XOR drop_bit 47 a;
          b = (snd x XOR a) * kMul;
          b = b XOR drop_bit 47 b
      in b * kMul)"

definition HashLen16 :: "u64 \<Rightarrow> u64 \<Rightarrow> u64" where
  "HashLen16 u v = Hash128to64 (u, v)"

definition HashLen0to16 :: "string \<Rightarrow> int \<Rightarrow> u64 option" where
  "HashLen0to16 s len =
     (if len \<ge> 8 then
        let mul = k2 + word_of_int len * 2
        in do { fa \<leftarrow> Fetch64 s 0;
                b \<leftarrow> Fetch64 s (len - 8);
                let a = fa + k2;
                    c = Rotate b 37 * mul + a;
                    d = (Rotate a 25 + b) * mul
                in Some (HashLen16_mul c d mul) }
      else if len \<ge> 4 then
        let mul = k2 + word_of_int len * 2
        in do { a \<leftarrow> Fetch32 s 0;
                b \<leftarrow> Fetch32 s (len - 4);
                Some (HashLen16_mul (word_of_int len + push_bit 3 (ucast a)) (ucast b) mul) }
      else if len > 0 then
        do { a \<leftarrow> byte_at s 0;
             b \<leftarrow> byte_at s (len div 2);
             c \<leftarrow> byte_at s (len - 1);
             let y = of_nat a + push_bit 8 (of_nat b) :: u32;
                 z = word_of_int len + push_bit 2 (of_nat c) :: u32
             in Some (ShiftMix (ucast y * k2 XOR ucast z * k0) * k2) }
      else Some k2)"

definition HashLen17to32 :: "string \<Rightarrow> int \<Rightarrow> u64 option" where
  "HashLen17to32 s len =
     (let mul = k2 + word_of_int len * 2
      in do { fa \<leftarrow> Fetch64 s 0;
              b \<leftarrow> Fetch64 s 8;
              fc \<leftarrow> Fetch64 s (len - 8);
              fd \<leftarrow> Fetch64 s (len - 16);
              let a = fa * k1; c = fc * mul; d = fd * k2
              in Some (HashLen16_mul (Rotate (a + b) 43 + Rotate c 30 + d) (a + Rotate (b + k2) 18 + c) mul) })"

definition WeakHashLen32WithSeeds6 :: "u64 \<Rightarrow> u64 \<Rightarrow> u64 \<Rightarrow> u64 \<Rightarrow> u64 \<Rightarrow> u64 \<Rightarrow> u64 \<times> u64" where
  "WeakHashLen32WithSeeds6 w x y z a b =
     (let a = a + w;
          b = Rotate (b + a + z) 21;
          c = a;
          a = a + x;
          a = a + y;
          b = b + Rotate a 44
      in (a + z, b + c))"

definition WeakHashLen32WithSeeds :: "string \<Rightarrow> int \<Rightarrow> u64 \<Rightarrow> u64 \<Rightarrow> (u64 \<times> u64) option" where
  "WeakHashLen32WithSeeds s p a b =
     do { w \<leftarrow> Fetch64 s p;
          x \<leftarrow> Fetch64 s (p + 8);
          y \<leftarrow> Fetch64 s (p + 16);
          z \<leftarrow> Fetch64 s (p + 24);
          Some (WeakHashLen32WithSeeds6 w x y z a b) }"

definition HashLen33to64 :: "string \<Rightarrow> int \<Rightarrow> u64 option" where
  "HashLen33to64 s len =
     (let mul = k2 + word_of_int len * 2
      in do { fa \<leftarrow> Fetch64 s 0;
              b \<leftarrow> Fetch64 s 8;
              c \<leftarrow> Fetch64 s (len - 24);
              d \<leftarrow> Fetch64 s (len - 32);
              fe \<leftarrow> Fetch64 s 16;
              ff \<leftarrow> Fetch64 s 24;
              g \<leftarrow> Fetch64 s (len - 8);
              fh \<leftarrow> Fetch64 s (len - 16);
              let a = fa * k2;
                  e = fe * k2;
                  f = ff * 9;
                  h = fh * mul;
                  u = Rotate (a + g) 43 + (Rotate b 30 + c) * 9;
                  v = ((a + g) XOR d) + f + 1;
                  w = bswap_64 ((u + v) * mul) + h;
                  x = Rotate (e + f) 42 + c;
                  y = (bswap_64 ((v + w) * mul) + g) * mul;
                  z = e + f + c;
                  a = bswap_64 ((x + z) * mul + y) + b;
                  b = ShiftMix ((z + a) * mul + d + h) * mul
              in Some (b + x) })"

text \<open>The 56 bytes of state of the long hashes: \<open>v\<close>, \<open>w\<close>, \<open>x\<close>, \<open>y\<close>, \<open>z\<close>.\<close>

record city_state =
  st_v :: "u64 \<times> u64"
  st_w :: "u64 \<times> u64"
  st_x :: u64
  st_y :: u64
  st_z :: u64

definition city_chunk :: "string \<Rightarrow> int \<Rightarrow> city_state \<Rightarrow> city_state option" where
  "city_chunk s p st =
     do { f8 \<leftarrow> Fetch64 s (p + 8);
          f48 \<leftarrow> Fetch64 s (p + 48);
          f40 \<leftarrow> Fetch64 s (p + 40);
          let v = st_v st; w = st_w st; x = st_x st; y = st_y st; z = st_z st;
              x = Rotate (x + y + fst v + f8) 37 * k1;
              y = Rotate (y + snd v + f48) 42 * k1;
              x = x XOR snd w;
              y = y + (fst v + f40);
              z = Rotate (z + fst w) 33 * k1
          in do { v \<leftarrow> WeakHashLen32WithSeeds s p (snd v * k1) (x + fst w);
                  f16 \<leftarrow> Fetch64 s (p + 16);
                  w \<leftarrow> WeakHashLen32WithSeeds s (p + 32) (z + snd w) (y + f16);
                  Some \<lparr>st_v = v, st_w = w, st_x = z, st_y = y, st_z = x\<rparr> } }"

text \<open>The loop over chunks of 64 bytes; \<open>len\<close> is a positive multiple of 64.\<close>

fun city64_loop :: "nat \<Rightarrow> string \<Rightarrow> int \<Rightarrow> city_state \<Rightarrow> city_state option" where
  "city64_loop len s p st =
     do { st \<leftarrow> city_chunk s p st;
          if len - 64 = 0 then Some st else city64_loop (len - 64) s (p + 64) st }"

declare city64_loop.simps [simp del]

definition CityHash64 :: "string \<Rightarrow> u64 option" where
  "CityHash64 s =
     (let len = int (length s)
      in if len \<le> 32 then (if len \<le> 16 then HashLen0to16 s len else HashLen17to32 s len)
         else if len \<le> 64 then HashLen33to64 s len
         else
           do { x \<leftarrow> Fetch64 s (len - 40);
                y16 \<leftarrow> Fetch64 s (len - 16);
                y56 \<leftarrow> Fetch64 s (len - 56);
                z48 \<leftarrow> Fetch64 s (len - 48);
                z24 \<leftarrow> Fetch64 s (len - 24);
                let y = y16 + y56; z = HashLen16 (z48 + word_of_int len) z24
                in do { v \<leftarrow> WeakHashLen32WithSeeds s (len - 64) (word_of_int len) z;
                        w \<leftarrow> WeakHashLen32WithSeeds s (len - 32) (y + k1) x;
                        f0 \<leftarrow> Fetch64 s 0;
                        st \<leftarrow> city64_loop (64 * ((length s - 1) div 64)) s 0
                                \<lparr>st_v = v, st_w = w, st_x = x * k1 + f0, st_y = y, st_z = z\<rparr>;
                        Some (HashLen16 (HashLen16 (fst (st_v st)) (fst (st_w st)) + ShiftMix (st_y st) * k1 + st_z st)
                                        (HashLen16 (snd (st_v st)) (snd (st_w st)) + st_x st)) } })"

definition CityHash64WithSeeds :: "string \<Rightarrow> u64 \<Rightarrow> u64 \<Rightarrow> u64 option" where
  "CityHash64WithSeeds s seed0 seed1 = do { h \<leftarrow> CityHash64 s; Some (HashLen16 (h - seed0) seed1) }"

definition CityHash64WithSeed :: "string \<Rightarrow> u64 \<Rightarrow> u64 option" where
  "CityHash64WithSeed s seed = CityHash64WithSeeds s k2 seed"

text \<open>
  \<open>Hash64::compute\<close> and \<open>Hash32::compute\<close> of \<open>name-tree-hashtable.cpp\<close>, one of which the name tree uses
  on the wire encoding of a component, by the width of \<open>HashValue\<close>.
\<close>

definition Hash64_compute :: "string \<Rightarrow> u64" where
  "Hash64_compute buf = the (CityHash64 buf)"

definition Hash32_compute :: "string \<Rightarrow> u32" where
  "Hash32_compute buf = the (CityHash32 buf)"

section \<open>128-bit hashing\<close>

fun murmur_loop :: "int \<Rightarrow> string \<Rightarrow> int \<Rightarrow> u64 \<times> u64 \<times> u64 \<times> u64 \<Rightarrow> (u64 \<times> u64 \<times> u64 \<times> u64) option" where
  "murmur_loop l s p st =
     (let (a, b, c, d) = st
      in do { f0 \<leftarrow> Fetch64 s p;
              f8 \<leftarrow> Fetch64 s (p + 8);
              let a = a XOR ShiftMix (f0 * k1) * k1;
                  a = a * k1;
                  b = b XOR a;
                  c = c XOR ShiftMix (f8 * k1) * k1;
                  c = c * k1;
                  d = d XOR c
              in if l - 16 > 0 then murmur_loop (l - 16) s (p + 16) (a, b, c, d) else Some (a, b, c, d) })"

declare murmur_loop.simps [simp del]

definition CityMurmur :: "string \<Rightarrow> u64 \<times> u64 \<Rightarrow> (u64 \<times> u64) option" where
  "CityMurmur s seed =
     (let len = int (length s); a = fst seed; b = snd seed; l = len - 16
      in do { (a, b, c, d) \<leftarrow>
                (if l \<le> 0 then
                   (let a = ShiftMix (a * k1) * k1
                    in do { h \<leftarrow> HashLen0to16 s len;
                            let c = b * k1 + h
                            in do { f \<leftarrow> (if len \<ge> 8 then Fetch64 s 0 else Some c);
                                    Some (a, b, c, ShiftMix (a + f)) } })
                 else
                   do { f8 \<leftarrow> Fetch64 s (len - 8);
                        f16 \<leftarrow> Fetch64 s (len - 16);
                        let c = HashLen16 (f8 + k1) a;
                            d = HashLen16 (b + word_of_int len) (c + f16)
                        in murmur_loop l s 0 (a + d, b, c, d) });
              let a = HashLen16 a c;
                  b = HashLen16 d b
              in Some (a XOR b, HashLen16 b a) })"

text \<open>The unrolled loop over 128 bytes; it returns the pointer and the length that are left.\<close>

fun city128_loop :: "int \<Rightarrow> string \<Rightarrow> int \<Rightarrow> city_state \<Rightarrow> (int \<times> int \<times> city_state) option" where
  "city128_loop len s p st =
     do { st \<leftarrow> city_chunk s p st;
          st \<leftarrow> city_chunk s (p + 64) st;
          if len - 128 \<ge> 128 then city128_loop (len - 128) s (p + 128) st else Some (p + 128, len - 128, st) }"

declare city128_loop.simps [simp del]

text \<open>The loop over the last up to four chunks of 32 bytes; it reads backwards from the end.\<close>

fun tail_loop :: "nat \<Rightarrow> int \<Rightarrow> int \<Rightarrow> string \<Rightarrow> int \<Rightarrow> city_state \<Rightarrow> city_state option" where
  "tail_loop 0 tail_done len s p st = Some st"
| "tail_loop (Suc fuel) tail_done len s p st =
     (if \<not> tail_done < len then Some st
      else
        let tail_done = tail_done + 32;
            v = st_v st; w = st_w st; x = st_x st; y = st_y st; z = st_z st;
            y = Rotate (x + y) 42 * k0 + snd v
        in do { f16 \<leftarrow> Fetch64 s (p + len - tail_done + 16);
                f0 \<leftarrow> Fetch64 s (p + len - tail_done);
                let w = (fst w + f16, snd w);
                    x = x * k0 + fst w;
                    z = z + (snd w + f0);
                    w = (fst w, snd w + fst v)
                in do { v \<leftarrow> WeakHashLen32WithSeeds s (p + len - tail_done) (fst v + z) (snd v);
                        tail_loop fuel tail_done len s p
                          \<lparr>st_v = (fst v * k0, snd v), st_w = w, st_x = x, st_y = y, st_z = z\<rparr> } })"

definition CityHash128WithSeed :: "string \<Rightarrow> u64 \<times> u64 \<Rightarrow> (u64 \<times> u64) option" where
  "CityHash128WithSeed s seed =
     (let len = int (length s)
      in if len < 128 then CityMurmur s seed
         else
           let x = fst seed; y = snd seed; z = word_of_int len * k1
           in do { f0 \<leftarrow> Fetch64 s 0;
                   f8 \<leftarrow> Fetch64 s 8;
                   f88 \<leftarrow> Fetch64 s 88;
                   let v1 = Rotate (y XOR k1) 49 * k1 + f0;
                       v = (v1, Rotate v1 42 * k1 + f8);
                       w = (Rotate (y + z) 35 * k1 + x, Rotate (x + f88) 53 * k1)
                   in do { (p, len, st) \<leftarrow> city128_loop len s 0 \<lparr>st_v = v, st_w = w, st_x = x, st_y = y, st_z = z\<rparr>;
                           let v = st_v st; w = st_w st; x = st_x st; y = st_y st; z = st_z st;
                               x = x + Rotate (fst v + z) 49 * k0;
                               y = y * k0 + Rotate (snd w) 37;
                               z = z * k0 + Rotate (fst w) 27;
                               w = (fst w * 9, snd w);
                               v = (fst v * k0, snd v)
                           in do { st \<leftarrow> tail_loop 4 0 len s p \<lparr>st_v = v, st_w = w, st_x = x, st_y = y, st_z = z\<rparr>;
                                   let v = st_v st; w = st_w st;
                                       x = HashLen16 (st_x st) (fst v);
                                       y = HashLen16 (st_y st + st_z st) (fst w)
                                   in Some (HashLen16 (x + snd v) (snd w) + y, HashLen16 (x + snd w) (y + snd v)) } } })"

definition CityHash128 :: "string \<Rightarrow> (u64 \<times> u64) option" where
  "CityHash128 s =
     (if length s \<ge> 16 then
        do { f0 \<leftarrow> Fetch64 s 0;
             f8 \<leftarrow> Fetch64 s 8;
             CityHash128WithSeed (drop 16 s) (f0, f8 + k0) }
      else CityHash128WithSeed s (k0, k1))"

section \<open>Every access is inside the buffer\<close>

lemma fetch_in_range:
  assumes "0 \<le> p" and "p + 8 \<le> int (length s)"
  shows "\<exists>w. Fetch64 s p = Some w"
  using assms by (simp add: Fetch64_def fetch_bytes_def)

lemma fetch32_in_range:
  assumes "0 \<le> p" and "p + 4 \<le> int (length s)"
  shows "\<exists>w. Fetch32 s p = Some w"
  using assms by (simp add: Fetch32_def fetch_bytes_def)

lemmas fetch_defs = Fetch64_def Fetch32_def fetch_bytes_def byte_at_def

lemma hash_short32_defined:
  "int (length s) \<le> 4 \<Longrightarrow> \<exists>h. Hash32Len0to4 s (int (length s)) = Some h"
  "4 < int (length s) \<Longrightarrow> int (length s) \<le> 12 \<Longrightarrow> \<exists>h. Hash32Len5to12 s (int (length s)) = Some h"
  "12 < int (length s) \<Longrightarrow> \<exists>h. Hash32Len13to24 s (int (length s)) = Some h"
proof -
  show "\<exists>h. Hash32Len0to4 s (int (length s)) = Some h" by (simp add: Hash32Len0to4_def fetch_bytes_def split_beta)
  show "\<exists>h. Hash32Len5to12 s (int (length s)) = Some h" if "4 < int (length s)" "int (length s) \<le> 12"
  proof -
    have "length s \<in> {5, 6, 7, 8, 9, 10, 11, 12}" using that by auto
    then show ?thesis by (auto simp: Hash32Len5to12_def fetch_defs Let_def)
  qed
  show "\<exists>h. Hash32Len13to24 s (int (length s)) = Some h" if "12 < int (length s)"
  proof -
    have "4 \<le> int (length s) div 2" "int (length s) div 2 + 4 \<le> int (length s)" using that by presburger+
    then show ?thesis using that by (simp add: Hash32Len13to24_def fetch_defs)
  qed
qed

lemma city32_loop_defined:
  assumes "0 \<le> p" and "p + 20 * int iters \<le> int (length s)"
  shows "\<exists>st'. city32_loop iters s p st = Some st'"
  using assms
proof (induction iters arbitrary: p st)
  case (Suc iters)
  obtain st1 where "city32_round s p st = Some st1"
    using Suc.prems by (cases st) (auto simp: city32_round_def fetch_defs Let_def)
  then show ?case using Suc.IH[of "p + 20" st1] Suc.prems by (simp add: algebra_simps)
qed (auto intro: exI)

lemma CityHash32_defined: "\<exists>h. CityHash32 s = Some h"
proof (cases "int (length s) \<le> 24")
  case True
  then show ?thesis using hash_short32_defined[of s] by (auto simp: CityHash32_def Let_def)
next
  case False
  let ?len = "int (length s)"
  have "20 * ((?len - 1) div 20) \<le> ?len - 1" by simp
  then have lo: "\<exists>st'. city32_loop (nat ((?len - 1) div 20)) s 0 st = Some st'" for st
    using False by (intro city32_loop_defined) simp_all
  obtain f0 f1 f2 f3 f4 where "Fetch32 s (?len - 4) = Some f0" "Fetch32 s (?len - 8) = Some f1"
    "Fetch32 s (?len - 16) = Some f2" "Fetch32 s (?len - 12) = Some f3" "Fetch32 s (?len - 20) = Some f4"
    using fetch32_in_range[of "?len - 4" s] fetch32_in_range[of "?len - 8" s] fetch32_in_range[of "?len - 16" s]
      fetch32_in_range[of "?len - 12" s] fetch32_in_range[of "?len - 20" s] False by auto
  then show ?thesis using False lo
    by (auto simp: CityHash32_def Let_def bind_eq_Some_conv split_beta)
qed

lemma hash_short64_defined:
  "\<exists>h. HashLen0to16 s (int (length s)) = Some h"
  "16 < int (length s) \<Longrightarrow> \<exists>h. HashLen17to32 s (int (length s)) = Some h"
  "32 < int (length s) \<Longrightarrow> \<exists>h. HashLen33to64 s (int (length s)) = Some h"
proof -
  have "int (length s) div 2 < int (length s)" if "0 < int (length s)" using that by presburger
  then show "\<exists>h. HashLen0to16 s (int (length s)) = Some h" by (simp add: HashLen0to16_def fetch_defs Let_def)
qed (simp_all add: HashLen17to32_def HashLen33to64_def fetch_defs Let_def)

lemma weak_hash_defined:
  assumes "0 \<le> p" and "p + 32 \<le> int (length s)"
  shows "\<exists>h. WeakHashLen32WithSeeds s p a b = Some h"
  using assms by (simp add: WeakHashLen32WithSeeds_def fetch_defs)

lemma city_chunk_defined:
  assumes "0 \<le> p" and "p + 64 \<le> int (length s)"
  shows "\<exists>st'. city_chunk s p st = Some st'"
  using assms by (simp add: city_chunk_def WeakHashLen32WithSeeds_def fetch_defs Let_def)

lemma city64_loop_defined:
  assumes "0 \<le> p" and "p + int len \<le> int (length s)" and "64 \<le> len" and "64 dvd len"
  shows "\<exists>st'. city64_loop len s p st = Some st'"
  using assms
proof (induction len s p st rule: city64_loop.induct)
  case (1 len s p st)
  obtain st1 where st1: "city_chunk s p st = Some st1" using city_chunk_defined[of p s st] 1 by auto
  show ?case
  proof (cases "len - 64 = 0")
    case True
    then show ?thesis using st1 by (simp add: city64_loop.simps[of len s p st])
  next
    case False
    have "64 dvd len - 64" using 1(5) by simp
    moreover then have "64 \<le> len - 64" using False by (simp add: dvd_imp_le)
    ultimately have "\<exists>st'. city64_loop (len - 64) s (p + 64) st1 = Some st'"
      using 1(2,3,4) False st1 by (intro 1(1)) simp_all
    then show ?thesis using False st1 by (simp add: city64_loop.simps[of len s p st])
  qed
qed

lemma CityHash64_defined: "\<exists>h. CityHash64 s = Some h"
proof (cases "int (length s) \<le> 64")
  case True
  then show ?thesis using hash_short64_defined[of s] by (auto simp: CityHash64_def Let_def)
next
  case False
  let ?len = "int (length s)"
  have n: "64 * ((length s - 1) div 64) \<le> length s - 1" by simp
  have "1 \<le> (length s - 1) div 64" using False by (simp add: div_greater_zero_iff)
  then have lo: "\<exists>st'. city64_loop (64 * ((length s - 1) div 64)) s 0 st = Some st'" for st
    using n False by (intro city64_loop_defined) simp_all
  have we: "\<exists>h. WeakHashLen32WithSeeds s (?len - 64) a b = Some h" "\<exists>h. WeakHashLen32WithSeeds s (?len - 32) a b = Some h" for a b
    by (rule weak_hash_defined; use False in simp)+
  obtain f40 f16 f56 f48 f24 f0 where "Fetch64 s (?len - 40) = Some f40" "Fetch64 s (?len - 16) = Some f16"
    "Fetch64 s (?len - 56) = Some f56" "Fetch64 s (?len - 48) = Some f48" "Fetch64 s (?len - 24) = Some f24" "Fetch64 s 0 = Some f0"
    using fetch_in_range[of "?len - 40" s] fetch_in_range[of "?len - 16" s] fetch_in_range[of "?len - 56" s]
      fetch_in_range[of "?len - 48" s] fetch_in_range[of "?len - 24" s] fetch_in_range[of 0 s] False by auto
  then show ?thesis using False lo we
    by (simp add: CityHash64_def Let_def bind_eq_Some_conv) metis
qed

lemma murmur_loop_defined:
  assumes "0 \<le> p" and "p + l + 16 \<le> int (length s)" and "0 < l"
  shows "\<exists>st'. murmur_loop l s p st = Some st'"
  using assms
proof (induction "nat l" arbitrary: l p st rule: less_induct)
  case less
  obtain a b c d where st: "st = (a, b, c, d)" by (cases st) auto
  obtain f0 f8 where f: "Fetch64 s p = Some f0" "Fetch64 s (p + 8) = Some f8"
    using fetch_in_range[of p s] fetch_in_range[of "p + 8" s] less.prems by auto
  show ?case
  proof (cases "l - 16 > 0")
    case True
    then have "\<exists>st'. murmur_loop (l - 16) s (p + 16) st1 = Some st'" for st1
      using less.prems by (intro less.hyps) simp_all
    then show ?thesis using f True by (simp add: st murmur_loop.simps[of l s p "(a, b, c, d)"] Let_def)
  qed (use f in \<open>simp add: st murmur_loop.simps[of l s p "(a, b, c, d)"] Let_def\<close>)
qed

lemma CityMurmur_defined: "\<exists>h. CityMurmur s seed = Some h"
proof (cases "int (length s) - 16 \<le> 0")
  case True
  obtain h where "HashLen0to16 s (int (length s)) = Some h" using hash_short64_defined(1) by blast
  moreover obtain f where "8 \<le> length s \<longrightarrow> Fetch64 s 0 = Some f" using fetch_in_range[of 0 s] by auto
  ultimately show ?thesis using True by (auto simp: CityMurmur_def Let_def)
next
  case False
  have "\<exists>st'. murmur_loop (int (length s) - 16) s 0 st = Some st'" for st
    using False by (intro murmur_loop_defined) simp_all
  moreover obtain f8 f16 where "Fetch64 s (int (length s) - 8) = Some f8" "Fetch64 s (int (length s) - 16) = Some f16"
    using fetch_in_range[of "int (length s) - 8" s] fetch_in_range[of "int (length s) - 16" s] False by auto
  ultimately show ?thesis using False
    by (auto simp: CityMurmur_def Let_def bind_eq_Some_conv split_beta)
qed

lemma city128_loop_defined:
  assumes "0 \<le> p" and "p + len = int (length s)" and "128 \<le> len"
  shows "\<exists>q r st'. city128_loop len s p st = Some (q, r, st') \<and> 128 \<le> q \<and> q + r = int (length s) \<and> 0 \<le> r \<and> r < 128"
  using assms
proof (induction "nat len" arbitrary: len p st rule: less_induct)
  case less
  obtain st1 where st1: "city_chunk s p st = Some st1" using city_chunk_defined[of p s st] less.prems by auto
  obtain st2 where st2: "city_chunk s (p + 64) st1 = Some st2"
    using city_chunk_defined[of "p + 64" s st1] less.prems by auto
  show ?case
  proof (cases "len - 128 \<ge> 128")
    case True
    then have "\<exists>q r st'. city128_loop (len - 128) s (p + 128) st2 = Some (q, r, st') \<and> 128 \<le> q \<and>
        q + r = int (length s) \<and> 0 \<le> r \<and> r < 128"
      using less.prems by (intro less.hyps) simp_all
    then show ?thesis using True st1 st2 by (simp add: city128_loop.simps[of len s p st])
  qed (use less.prems st1 st2 in \<open>simp add: city128_loop.simps[of len s p st]\<close>)
qed

lemma tail_loop_defined:
  assumes "128 \<le> p" and "p + len \<le> int (length s)" and "0 \<le> len" and "len < 128"
    and "0 \<le> tail_done" and "32 dvd tail_done"
  shows "\<exists>st'. tail_loop fuel tail_done len s p st = Some st'"
  using assms
proof (induction fuel arbitrary: tail_done st)
  case (Suc fuel)
  show ?case
  proof (cases "tail_done < len")
    case True
    obtain k where k: "tail_done = 32 * k" using Suc.prems(6) by (auto elim: dvdE)
    then have t: "tail_done + 32 \<le> 128" using True Suc.prems(4) by presburger
    obtain f16 f0 where f: "Fetch64 s (p + len - (tail_done + 32) + 16) = Some f16" "Fetch64 s (p + len - (tail_done + 32)) = Some f0"
      using fetch_in_range[of "p + len - (tail_done + 32) + 16" s] fetch_in_range[of "p + len - (tail_done + 32)" s]
        Suc.prems True t by auto
    have "\<exists>h. WeakHashLen32WithSeeds s (p + len - (tail_done + 32)) a b = Some h" for a b
      using Suc.prems True t by (intro weak_hash_defined) simp_all
    moreover have "\<exists>st'. tail_loop fuel (tail_done + 32) len s p st1 = Some st'" for st1
      using Suc.prems by (intro Suc.IH) simp_all
    ultimately show ?thesis using f True by (simp add: Let_def bind_eq_Some_conv) metis
  qed simp
qed simp

lemma CityHash128WithSeed_defined: "\<exists>h. CityHash128WithSeed s seed = Some h"
proof (cases "int (length s) < 128")
  case True
  then show ?thesis using CityMurmur_defined by (simp add: CityHash128WithSeed_def)
next
  case False
  have t: "\<exists>st'. tail_loop 4 0 r s q st = Some st'" if "128 \<le> q" "q + r = int (length s)" "0 \<le> r" "r < 128" for q r st
    using that by (intro tail_loop_defined) simp_all
  have "\<exists>q r st'. city128_loop (int (length s)) s 0 st = Some (q, r, st') \<and> 128 \<le> q \<and>
      q + r = int (length s) \<and> 0 \<le> r \<and> r < 128" for st
    using False by (intro city128_loop_defined) simp_all
  moreover obtain f0 f8 f88 where "Fetch64 s 0 = Some f0" "Fetch64 s 8 = Some f8" "Fetch64 s 88 = Some f88"
    using fetch_in_range[of 0 s] fetch_in_range[of 8 s] fetch_in_range[of 88 s] False by auto
  ultimately show ?thesis using False t
    by (simp add: CityHash128WithSeed_def Let_def bind_eq_Some_conv split_beta) blast
qed

section \<open>Properties\<close>


end
