(* ===== verification/Dead_Nonce_List.thy ===== *)
theory Dead_Nonce_List
  imports NDN_Packets City_Hash
begin

text \<open>
  The Dead Nonce List (\<open>daemon/table/dead-nonce-list.cpp\<close>): hashes of name and nonce of Interests that
  are no longer pending, in order of arrival, with special marks in between from whose number the
  list estimates how long entries stay and adjusts its capacity. The index is one container with a
  sequence and a hash table view; the model is the sequence, in which the hash table looks up values.
  The wire encoding of a name is a function of the packet library and a parameter. The capacity
  factors are the binary64 numbers next to 1.2 and 0.9.
\<close>

section \<open>Operations\<close>

record dnl =
  dnl_lifetime :: time_point
  dnl_queue :: "u64 list"
  dnl_capacity :: nat
  dnl_markInterval :: time_point
  dnl_adjustCapacityInterval :: time_point
  dnl_actualMarkCounts :: "nat multiset"
  dnl_markEvent :: time_point
  dnl_adjustCapacityEvent :: time_point

definition DEFAULT_LIFETIME :: time_point where "DEFAULT_LIFETIME = ms 6000"
definition MIN_LIFETIME :: time_point where "MIN_LIFETIME = ms 1"
definition INITIAL_CAPACITY :: nat where "INITIAL_CAPACITY = 2 ^ 7"
definition MIN_CAPACITY :: nat where "MIN_CAPACITY = 2 ^ 3"
definition MAX_CAPACITY :: nat where "MAX_CAPACITY = 2 ^ 24"
definition MARK :: u64 where "MARK = 0"
definition EXPECTED_MARK_COUNT :: nat where "EXPECTED_MARK_COUNT = 5"
definition CAPACITY_UP :: fp_const where "CAPACITY_UP = \<lparr>fp_mantissa = 5404319552844595, fp_scale = 52\<rparr>"
definition CAPACITY_DOWN :: fp_const where "CAPACITY_DOWN = \<lparr>fp_mantissa = 8106479329266893, fp_scale = 53\<rparr>"
definition EVICT_LIMIT :: nat where "EVICT_LIMIT = 2 ^ 6"

definition mk_dnl :: "time_point \<Rightarrow> time_point \<Rightarrow> dnl option" where
  "mk_dnl now lifetime =
     (if lifetime < MIN_LIFETIME then None
      else Some \<lparr>dnl_lifetime = lifetime, dnl_queue = replicate EXPECTED_MARK_COUNT MARK,
                 dnl_capacity = INITIAL_CAPACITY, dnl_markInterval = lifetime div int EXPECTED_MARK_COUNT,
                 dnl_adjustCapacityInterval = lifetime, dnl_actualMarkCounts = {#},
                 dnl_markEvent = now + lifetime div int EXPECTED_MARK_COUNT,
                 dnl_adjustCapacityEvent = now + lifetime\<rparr>)"

definition countMarks :: "dnl \<Rightarrow> nat" where
  "countMarks d = count (mset (dnl_queue d)) MARK"

definition dnl_size :: "dnl \<Rightarrow> nat" where
  "dnl_size d = length (dnl_queue d) - countMarks d"

definition makeEntry :: "(name \<Rightarrow> string) \<Rightarrow> name \<Rightarrow> u32 \<Rightarrow> u64" where
  "makeEntry wireEncode n nonce = the (CityHash64WithSeed (wireEncode n) (ucast nonce))"

definition dnl_has :: "(name \<Rightarrow> string) \<Rightarrow> name \<Rightarrow> u32 \<Rightarrow> dnl \<Rightarrow> bool" where
  "dnl_has wireEncode n nonce d \<longleftrightarrow> makeEntry wireEncode n nonce \<in> set (dnl_queue d)"

definition dnl_evictEntries :: "dnl \<Rightarrow> dnl" where
  "dnl_evictEntries d =
     (let nOverCapacity = int (length (dnl_queue d)) - int (dnl_capacity d)
      in if nOverCapacity \<le> 0 then d
         else d\<lparr>dnl_queue := drop (nat (min nOverCapacity (int EVICT_LIMIT))) (dnl_queue d)\<rparr>)"

definition dnl_add :: "(name \<Rightarrow> string) \<Rightarrow> name \<Rightarrow> u32 \<Rightarrow> dnl \<Rightarrow> dnl" where
  "dnl_add wireEncode n nonce d =
     dnl_evictEntries (d\<lparr>dnl_queue := dnl_queue d @ [makeEntry wireEncode n nonce]\<rparr>)"

definition dnl_mark :: "time_point \<Rightarrow> dnl \<Rightarrow> dnl" where
  "dnl_mark now d =
     (let d = d\<lparr>dnl_queue := dnl_queue d @ [MARK]\<rparr>
      in d\<lparr>dnl_actualMarkCounts := add_mset (countMarks d) (dnl_actualMarkCounts d),
           dnl_markEvent := now + dnl_markInterval d\<rparr>)"

text \<open>\<open>equal_range\<close> of the ordered multiset: the upper bound is its begin if no count is at most the
  expected one, the lower bound is its end if no count is at least the expected one.\<close>

definition dnl_adjustCapacity :: "time_point \<Rightarrow> dnl \<Rightarrow> dnl" where
  "dnl_adjustCapacity now d =
     (let counts = dnl_actualMarkCounts d;
          d = (if filter_mset (\<lambda>c. c \<le> EXPECTED_MARK_COUNT) counts = {#}
               then d\<lparr>dnl_capacity := max MIN_CAPACITY (fp_scale_count 53 CAPACITY_DOWN (dnl_capacity d))\<rparr>
               else if filter_mset (\<lambda>c. c \<ge> EXPECTED_MARK_COUNT) counts = {#}
               then d\<lparr>dnl_capacity := min MAX_CAPACITY (fp_scale_count 53 CAPACITY_UP (dnl_capacity d))\<rparr>
               else d);
          d = dnl_evictEntries (d\<lparr>dnl_actualMarkCounts := {#}\<rparr>)
      in d\<lparr>dnl_adjustCapacityEvent := now + dnl_adjustCapacityInterval d\<rparr>)"

section \<open>The capacity\<close>

lemma fp_round_near:
  assumes "0 < p"
  shows "(2 ^ (p - 1) - 1) * n \<le> 2 ^ (p - 1) * fp_round p n" and "2 ^ (p - 1) * fp_round p n \<le> (2 ^ (p - 1) + 1) * n"
proof -
  define k where "k = nbits n - p"
  define q where "q = n div 2 ^ k"
  define r where "r = n mod 2 ^ k"
  have n: "n = q * 2 ^ k + r" unfolding q_def r_def by (rule div_mult_mod_eq[symmetric])
  have "r < 2 ^ k" by (simp add: r_def)
  have "fp_round p n = q * 2 ^ k \<or> fp_round p n = q * 2 ^ k + 2 ^ k" if "k \<noteq> 0"
    using that unfolding fp_round_def Let_def k_def[symmetric] q_def[symmetric] by (simp add: add.commute)
  then have near: "fp_round p n \<le> n + 2 ^ k \<and> n \<le> fp_round p n + 2 ^ k" if "k \<noteq> 0"
    using that \<open>r < 2 ^ k\<close> n by linarith
  have lim: "2 ^ (p - 1) * 2 ^ k \<le> n" if "k \<noteq> 0"
  proof -
    have "0 < n" using that by (auto simp: k_def nbits.simps[of n] split: if_splits)
    moreover have "p - 1 + k = nbits n - 1" using that assms by (simp add: k_def)
    ultimately show ?thesis using nbits_lower[of n] by (simp flip: power_add)
  qed
  show "(2 ^ (p - 1) - 1) * n \<le> 2 ^ (p - 1) * fp_round p n"
  proof (cases "k = 0")
    case False
    have "2 ^ (p - 1) * n \<le> 2 ^ (p - 1) * fp_round p n + 2 ^ (p - 1) * 2 ^ k"
      using near[OF False] mult_le_mono2[of n "fp_round p n + 2 ^ k" "2 ^ (p - 1)"] by (simp add: algebra_simps)
    then show ?thesis using lim[OF False] by (simp add: diff_mult_distrib)
  qed (simp add: fp_round_def flip: k_def)
  show "2 ^ (p - 1) * fp_round p n \<le> (2 ^ (p - 1) + 1) * n"
  proof (cases "k = 0")
    case False
    have "2 ^ (p - 1) * fp_round p n \<le> 2 ^ (p - 1) * n + 2 ^ (p - 1) * 2 ^ k"
      using near[OF False] mult_le_mono2[of "fp_round p n" "n + 2 ^ k" "2 ^ (p - 1)"] by (simp add: algebra_simps)
    then show ?thesis using lim[OF False] by simp
  qed (simp add: fp_round_def flip: k_def)
qed

lemma capacity_up_arith:
  assumes a: "24338891524381998203697223224525 * n \<le> 4503599627370496 * (r :: nat)" and b: "8 \<le> n"
  shows "4503599627370496 * (n + 1) \<le> r"
proof (rule ccontr)
  assume "\<not> ?thesis"
  then have "4503599627370496 * r < 4503599627370496 * (4503599627370496 * (n + 1))" by simp
  then have "4503599627370496 * r < 20282409603651670423947251286016 * n + 20282409603651670423947251286016" by simp
  with a have "24338891524381998203697223224525 * n < 20282409603651670423947251286016 * n + 20282409603651670423947251286016"
    by (rule order_le_less_trans)
  then have "4056481920730327779749971938509 * n < 20282409603651670423947251286016" by simp
  moreover have "4056481920730327779749971938509 * 8 \<le> 4056481920730327779749971938509 * n" using b by simp
  ultimately show False by simp
qed

lemma capacity_up:
  assumes "MIN_CAPACITY \<le> n" and "n \<le> MAX_CAPACITY"
  shows "n < fp_scale_count 53 CAPACITY_UP n"
proof -
  have n: "8 \<le> n" "n < 2 ^ 53" using assms by (simp_all add: MIN_CAPACITY_def MAX_CAPACITY_def)
  let ?r = "fp_round 53 (5404319552844595 * n)"
  have "24338891524381998203697223224525 * n \<le> 4503599627370496 * ?r"
    using fp_round_near(1)[of 53 "5404319552844595 * n"] by simp
  then have "4503599627370496 * (n + 1) \<le> ?r" using n(1) by (rule capacity_up_arith)
  then have "n + 1 \<le> ?r div 2 ^ 52" using div_le_mono[of "4503599627370496 * (n + 1)" ?r "2 ^ 52"] by simp
  then show ?thesis using fp_round_small[OF n(2)] by (simp add: fp_scale_count_def CAPACITY_UP_def)
qed

lemma capacity_down:
  assumes "MIN_CAPACITY \<le> n" and "n \<le> MAX_CAPACITY"
  shows "fp_scale_count 53 CAPACITY_DOWN n < n"
proof -
  have n: "8 \<le> n" "n < 2 ^ 53" using assms by (simp_all add: MIN_CAPACITY_def MAX_CAPACITY_def)
  let ?r = "fp_round 53 (8106479329266893 * n)"
  have "4503599627370496 * ?r \<le> 36508337286573015770304307055821 * n"
    using fp_round_near(2)[of 53 "8106479329266893 * n"] by simp
  then have "?r < n * 9007199254740992" using n(1) by linarith
  then have "?r div 2 ^ 53 < n" by (simp add: div_less_iff_less_mult)
  then show ?thesis using fp_round_small[OF n(2)] by (simp add: fp_scale_count_def CAPACITY_DOWN_def)
qed

definition dnl_ok :: "dnl \<Rightarrow> bool" where
  "dnl_ok d \<longleftrightarrow> MIN_CAPACITY \<le> dnl_capacity d \<and> dnl_capacity d \<le> MAX_CAPACITY"

lemma dnl_evict_simps [simp]:
  "dnl_capacity (dnl_evictEntries d) = dnl_capacity d"
  "dnl_actualMarkCounts (dnl_evictEntries d) = dnl_actualMarkCounts d"
  by (simp_all add: dnl_evictEntries_def Let_def)

text \<open>Sequences of operations.\<close>

datatype dnl_op = DnlAdd name u32 | DnlMark time_point | DnlAdjust time_point

fun dnl_exec :: "(name \<Rightarrow> string) \<Rightarrow> dnl_op \<Rightarrow> dnl \<Rightarrow> dnl" where
  "dnl_exec wireEncode (DnlAdd n nonce) d = dnl_add wireEncode n nonce d"
| "dnl_exec wireEncode (DnlMark now) d = dnl_mark now d"
| "dnl_exec wireEncode (DnlAdjust now) d = dnl_adjustCapacity now d"

fun pushes :: "dnl_op \<Rightarrow> bool" where
  "pushes (DnlAdjust now) = False"
| "pushes _ = True"

lemma dnl_exec_ok: "dnl_ok d \<Longrightarrow> dnl_ok (dnl_exec w op d)"
proof (cases op)
  case (DnlAdjust now)
  assume d: "dnl_ok d"
  then have "fp_scale_count 53 CAPACITY_DOWN (dnl_capacity d) < dnl_capacity d"
    "dnl_capacity d < fp_scale_count 53 CAPACITY_UP (dnl_capacity d)"
    using capacity_up capacity_down by (simp_all add: dnl_ok_def)
  then show ?thesis using d unfolding DnlAdjust by (simp add: dnl_adjustCapacity_def dnl_ok_def Let_def)
qed (simp_all add: dnl_add_def dnl_mark_def dnl_ok_def Let_def)

lemma evictEntries_interval: "dnl_adjustCapacityInterval (dnl_evictEntries d) = dnl_adjustCapacityInterval d"
  by (simp add: dnl_evictEntries_def Let_def)

lemma evictEntries_queue:
  "dnl_queue (dnl_evictEntries d) = drop (min (length (dnl_queue d) - dnl_capacity d) EVICT_LIMIT) (dnl_queue d)"
  by (auto simp: dnl_evictEntries_def Let_def min_def EVICT_LIMIT_def intro!: arg_cong[where f = "\<lambda>n. drop n (dnl_queue d)"])

lemma adjustCapacity_props:
  fixes d :: dnl and t :: time_point
  assumes ok: "dnl_ok d"
  defines "d' \<equiv> dnl_adjustCapacity t d"
  shows "(\<forall>x\<in>#dnl_actualMarkCounts d. EXPECTED_MARK_COUNT < x) \<longrightarrow>
      dnl_capacity d' = dnl_capacity d \<and> dnl_capacity d = MIN_CAPACITY \<or> MIN_CAPACITY \<le> dnl_capacity d' \<and> dnl_capacity d' < dnl_capacity d"
    "dnl_actualMarkCounts d \<noteq> {#} \<and> (\<forall>x\<in>#dnl_actualMarkCounts d. x < EXPECTED_MARK_COUNT) \<longrightarrow>
      dnl_capacity d' = dnl_capacity d \<and> dnl_capacity d = MAX_CAPACITY \<or> dnl_capacity d < dnl_capacity d' \<and> dnl_capacity d' \<le> MAX_CAPACITY"
    "(\<exists>x\<in>#dnl_actualMarkCounts d. x \<le> EXPECTED_MARK_COUNT) \<and> (\<exists>x\<in>#dnl_actualMarkCounts d. x \<ge> EXPECTED_MARK_COUNT) \<longrightarrow>
      dnl_capacity d' = dnl_capacity d"
    "dnl_actualMarkCounts d' = {#}" "dnl_adjustCapacityEvent d' = t + dnl_adjustCapacityInterval d"
    "dnl_queue d' = drop (min (length (dnl_queue d) - dnl_capacity d') EVICT_LIMIT) (dnl_queue d)"
proof -
  let ?n = "dnl_actualMarkCounts d" and ?c = "dnl_capacity d"
  have sc: "fp_scale_count 53 CAPACITY_DOWN ?c < ?c" "?c < fp_scale_count 53 CAPACITY_UP ?c" "MIN_CAPACITY \<le> ?c" "?c \<le> MAX_CAPACITY"
    using ok capacity_up capacity_down by (simp_all add: dnl_ok_def)
  have f: "filter_mset P ?n = {#} \<longleftrightarrow> (\<forall>x\<in>#?n. \<not> P x)" for P by (auto simp: filter_mset_eq_conv multiset_eq_iff count_eq_zero_iff)
  have cap: "dnl_capacity d' =
      (if \<forall>x\<in>#?n. EXPECTED_MARK_COUNT < x then max MIN_CAPACITY (fp_scale_count 53 CAPACITY_DOWN ?c)
       else if \<forall>x\<in>#?n. x < EXPECTED_MARK_COUNT then min MAX_CAPACITY (fp_scale_count 53 CAPACITY_UP ?c) else ?c)"
    by (simp add: d'_def dnl_adjustCapacity_def Let_def f not_le)
  show "(\<forall>x\<in>#?n. EXPECTED_MARK_COUNT < x) \<longrightarrow> dnl_capacity d' = ?c \<and> ?c = MIN_CAPACITY \<or> MIN_CAPACITY \<le> dnl_capacity d' \<and> dnl_capacity d' < ?c"
    using sc by (auto simp: cap)
  show "?n \<noteq> {#} \<and> (\<forall>x\<in>#?n. x < EXPECTED_MARK_COUNT) \<longrightarrow>
      dnl_capacity d' = ?c \<and> ?c = MAX_CAPACITY \<or> ?c < dnl_capacity d' \<and> dnl_capacity d' \<le> MAX_CAPACITY"
    using sc by (auto simp: cap) (metis less_asym multiset_nonemptyE)+
  show "(\<exists>x\<in>#?n. x \<le> EXPECTED_MARK_COUNT) \<and> (\<exists>x\<in>#?n. x \<ge> EXPECTED_MARK_COUNT) \<longrightarrow> dnl_capacity d' = ?c"
    by (auto simp: cap)
  show "dnl_actualMarkCounts d' = {#}" "dnl_adjustCapacityEvent d' = t + dnl_adjustCapacityInterval d"
    "dnl_queue d' = drop (min (length (dnl_queue d) - dnl_capacity d') EVICT_LIMIT) (dnl_queue d)"
    by (auto simp: d'_def dnl_adjustCapacity_def Let_def evictEntries_queue evictEntries_interval)
qed

lemma mk_dnl_ok: "mk_dnl now lt = Some d \<Longrightarrow> dnl_ok d"
  by (auto simp: mk_dnl_def dnl_ok_def MIN_CAPACITY_def MAX_CAPACITY_def INITIAL_CAPACITY_def split: if_splits)

section \<open>Retention\<close>

definition last_n :: "nat \<Rightarrow> 'a list \<Rightarrow> 'a list" where
  "last_n k xs = drop (length xs - k) xs"

lemma last_n_snoc: "x \<in> set (last_n k xs) \<Longrightarrow> x \<in> set (last_n (Suc k) (xs @ [y]))"
  by (auto simp: last_n_def)

lemma last_n_drop: "m + k \<le> length xs \<Longrightarrow> last_n k (drop m xs) = last_n k xs"
  by (simp add: last_n_def)

lemma last_n_subset: "set (last_n k xs) \<subseteq> set xs"
  by (simp add: last_n_def set_drop_subset)

lemma last_n_evict:
  assumes "k \<le> dnl_capacity d"
  shows "last_n k (dnl_queue (dnl_evictEntries d)) = last_n k (dnl_queue d)"
  using assms by (auto simp: dnl_evictEntries_def Let_def min_def intro!: last_n_drop split: if_splits)

lemma retained_step:
  assumes d: "dnl_ok d" and x: "x \<in> set (last_n k (dnl_queue d))" and k: "(if pushes op then Suc k else k) \<le> MIN_CAPACITY"
  shows "x \<in> set (last_n (if pushes op then Suc k else k) (dnl_queue (dnl_exec w op d)))"
proof (cases op)
  case (DnlAdd n nonce)
  then show ?thesis
    using last_n_snoc[OF x] k d by (simp add: dnl_add_def last_n_evict dnl_ok_def)
next
  case (DnlMark now)
  then show ?thesis using last_n_snoc[OF x] by (simp add: dnl_mark_def Let_def)
next
  case (DnlAdjust now)
  have "dnl_capacity (dnl_exec w op d) \<ge> k" using dnl_exec_ok[OF d, of w op] k DnlAdjust by (simp add: dnl_ok_def)
  then show ?thesis
    using x DnlAdjust by (simp add: dnl_adjustCapacity_def Let_def last_n_evict split: if_splits)
qed

lemma retained_run:
  assumes "dnl_ok d" and "x \<in> set (last_n k (dnl_queue d))" and "k + length (filter pushes ops) \<le> MIN_CAPACITY"
  shows "x \<in> set (dnl_queue (fold (dnl_exec w) ops d))"
  using assms
proof (induction ops arbitrary: d k)
  case Nil
  then show ?case using last_n_subset by fastforce
next
  case (Cons op ops)
  let ?k = "if pushes op then Suc k else k"
  have "x \<in> set (last_n ?k (dnl_queue (dnl_exec w op d)))"
    by (rule retained_step[OF Cons.prems(1,2)]) (use Cons.prems(3) in auto)
  then have "x \<in> set (dnl_queue (fold (dnl_exec w) ops (dnl_exec w op d)))"
    by (rule Cons.IH[OF dnl_exec_ok[OF Cons.prems(1)]]) (use Cons.prems(3) in auto)
  then show ?case by simp
qed

section \<open>Properties\<close>

text \<open>
  C21: a dead nonce is remembered. After a nonce has been added, the list reports it, and goes on to
  report it while fewer further entries (nonces or marks) arrive than the minimum capacity, however
  often the capacity is adjusted in between; eviction, which removes up to 64 entries at a time, never
  reaches the newest entries within the capacity.
\<close>

theorem dead_nonce_remembered:
  assumes "mk_dnl now lifetime = Some d0" and "length (filter pushes later) < MIN_CAPACITY"
  shows "dnl_has wireEncode n nonce (fold (dnl_exec wireEncode) (earlier @ [DnlAdd n nonce] @ later) d0)"
proof -
  have fold_ok: "dnl_ok (fold (dnl_exec wireEncode) ops d)" if "dnl_ok d" for ops d
    using that by (induction ops arbitrary: d) (simp_all add: dnl_exec_ok)
  let ?d = "fold (dnl_exec wireEncode) earlier d0" and ?x = "makeEntry wireEncode n nonce"
  have d: "dnl_ok ?d" by (rule fold_ok[OF mk_dnl_ok[OF assms(1)]])
  have "1 \<le> dnl_capacity ?d" using d by (simp add: dnl_ok_def MIN_CAPACITY_def)
  then have "?x \<in> set (last_n 1 (dnl_queue (dnl_add wireEncode n nonce ?d)))"
    by (simp add: dnl_add_def last_n_evict) (simp add: last_n_def)
  then have "?x \<in> set (dnl_queue (fold (dnl_exec wireEncode) later (dnl_add wireEncode n nonce ?d)))"
    by (rule retained_run[rotated]) (use assms(2) dnl_exec_ok[OF d, of wireEncode "DnlAdd n nonce"] in simp_all)
  then show ?thesis by (simp add: dnl_has_def)
qed

theorem dead_nonce_remembered_witness:
  "dnl_has (\<lambda>_. ''wire'') [generic_comp ''a''] 7
     (fold (dnl_exec (\<lambda>_. ''wire'')) ([DnlMark 5] @ [DnlAdd [generic_comp ''a''] 7] @ [DnlAdjust 6, DnlMark 7])
       (the (mk_dnl 0 DEFAULT_LIFETIME)))"
proof -
  have "mk_dnl 0 DEFAULT_LIFETIME = Some (the (mk_dnl 0 DEFAULT_LIFETIME))"
    by (simp add: mk_dnl_def DEFAULT_LIFETIME_def MIN_LIFETIME_def ms_def)
  then show ?thesis by (rule dead_nonce_remembered) (simp add: MIN_CAPACITY_def)
qed

text \<open>
  C35: the capacity of the list stays between its two bounds in every run, and adjusting it does what the
  mark counts of the period say: if all of them exceed the expected count (or there are none) it shrinks,
  unless it is at the minimum; if there are some and all fall short it grows, unless it is at the maximum;
  otherwise it stays. The counts are cleared, the event is scheduled one interval later, and what is over
  the new capacity is evicted from the front, at most \<open>EVICT_LIMIT\<close> entries at a time. An addition never
  makes the list longer than both the capacity and what it was before.
\<close>

theorem dead_nonce_capacity:
  assumes "mk_dnl now lifetime = Some d0"
  shows "let d = fold (dnl_exec wireEncode) ops d0; c = dnl_capacity d; counts = dnl_actualMarkCounts d;
        d' = dnl_adjustCapacity t d; c' = dnl_capacity d'
    in MIN_CAPACITY \<le> c \<and> c \<le> MAX_CAPACITY \<and>
       ((\<forall>x\<in>#counts. EXPECTED_MARK_COUNT < x) \<longrightarrow> c' = c \<and> c = MIN_CAPACITY \<or> MIN_CAPACITY \<le> c' \<and> c' < c) \<and>
       (counts \<noteq> {#} \<and> (\<forall>x\<in>#counts. x < EXPECTED_MARK_COUNT) \<longrightarrow> c' = c \<and> c = MAX_CAPACITY \<or> c < c' \<and> c' \<le> MAX_CAPACITY) \<and>
       ((\<exists>x\<in>#counts. x \<le> EXPECTED_MARK_COUNT) \<and> (\<exists>x\<in>#counts. x \<ge> EXPECTED_MARK_COUNT) \<longrightarrow> c' = c) \<and>
       dnl_actualMarkCounts d' = {#} \<and> dnl_adjustCapacityEvent d' = t + dnl_adjustCapacityInterval d \<and>
       dnl_queue d' = drop (min (length (dnl_queue d) - c') EVICT_LIMIT) (dnl_queue d) \<and>
       length (dnl_queue (dnl_add wireEncode n nonce d)) \<le> max c (length (dnl_queue d))"
proof -
  have fold_ok: "dnl_ok (fold (dnl_exec wireEncode) ops d)" if "dnl_ok d" for d
    using that by (induction ops arbitrary: d) (simp_all add: dnl_exec_ok)
  have "length (dnl_queue (dnl_add wireEncode n nonce d)) \<le> max (dnl_capacity d) (length (dnl_queue d))" for d
    by (auto simp: dnl_add_def dnl_evictEntries_def Let_def EVICT_LIMIT_def)
  then show ?thesis
    using fold_ok[OF mk_dnl_ok[OF assms]] adjustCapacity_props[of "fold (dnl_exec wireEncode) ops d0" t]
    by (simp add: Let_def dnl_ok_def)
qed

theorem dead_nonce_capacity_witness:
  "dnl_capacity (dnl_adjustCapacity 2 (dnl_mark 1 (the (mk_dnl 0 DEFAULT_LIFETIME)))) < INITIAL_CAPACITY"
proof -
  let ?d = "dnl_mark 1 (the (mk_dnl 0 DEFAULT_LIFETIME))"
  have m: "mk_dnl 0 DEFAULT_LIFETIME = Some (the (mk_dnl 0 DEFAULT_LIFETIME))"
    by (simp add: mk_dnl_def DEFAULT_LIFETIME_def MIN_LIFETIME_def ms_def)
  have d: "dnl_capacity ?d = INITIAL_CAPACITY" "dnl_actualMarkCounts ?d = {#6#}"
    by (simp_all add: mk_dnl_def DEFAULT_LIFETIME_def MIN_LIFETIME_def ms_def dnl_mark_def dnl_evictEntries_def
        countMarks_def INITIAL_CAPACITY_def EXPECTED_MARK_COUNT_def Let_def)
  show ?thesis
    using dead_nonce_capacity[OF m, of "\<lambda>_. ''wire''" "[DnlMark 1]" 2] d
    by (simp add: Let_def EXPECTED_MARK_COUNT_def INITIAL_CAPACITY_def MIN_CAPACITY_def)
qed

end
