(* ===== verification/Forwarder.thy ===== *)
theory Forwarder
  imports Fw_Algorithm Strategy_Choice Cleanup Content_Store_Spec Dead_Nonce_List
begin

text \<open>
  The forwarding pipelines (\<open>daemon/fw/forwarder.cpp\<close>) and the actions of the base class of all
  strategies (\<open>daemon/fw/strategy.cpp\<close>). A handler maps the state of the forwarder to the next state;
  packets handed to a face are appended to \<open>fw_sent\<close>. A handler reads the clock once, at its
  beginning. The virtual methods of a strategy are the fields of a record, which the pipelines take
  for every strategy instance. A \<open>shared_ptr<pit::Entry>\<close> is the key of the PIT entry.
\<close>

section \<open>State\<close>

text \<open>
  What comes from ndn-cxx: the hash of a name component, \<open>Interest::matchesData\<close>,
  \<open>Name::getSuccessor\<close>, the wire encoding of a name and the order on Nack reasons. The order in
  which a \<open>std::set<Face*>\<close> or \<open>std::unordered_set<Face*>\<close> is traversed depends on addresses, so it is a
  parameter too.
\<close>

record fwd_env =
  fwe_hash :: "component \<Rightarrow> u64"
  fwe_matchesData :: "interest \<Rightarrow> data \<Rightarrow> bool"
  fwe_getSuccessor :: "name \<Rightarrow> name"
  fwe_wireEncode :: "name \<Rightarrow> string"
  fwe_isLessSevere :: "nack_reason \<Rightarrow> nack_reason \<Rightarrow> bool"
  fwe_faceOrder :: "face_id list \<Rightarrow> face_id list"

definition face_order_law :: "fwd_env \<Rightarrow> bool" where
  "face_order_law env \<longleftrightarrow> (\<forall>fs. distinct fs \<longrightarrow> mset (fwe_faceOrder env fs) = mset fs)"

record forwarder_counters =
  nInInterests :: u64
  nOutInterests :: u64
  nInData :: u64
  nOutData :: u64
  nInNacks :: u64
  nOutNacks :: u64
  nSatisfiedInterests :: u64
  nUnsatisfiedInterests :: u64
  nUnsolicitedData :: u64
  nCsHits :: u64
  nCsMisses :: u64

datatype packet = PktInterest interest | PktData data | PktNack nack

record 'i forwarder =
  fw_counters :: forwarder_counters
  fw_faceTable :: face_table
  fw_unsolicitedDataPolicy :: UnsolicitedDataPolicy
  fw_tables :: "'i tables"
  fw_cs :: cs
  fw_deadNonceList :: dnl
  fw_networkRegionTable :: "name list"
  fw_sent :: "(face_id \<times> packet) list"

definition fw_count :: "(forwarder_counters \<Rightarrow> forwarder_counters) \<Rightarrow> 'i forwarder \<Rightarrow> 'i forwarder" where
  "fw_count f fw = fw\<lparr>fw_counters := f (fw_counters fw)\<rparr>"

definition fw_pit :: "pit_key \<Rightarrow> ('i pit_entry \<Rightarrow> 'i pit_entry) \<Rightarrow> 'i forwarder \<Rightarrow> 'i forwarder" where
  "fw_pit k f fw = fw\<lparr>fw_tables := pit_modify k f (fw_tables fw)\<rparr>"

abbreviation fw_entry :: "'i forwarder \<Rightarrow> pit_key \<Rightarrow> 'i pit_entry option" where
  "fw_entry fw k \<equiv> pit_deref (fw_tables fw) k"

definition fw_modifyFace :: "face_id \<Rightarrow> (face \<Rightarrow> face) \<Rightarrow> 'i forwarder \<Rightarrow> 'i forwarder" where
  "fw_modifyFace f g fw =
     fw\<lparr>fw_faceTable := (fw_faceTable fw)\<lparr>ft_faces := (ft_faces (fw_faceTable fw))(f := map_option g (ft_faces (fw_faceTable fw) f))\<rparr>\<rparr>"

definition fw_send :: "face_id \<Rightarrow> packet \<Rightarrow> 'i forwarder \<Rightarrow> 'i forwarder" where
  "fw_send f p fw = fw\<lparr>fw_sent := fw_sent fw @ [(f, p)]\<rparr>"

section \<open>Timers and the Dead Nonce List\<close>

text \<open>
  Durations are in milliseconds. The timer is due this long after the one reading of the clock that the handler
  makes; times are unbounded integers, so a sum of times does not overflow.
\<close>

definition setExpiryTimer :: "time_point \<Rightarrow> pit_key \<Rightarrow> int \<Rightarrow> 'i forwarder \<Rightarrow> 'i forwarder" where
  "setExpiryTimer now k duration fw =
     (let duration = max duration 0
      in fw_pit k (pe_expiryTimer_update (\<lambda>_. Some (now + duration * 1000000))) fw)"

definition insertDeadNonceList :: "fwd_env \<Rightarrow> pit_key \<Rightarrow> face_id option \<Rightarrow> 'i forwarder \<Rightarrow> 'i forwarder" where
  "insertDeadNonceList env k upstream fw =
     (case fw_entry fw k of
        None \<Rightarrow> fw
      | Some pe \<Rightarrow>
          let needDnl = (if pe_isSatisfied pe
                         then int_mustBeFresh (pe_interest pe) \<and>
                              ms (pe_dataFreshnessPeriod pe) < dnl_lifetime (fw_deadNonceList fw)
                         else True);
              add = (\<lambda>r. dnl_add (fwe_wireEncode env) (pe_name pe) (fr_lastNonce r))
          in if \<not> needDnl then fw
             else case upstream of
                    None \<Rightarrow> fw\<lparr>fw_deadNonceList := fold add (pe_outRecords pe) (fw_deadNonceList fw)\<rparr>
                  | Some f \<Rightarrow>
                      (case getOutRecord pe f of
                         None \<Rightarrow> fw
                       | Some r \<Rightarrow> fw\<lparr>fw_deadNonceList := add r (fw_deadNonceList fw)\<rparr>))"

section \<open>Outgoing pipelines\<close>

definition onOutgoingInterest :: "time_point \<Rightarrow> pit_key \<Rightarrow> face_id \<Rightarrow> interest \<Rightarrow> 'i forwarder \<Rightarrow> 'i forwarder" where
  "onOutgoingInterest now k egress i fw =
     (if int_hopLimit i = Some 0 \<and> ft_scope (fw_faceTable fw) egress = FACE_SCOPE_NON_LOCAL
      then fw_modifyFace egress (face_nOutHopLimitZero_update (\<lambda>c. c + 1)) fw
      else
        let fw = fw_pit k (insertOrUpdateOutRecord now egress i) fw;
            fw = fw_send egress (PktInterest i) fw
        in fw_count (nOutInterests_update (\<lambda>c. c + 1)) fw)"

definition onOutgoingData :: "data \<Rightarrow> face_id \<Rightarrow> 'i forwarder \<Rightarrow> 'i forwarder" where
  "onOutgoingData d egress fw =
     (if ft_getId (fw_faceTable fw) egress = INVALID_FACEID then fw
      else if ft_scope (fw_faceTable fw) egress = FACE_SCOPE_NON_LOCAL \<and> prefix LOCALHOST (data_name d) then fw
      else fw_count (nOutData_update (\<lambda>c. c + 1)) (fw_send egress (PktData d) fw))"

definition onOutgoingNack :: "pit_key \<Rightarrow> face_id \<Rightarrow> nack_reason \<Rightarrow> 'i forwarder \<Rightarrow> 'i forwarder" where
  "onOutgoingNack k egress reason fw =
     (if ft_getId (fw_faceTable fw) egress = INVALID_FACEID then fw
      else case Option.bind (fw_entry fw k) (\<lambda>pe. getInRecord pe egress) of
             None \<Rightarrow> fw
           | Some inRecord \<Rightarrow>
               if ft_linkType (fw_faceTable fw) egress \<noteq> LINK_TYPE_POINT_TO_POINT then fw
               else case ir_interest inRecord of
                      None \<Rightarrow> fw
                    | Some i \<Rightarrow>
                        let nackPkt = \<lparr>nack_interest = i, nack_reason = reason\<rparr>;
                            fw = fw_pit k (deleteInRecord egress) fw;
                            fw = fw_send egress (PktNack nackPkt) fw
                        in fw_count (nOutNacks_update (\<lambda>c. c + 1)) fw)"

section \<open>Actions and helpers of the strategy base class\<close>

definition sendInterest :: "time_point \<Rightarrow> pit_key \<Rightarrow> face_id \<Rightarrow> interest \<Rightarrow> 'i forwarder \<Rightarrow> 'i forwarder" where
  "sendInterest now k egress i fw =
     (if int_pitToken i \<noteq> None then onOutgoingInterest now k egress (i\<lparr>int_pitToken := None\<rparr>) fw
      else onOutgoingInterest now k egress i fw)"

definition sendData :: "pit_key \<Rightarrow> data \<Rightarrow> face_id \<Rightarrow> 'i forwarder \<Rightarrow> 'i forwarder" where
  "sendData k d egress fw =
     (let pitToken = Option.bind (Option.bind (Option.bind (fw_entry fw k) (\<lambda>pe. getInRecord pe egress)) ir_interest) int_pitToken;
          fw = fw_pit k (deleteInRecord egress) fw
      in if pitToken \<noteq> None then onOutgoingData (d\<lparr>data_pitToken := pitToken\<rparr>) egress fw
         else onOutgoingData d egress fw)"

definition sendNack :: "pit_key \<Rightarrow> face_id \<Rightarrow> nack_reason \<Rightarrow> 'i forwarder \<Rightarrow> 'i forwarder" where
  "sendNack k egress reason fw = onOutgoingNack k egress reason fw"

definition rejectPendingInterest :: "time_point \<Rightarrow> pit_key \<Rightarrow> 'i forwarder \<Rightarrow> 'i forwarder" where
  "rejectPendingInterest now k fw = setExpiryTimer now k 0 fw"

definition pending_downstreams :: "time_point \<Rightarrow> face_table \<Rightarrow> face_id \<Rightarrow> 'i pit_entry \<Rightarrow> face_id list" where
  "pending_downstreams now ft inFace pe =
     map fr_face (filter (\<lambda>r. fr_expiry r > now \<and>
       \<not> (ft_getId ft (fr_face r) = ft_getId ft inFace \<and> ft_linkType ft (fr_face r) \<noteq> LINK_TYPE_AD_HOC)) (pe_inRecords pe))"

definition sendDataToAll ::
  "fwd_env \<Rightarrow> time_point \<Rightarrow> pit_key \<Rightarrow> face_id \<Rightarrow> data \<Rightarrow> 'i forwarder \<Rightarrow> 'i forwarder" where
  "sendDataToAll env now k inFace d fw =
     (case fw_entry fw k of
        None \<Rightarrow> fw
      | Some pe \<Rightarrow>
          fold (sendData k d) (fwe_faceOrder env (remdups (pending_downstreams now (fw_faceTable fw) inFace pe))) fw)"

definition sendNacks ::
  "fwd_env \<Rightarrow> pit_key \<Rightarrow> nack_reason \<Rightarrow> face_id list \<Rightarrow> 'i forwarder \<Rightarrow> 'i forwarder" where
  "sendNacks env k reason exceptFaces fw =
     (case fw_entry fw k of
        None \<Rightarrow> fw
      | Some pe \<Rightarrow>
          let downstreams = filter (\<lambda>f. f \<notin> set exceptFaces) (remdups (map fr_face (pe_inRecords pe)))
          in fold (\<lambda>f. sendNack k f reason) (fwe_faceOrder env downstreams) fw)"

fun lookupFib_loop :: "(component \<Rightarrow> u64) \<Rightarrow> 'i tables \<Rightarrow> name list \<Rightarrow> fib_entry \<Rightarrow> fib_entry" where
  "lookupFib_loop H tb [] fibEntry = fibEntry"
| "lookupFib_loop H tb (del # fh) fibEntry =
     (let fibEntry = fib_findLongestPrefixMatch H del tb
      in if hasNextHops fibEntry then fibEntry else lookupFib_loop H tb fh fibEntry)"

definition lookupFib :: "fwd_env \<Rightarrow> 'i pit_entry \<Rightarrow> 'i forwarder \<Rightarrow> fib_entry" where
  "lookupFib env pe fw =
     (let fh = int_forwardingHint (pe_interest pe)
      in if fh = [] then fib_findLongestPrefixMatch_pit (fwe_hash env) pe (fw_tables fw)
         else lookupFib_loop (fwe_hash env) (fw_tables fw) fh s_emptyEntry)"

section \<open>Strategies\<close>

record 'i strategy_ops =
  so_wantNewNextHopTrigger :: bool
  so_afterReceiveInterest :: "time_point \<Rightarrow> face_id \<Rightarrow> interest \<Rightarrow> pit_key \<Rightarrow> 'i forwarder \<Rightarrow> 'i forwarder"
  so_beforeSatisfyInterest :: "time_point \<Rightarrow> pit_key \<Rightarrow> face_id \<Rightarrow> data \<Rightarrow> 'i forwarder \<Rightarrow> 'i forwarder"
  so_afterContentStoreHit :: "time_point \<Rightarrow> pit_key \<Rightarrow> face_id \<Rightarrow> data \<Rightarrow> 'i forwarder \<Rightarrow> 'i forwarder"
  so_afterReceiveData :: "time_point \<Rightarrow> pit_key \<Rightarrow> face_id \<Rightarrow> data \<Rightarrow> 'i forwarder \<Rightarrow> 'i forwarder"
  so_afterReceiveNack :: "time_point \<Rightarrow> face_id \<Rightarrow> nack \<Rightarrow> pit_key \<Rightarrow> 'i forwarder \<Rightarrow> 'i forwarder"
  so_onDroppedInterest :: "time_point \<Rightarrow> face_id \<Rightarrow> interest \<Rightarrow> 'i forwarder \<Rightarrow> 'i forwarder"
  so_afterNewNextHop :: "time_point \<Rightarrow> nexthop \<Rightarrow> pit_key \<Rightarrow> 'i forwarder \<Rightarrow> 'i forwarder"

text \<open>The methods of the base class, which only log unless they send.\<close>

definition base_beforeSatisfyInterest :: "time_point \<Rightarrow> pit_key \<Rightarrow> face_id \<Rightarrow> data \<Rightarrow> 'i forwarder \<Rightarrow> 'i forwarder" where
  "base_beforeSatisfyInterest now k ingress d fw = fw"

definition base_afterContentStoreHit :: "time_point \<Rightarrow> pit_key \<Rightarrow> face_id \<Rightarrow> data \<Rightarrow> 'i forwarder \<Rightarrow> 'i forwarder" where
  "base_afterContentStoreHit now k ingress d fw = sendData k d ingress fw"

definition base_afterReceiveData ::
  "fwd_env \<Rightarrow> time_point \<Rightarrow> pit_key \<Rightarrow> face_id \<Rightarrow> data \<Rightarrow> 'i forwarder \<Rightarrow> 'i forwarder" where
  "base_afterReceiveData env now k ingress d fw =
     sendDataToAll env now k ingress d (base_beforeSatisfyInterest now k ingress d fw)"

definition base_afterReceiveNack :: "time_point \<Rightarrow> face_id \<Rightarrow> nack \<Rightarrow> pit_key \<Rightarrow> 'i forwarder \<Rightarrow> 'i forwarder" where
  "base_afterReceiveNack now ingress n k fw = fw"

definition base_onDroppedInterest :: "time_point \<Rightarrow> face_id \<Rightarrow> interest \<Rightarrow> 'i forwarder \<Rightarrow> 'i forwarder" where
  "base_onDroppedInterest now egress i fw = fw"

definition base_afterNewNextHop :: "time_point \<Rightarrow> nexthop \<Rightarrow> pit_key \<Rightarrow> 'i forwarder \<Rightarrow> 'i forwarder" where
  "base_afterNewNextHop now nh k fw = fw"

definition dispatchToStrategy ::
  "fwd_env \<Rightarrow> (strategy \<Rightarrow> 'i strategy_ops) \<Rightarrow> pit_key \<Rightarrow> ('i strategy_ops \<Rightarrow> 'i forwarder \<Rightarrow> 'i forwarder) \<Rightarrow>
   'i forwarder \<Rightarrow> 'i forwarder" where
  "dispatchToStrategy env S k trigger fw =
     (case Option.bind (fw_entry fw k) (\<lambda>pe. sc_findEffectiveStrategy_pit (fwe_hash env) pe (fw_tables fw)) of
        None \<Rightarrow> fw
      | Some s \<Rightarrow> trigger (S s) fw)"

end
