(* ===== verification/Pipelines.thy ===== *)
theory Pipelines
  imports Forwarder
begin

text \<open>
  The incoming pipelines of the forwarder (\<open>daemon/fw/forwarder.cpp\<close>), from \<open>onIncomingInterest\<close> to
  \<open>onNewNextHop\<close>, its constructor, and the events that drive it. \<open>S\<close> gives the virtual methods of a
  strategy instance.
\<close>

section \<open>Interests\<close>

definition onInterestLoop :: "face_id \<Rightarrow> interest \<Rightarrow> 'i forwarder \<Rightarrow> 'i forwarder" where
  "onInterestLoop ingress i fw =
     (if ft_linkType (fw_faceTable fw) ingress \<noteq> LINK_TYPE_POINT_TO_POINT then fw
      else fw_send ingress (PktNack \<lparr>nack_interest = i, nack_reason = NACK_DUPLICATE\<rparr>) fw)"

text \<open>The largest expiry of an in-record; the list is not empty when this is called.\<close>

definition lastExpiring :: "'i pit_entry \<Rightarrow> time_point" where
  "lastExpiring pe =
     (case pe_inRecords pe of
        [] \<Rightarrow> time_point_min
      | r # rs \<Rightarrow> fold (\<lambda>r t. max t (fr_expiry r)) rs (fr_expiry r))"

definition onContentStoreMiss ::
  "fwd_env \<Rightarrow> (strategy \<Rightarrow> 'i strategy_ops) \<Rightarrow> time_point \<Rightarrow> face_id \<Rightarrow> pit_key \<Rightarrow> interest \<Rightarrow>
   'i forwarder \<Rightarrow> 'i forwarder" where
  "onContentStoreMiss env S now ingress k i fw =
     (let fw = fw_count (nCsMisses_update (\<lambda>c. c + 1)) fw;
          fw = fw_pit k (insertOrUpdateInRecord now ingress i) fw;
          lastExpiryFromNow = (case fw_entry fw k of None \<Rightarrow> 0 | Some pe \<Rightarrow> lastExpiring pe - now);
          fw = setExpiryTimer now k (lastExpiryFromNow div 1000000) fw
      in case int_nextHopFaceId i of
           Some nextHopFaceId \<Rightarrow>
             (case ft_get (fw_faceTable fw) nextHopFaceId of
                None \<Rightarrow> fw
              | Some nextHopFace \<Rightarrow> onOutgoingInterest now k nextHopFaceId i fw)
         | None \<Rightarrow> dispatchToStrategy env S k (\<lambda>s. so_afterReceiveInterest s now ingress i k) fw)"

definition onContentStoreHit ::
  "fwd_env \<Rightarrow> (strategy \<Rightarrow> 'i strategy_ops) \<Rightarrow> time_point \<Rightarrow> face_id \<Rightarrow> pit_key \<Rightarrow> interest \<Rightarrow> data \<Rightarrow>
   'i forwarder \<Rightarrow> 'i forwarder" where
  "onContentStoreHit env S now ingress k i d fw =
     (let fw = fw_count (nCsHits_update (\<lambda>c. c + 1)) fw;
          d = d\<lparr>data_incomingFaceId := Some FACEID_CONTENT_STORE, data_pitToken := int_pitToken i\<rparr>;
          fw = fw_pit k (\<lambda>pe. pe\<lparr>pe_isSatisfied := True, pe_dataFreshnessPeriod := data_freshnessPeriod d\<rparr>) fw;
          fw = setExpiryTimer now k 0 fw
      in dispatchToStrategy env S k (\<lambda>s. so_afterContentStoreHit s now k ingress d) fw)"

text \<open>From the insertion into the PIT to the end of the pipeline.\<close>

definition processInterest ::
  "fwd_env \<Rightarrow> (strategy \<Rightarrow> 'i strategy_ops) \<Rightarrow> time_point \<Rightarrow> face_id \<Rightarrow> interest \<Rightarrow> 'i forwarder \<Rightarrow> 'i forwarder" where
  "processInterest env S now ingress i fw =
     (let ((entry, _), tb) = pit_insert (fwe_hash env) i (fw_tables fw);
          fw = fw\<lparr>fw_tables := tb\<rparr>
      in case Option.bind entry (\<lambda>k. map_option (Pair k) (fw_entry fw k)) of
           None \<Rightarrow> fw
         | Some (k, pe) \<Rightarrow>
             let dnw = findDuplicateNonce pe (int_nonce i) ingress;
                 hasDuplicateNonceInPit = (dnw \<noteq> DUPLICATE_NONCE_NONE);
                 hasDuplicateNonceInPit =
                   (if ft_linkType (fw_faceTable fw) ingress = LINK_TYPE_POINT_TO_POINT
                    then hasDuplicateNonceInPit \<and> \<not> (dnw AND DUPLICATE_NONCE_IN_SAME \<noteq> 0)
                    else hasDuplicateNonceInPit)
             in if hasDuplicateNonceInPit then onInterestLoop ingress i fw
                else if \<not> hasInRecords pe then
                  (let (match, c) = cs_find (fwe_matchesData env) (fwe_getSuccessor env) now i (fw_cs fw);
                       fw = fw\<lparr>fw_cs := c\<rparr>
                   in case match of
                        Some d \<Rightarrow> onContentStoreHit env S now ingress k i d fw
                      | None \<Rightarrow> onContentStoreMiss env S now ingress k i fw)
                else onContentStoreMiss env S now ingress k i fw)"

definition onIncomingInterest ::
  "fwd_env \<Rightarrow> (strategy \<Rightarrow> 'i strategy_ops) \<Rightarrow> time_point \<Rightarrow> face_id \<Rightarrow> interest \<Rightarrow> 'i forwarder \<Rightarrow> 'i forwarder" where
  "onIncomingInterest env S now ingress i fw =
     (let i = i\<lparr>int_incomingFaceId := Some ingress\<rparr>;
          fw = fw_count (nInInterests_update (\<lambda>c. c + 1)) fw
      in if int_hopLimit i = Some 0
         then fw_modifyFace ingress (face_nInHopLimitZero_update (\<lambda>c. c + 1)) fw
         else
           let i = (case int_hopLimit i of None \<Rightarrow> i | Some h \<Rightarrow> i\<lparr>int_hopLimit := Some (h - 1)\<rparr>)
           in if ft_scope (fw_faceTable fw) ingress = FACE_SCOPE_NON_LOCAL \<and> prefix LOCALHOST (int_name i) then fw
              else if dnl_has (fwe_wireEncode env) (int_name i) (int_nonce i) (fw_deadNonceList fw)
              then onInterestLoop ingress i fw
              else
                let i = (if int_forwardingHint i \<noteq> [] \<and>
                            isInProducerRegion (fw_networkRegionTable fw) (int_forwardingHint i)
                         then i\<lparr>int_forwardingHint := []\<rparr> else i)
                in processInterest env S now ingress i fw)"

definition onInterestFinalize :: "fwd_env \<Rightarrow> pit_key \<Rightarrow> 'i forwarder \<Rightarrow> 'i forwarder" where
  "onInterestFinalize env k fw =
     (case fw_entry fw k of
        None \<Rightarrow> fw
      | Some pe \<Rightarrow>
          let fw = insertDeadNonceList env k None fw;
              fw = (if pe_isSatisfied pe then fw_count (nSatisfiedInterests_update (\<lambda>c. c + 1)) fw
                    else fw_count (nUnsatisfiedInterests_update (\<lambda>c. c + 1)) fw);
              fw = fw_pit k (pe_expiryTimer_update (\<lambda>_. None)) fw
          in fw\<lparr>fw_tables := pit_erase k (fw_tables fw)\<rparr>)"

section \<open>Data\<close>

definition onDataUnsolicited :: "time_point \<Rightarrow> face_id \<Rightarrow> data \<Rightarrow> 'i forwarder \<Rightarrow> 'i forwarder" where
  "onDataUnsolicited now ingress d fw =
     (let fw = (if unsolicited_decide (fw_unsolicitedDataPolicy fw) (ft_face (fw_faceTable fw) ingress) d = UD_CACHE
                then fw\<lparr>fw_cs := cs_insert now d True (fw_cs fw)\<rparr> else fw)
      in fw_count (nUnsolicitedData_update (\<lambda>c. c + 1)) fw)"

definition mark_satisfied :: "data \<Rightarrow> 'i pit_entry \<Rightarrow> 'i pit_entry" where
  "mark_satisfied d pe = pe\<lparr>pe_isSatisfied := True, pe_dataFreshnessPeriod := data_freshnessPeriod d\<rparr>"

text \<open>The branch for one match.\<close>

definition satisfy_one ::
  "fwd_env \<Rightarrow> (strategy \<Rightarrow> 'i strategy_ops) \<Rightarrow> time_point \<Rightarrow> face_id \<Rightarrow> data \<Rightarrow> pit_key \<Rightarrow>
   'i forwarder \<Rightarrow> 'i forwarder" where
  "satisfy_one env S now ingress d k fw =
     (let fw = setExpiryTimer now k 0 fw;
          fw = dispatchToStrategy env S k (\<lambda>s. so_afterReceiveData s now k ingress d) fw;
          fw = fw_pit k (mark_satisfied d) fw;
          fw = insertDeadNonceList env k (Some ingress) fw
      in fw_pit k (deleteOutRecord ingress) fw)"

text \<open>The body of the loop for several matches.\<close>

definition satisfy_step ::
  "fwd_env \<Rightarrow> (strategy \<Rightarrow> 'i strategy_ops) \<Rightarrow> time_point \<Rightarrow> face_id \<Rightarrow> data \<Rightarrow> pit_key \<Rightarrow>
   face_id list \<times> 'i forwarder \<Rightarrow> face_id list \<times> 'i forwarder" where
  "satisfy_step env S now ingress d k st =
     (let (pendingDownstreams, fw) = st;
          downstreams = (case fw_entry fw k of None \<Rightarrow> []
            | Some pe \<Rightarrow> map fr_face (filter (\<lambda>r. fr_expiry r > now) (pe_inRecords pe)));
          fw = setExpiryTimer now k 0 fw;
          fw = dispatchToStrategy env S k (\<lambda>s. so_beforeSatisfyInterest s now k ingress d) fw;
          fw = fw_pit k (mark_satisfied d) fw;
          fw = insertDeadNonceList env k (Some ingress) fw;
          fw = fw_pit k clearInRecords fw
      in (pendingDownstreams @ downstreams, fw_pit k (deleteOutRecord ingress) fw))"

definition satisfy_all ::
  "fwd_env \<Rightarrow> (strategy \<Rightarrow> 'i strategy_ops) \<Rightarrow> time_point \<Rightarrow> face_id \<Rightarrow> data \<Rightarrow> pit_key list \<Rightarrow>
   'i forwarder \<Rightarrow> 'i forwarder" where
  "satisfy_all env S now ingress d ks fw =
     (let (pendingDownstreams, fw) = fold (satisfy_step env S now ingress d) ks ([], fw)
      in fold (\<lambda>f fw.
           if ft_getId (fw_faceTable fw) f = ft_getId (fw_faceTable fw) ingress \<and>
              ft_linkType (fw_faceTable fw) f \<noteq> LINK_TYPE_AD_HOC then fw
           else onOutgoingData d f fw) (fwe_faceOrder env (remdups pendingDownstreams)) fw)"

definition onIncomingData ::
  "fwd_env \<Rightarrow> (strategy \<Rightarrow> 'i strategy_ops) \<Rightarrow> time_point \<Rightarrow> face_id \<Rightarrow> data \<Rightarrow> 'i forwarder \<Rightarrow> 'i forwarder" where
  "onIncomingData env S now ingress d fw =
     (let d = d\<lparr>data_incomingFaceId := Some ingress\<rparr>;
          fw = fw_count (nInData_update (\<lambda>c. c + 1)) fw
      in if ft_scope (fw_faceTable fw) ingress = FACE_SCOPE_NON_LOCAL \<and> prefix LOCALHOST (data_name d) then fw
         else
           let pitMatches = map (\<lambda>pe. pe_key pe) (pit_findAllDataMatches (fwe_matchesData env) (fwe_hash env) d (fw_tables fw))
           in case pitMatches of
                [] \<Rightarrow> onDataUnsolicited now ingress d fw
              | [k] \<Rightarrow> satisfy_one env S now ingress d k (fw\<lparr>fw_cs := cs_insert now d False (fw_cs fw)\<rparr>)
              | ks \<Rightarrow> satisfy_all env S now ingress d ks (fw\<lparr>fw_cs := cs_insert now d False (fw_cs fw)\<rparr>))"

section \<open>Nacks\<close>

definition onIncomingNack ::
  "fwd_env \<Rightarrow> (strategy \<Rightarrow> 'i strategy_ops) \<Rightarrow> time_point \<Rightarrow> face_id \<Rightarrow> nack \<Rightarrow> 'i forwarder \<Rightarrow> 'i forwarder" where
  "onIncomingNack env S now ingress n fw =
     (let fw = fw_count (nInNacks_update (\<lambda>c. c + 1)) fw
      in if ft_linkType (fw_faceTable fw) ingress \<noteq> LINK_TYPE_POINT_TO_POINT then fw
         else case pit_find (fwe_hash env) (nack_interest n) (fw_tables fw) of
                None \<Rightarrow> fw
              | Some k \<Rightarrow>
                  (case Option.bind (fw_entry fw k) (\<lambda>pe. getOutRecord pe ingress) of
                     None \<Rightarrow> fw
                   | Some outRecord \<Rightarrow>
                       if int_nonce (nack_interest n) \<noteq> fr_lastNonce outRecord then fw
                       else
                         let fw = fw_pit k (pe_modifyOutRecord ingress (\<lambda>r. snd (setIncomingNack n r))) fw;
                             pending = (case fw_entry fw k of None \<Rightarrow> False | Some pe \<Rightarrow> hasPendingOutRecords now pe);
                             fw = (if \<not> pending then setExpiryTimer now k 0 fw else fw)
                         in dispatchToStrategy env S k (\<lambda>s. so_afterReceiveNack s now ingress n k) fw))"

section \<open>Other handlers\<close>

definition onDroppedInterest ::
  "fwd_env \<Rightarrow> (strategy \<Rightarrow> 'i strategy_ops) \<Rightarrow> time_point \<Rightarrow> face_id \<Rightarrow> interest \<Rightarrow> 'i forwarder \<Rightarrow> 'i forwarder" where
  "onDroppedInterest env S now egress i fw =
     (case sc_findEffectiveStrategy (fwe_hash env) (int_name i) (fw_tables fw) of
        None \<Rightarrow> fw
      | Some s \<Rightarrow> so_onDroppedInterest (S s) now egress i fw)"

definition newNextHop_selector :: "(strategy \<Rightarrow> 'i strategy_ops) \<Rightarrow> 'i nt_entry \<Rightarrow> bool \<times> bool" where
  "newNextHop_selector S nte =
     (let fibEntry = nte_fib nte;
          strategy = Option.bind (nte_sc nte) sce_strategy
      in if length (nte_name nte) = 0 \<or>
            (case strategy of None \<Rightarrow> False | Some s \<Rightarrow> so_wantNewNextHopTrigger (S s)) \<and>
            fibEntry = None \<and> hasPitEntries nte
         then (True, True)
         else if fibEntry = None then (False, True)
         else (False, False))"

text \<open>
  The range is enumerated before the first trigger is called, while the code advances the iterator between
  triggers. The actions a strategy has remove no name tree entry and no PIT entry from the tree, and none
  of the strategies here adds one in this trigger, so both see the same entries.
\<close>

definition onNewNextHop ::
  "fwd_env \<Rightarrow> (strategy \<Rightarrow> 'i strategy_ops) \<Rightarrow> time_point \<Rightarrow> name \<Rightarrow> nexthop \<Rightarrow> 'i forwarder \<Rightarrow> 'i forwarder" where
  "onNewNextHop env S now p nh fw =
     (let affectedEntries = partialEnumerate (fwe_hash env) p (newNextHop_selector S) (nameTree (fw_tables fw))
      in fold (\<lambda>nte fw.
           fold (\<lambda>k. dispatchToStrategy env S k (\<lambda>s. so_afterNewNextHop s now nh k))
             (map (\<lambda>pe. pe_key pe) (pit_at (fw_tables fw) nte)) fw) affectedEntries fw)"

section \<open>Construction and events\<close>

text \<open>The constructor; the name of the default strategy is \<open>/localhost/nfd/strategy/best-route/%FD%05\<close>.\<close>

definition getDefaultStrategyName :: name where
  "getDefaultStrategyName =
     map generic_comp [''localhost'', ''nfd'', ''strategy'', ''best-route'', [CHR 0xFD, CHR 0x05]]"

definition zero_counters :: forwarder_counters where
  "zero_counters =
     \<lparr>nInInterests = 0, nOutInterests = 0, nInData = 0, nOutData = 0, nInNacks = 0, nOutNacks = 0,
      nSatisfiedInterests = 0, nUnsatisfiedInterests = 0, nUnsolicitedData = 0, nCsHits = 0, nCsMisses = 0\<rparr>"

definition mk_forwarder :: "fwd_env \<Rightarrow> strategy_env \<Rightarrow> time_point \<Rightarrow> 'i forwarder option" where
  "mk_forwarder env senv now =
     (case (sc_setDefaultStrategy (fwe_hash env) senv getDefaultStrategyName (mk_tables 1024), mk_dnl now DEFAULT_LIFETIME) of
        (Some tb, Some d) \<Rightarrow>
          Some \<lparr>fw_counters = zero_counters, fw_faceTable = mk_face_table, fw_unsolicitedDataPolicy = DropAll,
                fw_tables = tb, fw_cs = mk_cs 10, fw_deadNonceList = d, fw_networkRegionTable = [], fw_sent = []\<rparr>
      | _ \<Rightarrow> None)"

text \<open>\<open>FaceTable::remove\<close> emits \<open>beforeRemove\<close>, to which the forwarder connects \<open>cleanupOnFaceRemoval\<close>.\<close>

definition fw_removeFace :: "face_id \<Rightarrow> 'i forwarder \<Rightarrow> 'i forwarder" where
  "fw_removeFace f fw =
     fw\<lparr>fw_tables := cleanupOnFaceRemoval f (fw_tables fw), fw_faceTable := ft_remove f (fw_faceTable fw)\<rparr>"

text \<open>\<open>Fib::addOrUpdateNextHop\<close> emits \<open>afterNewNextHop\<close>, to which the forwarder connects
  \<open>startProcessNewNextHop\<close>.\<close>

definition fw_addNextHop ::
  "fwd_env \<Rightarrow> (strategy \<Rightarrow> 'i strategy_ops) \<Rightarrow> time_point \<Rightarrow> name \<Rightarrow> face_id \<Rightarrow> u64 \<Rightarrow> 'i forwarder \<Rightarrow> 'i forwarder" where
  "fw_addNextHop env S now n f c fw =
     (let (sig, tb) = fib_addOrUpdateNextHop n f c (fw_tables fw);
          fw = fw\<lparr>fw_tables := tb\<rparr>
      in case sig of None \<Rightarrow> fw | Some (p, nh) \<Rightarrow> onNewNextHop env S now p nh fw)"

end
