(* ===== verification/Strategies.thy ===== *)
theory Strategies
  imports Pipelines
begin

text \<open>
  Forwarding strategies: best-route version 1 (\<open>daemon/fw/best-route-strategy.cpp\<close>) and version 5
  (\<open>best-route-strategy2.cpp\<close>, the default), multicast (\<open>multicast-strategy.cpp\<close>) and random
  (\<open>random-strategy.cpp\<close>), with the common treatment of Nacks (\<open>process-nack-traits.cpp\<close>). A method of
  the base class that a strategy does not override stays as it is.
\<close>

section \<open>Nacks\<close>

text \<open>The loop over the out-records: the number without a Nack, the last such face, the least severe reason.\<close>

fun nack_loop ::
  "fwd_env \<Rightarrow> 'i out_record list \<Rightarrow> nat \<times> face_id option \<times> nack_reason \<Rightarrow> nat \<times> face_id option \<times> nack_reason" where
  "nack_loop env [] st = st"
| "nack_loop env (outR # outRs) (nOutRecordsNotNacked, lastFaceNotNacked, leastSevereReason) =
     (case or_incomingNack outR of
        None \<Rightarrow> nack_loop env outRs (nOutRecordsNotNacked + 1, Some (fr_face outR), leastSevereReason)
      | Some inNack \<Rightarrow>
          nack_loop env outRs (nOutRecordsNotNacked, lastFaceNotNacked,
            if fwe_isLessSevere env inNack leastSevereReason then inNack else leastSevereReason))"

definition processNack :: "fwd_env \<Rightarrow> face_id \<Rightarrow> nack \<Rightarrow> pit_key \<Rightarrow> 'i forwarder \<Rightarrow> 'i forwarder" where
  "processNack env inFace n k fw =
     (case fw_entry fw k of
        None \<Rightarrow> fw
      | Some pe \<Rightarrow>
          let (nOutRecordsNotNacked, lastFaceNotNacked, leastSevereReason) =
                nack_loop env (pe_outRecords pe) (0, None, NACK_NONE)
          in case (nOutRecordsNotNacked = 1, lastFaceNotNacked) of
               (True, Some f) \<Rightarrow>
                 if getInRecord pe f \<noteq> None then sendNack k f leastSevereReason fw else fw
             | _ \<Rightarrow> if nOutRecordsNotNacked > 0 then fw else sendNacks env k leastSevereReason [] fw)"

section \<open>Best route, version 1\<close>

text \<open>The loop over the next hops.\<close>

definition best_route_afterReceiveInterest ::
  "fwd_env \<Rightarrow> time_point \<Rightarrow> face_id \<Rightarrow> interest \<Rightarrow> pit_key \<Rightarrow> 'i forwarder \<Rightarrow> 'i forwarder" where
  "best_route_afterReceiveInterest env now ingress i k fw =
     (case fw_entry fw k of
        None \<Rightarrow> fw
      | Some pe \<Rightarrow>
          if hasPendingOutRecords now pe then fw
          else
            let nexthops = fe_nextHops (lookupFib env pe fw)
            in case find (\<lambda>nh. \<not> wouldViolateScope (fw_faceTable fw) ingress i (nh_face nh) \<and>
                               canForwardToLegacy now pe (nh_face nh)) nexthops of
                 Some nh \<Rightarrow> sendInterest now k (nh_face nh) i fw
               | None \<Rightarrow> rejectPendingInterest now k fw)"

section \<open>Best route, version 5\<close>

definition RETX_SUPPRESSION :: retx_exponential where
  "RETX_SUPPRESSION = \<lparr>rx_initialInterval = 10000, rx_multiplier = DEFAULT_MULTIPLIER, rx_maxInterval = 250000\<rparr>"

definition best_route2_new ::
  "fwd_env \<Rightarrow> time_point \<Rightarrow> face_id \<Rightarrow> interest \<Rightarrow> pit_key \<Rightarrow> nfd_info pit_entry \<Rightarrow> nexthop list \<Rightarrow>
   nfd_info forwarder \<Rightarrow> nfd_info forwarder" where
  "best_route2_new env now ingress i k pe nexthops fw =
     (case find (\<lambda>nh. isNextHopEligible (fw_faceTable fw) ingress i nh pe False time_point_min) nexthops of
        None \<Rightarrow> rejectPendingInterest now k (sendNack k ingress NACK_NO_ROUTE fw)
      | Some nh \<Rightarrow> sendInterest now k (nh_face nh) i fw)"

definition best_route2_retransmit ::
  "fwd_env \<Rightarrow> time_point \<Rightarrow> face_id \<Rightarrow> interest \<Rightarrow> pit_key \<Rightarrow> nfd_info pit_entry \<Rightarrow> nexthop list \<Rightarrow>
   nfd_info forwarder \<Rightarrow> nfd_info forwarder" where
  "best_route2_retransmit env now ingress i k pe nexthops fw =
     (case find (\<lambda>nh. isNextHopEligible (fw_faceTable fw) ingress i nh pe True now) nexthops of
        Some nh \<Rightarrow> sendInterest now k (nh_face nh) i fw
      | None \<Rightarrow>
          (case findEligibleNextHopWithEarliestOutRecord (fw_faceTable fw) ingress i nexthops pe of
             Some (Some nh) \<Rightarrow> sendInterest now k (nh_face nh) i fw
           | _ \<Rightarrow> fw))"

definition best_route2_afterReceiveInterest ::
  "fwd_env \<Rightarrow> time_point \<Rightarrow> face_id \<Rightarrow> interest \<Rightarrow> pit_key \<Rightarrow> nfd_info forwarder \<Rightarrow> nfd_info forwarder" where
  "best_route2_afterReceiveInterest env now ingress i k fw =
     (case fw_entry fw k of
        None \<Rightarrow> fw
      | Some pe \<Rightarrow>
          let fw = fw_pit k (\<lambda>pe. snd (exp_decidePerPitEntry RETX_SUPPRESSION now pe)) fw;
              (suppression, pe) = exp_decidePerPitEntry RETX_SUPPRESSION now pe
          in if suppression = RETX_SUPPRESS then fw
             else
               let nexthops = fe_nextHops (lookupFib env pe fw)
               in if suppression = RETX_NEW then best_route2_new env now ingress i k pe nexthops fw
                  else best_route2_retransmit env now ingress i k pe nexthops fw)"

section \<open>Multicast\<close>

text \<open>The body of the loop over the next hops.\<close>

definition multicast_step ::
  "time_point \<Rightarrow> face_id \<Rightarrow> interest \<Rightarrow> pit_key \<Rightarrow> nexthop \<Rightarrow> nfd_info forwarder \<Rightarrow> nfd_info forwarder" where
  "multicast_step now ingress i k nh fw =
     (case fw_entry fw k of
        None \<Rightarrow> fw
      | Some pe \<Rightarrow>
          let outFace = nh_face nh;
              fw = fw_pit k (\<lambda>pe. snd (exp_decidePerUpstream RETX_SUPPRESSION now outFace pe)) fw;
              (suppressResult, pe) = exp_decidePerUpstream RETX_SUPPRESSION now outFace pe
          in if suppressResult = RETX_SUPPRESS then fw
             else if \<not> isNextHopEligible (fw_faceTable fw) ingress i nh pe False time_point_min then fw
             else
               let fw = sendInterest now k outFace i fw
               in if suppressResult = RETX_FORWARD
                  then fw_pit k (pe_modifyOutRecord outFace (incrementIntervalForOutRecord RETX_SUPPRESSION)) fw
                  else fw)"

definition multicast_afterReceiveInterest ::
  "fwd_env \<Rightarrow> time_point \<Rightarrow> face_id \<Rightarrow> interest \<Rightarrow> pit_key \<Rightarrow> nfd_info forwarder \<Rightarrow> nfd_info forwarder" where
  "multicast_afterReceiveInterest env now ingress i k fw =
     (case fw_entry fw k of
        None \<Rightarrow> fw
      | Some pe \<Rightarrow>
          let nexthops = fe_nextHops (lookupFib env pe fw);
              fw = fold (multicast_step now ingress i k) nexthops fw
          in if \<not> (case fw_entry fw k of None \<Rightarrow> False | Some pe \<Rightarrow> hasPendingOutRecords now pe)
             then rejectPendingInterest now k (sendNack k ingress NACK_NO_ROUTE fw)
             else fw)"

section \<open>Random\<close>

text \<open>\<open>std::shuffle\<close> with the random number engine is the parameter \<open>shuffle\<close>.\<close>

definition random_afterReceiveInterest ::
  "(nexthop list \<Rightarrow> nexthop list) \<Rightarrow> fwd_env \<Rightarrow> time_point \<Rightarrow> face_id \<Rightarrow> interest \<Rightarrow> pit_key \<Rightarrow>
   'i forwarder \<Rightarrow> 'i forwarder" where
  "random_afterReceiveInterest shuffle env now ingress i k fw =
     (case fw_entry fw k of
        None \<Rightarrow> fw
      | Some pe \<Rightarrow>
          let nhs = filter (\<lambda>nh. isNextHopEligible (fw_faceTable fw) ingress i nh pe False time_point_min)
                      (fe_nextHops (lookupFib env pe fw))
          in case shuffle nhs of
               [] \<Rightarrow> rejectPendingInterest now k (sendNack k ingress NACK_NO_ROUTE fw)
             | nh # _ \<Rightarrow> sendInterest now k (nh_face nh) i fw)"

section \<open>Virtual methods\<close>

definition base_ops ::
  "fwd_env \<Rightarrow> (time_point \<Rightarrow> face_id \<Rightarrow> interest \<Rightarrow> pit_key \<Rightarrow> 'i forwarder \<Rightarrow> 'i forwarder) \<Rightarrow>
   (time_point \<Rightarrow> face_id \<Rightarrow> nack \<Rightarrow> pit_key \<Rightarrow> 'i forwarder \<Rightarrow> 'i forwarder) \<Rightarrow> 'i strategy_ops" where
  "base_ops env receiveInterest receiveNack =
     \<lparr>so_wantNewNextHopTrigger = False, so_afterReceiveInterest = receiveInterest,
      so_beforeSatisfyInterest = base_beforeSatisfyInterest, so_afterContentStoreHit = base_afterContentStoreHit,
      so_afterReceiveData = base_afterReceiveData env, so_afterReceiveNack = receiveNack,
      so_onDroppedInterest = base_onDroppedInterest, so_afterNewNextHop = base_afterNewNextHop\<rparr>"

definition best_route_ops :: "fwd_env \<Rightarrow> 'i strategy_ops" where
  "best_route_ops env = base_ops env (best_route_afterReceiveInterest env) base_afterReceiveNack"

definition best_route2_ops :: "fwd_env \<Rightarrow> nfd_info strategy_ops" where
  "best_route2_ops env = base_ops env (best_route2_afterReceiveInterest env) (\<lambda>now. processNack env)"

definition multicast_ops :: "fwd_env \<Rightarrow> nfd_info strategy_ops" where
  "multicast_ops env = base_ops env (multicast_afterReceiveInterest env) (\<lambda>now. processNack env)"

definition random_ops :: "(nexthop list \<Rightarrow> nexthop list) \<Rightarrow> fwd_env \<Rightarrow> nfd_info strategy_ops" where
  "random_ops shuffle env = base_ops env (random_afterReceiveInterest shuffle env) (\<lambda>now. processNack env)"

section \<open>Registration\<close>

text \<open>The names the strategies are registered under; the last component is the version.\<close>

definition strategy_name :: "string \<Rightarrow> char \<Rightarrow> name" where
  "strategy_name nm v = map generic_comp [''localhost'', ''nfd'', ''strategy'', nm, [CHR 0xFD, v]]"

definition best_route_name :: name where "best_route_name = strategy_name ''best-route'' (CHR 0x01)"
definition best_route2_name :: name where "best_route2_name = strategy_name ''best-route'' (CHR 0x05)"
definition multicast_name :: name where "multicast_name = strategy_name ''multicast'' (CHR 0x03)"
definition random_name :: name where "random_name = strategy_name ''random'' (CHR 0x01)"

definition best_route_ctor :: "strategy_env \<Rightarrow> create_func" where
  "best_route_ctor env = plain_strategy_ctor env ''BestRouteStrategy'' best_route_name"

definition best_route2_ctor :: "strategy_env \<Rightarrow> create_func" where
  "best_route2_ctor env = plain_strategy_ctor env ''BestRouteStrategy2'' best_route2_name"

definition multicast_ctor :: "strategy_env \<Rightarrow> create_func" where
  "multicast_ctor env = plain_strategy_ctor env ''MulticastStrategy'' multicast_name"

definition random_ctor :: "strategy_env \<Rightarrow> create_func" where
  "random_ctor env = plain_strategy_ctor env ''RandomStrategy'' random_name"

text \<open>The registrations of these strategies, over the version functions of \<open>env\<close>.\<close>

definition nfd_registry :: "strategy_env \<Rightarrow> strategy_env" where
  "nfd_registry env =
     registerType best_route_name (best_route_ctor env)
      (registerType best_route2_name (best_route2_ctor env)
        (registerType multicast_name (multicast_ctor env)
          (registerType random_name (random_ctor env) (env\<lparr>env_registry := []\<rparr>))))"

lemma nfd_registry_plain: "plain_registry (nfd_registry env)"
proof -
  have c: "plain_strategy_ctor env l k = plain_strategy_ctor (nfd_registry env) l k" for l k
    by (rule plain_ctor_cong) (simp_all add: nfd_registry_def registerType_def)
  have "set (env_registry (nfd_registry env)) =
      {(best_route_name, best_route_ctor env), (best_route2_name, best_route2_ctor env),
       (multicast_name, multicast_ctor env), (random_name, random_ctor env)}"
    by (simp add: nfd_registry_def registerType_def set_insort_key del: insort_key.simps)
  then show ?thesis
    unfolding plain_registry_def best_route_ctor_def best_route2_ctor_def multicast_ctor_def random_ctor_def c by auto
qed

text \<open>The virtual methods of an instance, by the class its constructor belongs to.\<close>

definition nfd_strategies :: "(nexthop list \<Rightarrow> nexthop list) \<Rightarrow> fwd_env \<Rightarrow> strategy \<Rightarrow> nfd_info strategy_ops" where
  "nfd_strategies shuffle env s =
     (if prefix best_route_name (st_instanceName s) then best_route_ops env
      else if prefix multicast_name (st_instanceName s) then multicast_ops env
      else if prefix random_name (st_instanceName s) then random_ops shuffle env
      else best_route2_ops env)"

end
