(* ===== verification/Forwarder_Invariant.thy ===== *)
theory Forwarder_Invariant
  imports Strategies
begin

text \<open>
  The invariant of the forwarder and the contract between the pipelines and a strategy. The
  invariant holds the invariants of the tables together and adds what spans them: no table entry
  refers to a face outside the face table, and every PIT entry has an expiry timer that is due
  within the maximum lifetime. A strategy may act on the forwarder only through the actions of its
  base class, on the PIT entry it was called for.
\<close>

section \<open>The invariant\<close>

definition records_ok :: "time_point \<Rightarrow> face_id set \<Rightarrow> 'i pit_entry \<Rightarrow> bool" where
  "records_ok now F pe \<longleftrightarrow>
     (\<forall>r\<in>set (pe_inRecords pe). fr_face r \<in> F \<and> ir_interest r \<noteq> None \<and> fr_expiry r \<le> now + ms MAX_LIFETIME) \<and>
     (\<forall>r\<in>set (pe_outRecords pe). fr_face r \<in> F)"

definition timer_ok :: "time_point \<Rightarrow> 'i pit_entry \<Rightarrow> bool" where
  "timer_ok now pe \<longleftrightarrow> (\<exists>t. pe_expiryTimer pe = Some t \<and> t \<le> now + ms MAX_LIFETIME)"

abbreviation fw_faceIds :: "'i forwarder \<Rightarrow> face_id set" where
  "fw_faceIds fw \<equiv> dom (ft_faces (fw_faceTable fw))"

text \<open>\<open>X\<close> holds the keys of PIT entries whose timer is not set yet.\<close>

definition fwd_ok :: "fwd_env \<Rightarrow> time_point \<Rightarrow> pit_key set \<Rightarrow> 'i forwarder \<Rightarrow> bool" where
  "fwd_ok env now X fw \<longleftrightarrow>
     tables_ok (fwe_hash env) (fw_tables fw) \<and> sc_inv (fw_tables fw) \<and> cs_ok (fw_cs fw) \<and>
     dnl_ok (fw_deadNonceList fw) \<and> ft_ok (fw_faceTable fw) \<and>
     (\<forall>n e. fib_at (fw_tables fw) n = Some e \<longrightarrow> nh_face ` set (fe_nextHops e) \<subseteq> fw_faceIds fw) \<and>
     (\<forall>k pe. fw_entry fw k = Some pe \<longrightarrow> records_ok now (fw_faceIds fw) pe \<and> (k \<notin> X \<longrightarrow> timer_ok now pe))"

lemma fwd_okD:
  assumes "fwd_ok env now X fw"
  shows "tables_ok (fwe_hash env) (fw_tables fw)" "sc_inv (fw_tables fw)" "cs_ok (fw_cs fw)"
    "dnl_ok (fw_deadNonceList fw)" "ft_ok (fw_faceTable fw)"
    "\<And>n e. fib_at (fw_tables fw) n = Some e \<Longrightarrow> nh_face ` set (fe_nextHops e) \<subseteq> fw_faceIds fw"
    "\<And>k pe. fw_entry fw k = Some pe \<Longrightarrow> records_ok now (fw_faceIds fw) pe"
    "\<And>k pe. fw_entry fw k = Some pe \<Longrightarrow> k \<notin> X \<Longrightarrow> timer_ok now pe"
  using assms by (auto simp: fwd_ok_def)

lemma fwd_ok_mono: "fwd_ok env now X fw \<Longrightarrow> now \<le> now' \<Longrightarrow> X \<subseteq> Y \<Longrightarrow> fwd_ok env now' Y fw"
  unfolding fwd_ok_def records_ok_def timer_ok_def by fastforce

text \<open>What the handlers leave alone: which faces exist and their scope and link type.\<close>

definition same_faces :: "face_table \<Rightarrow> face_table \<Rightarrow> bool" where
  "same_faces ft ft' \<longleftrightarrow>
     (\<forall>f. map_option (\<lambda>x. (face_scope x, face_linkType x)) (ft_faces ft' f) =
          map_option (\<lambda>x. (face_scope x, face_linkType x)) (ft_faces ft f))"

lemma same_faces_refl [simp]: "same_faces ft ft"
  by (simp add: same_faces_def)

lemma same_faces_trans [trans]: "same_faces a b \<Longrightarrow> same_faces b c \<Longrightarrow> same_faces a c"
  by (simp add: same_faces_def)

lemma same_facesD:
  assumes "same_faces ft ft'"
  shows "dom (ft_faces ft') = dom (ft_faces ft)" "ft_scope ft' f = ft_scope ft f" "ft_linkType ft' f = ft_linkType ft f"
    "ft_getId ft' f = ft_getId ft f"
proof -
  have e: "map_option (\<lambda>x. (face_scope x, face_linkType x)) (ft_faces ft' f) =
      map_option (\<lambda>x. (face_scope x, face_linkType x)) (ft_faces ft f)" for f
    using assms by (simp add: same_faces_def)
  have "ft_faces ft' f = None \<longleftrightarrow> ft_faces ft f = None" for f using e[of f] by (auto split: option.splits)
  then show "dom (ft_faces ft') = dom (ft_faces ft)" by (simp add: set_eq_iff domIff)
  show "ft_scope ft' f = ft_scope ft f" "ft_linkType ft' f = ft_linkType ft f" "ft_getId ft' f = ft_getId ft f"
    using e[of f] by (auto simp: ft_face_def ft_getId_def split: option.splits)
qed

section \<open>Elementary steps\<close>

lemma fw_simps [simp]:
  "fw_tables (fw_count c fw) = fw_tables fw" "fw_faceTable (fw_count c fw) = fw_faceTable fw"
  "fw_cs (fw_count c fw) = fw_cs fw" "fw_deadNonceList (fw_count c fw) = fw_deadNonceList fw"
  "fw_sent (fw_count c fw) = fw_sent fw" "fw_networkRegionTable (fw_count c fw) = fw_networkRegionTable fw"
  "fw_unsolicitedDataPolicy (fw_count c fw) = fw_unsolicitedDataPolicy fw"
  "fw_tables (fw_send f p fw) = fw_tables fw" "fw_faceTable (fw_send f p fw) = fw_faceTable fw"
  "fw_cs (fw_send f p fw) = fw_cs fw" "fw_deadNonceList (fw_send f p fw) = fw_deadNonceList fw"
  "fw_sent (fw_send f p fw) = fw_sent fw @ [(f, p)]" "fw_networkRegionTable (fw_send f p fw) = fw_networkRegionTable fw"
  "fw_tables (fw_modifyFace f g fw) = fw_tables fw" "fw_cs (fw_modifyFace f g fw) = fw_cs fw"
  "fw_deadNonceList (fw_modifyFace f g fw) = fw_deadNonceList fw" "fw_sent (fw_modifyFace f g fw) = fw_sent fw"
  "fw_tables (fw_pit k h fw) = pit_modify k h (fw_tables fw)" "fw_faceTable (fw_pit k h fw) = fw_faceTable fw"
  "fw_cs (fw_pit k h fw) = fw_cs fw" "fw_deadNonceList (fw_pit k h fw) = fw_deadNonceList fw"
  "fw_sent (fw_pit k h fw) = fw_sent fw" "fw_networkRegionTable (fw_pit k h fw) = fw_networkRegionTable fw"
  by (simp_all add: fw_count_def fw_send_def fw_modifyFace_def fw_pit_def)

lemma fwd_ok_count [simp]: "fwd_ok env now X (fw_count c fw) = fwd_ok env now X fw"
  by (simp add: fwd_ok_def)

lemma fwd_ok_send [simp]: "fwd_ok env now X (fw_send f p fw) = fwd_ok env now X fw"
  by (simp add: fwd_ok_def)

lemma modifyFace_dom [simp]: "fw_faceIds (fw_modifyFace f g fw) = fw_faceIds fw"
  by (auto simp: fw_modifyFace_def)

lemma modifyFace_ok [inv_intros]: "fwd_ok env now X fw \<Longrightarrow> fwd_ok env now X (fw_modifyFace f g fw)"
  using modifyFace_dom[of f g fw] unfolding fwd_ok_def ft_ok_def fw_simps by (auto simp: fw_modifyFace_def)

lemma modifyFace_same:
  assumes "\<And>x. face_scope (g x) = face_scope x \<and> face_linkType (g x) = face_linkType x"
  shows "same_faces (fw_faceTable fw) (fw_faceTable (fw_modifyFace f g fw))"
  using assms by (simp add: same_faces_def fw_modifyFace_def option.map_comp comp_def)

text \<open>Changing one PIT entry.\<close>

lemma sc_inv_pit_modify [simp]: "sc_inv (pit_modify k f tb) = sc_inv tb"
  by (simp add: sc_inv_def)

lemma fwd_ok_pit:
  assumes ok: "fwd_ok env now X fw" and f: "pit_keeps f"
    and r: "\<And>pe. fw_entry fw k = Some pe \<Longrightarrow> records_ok now (fw_faceIds fw) pe \<Longrightarrow> records_ok now (fw_faceIds fw) (f pe)"
    and t: "\<And>pe. fw_entry fw k = Some pe \<Longrightarrow> k \<notin> Y \<Longrightarrow> (k \<notin> X \<Longrightarrow> timer_ok now pe) \<Longrightarrow> timer_ok now (f pe)"
    and XY: "X \<subseteq> insert k Y"
  shows "fwd_ok env now Y (fw_pit k f fw)"
proof -
  note o = fwd_okD[OF ok]
  have e: "records_ok now (fw_faceIds fw) pe \<and> (k' \<notin> Y \<longrightarrow> timer_ok now pe)"
    if d: "pit_deref (pit_modify k f (fw_tables fw)) k' = Some pe" for k' pe
  proof (cases "k' = k")
    case True
    then obtain pe0 where "fw_entry fw k = Some pe0" "pe = f pe0" using d by (auto simp: pit_modify_view[OF f])
    then show ?thesis using r[of pe0] t[of pe0] o(7,8)[of k pe0] True by blast
  next
    case False
    then have "fw_entry fw k' = Some pe" using d by (simp add: pit_modify_view[OF f])
    then show ?thesis using o(7,8)[of k' pe] XY False by blast
  qed
  then show ?thesis
    unfolding fwd_ok_def fw_simps using o(1-6) by (simp add: pit_modify_ok[OF _ f])
qed

lemma records_ok_info:
  assumes "clear_pit_info (g pe) = clear_pit_info pe" and "records_ok now F pe"
  shows "records_ok now F (g pe)"
proof -
  have eqs: "map (fr_info_update clearStrategyInfoHost) (pe_inRecords (g pe)) = map (fr_info_update clearStrategyInfoHost) (pe_inRecords pe)"
    "map (fr_info_update clearStrategyInfoHost) (pe_outRecords (g pe)) = map (fr_info_update clearStrategyInfoHost) (pe_outRecords pe)"
    using arg_cong[OF assms(1), of pe_inRecords] arg_cong[OF assms(1), of pe_outRecords]
    by (simp_all add: clear_pit_info_def)
  have i: "\<exists>r'\<in>set (pe_inRecords pe). fr_info_update clearStrategyInfoHost r = fr_info_update clearStrategyInfoHost r'"
      if "r \<in> set (pe_inRecords (g pe))" for r
      using that eqs(1) by (metis (no_types, lifting) image_iff list.set_map)
  have o: "\<exists>r'\<in>set (pe_outRecords pe). fr_info_update clearStrategyInfoHost r = fr_info_update clearStrategyInfoHost r'"
      if "r \<in> set (pe_outRecords (g pe))" for r
      using that eqs(2) by (metis (no_types, lifting) image_iff list.set_map)
  have ij: "fr_face r = fr_face r' \<and> fr_expiry r = fr_expiry r' \<and> ir_interest r = ir_interest r'"
    if "fr_info_update clearStrategyInfoHost r = fr_info_update clearStrategyInfoHost r'" for r r' :: "'a in_record"
    using that by (cases r; cases r') simp
  have oj: "fr_face r = fr_face r'"
    if "fr_info_update clearStrategyInfoHost r = fr_info_update clearStrategyInfoHost r'" for r r' :: "'a out_record"
    using that by (cases r; cases r') simp
  show ?thesis
    unfolding records_ok_def
  proof (intro conjI ballI)
    fix r assume "r \<in> set (pe_inRecords (g pe))"
    from i[OF this] obtain r' where r': "r' \<in> set (pe_inRecords pe)"
      "fr_info_update clearStrategyInfoHost r = fr_info_update clearStrategyInfoHost r'" ..
    then show "fr_face r \<in> F" "ir_interest r \<noteq> None" "fr_expiry r \<le> now + ms MAX_LIFETIME"
      using assms(2) ij[OF r'(2)] by (auto simp: records_ok_def)
  next
    fix r assume "r \<in> set (pe_outRecords (g pe))"
    from o[OF this] obtain r' where r': "r' \<in> set (pe_outRecords pe)"
      "fr_info_update clearStrategyInfoHost r = fr_info_update clearStrategyInfoHost r'" ..
    then show "fr_face r \<in> F" using assms(2) oj[OF r'(2)] by (auto simp: records_ok_def)
  qed
qed

section \<open>Record operations\<close>

lemma set_update_first: "r \<in> set (update_first P g xs) \<Longrightarrow> r \<in> set xs \<or> (\<exists>x\<in>set xs. P x \<and> r = g x)"
  by (induction xs) (auto split: if_splits)

lemma records_ok_insertIn:
  assumes "records_ok now F pe" and "f \<in> F"
  shows "records_ok now F (insertOrUpdateInRecord now f i pe)"
proof -
  have new: "fr_face (inRecord_update now i r) = fr_face r \<and> ir_interest (inRecord_update now i r) \<noteq> None \<and>
      fr_expiry (inRecord_update now i r) \<le> now + ms MAX_LIFETIME" for r :: "'a in_record"
    by (simp add: inRecord_update_def faceRecord_update_def ms_def)
  show ?thesis
  proof (cases "getInRecord pe f")
    case None
    then show ?thesis
      using assms new[of "mk_in_record f"]
      by (simp add: insertOrUpdateInRecord_def records_ok_def Let_def) (simp add: mk_in_record_def)
  next
    case (Some x)
    then show ?thesis
      using assms new
      by (auto simp: insertOrUpdateInRecord_def records_ok_def Let_def dest!: set_update_first)
  qed
qed

lemma records_ok_insertOut:
  assumes "records_ok now F pe" and "f \<in> F"
  shows "records_ok now F (insertOrUpdateOutRecord now f i pe)"
  using assms
  by (auto simp: insertOrUpdateOutRecord_def records_ok_def Let_def mk_out_record_def split: if_splits dest!: set_update_first)

lemma records_ok_modifyOut:
  assumes "records_ok now F pe" and "\<And>r. fr_face (g r) = fr_face r"
  shows "records_ok now F (pe_modifyOutRecord f g pe)"
  using assms by (auto simp: pe_modifyOutRecord_def records_ok_def dest!: set_update_first)

lemma records_ok_delete:
  assumes "records_ok now F pe"
  shows "records_ok now F (deleteInRecord f pe)" "records_ok now F (deleteOutRecord f pe)" "records_ok now F (clearInRecords pe)"
  using assms erase_first_subset[of "\<lambda>r. fr_face r = f" "pe_inRecords pe"] erase_first_subset[of "\<lambda>r. fr_face r = f" "pe_outRecords pe"]
  by (auto simp: deleteInRecord_def deleteOutRecord_def clearInRecords_def records_ok_def)

lemma records_ok_fields [simp]:
  "records_ok now F (pe_expiryTimer_update t pe) = records_ok now F pe"
  "records_ok now F (pe_isSatisfied_update b pe) = records_ok now F pe"
  "records_ok now F (pe_dataFreshnessPeriod_update d pe) = records_ok now F pe"
  "records_ok now F (pe_info_update u pe) = records_ok now F pe"
  by (simp_all add: records_ok_def)

lemma timer_ok_records [simp]:
  "timer_ok now (insertOrUpdateInRecord t f i pe) = timer_ok now pe"
  "timer_ok now (insertOrUpdateOutRecord t f i pe) = timer_ok now pe"
  "timer_ok now (deleteInRecord f pe) = timer_ok now pe" "timer_ok now (deleteOutRecord f pe) = timer_ok now pe"
  "timer_ok now (clearInRecords pe) = timer_ok now pe" "timer_ok now (pe_modifyOutRecord f g pe) = timer_ok now pe"
  "timer_ok now (pe_isSatisfied_update b pe) = timer_ok now pe"
  "timer_ok now (pe_dataFreshnessPeriod_update d pe) = timer_ok now pe" "timer_ok now (pe_info_update u pe) = timer_ok now pe"
  by (simp_all add: timer_ok_def insertOrUpdateInRecord_def insertOrUpdateOutRecord_def deleteInRecord_def
      deleteOutRecord_def clearInRecords_def pe_modifyOutRecord_def Let_def)

lemma pit_keeps_satisfied [simp]: "pit_keeps (mark_satisfied d)"
  by (simp add: pit_keeps_def mark_satisfied_def pit_entry_ok_def)

lemma pit_keeps_modifyOut [simp]:
  "(\<And>r. fr_face (g r) = fr_face r) \<Longrightarrow> pit_keeps (pe_modifyOutRecord f g)"
  by (simp add: pit_keeps_def pe_modifyOutRecord_def pit_entry_ok_def map_update_first)

section \<open>Actions\<close>

lemma setExpiryTimer_ok:
  assumes "fwd_ok env now X fw" and "d \<le> int MAX_LIFETIME"
  shows "fwd_ok env now (X - {k}) (setExpiryTimer now k d fw)"
  unfolding setExpiryTimer_def Let_def
  by (rule fwd_ok_pit[OF assms(1)]) (use assms(2) in \<open>auto simp: timer_ok_def ms_def max_def\<close>)

lemma fwd_ok_records:
  assumes "fwd_ok env now X fw" and "pit_keeps g" and "\<And>pe. timer_ok now pe \<Longrightarrow> timer_ok now (g pe)"
    and "\<And>pe. records_ok now (fw_faceIds fw) pe \<Longrightarrow> records_ok now (fw_faceIds fw) (g pe)"
  shows "fwd_ok env now X (fw_pit k g fw)"
  by (rule fwd_ok_pit[OF assms(1,2)]) (use assms(3,4) in auto)

lemma onOutgoingInterest_ok [inv_intros]:
  assumes "fwd_ok env now X fw" and "f \<in> fw_faceIds fw"
  shows "fwd_ok env now X (onOutgoingInterest now k f i fw)"
  using assms fwd_ok_records[OF assms(1), of "insertOrUpdateOutRecord now f i" k]
  by (simp add: onOutgoingInterest_def Let_def modifyFace_ok records_ok_insertOut)

lemma onOutgoingData_ok [simp]: "fwd_ok env now X (onOutgoingData d f fw) = fwd_ok env now X fw"
  by (simp add: onOutgoingData_def)

lemma onOutgoingNack_ok [inv_intros]:
  assumes "fwd_ok env now X fw"
  shows "fwd_ok env now X (onOutgoingNack k f reason fw)"
  using assms fwd_ok_records[OF assms(1), of "deleteInRecord f" k]
  by (simp add: onOutgoingNack_def Let_def records_ok_delete split: option.split)

lemma sendInterest_ok [inv_intros]:
  "fwd_ok env now X fw \<Longrightarrow> f \<in> fw_faceIds fw \<Longrightarrow> fwd_ok env now X (sendInterest now k f i fw)"
  by (simp add: sendInterest_def onOutgoingInterest_ok)

lemma sendData_ok [inv_intros]:
  assumes "fwd_ok env now X fw"
  shows "fwd_ok env now X (sendData k d f fw)"
  using fwd_ok_records[OF assms(1), of "deleteInRecord f" k] by (simp add: sendData_def Let_def records_ok_delete)

lemma sendNack_ok [inv_intros]: "fwd_ok env now X fw \<Longrightarrow> fwd_ok env now X (sendNack k f reason fw)"
  by (simp add: sendNack_def onOutgoingNack_ok)

lemma fwd_ok_info:
  assumes "fwd_ok env now X fw" and "pit_keeps g" and "\<And>pe. clear_pit_info (g pe) = clear_pit_info pe"
  shows "fwd_ok env now X (fw_pit k g fw)"
proof (rule fwd_ok_records[OF assms(1,2)])
  fix pe :: "'a pit_entry"
  have "pe_expiryTimer (g pe) = pe_expiryTimer pe"
    using arg_cong[OF assms(3)[of pe], of pe_expiryTimer] by (simp add: clear_pit_info_def)
  then show "timer_ok now (g pe)" if "timer_ok now pe" using that by (simp add: timer_ok_def)
  show "records_ok now (fw_faceIds fw) (g pe)" if "records_ok now (fw_faceIds fw) pe"
    by (rule records_ok_info[of g pe, OF assms(3) that])
qed

section \<open>What is sent\<close>

text \<open>
  A packet goes out on a face of the table. Data under \<open>/localhost\<close>, and Interests under \<open>/localhost\<close>
  whose next hop was not chosen by a privileged application, do not leave on a non-local face; an
  Interest whose HopLimit is used up does not leave on a non-local face; Nacks only go to
  point-to-point links.
\<close>

definition packet_ok :: "face_table \<Rightarrow> face_id \<Rightarrow> packet \<Rightarrow> bool" where
  "packet_ok ft f p \<longleftrightarrow>
     f \<in> dom (ft_faces ft) \<and>
     (case p of
        PktInterest i \<Rightarrow> ft_scope ft f = FACE_SCOPE_NON_LOCAL \<longrightarrow>
          int_hopLimit i \<noteq> Some 0 \<and> (prefix LOCALHOST (int_name i) \<longrightarrow> int_nextHopFaceId i \<noteq> None)
      | PktData d \<Rightarrow> ft_scope ft f = FACE_SCOPE_NON_LOCAL \<longrightarrow> \<not> prefix LOCALHOST (data_name d)
      | PktNack n \<Rightarrow> ft_linkType ft f = LINK_TYPE_POINT_TO_POINT)"

definition emits :: "'i forwarder \<Rightarrow> 'i forwarder \<Rightarrow> bool" where
  "emits fw fw' \<longleftrightarrow>
     same_faces (fw_faceTable fw) (fw_faceTable fw') \<and>
     (\<exists>new. fw_sent fw' = fw_sent fw @ new \<and> (\<forall>(f, p)\<in>set new. packet_ok (fw_faceTable fw) f p))"

lemma packet_ok_same: "same_faces ft ft' \<Longrightarrow> packet_ok ft' f p = packet_ok ft f p"
  by (simp add: packet_ok_def same_facesD split: packet.split)

lemma emits_frame: "fw_faceTable fw' = fw_faceTable fw \<Longrightarrow> fw_sent fw' = fw_sent fw \<Longrightarrow> emits fw fw'"
  by (simp add: emits_def)

lemma emits_refl [simp]: "emits fw fw"
  by (simp add: emits_frame)

lemma emits_trans [trans]:
  assumes "emits a b" and "emits b c"
  shows "emits a c"
proof -
  from assms(1) obtain n1 where 1: "same_faces (fw_faceTable a) (fw_faceTable b)" "fw_sent b = fw_sent a @ n1"
    "\<forall>(f, p)\<in>set n1. packet_ok (fw_faceTable a) f p" by (auto simp: emits_def)
  from assms(2) obtain n2 where 2: "same_faces (fw_faceTable b) (fw_faceTable c)" "fw_sent c = fw_sent b @ n2"
    "\<forall>(f, p)\<in>set n2. packet_ok (fw_faceTable b) f p" by (auto simp: emits_def)
  have "\<forall>(f, p)\<in>set (n1 @ n2). packet_ok (fw_faceTable a) f p"
    using 1(3) 2(3) packet_ok_same[OF 1(1)] by auto
  then show ?thesis unfolding emits_def using 1 2 same_faces_trans by (metis append.assoc)
qed

lemma emits_steps [simp]:
  "emits fw (fw_count c fw)" "emits fw (fw_pit k g fw)" "emits fw (setExpiryTimer now k d fw)"
  "packet_ok (fw_faceTable fw) f p \<Longrightarrow> emits fw (fw_send f p fw)"
  by (auto simp: emits_def setExpiryTimer_def Let_def)

lemma emits_outgoingInterest:
  assumes "f \<in> fw_faceIds fw"
    and "ft_scope (fw_faceTable fw) f = FACE_SCOPE_NON_LOCAL \<Longrightarrow> prefix LOCALHOST (int_name i) \<Longrightarrow> int_nextHopFaceId i \<noteq> None"
  shows "emits fw (onOutgoingInterest now k f i fw)"
proof (cases "int_hopLimit i = Some 0 \<and> ft_scope (fw_faceTable fw) f = FACE_SCOPE_NON_LOCAL")
  case True
  have "same_faces (fw_faceTable fw) (fw_faceTable (fw_modifyFace f (face_nOutHopLimitZero_update (\<lambda>c. c + 1)) fw))"
    by (rule modifyFace_same) simp
  then show ?thesis using True by (simp add: onOutgoingInterest_def emits_def)
next
  case False
  have "packet_ok (fw_faceTable fw) f (PktInterest i)" using assms False by (auto simp: packet_ok_def)
  then show ?thesis using False by (auto simp: onOutgoingInterest_def emits_def Let_def)
qed

lemma emits_outgoingData: "emits fw (onOutgoingData d f fw)"
  by (auto simp: onOutgoingData_def emits_def packet_ok_def ft_getId_def split: if_splits)

lemma emits_sendNack: "emits fw (sendNack k f reason fw)"
  by (auto simp: sendNack_def onOutgoingNack_def emits_def packet_ok_def ft_getId_def Let_def split: if_splits option.split)

lemma emits_sendData: "emits fw (sendData k d f fw)"
  unfolding sendData_def Let_def by (auto intro: emits_trans[OF emits_steps(2) emits_outgoingData])

lemma emits_sendInterest:
  assumes "f \<in> fw_faceIds fw" and "ft_scope (fw_faceTable fw) f = FACE_SCOPE_NON_LOCAL \<Longrightarrow> \<not> prefix LOCALHOST (int_name i)"
  shows "emits fw (sendInterest now k f i fw)"
  unfolding sendInterest_def using assms by (auto intro!: emits_outgoingInterest)

section \<open>The contract of a strategy\<close>

inductive strategy_acts :: "time_point \<Rightarrow> pit_key \<Rightarrow> 'i forwarder \<Rightarrow> 'i forwarder \<Rightarrow> bool" for now k where
  acts_done: "strategy_acts now k fw fw"
| acts_interest: "f \<in> fw_faceIds fw \<Longrightarrow>
    (ft_scope (fw_faceTable fw) f = FACE_SCOPE_NON_LOCAL \<Longrightarrow> \<not> prefix LOCALHOST (int_name i)) \<Longrightarrow>
    strategy_acts now k (sendInterest now k f i fw) fw' \<Longrightarrow> strategy_acts now k fw fw'"
| acts_data: "strategy_acts now k (sendData k d f fw) fw' \<Longrightarrow> strategy_acts now k fw fw'"
| acts_nack: "strategy_acts now k (sendNack k f reason fw) fw' \<Longrightarrow> strategy_acts now k fw fw'"
| acts_timer: "d \<le> int MAX_LIFETIME \<Longrightarrow> strategy_acts now k (setExpiryTimer now k d fw) fw' \<Longrightarrow> strategy_acts now k fw fw'"
| acts_info: "pit_keeps g \<Longrightarrow> (\<And>pe. clear_pit_info (g pe) = clear_pit_info pe) \<Longrightarrow>
    strategy_acts now k (fw_pit k g fw) fw' \<Longrightarrow> strategy_acts now k fw fw'"

lemma acts_trans: "strategy_acts now k a b \<Longrightarrow> strategy_acts now k b c \<Longrightarrow> strategy_acts now k a c"
  by (induction rule: strategy_acts.induct) (auto intro: strategy_acts.intros)

lemma acts_ok: "strategy_acts now k fw fw' \<Longrightarrow> fwd_ok env now X fw \<Longrightarrow> fwd_ok env now X fw'"
proof (induction rule: strategy_acts.induct)
  case (acts_timer d fw fw')
  then show ?case using fwd_ok_mono[OF setExpiryTimer_ok[OF acts_timer.prems acts_timer.hyps(1)] order.refl, of k X] by auto
qed (auto intro: sendInterest_ok sendData_ok sendNack_ok fwd_ok_info)

lemma acts_emits: "strategy_acts now k fw fw' \<Longrightarrow> emits fw fw'"
  by (induction rule: strategy_acts.induct)
    (auto intro: emits_trans[OF emits_sendInterest] emits_trans[OF emits_sendData] emits_trans[OF emits_sendNack]
      emits_trans[OF emits_steps(3)] emits_trans[OF emits_steps(2)])

locale strategy_contract =
  fixes env :: fwd_env and ops :: "'i strategy_ops"
  assumes receiveInterest: "fwd_ok env now {} fw \<Longrightarrow> strategy_acts now k fw (so_afterReceiveInterest ops now ingress i k fw)"
    and beforeSatisfy: "fwd_ok env now {} fw \<Longrightarrow> strategy_acts now k fw (so_beforeSatisfyInterest ops now k ingress d fw)"
    and contentStoreHit: "fwd_ok env now {} fw \<Longrightarrow> strategy_acts now k fw (so_afterContentStoreHit ops now k ingress d fw)"
    and receiveData: "fwd_ok env now {} fw \<Longrightarrow> strategy_acts now k fw (so_afterReceiveData ops now k ingress d fw)"
    and receiveNack: "fwd_ok env now {} fw \<Longrightarrow> strategy_acts now k fw (so_afterReceiveNack ops now ingress n k fw)"
    and newNextHop: "fwd_ok env now {} fw \<Longrightarrow> strategy_acts now k fw (so_afterNewNextHop ops now nh k fw)"
    and dropped: "so_onDroppedInterest ops now egress i fw = fw"
begin

lemma triggers_ok:
  assumes "fwd_ok env now {} fw"
  shows "fwd_ok env now {} (so_afterReceiveInterest ops now ingress i k fw)"
    and "fwd_ok env now {} (so_beforeSatisfyInterest ops now k ingress d fw)"
    and "fwd_ok env now {} (so_afterContentStoreHit ops now k ingress d fw)"
    and "fwd_ok env now {} (so_afterReceiveData ops now k ingress d fw)"
    and "fwd_ok env now {} (so_afterReceiveNack ops now ingress n k fw)"
    and "fwd_ok env now {} (so_afterNewNextHop ops now nh k fw)"
  using acts_ok[OF receiveInterest[OF assms] assms] acts_ok[OF beforeSatisfy[OF assms] assms]
    acts_ok[OF contentStoreHit[OF assms] assms] acts_ok[OF receiveData[OF assms] assms]
    acts_ok[OF receiveNack[OF assms] assms] acts_ok[OF newNextHop[OF assms] assms] by blast+

lemma triggers_emit:
  assumes "fwd_ok env now {} fw"
  shows "emits fw (so_afterReceiveInterest ops now ingress i k fw)"
    and "emits fw (so_beforeSatisfyInterest ops now k ingress d fw)"
    and "emits fw (so_afterContentStoreHit ops now k ingress d fw)"
    and "emits fw (so_afterReceiveData ops now k ingress d fw)"
    and "emits fw (so_afterReceiveNack ops now ingress n k fw)"
    and "emits fw (so_afterNewNextHop ops now nh k fw)"
  using acts_emits[OF receiveInterest[OF assms]] acts_emits[OF beforeSatisfy[OF assms]]
    acts_emits[OF contentStoreHit[OF assms]] acts_emits[OF receiveData[OF assms]]
    acts_emits[OF receiveNack[OF assms]] acts_emits[OF newNextHop[OF assms]] by blast+

end

section \<open>The strategies meet the contract\<close>

lemma acts_one_interest:
  assumes "f \<in> fw_faceIds fw" and "ft_scope (fw_faceTable fw) f = FACE_SCOPE_NON_LOCAL \<Longrightarrow> \<not> prefix LOCALHOST (int_name i)"
  shows "strategy_acts now k fw (sendInterest now k f i fw)"
  by (rule acts_interest[OF assms(1) _ acts_done]) (rule assms(2))

lemma acts_one_info:
  assumes "pit_keeps g" and "\<And>pe. clear_pit_info (g pe) = clear_pit_info pe"
  shows "strategy_acts now k fw (fw_pit k g fw)"
  by (rule acts_info[OF assms(1) _ acts_done]) (rule assms(2))

lemma acts_one_reject: "strategy_acts now k fw (rejectPendingInterest now k fw)"
proof -
  have "strategy_acts now k (setExpiryTimer now k 0 fw) (rejectPendingInterest now k fw)"
    unfolding rejectPendingInterest_def by (rule acts_done)
  then show ?thesis by (rule acts_timer[rotated]) simp
qed

lemma acts_one:
  "strategy_acts now k fw (sendData k d f fw)" "strategy_acts now k fw (sendNack k f reason fw)"
  by (rule acts_data acts_nack, rule acts_done)+

lemma acts_fold: "(\<And>x fw. strategy_acts now k fw (h x fw)) \<Longrightarrow> strategy_acts now k fw (fold h xs fw)"
proof (induction xs arbitrary: fw)
  case (Cons x xs)
  then show ?case using acts_trans[OF Cons.prems[of fw x] Cons.IH[OF Cons.prems]] by simp
qed (simp add: acts_done)

lemma base_acts:
  "strategy_acts now k fw (base_beforeSatisfyInterest now k ingress d fw)"
  "strategy_acts now k fw (base_afterContentStoreHit now k ingress d fw)"
  "strategy_acts now k fw (base_afterReceiveData env now k ingress d fw)"
  "strategy_acts now k fw (base_afterReceiveNack now ingress n k fw)"
  "strategy_acts now k fw (base_afterNewNextHop now nh k fw)"
  by (auto simp: base_beforeSatisfyInterest_def base_afterContentStoreHit_def base_afterReceiveData_def
      base_afterReceiveNack_def base_afterNewNextHop_def sendDataToAll_def acts_done acts_one acts_fold split: option.split)

lemma sendNacks_acts: "strategy_acts now k fw (sendNacks env k reason ex fw)"
  by (auto simp: sendNacks_def Let_def acts_done acts_one acts_fold split: option.split)

lemma processNack_acts: "strategy_acts now k fw (processNack env f n k fw)"
  by (auto simp: processNack_def Let_def split_beta acts_done acts_one sendNacks_acts split: option.split bool.split)

lemma base_ops_contract:
  assumes "\<And>now fw k ingress i. fwd_ok env now {} fw \<Longrightarrow> strategy_acts now k fw (ri now ingress i k fw)"
    and "\<And>now fw k ingress n. strategy_acts now k fw (rn now ingress n k fw)"
  shows "strategy_contract env (base_ops env ri rn)"
  by unfold_locales (simp_all add: base_ops_def assms base_acts base_onDroppedInterest_def)

text \<open>The next hops a strategy gets from the FIB lead to faces of the table.\<close>

lemma eligible_scope:
  assumes "isNextHopEligible ft inFace i nh pe u t" and "ft_scope ft (nh_face nh) = FACE_SCOPE_NON_LOCAL"
  shows "\<not> prefix LOCALHOST (int_name i)"
  using assms by (auto simp: isNextHopEligible_def wouldViolateScope_def Let_def split: if_splits)

lemma lpm_faces:
  assumes "fwd_ok env now X fw" and "nh \<in> set (fe_nextHops (fib_findLongestPrefixMatch (fwe_hash env) n (fw_tables fw)))"
  shows "nh_face nh \<in> fw_faceIds fw"
proof (cases "longest_match (\<lambda>q. fib_at (fw_tables fw) q \<noteq> None) n")
  case None
  then show ?thesis
    using assms(2) by (simp add: fib_lpm_name[OF fwd_okD(1)[OF assms(1)]] s_emptyEntry_def mk_fib_entry_def)
next
  case (Some q)
  then obtain e where "fib_at (fw_tables fw) q = Some e" by (auto simp: longest_match_Some_iff)
  then show ?thesis
    using assms(2) Some fwd_okD(6)[OF assms(1), of q e] by (auto simp: fib_lpm_name[OF fwd_okD(1)[OF assms(1)]])
qed

lemma lookupFib_loop_faces:
  assumes "fwd_ok env now X fw" and "nh \<in> set (fe_nextHops (lookupFib_loop (fwe_hash env) (fw_tables fw) fh e))"
    and "\<And>nh. nh \<in> set (fe_nextHops e) \<Longrightarrow> nh_face nh \<in> fw_faceIds fw"
  shows "nh_face nh \<in> fw_faceIds fw"
  using assms(2,3)
proof (induction fh arbitrary: e)
  case (Cons d fh)
  then show ?case using lpm_faces[OF assms(1)] by (auto simp: Let_def split: if_splits)
qed simp

lemma lookupFib_faces:
  assumes ok: "fwd_ok env now X fw" and pe: "fw_entry fw k = Some pe0" "pe_interest pe = pe_interest pe0"
      "pe_nameTreeEntry pe = pe_nameTreeEntry pe0"
    and nh: "nh \<in> set (fe_nextHops (lookupFib env pe fw))"
  shows "nh_face nh \<in> fw_faceIds fw"
proof (cases "int_forwardingHint (pe_interest pe) = []")
  case True
  have "fib_findLongestPrefixMatch_pit (fwe_hash env) pe (fw_tables fw) =
      fib_findLongestPrefixMatch_pit (fwe_hash env) pe0 (fw_tables fw)"
    unfolding fib_findLongestPrefixMatch_pit_def nt_findLongestPrefixMatch_pit_def pe(2,3) ..
  also have "\<dots> = fib_findLongestPrefixMatch (fwe_hash env) (pe_name pe0) (fw_tables fw)"
    using fib_lpm_pit[OF fwd_okD(1)[OF ok]] pit_deref_key[OF pe(1)] by blast
  finally show ?thesis using nh True lpm_faces[OF ok, of nh "pe_name pe0"] by (simp add: lookupFib_def)
next
  case False
  then have "nh \<in> set (fe_nextHops (lookupFib_loop (fwe_hash env) (fw_tables fw) (int_forwardingHint (pe_interest pe)) s_emptyEntry))"
    using nh by (simp add: lookupFib_def)
  then show ?thesis by (rule lookupFib_loop_faces[OF ok]) (simp add: s_emptyEntry_def mk_fib_entry_def)
qed

lemma earliest_loop_eligible:
  assumes "earliest_loop ft inFace i pe nhs found t = Some (Some nh)" and "found \<noteq> Some nh"
  shows "nh \<in> set nhs \<and> isNextHopEligible ft inFace i nh pe False time_point_min"
  using assms
proof (induction nhs arbitrary: found t)
  case (Cons x nhs)
  then show ?case by (cases "found = Some nh"; cases "x = nh") (auto split: if_splits option.splits)
qed simp

lemma map_update_first_id: "(\<And>x. h (g x) = h x) \<Longrightarrow> map h (update_first P g xs) = map h xs"
  by (induction xs) auto

lemma decide_info:
  "clear_pit_info (snd (exp_decidePerPitEntry rx now pe)) = clear_pit_info pe"
  "clear_pit_info (snd (exp_decidePerUpstream rx now f pe)) = clear_pit_info pe"
  "clear_pit_info (pe_modifyOutRecord f (incrementIntervalForOutRecord rx) pe) = clear_pit_info pe"
  by (simp_all add: exp_decidePerPitEntry_def exp_decidePerUpstream_def pe_modifyOutRecord_def clear_pit_info_def
      incrementIntervalForOutRecord_def Let_def split_beta map_update_first_id clearStrategyInfoHost_def split: option.split)

lemma decide_fields:
  "pe_interest (snd (exp_decidePerPitEntry rx now pe)) = pe_interest pe"
  "pe_nameTreeEntry (snd (exp_decidePerPitEntry rx now pe)) = pe_nameTreeEntry pe"
  "pe_inRecords (snd (exp_decidePerPitEntry rx now pe)) = pe_inRecords pe"
  "pe_outRecords (snd (exp_decidePerPitEntry rx now pe)) = pe_outRecords pe"
  by (simp_all add: exp_decidePerPitEntry_def Let_def split_beta split: option.split)

lemma decide_keeps [simp]:
  "pit_keeps (\<lambda>pe. snd (exp_decidePerPitEntry rx now pe))"
  "pit_keeps (\<lambda>pe. snd (exp_decidePerUpstream rx now f pe))"
  "pit_keeps (pe_modifyOutRecord f (incrementIntervalForOutRecord rx))"
proof -
  show "pit_keeps (\<lambda>pe. snd (exp_decidePerPitEntry rx now pe))"
    by (simp add: pit_keeps_def decide_fields pit_entry_ok_def)
  show "pit_keeps (\<lambda>pe. snd (exp_decidePerUpstream rx now f pe))"
    by (simp add: pit_keeps_def exp_decidePerUpstream_def pe_modifyOutRecord_def pit_entry_ok_def Let_def split_beta
        map_update_first_id split: option.split)
  show "pit_keeps (pe_modifyOutRecord f (incrementIntervalForOutRecord rx))"
    by (rule pit_keeps_modifyOut) (simp add: incrementIntervalForOutRecord_def Let_def split_beta)
qed

lemma acts_eligible:
  assumes "nh_face nh \<in> fw_faceIds fw" and "isNextHopEligible (fw_faceTable fw) ingress i nh pe u t"
  shows "strategy_acts now k fw (sendInterest now k (nh_face nh) i fw)"
  using acts_one_interest[OF assms(1)] eligible_scope[OF assms(2)] by blast

lemma acts_no_route: "strategy_acts now k fw (rejectPendingInterest now k (sendNack k ingress reason fw))"
  by (rule acts_trans[OF acts_one(2) acts_one_reject])

lemma best_route_acts:
  assumes "fwd_ok env now {} fw"
  shows "strategy_acts now k fw (best_route_afterReceiveInterest env now ingress i k fw)"
proof (cases "fw_entry fw k")
  case (Some pe)
  have "strategy_acts now k fw (sendInterest now k (nh_face nh) i fw)"
    if "nh \<in> set (fe_nextHops (lookupFib env pe fw))" "\<not> wouldViolateScope (fw_faceTable fw) ingress i (nh_face nh)" for nh
    using lookupFib_faces[OF assms Some refl refl that(1)] that(2)
    by (intro acts_one_interest) (auto simp: wouldViolateScope_def split: if_splits)
  then show ?thesis
    using Some by (auto simp: best_route_afterReceiveInterest_def Let_def acts_done acts_one_reject
        dest!: find_Some_in split: option.split)
qed (simp add: best_route_afterReceiveInterest_def acts_done)

lemma best_route2_acts:
  assumes "fwd_ok env now {} fw"
  shows "strategy_acts now k fw (best_route2_afterReceiveInterest env now ingress i k fw)"
proof (cases "fw_entry fw k")
  case (Some pe)
  define g where "g = (\<lambda>pe. snd (exp_decidePerPitEntry RETX_SUPPRESSION now pe))"
  have gp: "snd (exp_decidePerPitEntry RETX_SUPPRESSION now pe) = g pe" for pe by (simp add: g_def)
  define fw1 where "fw1 = fw_pit k g fw"
  define nhs where "nhs = fe_nextHops (lookupFib env (g pe) fw1)"
  have g: "pit_keeps g" "\<And>pe. clear_pit_info (g pe) = clear_pit_info pe" by (simp_all add: g_def decide_info)
  have a1: "strategy_acts now k fw fw1" unfolding fw1_def by (rule acts_one_info[OF g])
  have ok1: "fwd_ok env now {} fw1" by (rule acts_ok[OF a1 assms])
  have e1: "fw_entry fw1 k = Some (g pe)" by (simp add: fw1_def Some pit_modify_view[OF g(1)])
  have F: "nh_face nh \<in> fw_faceIds fw1" if "nh \<in> set nhs" for nh
    using lookupFib_faces[OF ok1 e1 refl refl] that by (simp add: nhs_def)
  have new: "strategy_acts now k fw1 (best_route2_new env now ingress i k (g pe) nhs fw1)"
    by (auto simp: best_route2_new_def acts_no_route intro: acts_eligible[OF F] dest!: find_Some_in split: option.split)
  have retx: "strategy_acts now k fw1 (best_route2_retransmit env now ingress i k (g pe) nhs fw1)"
    using earliest_loop_eligible[of "fw_faceTable fw1" ingress i "g pe" nhs None]
    by (auto simp: best_route2_retransmit_def findEligibleNextHopWithEarliestOutRecord_def acts_done
        intro: acts_eligible[OF F] dest!: find_Some_in split: option.split)
  show ?thesis
    using acts_trans[OF a1 new] acts_trans[OF a1 retx] a1 Some
    by (simp add: best_route2_afterReceiveInterest_def g_def[symmetric] gp fw1_def[symmetric] nhs_def Let_def split_beta)
qed (simp add: best_route2_afterReceiveInterest_def acts_done)

lemma multicast_step_acts:
  assumes "nh_face nh \<in> fw_faceIds fw"
  shows "strategy_acts now k fw (multicast_step now ingress i k nh fw)"
proof (cases "fw_entry fw k")
  case (Some pe)
  define g where "g = (\<lambda>pe. snd (exp_decidePerUpstream RETX_SUPPRESSION now (nh_face nh) pe))"
  have gp: "snd (exp_decidePerUpstream RETX_SUPPRESSION now (nh_face nh) pe) = g pe" for pe by (simp add: g_def)
  define fw1 where "fw1 = fw_pit k g fw"
  define fw2 where "fw2 = sendInterest now k (nh_face nh) i fw1"
  have a1: "strategy_acts now k fw fw1"
    unfolding fw1_def by (rule acts_one_info) (simp_all add: g_def decide_info)
  have a2: "strategy_acts now k fw fw2" if "isNextHopEligible (fw_faceTable fw1) ingress i nh (g pe) False time_point_min"
    unfolding fw2_def by (rule acts_trans[OF a1 acts_eligible[OF _ that]]) (use assms in \<open>simp add: fw1_def\<close>)
  have "strategy_acts now k fw2 (fw_pit k (pe_modifyOutRecord (nh_face nh) (incrementIntervalForOutRecord RETX_SUPPRESSION)) fw2)"
    by (rule acts_one_info) (simp_all add: decide_info)
  then show ?thesis
    using Some a1 a2 acts_trans[OF a2]
    by (simp add: multicast_step_def g_def[symmetric] gp fw1_def[symmetric] fw2_def[symmetric] Let_def split_beta)
qed (simp add: multicast_step_def acts_done)

lemma multicast_loop_acts:
  "nh_face ` set nhs \<subseteq> fw_faceIds fw \<Longrightarrow> strategy_acts now k fw (fold (multicast_step now ingress i k) nhs fw)"
proof (induction nhs arbitrary: fw)
  case (Cons nh nhs)
  have a: "strategy_acts now k fw (multicast_step now ingress i k nh fw)"
    by (rule multicast_step_acts) (use Cons.prems in auto)
  have "fw_faceIds (multicast_step now ingress i k nh fw) = fw_faceIds fw"
    using acts_emits[OF a] same_facesD(1) by (auto simp: emits_def)
  then show ?case using Cons.IH[of "multicast_step now ingress i k nh fw"] Cons.prems acts_trans[OF a] by simp
qed (simp add: acts_done)

lemma multicast_acts:
  assumes "fwd_ok env now {} fw"
  shows "strategy_acts now k fw (multicast_afterReceiveInterest env now ingress i k fw)"
proof (cases "fw_entry fw k")
  case (Some pe)
  let ?fw = "fold (multicast_step now ingress i k) (fe_nextHops (lookupFib env pe fw)) fw"
  have a: "strategy_acts now k fw ?fw"
    by (rule multicast_loop_acts) (use lookupFib_faces[OF assms Some refl refl] in auto)
  then show ?thesis
    using Some acts_trans[OF a acts_no_route] by (auto simp: multicast_afterReceiveInterest_def Let_def split: option.split)
qed (simp add: multicast_afterReceiveInterest_def acts_done)

lemma random_acts:
  assumes "fwd_ok env now {} fw" and "\<And>nhs. set (shuffle nhs) = set nhs"
  shows "strategy_acts now k fw (random_afterReceiveInterest shuffle env now ingress i k fw)"
proof (cases "fw_entry fw k")
  case (Some pe)
  let ?nhs = "filter (\<lambda>nh. isNextHopEligible (fw_faceTable fw) ingress i nh pe False time_point_min) (fe_nextHops (lookupFib env pe fw))"
  have "strategy_acts now k fw (sendInterest now k (nh_face nh) i fw)" if "shuffle ?nhs = nh # nhs" for nh nhs
  proof -
    have "nh \<in> set ?nhs" using assms(2)[of ?nhs] that by auto
    then show ?thesis using lookupFib_faces[OF assms(1) Some refl refl] by (auto intro!: acts_eligible simp del: domIff)
  qed
  then show ?thesis
    using Some by (simp add: random_afterReceiveInterest_def Let_def acts_no_route split: list.split)
qed (simp add: random_afterReceiveInterest_def acts_done)

interpretation best_route: strategy_contract env "best_route_ops env" for env
  unfolding best_route_ops_def by (rule base_ops_contract) (simp_all add: best_route_acts base_acts)

interpretation best_route2: strategy_contract env "best_route2_ops env" for env
  unfolding best_route2_ops_def by (rule base_ops_contract) (simp_all add: best_route2_acts processNack_acts)

interpretation multicast: strategy_contract env "multicast_ops env" for env
  unfolding multicast_ops_def by (rule base_ops_contract) (simp_all add: multicast_acts processNack_acts)

lemma random_contract: "(\<And>nhs. set (shuffle nhs) = set nhs) \<Longrightarrow> strategy_contract env (random_ops shuffle env)"
  unfolding random_ops_def by (rule base_ops_contract) (simp_all add: random_acts processNack_acts)

end
