(* ===== verification/Forwarder_Safety.thy ===== *)
theory Forwarder_Safety
  imports Forwarder_Invariant
begin

text \<open>
  Every handler of the forwarder keeps its invariant and sends only packets that obey the scope
  rules, for strategies that meet the contract. From this follows what holds after any sequence of
  events: packets received from faces, timers, faces that come and go, and changes of the FIB and of
  the Strategy Choice table.
\<close>

section \<open>Steps\<close>

definition step_ok :: "fwd_env \<Rightarrow> time_point \<Rightarrow> 'i forwarder \<Rightarrow> 'i forwarder \<Rightarrow> bool" where
  "step_ok env now fw fw' \<longleftrightarrow> fwd_ok env now {} fw' \<and> emits fw fw'"

lemma step_okD: "step_ok env now fw fw' \<Longrightarrow> fwd_ok env now {} fw'" "step_ok env now fw fw' \<Longrightarrow> emits fw fw'"
  by (simp_all add: step_ok_def)

lemma step_ok_trans [trans]: "emits a b \<Longrightarrow> step_ok env now b c \<Longrightarrow> step_ok env now a c"
  using emits_trans by (auto simp: step_ok_def)

lemma emits_ids: "emits fw fw' \<Longrightarrow> fw_faceIds fw' = fw_faceIds fw"
  by (auto simp: emits_def same_facesD)

lemma emits_fields [simp]:
  "emits fw (fw\<lparr>fw_tables := tb\<rparr>)" "emits fw (fw\<lparr>fw_cs := c\<rparr>)" "emits fw (fw\<lparr>fw_deadNonceList := d\<rparr>)"
  by (simp_all add: emits_frame)

definition all_contracts :: "fwd_env \<Rightarrow> (strategy \<Rightarrow> 'i strategy_ops) \<Rightarrow> bool" where
  "all_contracts env S \<longleftrightarrow> (\<forall>s. strategy_contract env (S s))"

lemma dispatch_step:
  assumes "fwd_ok env now {} fw" and "all_contracts env S"
    and "\<And>ops. strategy_contract env ops \<Longrightarrow> fwd_ok env now {} (trigger ops fw) \<and> emits fw (trigger ops fw)"
  shows "step_ok env now fw (dispatchToStrategy env S k trigger fw)"
  using assms by (auto simp: dispatchToStrategy_def step_ok_def all_contracts_def split: option.split)

lemmas contract_steps =
  strategy_contract.triggers_ok strategy_contract.triggers_emit

lemma dispatch_steps:
  assumes "fwd_ok env now {} fw" and "all_contracts env S"
  shows "step_ok env now fw (dispatchToStrategy env S k (\<lambda>s. so_afterReceiveInterest s now ingress i k) fw)"
    and "step_ok env now fw (dispatchToStrategy env S k (\<lambda>s. so_beforeSatisfyInterest s now k ingress d) fw)"
    and "step_ok env now fw (dispatchToStrategy env S k (\<lambda>s. so_afterContentStoreHit s now k ingress d) fw)"
    and "step_ok env now fw (dispatchToStrategy env S k (\<lambda>s. so_afterReceiveData s now k ingress d) fw)"
    and "step_ok env now fw (dispatchToStrategy env S k (\<lambda>s. so_afterReceiveNack s now ingress n k) fw)"
    and "step_ok env now fw (dispatchToStrategy env S k (\<lambda>s. so_afterNewNextHop s now nh k) fw)"
  by (rule dispatch_step[OF assms], blast intro: contract_steps assms(1))+

section \<open>Interests\<close>

lemma emits_interestLoop: "ingress \<in> fw_faceIds fw \<Longrightarrow> emits fw (onInterestLoop ingress i fw)"
  by (simp add: onInterestLoop_def packet_ok_def)

lemma interestLoop_ok: "fwd_ok env now X (onInterestLoop ingress i fw) = fwd_ok env now X fw"
  by (simp add: onInterestLoop_def)

lemma lastExpiring_bound:
  assumes "pe_inRecords pe \<noteq> []" and "\<forall>r\<in>set (pe_inRecords pe). fr_expiry r \<le> b"
  shows "lastExpiring pe \<le> b"
proof -
  have f: "fold (\<lambda>r t. max t (fr_expiry r)) rs t \<le> b" if "t \<le> b" "\<forall>r\<in>set rs. fr_expiry r \<le> b"
    for rs :: "'a in_record list" and t
    using that by (induction rs arbitrary: t) auto
  show ?thesis using assms f by (cases "pe_inRecords pe") (auto simp: lastExpiring_def)
qed

lemma insertIn_nonempty [simp]: "pe_inRecords (insertOrUpdateInRecord now f i pe) \<noteq> []"
  by (cases "pe_inRecords pe") (auto simp: insertOrUpdateInRecord_def getInRecord_def Let_def)

lemma contentStoreMiss_step:
  assumes ok: "fwd_ok env now X fw" and X: "X \<subseteq> {k}" and f: "ingress \<in> fw_faceIds fw" and C: "all_contracts env S"
  shows "step_ok env now fw (onContentStoreMiss env S now ingress k i fw)"
proof -
  define fw1 where "fw1 = fw_pit k (insertOrUpdateInRecord now ingress i) (fw_count (nCsMisses_update (\<lambda>c. c + 1)) fw)"
  define d where "d = (case fw_entry fw1 k of None \<Rightarrow> 0 | Some pe \<Rightarrow> lastExpiring pe - now)"
  define fw2 where "fw2 = setExpiryTimer now k (d div 1000000) fw1"
  have ok1: "fwd_ok env now X fw1"
    unfolding fw1_def by (rule fwd_ok_records) (use ok f in \<open>simp_all add: records_ok_insertIn\<close>)
  have "d \<le> ms MAX_LIFETIME"
  proof (cases "fw_entry fw1 k")
    case (Some pe)
    then have "pe_inRecords pe \<noteq> []" by (auto simp: fw1_def pit_modify_view)
    then have "lastExpiring pe \<le> now + ms MAX_LIFETIME"
      using fwd_okD(7)[OF ok1 Some] lastExpiring_bound by (fastforce simp: records_ok_def)
    then show ?thesis by (simp add: d_def Some)
  qed (simp add: d_def ms_def)
  then have "d div 1000000 \<le> int MAX_LIFETIME" by (simp add: ms_def)
  then have "fwd_ok env now (X - {k}) fw2" unfolding fw2_def by (rule setExpiryTimer_ok[OF ok1])
  then have ok2: "fwd_ok env now {} fw2" using X by (metis Diff_eq_empty_iff)
  have "emits fw fw1" unfolding fw1_def by (rule emits_trans[OF emits_steps(1) emits_steps(2)])
  then have e2: "emits fw fw2" unfolding fw2_def by (rule emits_trans) simp
  have "step_ok env now fw2 (case int_nextHopFaceId i of
      Some nextHopFaceId \<Rightarrow> (case ft_get (fw_faceTable fw2) nextHopFaceId of
          None \<Rightarrow> fw2 | Some nextHopFace \<Rightarrow> onOutgoingInterest now k nextHopFaceId i fw2)
    | None \<Rightarrow> dispatchToStrategy env S k (\<lambda>s. so_afterReceiveInterest s now ingress i k) fw2)"
  proof (cases "int_nextHopFaceId i")
    case None
    then show ?thesis using dispatch_steps(1)[OF ok2 C] by simp
  next
    case (Some h)
    then show ?thesis
      using ok2 onOutgoingInterest_ok[OF ok2, of h k i] emits_outgoingInterest[of h fw2 i now k]
      by (auto simp: step_ok_def ft_get_def split: option.split)
  qed
  then show ?thesis
    unfolding onContentStoreMiss_def Let_def fw1_def[symmetric] d_def[symmetric] fw2_def[symmetric]
    by (rule step_ok_trans[OF e2])
qed

lemma contentStoreHit_step:
  assumes ok: "fwd_ok env now X fw" and X: "X \<subseteq> {k}" and C: "all_contracts env S"
  shows "step_ok env now fw (onContentStoreHit env S now ingress k i d fw)"
proof -
  define d' where "d' = d\<lparr>data_incomingFaceId := Some FACEID_CONTENT_STORE, data_pitToken := int_pitToken i\<rparr>"
  define fw1 where "fw1 = fw_pit k (mark_satisfied d') (fw_count (nCsHits_update (\<lambda>c. c + 1)) fw)"
  define fw2 where "fw2 = setExpiryTimer now k 0 fw1"
  have ok1: "fwd_ok env now X fw1"
    unfolding fw1_def by (rule fwd_ok_records) (use ok in \<open>simp_all add: mark_satisfied_def\<close>)
  have "fwd_ok env now (X - {k}) fw2" unfolding fw2_def by (rule setExpiryTimer_ok[OF ok1]) simp
  then have ok2: "fwd_ok env now {} fw2" using X by (metis Diff_eq_empty_iff)
  have "emits fw fw1" unfolding fw1_def by (rule emits_trans[OF emits_steps(1) emits_steps(2)])
  then have e2: "emits fw fw2" unfolding fw2_def by (rule emits_trans) simp
  have "step_ok env now fw2 (dispatchToStrategy env S k (\<lambda>s. so_afterContentStoreHit s now k ingress d') fw2)"
    by (rule dispatch_steps(3)[OF ok2 C])
  then show ?thesis
    unfolding onContentStoreHit_def Let_def d'_def[symmetric] mark_satisfied_def[symmetric] fw1_def[symmetric] fw2_def[symmetric]
    by (rule step_ok_trans[OF e2])
qed

lemma pit_insert_fwd:
  fixes i :: interest
  assumes ok: "fwd_ok env now {} fw"
  defines "fw' \<equiv> fw\<lparr>fw_tables := snd (pit_insert (fwe_hash env) i (fw_tables fw))\<rparr>"
  shows "fwd_ok env now (if fw_entry fw (interest_key i) = None then {interest_key i} else {}) fw'"
    and "fw_entry fw' (interest_key i) = Some (case fw_entry fw (interest_key i) of None \<Rightarrow> new_pit_entry i | Some pe \<Rightarrow> pe)"
proof -
  let ?k = "interest_key i"
  note o = fwd_okD[OF ok]
  have v: "fw_entry fw' k = (if k = ?k then Some (case fw_entry fw k of None \<Rightarrow> new_pit_entry i | Some pe \<Rightarrow> pe) else fw_entry fw k)" for k
    by (simp add: fw'_def pit_insert_view[OF o(1)])
  show "fw_entry fw' ?k = Some (case fw_entry fw ?k of None \<Rightarrow> new_pit_entry i | Some pe \<Rightarrow> pe)" by (simp add: v)
  have fib: "fib_at (fw_tables fw') n = fib_at (fw_tables fw) n" and sc: "sc_at (fw_tables fw') n = sc_at (fw_tables fw) n" for n
    by (simp_all add: fw'_def pit_insert_props(2)[OF o(1)])
  have "records_ok now (fw_faceIds fw) pe \<and> (k \<notin> (if fw_entry fw ?k = None then {?k} else {}) \<longrightarrow> timer_ok now pe)"
    if "fw_entry fw' k = Some pe" for k pe
    using that o(7,8)[of k] by (auto simp: v records_ok_def split: if_splits option.splits)
  then show "fwd_ok env now (if fw_entry fw ?k = None then {?k} else {}) fw'"
    using o(2-6) pit_insert_props(3)[OF o(1), of i] fib sc unfolding fwd_ok_def sc_inv_def by (simp add: fw'_def)
qed

lemma cs_find_ok: "cs_ok c \<Longrightarrow> cs_ok (snd (cs_find md succ now i c))"
  by (simp add: cs_find_def cs_findImpl_ok)

lemma fwd_ok_cs: "fwd_ok env now X fw \<Longrightarrow> cs_ok c \<Longrightarrow> fwd_ok env now X (fw\<lparr>fw_cs := c\<rparr>)"
  by (simp add: fwd_ok_def)

lemma processInterest_step:
  assumes ok: "fwd_ok env now {} fw" and f: "ingress \<in> fw_faceIds fw" and C: "all_contracts env S"
  shows "step_ok env now fw (processInterest env S now ingress i fw)"
proof -
  let ?k = "interest_key i"
  define fw1 where "fw1 = fw\<lparr>fw_tables := snd (pit_insert (fwe_hash env) i (fw_tables fw))\<rparr>"
  define X where "X = (if fw_entry fw ?k = None then {?k} else {})"
  define pe where "pe = (case fw_entry fw ?k of None \<Rightarrow> new_pit_entry i | Some pe \<Rightarrow> pe)"
  note ins = pit_insert_fwd[OF ok, of i, folded fw1_def X_def pe_def]
  have e1: "emits fw fw1" by (simp add: fw1_def)
  have f1: "ingress \<in> fw_faceIds fw1" using f by (simp add: fw1_def)
  have X: "X \<subseteq> {?k}" by (simp add: X_def)
  define c where "c = cs_find (fwe_matchesData env) (fwe_getSuccessor env) now i (fw_cs fw1)"
  have ok2: "fwd_ok env now X (fw1\<lparr>fw_cs := snd c\<rparr>)"
    using fwd_ok_cs[OF ins(1)] cs_find_ok fwd_okD(3)[OF ins(1)] by (simp add: c_def)
  have loop: "step_ok env now fw1 (onInterestLoop ingress i fw1)"
    if "findDuplicateNonce pe (int_nonce i) ingress \<noteq> DUPLICATE_NONCE_NONE"
  proof -
    have "pe \<noteq> new_pit_entry i" using that by (auto simp: findDuplicateNonce_none)
    then have "X = {}" by (auto simp: pe_def X_def split: option.splits)
    then show ?thesis using ins(1) emits_interestLoop[OF f1] by (simp add: step_ok_def interestLoop_ok)
  qed
  have hit: "step_ok env now fw1 (onContentStoreHit env S now ingress ?k i d (fw1\<lparr>fw_cs := snd c\<rparr>))" for d
    by (rule step_ok_trans[OF _ contentStoreHit_step[OF ok2 X C]]) simp
  have miss: "step_ok env now fw1 (onContentStoreMiss env S now ingress ?k i (fw1\<lparr>fw_cs := snd c\<rparr>))"
    by (rule step_ok_trans[OF _ contentStoreMiss_step[OF ok2 X _ C]]) (use f1 in simp_all)
  have miss': "step_ok env now fw1 (onContentStoreMiss env S now ingress ?k i fw1)"
    by (rule contentStoreMiss_step[OF ins(1) X f1 C])
  have r: "fst (pit_insert (fwe_hash env) i (fw_tables fw)) = (Some ?k, fw_entry fw ?k = None)"
    by (rule pit_insert_props(1)[OF fwd_okD(1)[OF ok]])
  have "step_ok env now fw1 (processInterest env S now ingress i fw)"
    unfolding processInterest_def Let_def split_beta r fst_conv snd_conv fw1_def[symmetric] bind.bind_lunit ins(2) option.map option.case prod.case c_def[symmetric]
    using loop hit miss miss' by (auto split: option.split)
  then show ?thesis by (rule step_ok_trans[OF e1])
qed

lemma incomingInterest_step:
  assumes ok: "fwd_ok env now {} fw" and f: "ingress \<in> fw_faceIds fw" and C: "all_contracts env S"
  shows "step_ok env now fw (onIncomingInterest env S now ingress i fw)"
proof -
  define fw1 where "fw1 = fw_count (nInInterests_update (\<lambda>c. c + 1)) fw"
  have ok1: "fwd_ok env now {} fw1" and f1: "ingress \<in> fw_faceIds fw1" and e1: "emits fw fw1" using ok f by (simp_all add: fw1_def)
  have face: "step_ok env now fw1 (fw_modifyFace ingress (face_nInHopLimitZero_update (\<lambda>c. c + 1)) fw1)"
    using ok1 modifyFace_same[of "face_nInHopLimitZero_update (\<lambda>c. c + 1)" fw1 ingress]
    by (simp add: step_ok_def modifyFace_ok emits_def)
  have "step_ok env now fw1 (onIncomingInterest env S now ingress i fw)"
    unfolding onIncomingInterest_def Let_def fw1_def[symmetric]
    using face processInterest_step[OF ok1 f1 C] ok1 emits_interestLoop[OF f1]
    by (auto simp: step_ok_def interestLoop_ok)
  then show ?thesis by (rule step_ok_trans[OF e1])
qed

section \<open>The Dead Nonce List and the end of a PIT entry\<close>

lemma dnl_add_ok: "dnl_ok d \<Longrightarrow> dnl_ok (dnl_add w n nonce d)"
  using dnl_exec_ok[of d w "DnlAdd n nonce"] by simp

lemma dnl_fold_ok: "dnl_ok d \<Longrightarrow> dnl_ok (fold (\<lambda>r. dnl_add w n (g r)) rs d)"
  by (induction rs arbitrary: d) (simp_all add: dnl_add_ok)

lemma fwd_ok_dnl: "fwd_ok env now X fw \<Longrightarrow> dnl_ok d \<Longrightarrow> fwd_ok env now X (fw\<lparr>fw_deadNonceList := d\<rparr>)"
  by (simp add: fwd_ok_def)

lemma insertDeadNonceList_ok:
  assumes "fwd_ok env now X fw"
  shows "fwd_ok env now X (insertDeadNonceList env' k u fw)"
  using fwd_ok_dnl[OF assms] fwd_okD(4)[OF assms] assms
  by (auto simp: insertDeadNonceList_def Let_def dnl_add_ok dnl_fold_ok split: option.split)

lemma insertDeadNonceList_frame [simp]:
  "fw_tables (insertDeadNonceList env k u fw) = fw_tables fw" "fw_faceTable (insertDeadNonceList env k u fw) = fw_faceTable fw"
  "fw_sent (insertDeadNonceList env k u fw) = fw_sent fw" "fw_cs (insertDeadNonceList env k u fw) = fw_cs fw"
  by (auto simp: insertDeadNonceList_def Let_def split: option.split)

lemma emits_dnl [simp]: "emits fw (insertDeadNonceList env k u fw)"
  by (simp add: emits_frame)

lemma pit_erase_fwd:
  assumes ok: "fwd_ok env now X fw" and k: "fw_entry fw k \<noteq> None"
  shows "fwd_ok env now (X - {k}) (fw\<lparr>fw_tables := pit_erase k (fw_tables fw)\<rparr>)"
proof -
  note o = fwd_okD[OF ok]
  obtain pe where pe: "fw_entry fw k = Some pe" using k by blast
  note p = pit_erase_props[OF o(1) pe, of True, folded pit_erase_eq[OF pe]]
  have fib: "fib_at (pit_erase k (fw_tables fw)) n = fib_at (fw_tables fw) n"
    and sc: "sc_at (pit_erase k (fw_tables fw)) n = sc_at (fw_tables fw) n" for n
    by (simp_all add: p(1))
  show ?thesis
    using o p(2) fib sc unfolding fwd_ok_def sc_inv_def by (simp add: p(4))
qed

lemma finalize_step:
  assumes ok: "fwd_ok env now {} fw"
  shows "step_ok env now fw (onInterestFinalize env k fw)"
proof (cases "fw_entry fw k")
  case (Some pe)
  define fw1 where "fw1 = insertDeadNonceList env k None fw"
  define fw2 where "fw2 = (if pe_isSatisfied pe then fw_count (nSatisfiedInterests_update (\<lambda>c. c + 1)) fw1
    else fw_count (nUnsatisfiedInterests_update (\<lambda>c. c + 1)) fw1)"
  define fw3 where "fw3 = fw_pit k (pe_expiryTimer_update (\<lambda>_. None)) fw2"
  have ok2: "fwd_ok env now {} fw2" unfolding fw2_def fw1_def by (simp add: insertDeadNonceList_ok[OF ok])
  have ok3: "fwd_ok env now {k} fw3" unfolding fw3_def by (rule fwd_ok_pit[OF ok2]) simp_all
  have "fw_entry fw3 k \<noteq> None" by (simp add: fw3_def fw2_def fw1_def pit_modify_view Some)
  from pit_erase_fwd[OF ok3 this] have "fwd_ok env now {} (fw3\<lparr>fw_tables := pit_erase k (fw_tables fw3)\<rparr>)" by simp
  moreover have "emits fw (fw3\<lparr>fw_tables := pit_erase k (fw_tables fw3)\<rparr>)"
    by (rule emits_frame) (simp_all add: fw3_def fw2_def fw1_def)
  ultimately show ?thesis
    by (simp add: onInterestFinalize_def Some step_ok_def fw1_def[symmetric] fw2_def[symmetric] fw3_def[symmetric] Let_def
        del: fw_simps)
qed (simp add: onInterestFinalize_def step_ok_def ok)

section \<open>Data and Nacks\<close>

lemma fwd_ok_pit_ops [inv_intros]:
  assumes "fwd_ok env now X fw"
  shows "fwd_ok env now X (fw_pit k (mark_satisfied d) fw)" "fwd_ok env now X (fw_pit k clearInRecords fw)"
    "fwd_ok env now X (fw_pit k (deleteOutRecord f) fw)"
  using fwd_ok_records[OF assms, of "mark_satisfied d" k] fwd_ok_records[OF assms, of clearInRecords k]
    fwd_ok_records[OF assms, of "deleteOutRecord f" k]
  by (simp_all add: records_ok_delete) (simp add: mark_satisfied_def)

lemma setExpiryTimer_step: "fwd_ok env now {} fw \<Longrightarrow> step_ok env now fw (setExpiryTimer now k 0 fw)"
  using setExpiryTimer_ok[of env now "{}" fw 0 k] by (simp add: step_ok_def)

lemma step_ok_step: "step_ok env now a b \<Longrightarrow> step_ok env now b c \<Longrightarrow> step_ok env now a c"
  using step_ok_trans step_okD(2) by blast

lemma satisfy_one_step:
  assumes ok: "fwd_ok env now {} fw" and C: "all_contracts env S"
  shows "step_ok env now fw (satisfy_one env S now ingress d k fw)"
proof -
  define fw1 where "fw1 = setExpiryTimer now k 0 fw"
  define fw2 where "fw2 = dispatchToStrategy env S k (\<lambda>s. so_afterReceiveData s now k ingress d) fw1"
  have 1: "step_ok env now fw fw1" unfolding fw1_def by (rule setExpiryTimer_step[OF ok])
  have 2: "step_ok env now fw1 fw2" unfolding fw2_def by (rule dispatch_steps(4)[OF step_okD(1)[OF 1] C])
  have "step_ok env now fw2 (fw_pit k (deleteOutRecord ingress) (insertDeadNonceList env k (Some ingress) (fw_pit k (mark_satisfied d) fw2)))"
    unfolding step_ok_def
    by (intro conjI fwd_ok_pit_ops insertDeadNonceList_ok step_okD(1)[OF 2] emits_frame) simp_all
  then show ?thesis
    unfolding satisfy_one_def Let_def fw1_def[symmetric] fw2_def[symmetric]
    by (rule step_ok_step[OF step_ok_step[OF 1 2]])
qed

lemma satisfy_step_step:
  assumes ok: "fwd_ok env now {} fw" and C: "all_contracts env S"
  shows "step_ok env now fw (snd (satisfy_step env S now ingress d k (fs, fw)))"
proof -
  define fw1 where "fw1 = setExpiryTimer now k 0 fw"
  define fw2 where "fw2 = dispatchToStrategy env S k (\<lambda>s. so_beforeSatisfyInterest s now k ingress d) fw1"
  have 1: "step_ok env now fw fw1" unfolding fw1_def by (rule setExpiryTimer_step[OF ok])
  have 2: "step_ok env now fw1 fw2" unfolding fw2_def by (rule dispatch_steps(2)[OF step_okD(1)[OF 1] C])
  have "step_ok env now fw2 (fw_pit k (deleteOutRecord ingress) (fw_pit k clearInRecords
      (insertDeadNonceList env k (Some ingress) (fw_pit k (mark_satisfied d) fw2))))"
    unfolding step_ok_def
    by (intro conjI fwd_ok_pit_ops insertDeadNonceList_ok step_okD(1)[OF 2] emits_frame) simp_all
  then show ?thesis
    unfolding satisfy_step_def Let_def prod.case snd_conv fw1_def[symmetric] fw2_def[symmetric]
    by (rule step_ok_step[OF step_ok_step[OF 1 2]])
qed

lemma satisfy_fold_step:
  assumes "fwd_ok env now {} fw" and C: "all_contracts env S"
  shows "step_ok env now fw (snd (fold (satisfy_step env S now ingress d) ks (fs, fw)))"
  using assms(1)
proof (induction ks arbitrary: fs fw)
  case (Cons k ks)
  note s = satisfy_step_step[OF Cons.prems C, of ingress d k fs]
  obtain fs' fw' where e: "satisfy_step env S now ingress d k (fs, fw) = (fs', fw')" by fastforce
  then show ?case using s Cons.IH[of fw' fs'] step_okD(1)[OF s] step_ok_step by (auto simp: e)
qed (simp add: step_ok_def)

lemma fold_step:
  assumes "fwd_ok env now {} fw" and "\<And>x fw. fwd_ok env now {} fw \<Longrightarrow> step_ok env now fw (h x fw)"
  shows "step_ok env now fw (fold h xs fw)"
  using assms(1)
proof (induction xs arbitrary: fw)
  case (Cons x xs)
  note s = assms(2)[OF Cons.prems, of x]
  then show ?case using step_ok_step[OF s Cons.IH[OF step_okD(1)[OF s]]] by simp
qed (simp add: step_ok_def)

lemma satisfy_all_step:
  assumes ok: "fwd_ok env now {} fw" and C: "all_contracts env S"
  shows "step_ok env now fw (satisfy_all env S now ingress d ks fw)"
proof -
  obtain fs fw1 where e: "fold (satisfy_step env S now ingress d) ks ([], fw) = (fs, fw1)" by fastforce
  have 1: "step_ok env now fw fw1" using satisfy_fold_step[OF ok C, of ingress d ks "[]"] by (simp add: e)
  show ?thesis
    unfolding satisfy_all_def e Let_def prod.case
    by (rule step_ok_step[OF 1 fold_step[OF step_okD(1)[OF 1]]]) (simp add: step_ok_def emits_outgoingData)
qed

lemma incomingData_step:
  assumes ok: "fwd_ok env now {} fw" and C: "all_contracts env S"
  shows "step_ok env now fw (onIncomingData env S now ingress d fw)"
proof -
  define fw1 where "fw1 = fw_count (nInData_update (\<lambda>c. c + 1)) fw"
  have ok1: "fwd_ok env now {} fw1" and e1: "emits fw fw1" using ok by (simp_all add: fw1_def)
  have cs: "fwd_ok env now {} (fw1\<lparr>fw_cs := cs_insert now d' u (fw_cs fw1)\<rparr>)" for d' u
    by (rule fwd_ok_cs[OF ok1 cs_insert_ok[OF fwd_okD(3)[OF ok1]]])
  have u: "step_ok env now fw1 (onDataUnsolicited now ingress d' fw1)" for d'
    using ok1 cs by (simp add: onDataUnsolicited_def step_ok_def Let_def emits_frame)
  have one: "step_ok env now fw1 (satisfy_one env S now ingress d' k (fw1\<lparr>fw_cs := cs_insert now d' False (fw_cs fw1)\<rparr>))" for d' k
    by (rule step_ok_trans[OF emits_fields(2) satisfy_one_step[OF cs C]])
  have all: "step_ok env now fw1 (satisfy_all env S now ingress d' ks (fw1\<lparr>fw_cs := cs_insert now d' False (fw_cs fw1)\<rparr>))" for d' ks
    by (rule step_ok_trans[OF emits_fields(2) satisfy_all_step[OF cs C]])
  have r: "step_ok env now fw1 fw1" using ok1 by (simp add: step_ok_def)
  have "step_ok env now fw1 (onIncomingData env S now ingress d fw)"
    unfolding onIncomingData_def Let_def fw1_def[symmetric] using u one all r by (auto split: list.split)
  then show ?thesis by (rule step_ok_trans[OF e1])
qed

lemma incomingNack_step:
  assumes ok: "fwd_ok env now {} fw" and C: "all_contracts env S"
  shows "step_ok env now fw (onIncomingNack env S now ingress n fw)"
proof -
  define fw1 where "fw1 = fw_count (nInNacks_update (\<lambda>c. c + 1)) fw"
  have ok1: "fwd_ok env now {} fw1" and e1: "emits fw fw1" using ok by (simp_all add: fw1_def)
  have r: "step_ok env now fw1 fw1" using ok1 by (simp add: step_ok_def)
  let ?g = "pe_modifyOutRecord ingress (\<lambda>r. snd (setIncomingNack n r))"
  have face: "fr_face (snd (setIncomingNack n r)) = fr_face r" for r :: "'a out_record" by (simp add: setIncomingNack_def)
  have 2: "step_ok env now fw1 (fw_pit k ?g fw1)" for k
    unfolding step_ok_def by (intro conjI fwd_ok_records[OF ok1]) (simp_all add: face records_ok_modifyOut)
  have 3: "step_ok env now fw1 (if b then setExpiryTimer now k 0 (fw_pit k ?g fw1) else fw_pit k ?g fw1)" for b k
    using step_ok_step[OF 2 setExpiryTimer_step[OF step_okD(1)[OF 2]]] 2 by simp
  have 4: "step_ok env now fw1 (dispatchToStrategy env S k (\<lambda>s. so_afterReceiveNack s now ingress n k)
      (if b then setExpiryTimer now k 0 (fw_pit k ?g fw1) else fw_pit k ?g fw1))" for b k
    by (rule step_ok_step[OF 3 dispatch_steps(5)[OF step_okD(1)[OF 3] C]])
  have "step_ok env now fw1 (onIncomingNack env S now ingress n fw)"
    unfolding onIncomingNack_def Let_def fw1_def[symmetric] using r 4[of _ True] 4[of _ False] by (auto split: option.split)
  then show ?thesis by (rule step_ok_trans[OF e1])
qed

section \<open>Changes of the tables\<close>

lemma costs_dom: "dom (fe_costs e) = nh_face ` set (fe_nextHops e)"
  unfolding fe_costs_def dom_map_of_conv_image_fst by (auto simp: image_image)

lemma fwd_ok_tables:
  assumes ok: "fwd_ok env now X fw" and tb: "tables_ok (fwe_hash env) tb'" "sc_inv tb'"
    and fib: "\<And>n m. fib_view tb' n = Some m \<Longrightarrow> dom m \<subseteq> fw_faceIds fw"
    and pit: "\<And>n. pit_at tb' n = pit_at (fw_tables fw) n"
  shows "fwd_ok env now X (fw\<lparr>fw_tables := tb'\<rparr>)"
proof -
  note o = fwd_okD[OF ok]
  have "nh_face ` set (fe_nextHops e) \<subseteq> fw_faceIds fw" if "fib_at tb' n = Some e" for n e
    using fib[of n "fe_costs e"] that by (simp add: fib_view_def costs_dom)
  moreover have "pit_deref tb' k = fw_entry fw k" for k by (simp add: pit_deref_def pit)
  ultimately show ?thesis using o tb unfolding fwd_ok_def by simp
qed

lemma fib_view_faces:
  assumes "fwd_ok env now X fw" and "fib_view (fw_tables fw) n = Some m"
  shows "dom m \<subseteq> fw_faceIds fw"
proof -
  obtain e where "fib_at (fw_tables fw) n = Some e" "m = fe_costs e" using assms(2) by (auto simp: fib_view_def)
  then show ?thesis using fwd_okD(6)[OF assms(1), of n e] by (simp add: costs_dom)
qed

lemma fib_exec_frame:
  assumes tb: "tables_ok H tb" and al: "fib_allowed op (fib_view tb)"
  shows "pit_at (fib_exec H op tb) n = pit_at tb n" and "sc_at (fib_exec H op tb) n = sc_at tb n"
proof -
  have "pit_at (fib_exec H op tb) n = pit_at tb n \<and> sc_at (fib_exec H op tb) n = sc_at tb n"
  proof (cases op)
    case (FibInsert p)
    then show ?thesis using al fib_insert_props(2)[OF tb, of p] by simp
  next
    case (FibAddOrUpdate p f c)
    then obtain e where "fib_at tb p = Some e" using al by (auto simp: fib_view_def)
    then show ?thesis using FibAddOrUpdate fib_add_props(1)[OF tb, of p e f c] by simp
  next
    case (FibRemove p f)
    then obtain e where "fib_at tb p = Some e" using al by (auto simp: fib_view_def)
    then show ?thesis using FibRemove fib_remove_props(1)[OF tb, of p e f] by simp
  next
    case (FibErase p)
    then obtain e where "fib_at tb p = Some e" using al by (auto simp: fib_view_def)
    then show ?thesis using FibErase fib_erase_nte_props(1)[OF tb, of p e True] by (simp add: fib_erase_present[OF tb])
  qed
  then show "pit_at (fib_exec H op tb) n = pit_at tb n" and "sc_at (fib_exec H op tb) n = sc_at tb n" by simp_all
qed

lemma fib_op_fwd:
  assumes ok: "fwd_ok env now X fw" and al: "fib_allowed op (fib_view (fw_tables fw))"
    and f: "\<And>n f c. op = FibAddOrUpdate n f c \<Longrightarrow> f \<in> fw_faceIds fw"
  shows "fwd_ok env now X (fw\<lparr>fw_tables := fib_exec (fwe_hash env) op (fw_tables fw)\<rparr>)"
proof (rule fwd_ok_tables[OF ok])
  note o = fwd_okD[OF ok] and r = fib_exec_refines[OF fwd_okD(1)[OF ok] al]
  show "tables_ok (fwe_hash env) (fib_exec (fwe_hash env) op (fw_tables fw))" using r by simp
  show "sc_inv (fib_exec (fwe_hash env) op (fw_tables fw))"
    "pit_at (fib_exec (fwe_hash env) op (fw_tables fw)) n = pit_at (fw_tables fw) n" for n
    using o(2) fib_exec_frame[OF o(1) al] by (simp_all add: sc_inv_def)
  show "dom m \<subseteq> fw_faceIds fw" if m: "fib_view (fib_exec (fwe_hash env) op (fw_tables fw)) n = Some m" for n m
  proof (cases op)
    case (FibAddOrUpdate p f c)
    then obtain m0 where m0: "fib_view (fw_tables fw) p = Some m0" using al by auto
    have "dom (m0(f \<mapsto> c)) \<subseteq> fw_faceIds fw" using fib_view_faces[OF ok m0] f[OF FibAddOrUpdate] by simp
    then show ?thesis
      using m r m0 FibAddOrUpdate fib_view_faces[OF ok, of n] by (auto simp: spec_fib_add_def simp del: dom_fun_upd split: if_splits)
  next
    case (FibRemove p f)
    then obtain m0 where m0: "fib_view (fw_tables fw) p = Some m0" using al by auto
    have "dom (m0(f := None)) \<subseteq> fw_faceIds fw" using fib_view_faces[OF ok m0] by auto
    then show ?thesis
      using m r m0 FibRemove fib_view_faces[OF ok, of n]
      by (auto simp: spec_fib_remove_def simp del: dom_fun_upd split: if_splits)
  qed (use m r fib_view_faces[OF ok, of n] in \<open>auto simp: spec_fib_insert_def split: option.splits if_splits\<close>)
qed

lemma removal_records:
  assumes "records_ok now F pe" and "pit_entry_ok pe"
  shows "records_ok now (F - {f}) (deleteOutRecord f (deleteInRecord f pe))"
  using assms
  by (auto simp: records_ok_def pit_entry_ok_def deleteOutRecord_def deleteInRecord_def erase_first_key_set)

lemma removeFace_ok:
  assumes ok: "fwd_ok env now {} fw"
  shows "fwd_ok env now {} (fw_removeFace f fw)"
proof -
  note o = fwd_okD[OF ok]
  let ?tb = "cleanupOnFaceRemoval f (fw_tables fw)"
  note c = cleanup_effect[OF o(1), of f] cleanup_pit[OF o(1), of f]
  have sc: "sc_at ?tb n = sc_at (fw_tables fw) n" for n by (simp add: c(2) cleanup_slots_def)
  have "nh_face ` set (fe_nextHops e) \<subseteq> fw_faceIds fw - {f}" if e: "fib_at ?tb n = Some e" for n e
  proof -
    obtain e0 where e0: "fib_at (fw_tables fw) n = Some e0" "remove_face_fib f e0 = Some e"
      using e by (auto simp: c(2) cleanup_slots_def bind_eq_Some_conv)
    have "fe_costs e = (fe_costs e0)(f := None)"
      using arg_cong[OF e0(2), of "map_option fe_costs"]
      by (simp add: remove_face_fib_view[OF fib_slot_okD(3)[OF o(1) e0(1)]] split: if_splits)
    then have "dom (fe_costs e) = dom (fe_costs e0) - {f}" by simp
    then show ?thesis using o(6)[OF e0(1)] by (auto simp: costs_dom)
  qed
  moreover have "records_ok now (fw_faceIds fw - {f}) pe \<and> timer_ok now pe" if d: "pit_deref ?tb k = Some pe" for k pe
  proof -
    obtain pe0 where pe0: "fw_entry fw k = Some pe0" "pe = deleteOutRecord f (deleteInRecord f pe0)"
      using d by (auto simp: c(4))
    have "pit_entry_ok pe0" using pit_slotD(3)[OF o(1)] pit_deref_key[OF pe0(1)] by blast
    then show ?thesis using removal_records[OF o(7)[OF pe0(1)]] o(8)[OF pe0(1)] pe0(2) by simp
  qed
  moreover have "dom (ft_faces (ft_remove f (fw_faceTable fw))) = fw_faceIds fw - {f}" by (auto simp: ft_remove_def)
  ultimately show ?thesis
    using o(2-5) sc c(1) ft_remove_ok[OF o(5)] unfolding fwd_ok_def sc_inv_def
    by (simp add: fw_removeFace_def)
qed

lemma clear_records [simp]: "records_ok now F (clear_pit_info pe) = records_ok now F pe"
  by (auto simp: records_ok_def clear_pit_info_def)

lemma clear_timer [simp]: "timer_ok now (clear_pit_info pe) = timer_ok now pe"
  by (simp add: timer_ok_def clear_pit_info_def)

lemma info_cleared_fwd:
  assumes ok: "fwd_ok env now X fw" and tb: "tables_ok (fwe_hash env) tb'" "sc_inv tb'"
    and c: "info_cleared R (fw_tables fw) tb'"
  shows "fwd_ok env now X (fw\<lparr>fw_tables := tb'\<rparr>)"
proof -
  note o = fwd_okD[OF ok]
  have key: "pe_key (clear_pit_info pe) = pe_key pe" for pe :: "'a pit_entry" by (simp add: clear_pit_info_def)
  have "pit_deref tb' k = (if R (pit_nte k) then map_option clear_pit_info (fw_entry fw k) else fw_entry fw k)" for k
    using c find_map_key[where k = "\<lambda>pe. pe_key pe" and f = clear_pit_info, OF key]
    by (simp add: pit_deref_def info_cleared_def)
  moreover have "fib_at tb' n = fib_at (fw_tables fw) n" for n using c by (simp add: info_cleared_def)
  ultimately show ?thesis
    using o tb unfolding fwd_ok_def by (auto split: if_splits)
qed

lemma setStrategy_fwd:
  assumes ok: "fwd_ok env now X fw"
  shows "fwd_ok env now X (fw\<lparr>fw_tables := snd (sc_insert (fwe_hash env) senv p sname (fw_tables fw))\<rparr>)"
proof (cases "length p \<le> getMaxDepth \<and> (\<exists>s. strategy_create senv sname = Some (Inr s))")
  case True
  then obtain s where s: "length p \<le> getMaxDepth" "strategy_create senv sname = Some (Inr s)" by blast
  note r = sc_insert_props[OF fwd_okD(1,2)[OF ok] s]
  show ?thesis by (rule info_cleared_fwd[OF ok r(2,3,5)])
next
  case False
  then have "snd (sc_insert (fwe_hash env) senv p sname (fw_tables fw)) = fw_tables fw"
    by (auto simp: sc_insert_def split: option.splits sum.splits)
  then show ?thesis using ok by simp
qed

lemma unsetStrategy_fwd:
  assumes ok: "fwd_ok env now X fw" and "p \<noteq> []" and "sc_at (fw_tables fw) p \<noteq> None"
  shows "fwd_ok env now X (fw\<lparr>fw_tables := sc_erase (fwe_hash env) senv p (fw_tables fw)\<rparr>)"
proof -
  obtain e where e: "sc_at (fw_tables fw) p = Some e" using assms(3) by blast
  note r = sc_erase_props[OF fwd_okD(1,2)[OF ok] assms(2) e, of senv]
  show ?thesis by (rule info_cleared_fwd[OF ok r(1,2,4)])
qed

lemma newNextHop_step:
  assumes "fwd_ok env now {} fw" and C: "all_contracts env S"
  shows "step_ok env now fw (onNewNextHop env S now p nh fw)"
  unfolding onNewNextHop_def Let_def
  by (rule fold_step[OF assms(1)], rule fold_step, assumption, rule dispatch_steps(6), assumption, rule C)

lemma addNextHop_step:
  assumes ok: "fwd_ok env now {} fw" and C: "all_contracts env S" and f: "f \<in> fw_faceIds fw"
    and n: "fib_at (fw_tables fw) n \<noteq> None"
  shows "step_ok env now fw (fw_addNextHop env S now n f c fw)"
proof -
  let ?tb = "snd (fib_addOrUpdateNextHop n f c (fw_tables fw))"
  have "fib_allowed (FibAddOrUpdate n f c) (fib_view (fw_tables fw))" using n by (simp add: fib_view_def)
  from fib_op_fwd[OF ok this] f have ok1: "fwd_ok env now {} (fw\<lparr>fw_tables := ?tb\<rparr>)" by simp
  have "step_ok env now (fw\<lparr>fw_tables := ?tb\<rparr>) (fw_addNextHop env S now n f c fw)"
    using newNextHop_step[OF ok1 C] ok1 by (auto simp: fw_addNextHop_def Let_def split_beta step_ok_def split: option.split)
  then show ?thesis by (rule step_ok_trans[OF emits_fields(1)])
qed

section \<open>Events\<close>

datatype fwd_event =
    EvInterest face_id interest
  | EvData face_id data
  | EvNack face_id nack
  | EvExpire pit_key
  | EvDroppedInterest face_id interest
  | EvAddFace face
  | EvRemoveFace face_id
  | EvAddNextHop name face_id u64
  | EvFib fib_op
  | EvSetStrategy name name
  | EvUnsetStrategy name
  | EvCs cs_op
  | EvDnl dnl_op

fun fwd_exec ::
  "fwd_env \<Rightarrow> strategy_env \<Rightarrow> (strategy \<Rightarrow> 'i strategy_ops) \<Rightarrow> time_point \<Rightarrow> fwd_event \<Rightarrow> 'i forwarder \<Rightarrow> 'i forwarder" where
  "fwd_exec env senv S now (EvInterest f i) fw = onIncomingInterest env S now f i fw"
| "fwd_exec env senv S now (EvData f d) fw = onIncomingData env S now f d fw"
| "fwd_exec env senv S now (EvNack f n) fw = onIncomingNack env S now f n fw"
| "fwd_exec env senv S now (EvExpire k) fw = onInterestFinalize env k fw"
| "fwd_exec env senv S now (EvDroppedInterest f i) fw = onDroppedInterest env S now f i fw"
| "fwd_exec env senv S now (EvAddFace x) fw = fw\<lparr>fw_faceTable := snd (ft_add INVALID_FACEID x (fw_faceTable fw))\<rparr>"
| "fwd_exec env senv S now (EvRemoveFace f) fw = fw_removeFace f fw"
| "fwd_exec env senv S now (EvAddNextHop n f c) fw = fw_addNextHop env S now n f c fw"
| "fwd_exec env senv S now (EvFib op) fw = fw\<lparr>fw_tables := fib_exec (fwe_hash env) op (fw_tables fw)\<rparr>"
| "fwd_exec env senv S now (EvSetStrategy p sname) fw =
     fw\<lparr>fw_tables := snd (sc_insert (fwe_hash env) senv p sname (fw_tables fw))\<rparr>"
| "fwd_exec env senv S now (EvUnsetStrategy p) fw = fw\<lparr>fw_tables := sc_erase (fwe_hash env) senv p (fw_tables fw)\<rparr>"
| "fwd_exec env senv S now (EvCs op) fw =
     fw\<lparr>fw_cs := cs_exec (fwe_matchesData env) (fwe_getSuccessor env) op (fw_cs fw)\<rparr>"
| "fwd_exec env senv S now (EvDnl op) fw = fw\<lparr>fw_deadNonceList := dnl_exec (fwe_wireEncode env) op (fw_deadNonceList fw)\<rparr>"

text \<open>
  When an event can occur: packets come from faces of the table, a PIT timer fires when it is due, a
  next hop is a face of the table, and FIB and Strategy Choice entries are removed only if present.
  Adding next hops goes through \<open>EvAddNextHop\<close>, which emits the signal.
\<close>

fun fwd_enabled :: "time_point \<Rightarrow> fwd_event \<Rightarrow> 'i forwarder \<Rightarrow> bool" where
  "fwd_enabled now (EvInterest f i) fw \<longleftrightarrow> f \<in> fw_faceIds fw"
| "fwd_enabled now (EvData f d) fw \<longleftrightarrow> f \<in> fw_faceIds fw"
| "fwd_enabled now (EvNack f n) fw \<longleftrightarrow> f \<in> fw_faceIds fw"
| "fwd_enabled now (EvExpire k) fw \<longleftrightarrow>
     (case Option.bind (fw_entry fw k) pe_expiryTimer of None \<Rightarrow> False | Some t \<Rightarrow> t \<le> now)"
| "fwd_enabled now (EvDroppedInterest f i) fw \<longleftrightarrow> f \<in> fw_faceIds fw"
| "fwd_enabled now (EvAddFace x) fw \<longleftrightarrow> True"
| "fwd_enabled now (EvRemoveFace f) fw \<longleftrightarrow> f \<in> fw_faceIds fw"
| "fwd_enabled now (EvAddNextHop n f c) fw \<longleftrightarrow> f \<in> fw_faceIds fw \<and> fib_at (fw_tables fw) n \<noteq> None"
| "fwd_enabled now (EvFib op) fw \<longleftrightarrow>
     fib_allowed op (fib_view (fw_tables fw)) \<and> (case op of FibAddOrUpdate n f c \<Rightarrow> False | _ \<Rightarrow> True)"
| "fwd_enabled now (EvSetStrategy p sname) fw \<longleftrightarrow> True"
| "fwd_enabled now (EvUnsetStrategy p) fw \<longleftrightarrow> p \<noteq> [] \<and> sc_at (fw_tables fw) p \<noteq> None"
| "fwd_enabled now (EvCs op) fw \<longleftrightarrow> cs_allowed op (fw_cs fw)"
| "fwd_enabled now (EvDnl op) fw \<longleftrightarrow> True"

text \<open>\<open>None\<close> if the events are not in order of time or one of them cannot occur.\<close>

fun fwd_run ::
  "fwd_env \<Rightarrow> strategy_env \<Rightarrow> (strategy \<Rightarrow> 'i strategy_ops) \<Rightarrow> (time_point \<times> fwd_event) list \<Rightarrow> time_point \<Rightarrow>
   'i forwarder \<Rightarrow> (time_point \<times> 'i forwarder) option" where
  "fwd_run env senv S [] now fw = Some (now, fw)"
| "fwd_run env senv S ((t, ev) # evs) now fw =
     (if now \<le> t \<and> fwd_enabled t ev fw then fwd_run env senv S evs t (fwd_exec env senv S t ev fw) else None)"

lemma fwd_ok_moreFaces:
  assumes ok: "fwd_ok env now X fw" and F: "fw_faceIds fw \<subseteq> dom (ft_faces ft)" and ft: "ft_ok ft"
  shows "fwd_ok env now X (fw\<lparr>fw_faceTable := ft\<rparr>)"
proof -
  note o = fwd_okD[OF ok]
  have "nh_face ` set (fe_nextHops e) \<subseteq> dom (ft_faces ft)" if "fib_at (fw_tables fw) n = Some e" for n e
    by (rule order.trans[OF o(6)[OF that] F])
  moreover have "records_ok now (dom (ft_faces ft)) pe" if "fw_entry fw k = Some pe" for k pe
    using o(7)[OF that] F unfolding records_ok_def by blast
  ultimately show ?thesis using o(1-4,8) ft by (simp add: fwd_ok_def)
qed

lemma fwd_exec_ok:
  assumes ok: "fwd_ok env now {} fw" and C: "all_contracts env S" and en: "fwd_enabled now ev fw"
  shows "fwd_ok env now {} (fwd_exec env senv S now ev fw) \<and>
    (\<exists>new. fw_sent (fwd_exec env senv S now ev fw) = fw_sent fw @ new \<and> (\<forall>(f, p)\<in>set new. packet_ok (fw_faceTable fw) f p))"
proof -
  have step: "?thesis" if "step_ok env now fw (fwd_exec env senv S now ev fw)"
    using that by (simp add: step_ok_def emits_def)
  show ?thesis
  proof (cases ev)
    case (EvInterest f i)
    then show ?thesis using step incomingInterest_step[OF ok _ C] en by simp
  next
    case (EvData f d)
    then show ?thesis using step incomingData_step[OF ok C] by simp
  next
    case (EvNack f n)
    then show ?thesis using step incomingNack_step[OF ok C] by simp
  next
    case (EvExpire k)
    then show ?thesis using step finalize_step[OF ok] by simp
  next
    case (EvDroppedInterest f i)
    have "strategy_contract env (S s)" for s using C by (simp add: all_contracts_def)
    then have "so_onDroppedInterest (S s) now f i fw = fw" for s by (rule strategy_contract.dropped)
    then have "onDroppedInterest env S now f i fw = fw" by (simp add: onDroppedInterest_def split: option.split)
    then show ?thesis using EvDroppedInterest ok by simp
  next
    case (EvAddFace x)
    let ?ft = "snd (ft_add INVALID_FACEID x (fw_faceTable fw))"
    have "fw_faceIds fw \<subseteq> dom (ft_faces ?ft)"
      by (auto simp: ft_add_def ft_addImpl_def Let_def split: option.split)
    then show ?thesis using EvAddFace fwd_ok_moreFaces[OF ok _ ft_add_ok[OF fwd_okD(5)[OF ok]]] by simp
  next
    case (EvRemoveFace f)
    then show ?thesis using removeFace_ok[OF ok] by (simp add: fw_removeFace_def)
  next
    case (EvAddNextHop n f c)
    then show ?thesis using step addNextHop_step[OF ok C] en by simp
  next
    case (EvFib op)
    then show ?thesis using fib_op_fwd[OF ok, of op] en by (auto split: fib_op.splits)
  next
    case (EvSetStrategy p sname)
    then show ?thesis using setStrategy_fwd[OF ok] by simp
  next
    case (EvUnsetStrategy p)
    then show ?thesis using unsetStrategy_fwd[OF ok] en by simp
  next
    case (EvCs op)
    then show ?thesis using fwd_ok_cs[OF ok cs_exec_ok[OF fwd_okD(3)[OF ok]]] en by simp
  next
    case (EvDnl op)
    then show ?thesis using fwd_ok_dnl[OF ok dnl_exec_ok[OF fwd_okD(4)[OF ok]]] by simp
  qed
qed

lemma fwd_run_ok:
  assumes "fwd_ok env now {} fw" and C: "all_contracts env S" and "fwd_run env senv S evs now fw = Some (now', fw')"
  shows "fwd_ok env now' {} fw'"
  using assms(1,3)
proof (induction evs arbitrary: now fw)
  case (Cons te evs)
  obtain t ev where te: "te = (t, ev)" by force
  have en: "now \<le> t" "fwd_enabled t ev fw" and r: "fwd_run env senv S evs t (fwd_exec env senv S t ev fw) = Some (now', fw')"
    using Cons.prems(2) by (auto simp: te split: if_splits)
  have "fwd_ok env t {} fw" by (rule fwd_ok_mono[OF Cons.prems(1) en(1)]) simp
  then show ?case using Cons.IH[OF _ r] fwd_exec_ok[OF _ C en(2)] by blast
qed simp

lemma mk_forwarder_ok:
  assumes "mk_forwarder env senv now = Some fw"
  shows "fwd_ok env now {} fw"
proof -
  let ?t = "mk_tables 1024 :: 'a tables" and ?H = "fwe_hash env"
  obtain tb d where tb: "sc_setDefaultStrategy ?H senv getDefaultStrategyName ?t = Some tb"
    and d: "mk_dnl now DEFAULT_LIFETIME = Some d"
    and fw: "fw = \<lparr>fw_counters = zero_counters, fw_faceTable = mk_face_table, fw_unsolicitedDataPolicy = DropAll,
                fw_tables = tb, fw_cs = mk_cs 10, fw_deadNonceList = d, fw_networkRegionTable = [], fw_sent = []\<rparr>"
    using assms by (auto simp: mk_forwarder_def split: option.splits)
  obtain s where "strategy_create senv getDefaultStrategyName = Some (Inr s)"
    using tb by (auto simp: sc_setDefaultStrategy_def split: option.splits sum.splits)
  have e: "nt_slots (nameTree ?t) n = no_slots" for n by (simp add: mk_tables_def mk_name_tree_def map_slots_def)
  have t: "tables_ok ?H ?t" by (rule tables_ok_mk) simp
  have "tables_ok ?H tb \<and> sc_inv tb \<and> fib_at tb = fib_at ?t \<and> pit_at tb = pit_at ?t"
    using sc_setDefault_props[OF t, of senv getDefaultStrategyName s] tb \<open>strategy_create _ _ = _\<close> e
    by (auto simp: no_slots_def)
  moreover have "pit_deref tb k = None" for k using calculation by (simp add: pit_deref_def e no_slots_def fun_eq_iff)
  ultimately show ?thesis
    using e mk_cs_ok mk_dnl_ok[OF d] mk_face_table_ok by (simp add: fwd_ok_def fw no_slots_def fun_eq_iff)
qed

end
