(* ===== verification/Data_Delivery.thy ===== *)
theory Data_Delivery
  imports Forwarder_Safety
begin

text \<open>
  Where incoming Data goes: what \<open>sendDataToAll\<close> and the loop for several PIT matches send, for
  strategies that keep the behaviour of their base class for Data.
\<close>

section \<open>Dispatching\<close>

lemma dispatch_found:
  assumes ok: "fwd_ok env now X fw" and k: "fw_entry fw k = Some pe"
  obtains s where "effective (sc_view (fw_tables fw)) (pe_name pe) = Some s"
    "\<And>trigger. dispatchToStrategy env S k trigger fw = trigger (S s) fw"
proof -
  obtain s where s: "effective (sc_view (fw_tables fw)) (pe_name pe) = Some s"
    using effective_total[OF fwd_okD(2)[OF ok]] by blast
  have "sc_findEffectiveStrategy_pit (fwe_hash env) pe (fw_tables fw) = Some s"
    using sc_effective_pit[OF fwd_okD(1,2)[OF ok]] pit_deref_key[OF k] s by metis
  then have "dispatchToStrategy env S k trigger fw = trigger (S s) fw" for trigger
    by (simp add: dispatchToStrategy_def k)
  then show ?thesis using that s by blast
qed

definition uses_base :: "fwd_env \<Rightarrow> (strategy \<Rightarrow> 'i strategy_ops) \<Rightarrow> bool" where
  "uses_base env S \<longleftrightarrow>
     (\<forall>s. so_afterReceiveData (S s) = base_afterReceiveData env \<and> so_beforeSatisfyInterest (S s) = base_beforeSatisfyInterest)"

lemma nfd_uses_base: "uses_base env (nfd_strategies shuffle env)"
  by (simp add: uses_base_def nfd_strategies_def best_route_ops_def best_route2_ops_def multicast_ops_def random_ops_def base_ops_def)

section \<open>Sending to all downstreams\<close>

text \<open>Whether \<open>onOutgoingData\<close> sends, and with which PIT token.\<close>

definition data_allowed :: "face_table \<Rightarrow> data \<Rightarrow> face_id \<Rightarrow> bool" where
  "data_allowed ft d f \<longleftrightarrow>
     f \<in> dom (ft_faces ft) \<and> f \<noteq> INVALID_FACEID \<and> \<not> (ft_scope ft f = FACE_SCOPE_NON_LOCAL \<and> prefix LOCALHOST (data_name d))"

definition data_for :: "'i pit_entry \<Rightarrow> data \<Rightarrow> face_id \<Rightarrow> data" where
  "data_for pe d f =
     (case Option.bind (Option.bind (getInRecord pe f) ir_interest) int_pitToken of
        None \<Rightarrow> d | Some tok \<Rightarrow> d\<lparr>data_pitToken := Some tok\<rparr>)"

lemma onOutgoingData_eq:
  "onOutgoingData d f fw =
     (if data_allowed (fw_faceTable fw) d f then fw_count (nOutData_update (\<lambda>c. c + 1)) (fw_send f (PktData d) fw) else fw)"
  by (auto simp: onOutgoingData_def data_allowed_def ft_getId_def domIff)

lemma data_allowed_token: "data_allowed ft (data_for pe d f) = data_allowed ft d"
  by (auto simp: data_allowed_def data_for_def fun_eq_iff split: option.split)

lemma sendData_effect:
  assumes "fw_entry fw k = Some pe"
  shows "fw_sent (sendData k d f fw) = fw_sent fw @ (if data_allowed (fw_faceTable fw) d f then [(f, PktData (data_for pe d f))] else [])"
    and "fw_tables (sendData k d f fw) = pit_modify k (deleteInRecord f) (fw_tables fw)"
    and "fw_faceTable (sendData k d f fw) = fw_faceTable fw"
    and "fw_deadNonceList (sendData k d f fw) = fw_deadNonceList fw"
proof -
  have e: "sendData k d f fw = onOutgoingData (data_for pe d f) f (fw_pit k (deleteInRecord f) fw)"
    by (simp add: sendData_def data_for_def assms Let_def split: option.split)
  show "fw_sent (sendData k d f fw) = fw_sent fw @ (if data_allowed (fw_faceTable fw) d f then [(f, PktData (data_for pe d f))] else [])"
    "fw_tables (sendData k d f fw) = pit_modify k (deleteInRecord f) (fw_tables fw)"
    "fw_faceTable (sendData k d f fw) = fw_faceTable fw" "fw_deadNonceList (sendData k d f fw) = fw_deadNonceList fw"
    unfolding e onOutgoingData_eq data_allowed_token by simp_all
qed

lemma sendData_fold:
  assumes "fw_entry fw k = Some pe" and "pit_entry_ok pe" and "distinct fs"
  shows "fw_sent (fold (sendData k d) fs fw) =
      fw_sent fw @ map (\<lambda>f. (f, PktData (data_for pe d f))) (filter (data_allowed (fw_faceTable fw) d) fs) \<and>
    fw_faceTable (fold (sendData k d) fs fw) = fw_faceTable fw \<and>
    (\<forall>k'. k' \<noteq> k \<longrightarrow> fw_entry (fold (sendData k d) fs fw) k' = fw_entry fw k') \<and>
    fw_entry (fold (sendData k d) fs fw) k = Some (fold deleteInRecord fs pe)"
  using assms
proof (induction fs arbitrary: fw pe)
  case (Cons f fs)
  let ?fw = "sendData k d f fw" and ?pe = "deleteInRecord f pe"
  note s = sendData_effect[OF Cons.prems(1), of d f]
  have e: "fw_entry ?fw k = Some ?pe" "k' \<noteq> k \<Longrightarrow> fw_entry ?fw k' = fw_entry fw k'" for k'
    by (simp_all add: s(2) pit_modify_view Cons.prems(1))
  have d: "data_for ?pe d g = data_for pe d g" if "g \<in> set fs" for g
    using that Cons.prems(2,3) by (auto simp: data_for_def getInRecord_delete)
  have m: "map (\<lambda>f. (f, PktData (data_for ?pe d f))) (filter P fs) = map (\<lambda>f. (f, PktData (data_for pe d f))) (filter P fs)" for P
    by (rule map_cong[OF refl]) (use d in auto)
  have "pit_entry_ok ?pe" by (rule pit_entry_ok_records(3)[OF Cons.prems(2)])
  from Cons.IH[OF e(1) this] Cons.prems(3) show ?case using e(2) by (simp add: s(1,3) m)
qed simp

lemma record_ops_fields [simp]:
  "pe_expiryTimer (deleteInRecord f pe) = pe_expiryTimer pe" "pe_expiryTimer (deleteOutRecord f pe) = pe_expiryTimer pe"
  "pe_expiryTimer (clearInRecords pe) = pe_expiryTimer pe" "pe_expiryTimer (mark_satisfied d pe) = pe_expiryTimer pe"
  "pe_isSatisfied (deleteInRecord f pe) = pe_isSatisfied pe" "pe_isSatisfied (deleteOutRecord f pe) = pe_isSatisfied pe"
  "pe_isSatisfied (clearInRecords pe) = pe_isSatisfied pe" "pe_isSatisfied (mark_satisfied d pe)"
  "pe_inRecords (mark_satisfied d pe) = pe_inRecords pe" "pe_outRecords (mark_satisfied d pe) = pe_outRecords pe"
  "getInRecord (mark_satisfied d pe) f = getInRecord pe f" "getOutRecord (mark_satisfied d pe) f = getOutRecord pe f"
  "getInRecord (deleteOutRecord f pe) g = getInRecord pe g" "getInRecord (clearInRecords pe) g = None"
  "getOutRecord (clearInRecords pe) g = getOutRecord pe g"
  by (simp_all add: deleteInRecord_def deleteOutRecord_def clearInRecords_def mark_satisfied_def getInRecord_def getOutRecord_def)

lemma fold_deleteIn:
  assumes "pit_entry_ok pe"
  shows "pit_entry_ok (fold deleteInRecord fs pe) \<and> pe_outRecords (fold deleteInRecord fs pe) = pe_outRecords pe \<and>
    pe_expiryTimer (fold deleteInRecord fs pe) = pe_expiryTimer pe \<and>
    getInRecord (fold deleteInRecord fs pe) g = (if g \<in> set fs then None else getInRecord pe g)"
  using assms
proof (induction fs arbitrary: pe)
  case (Cons f fs)
  then show ?case using Cons.IH[OF pit_entry_ok_records(3)[OF Cons.prems]]
    by (auto simp: getInRecord_delete)
qed simp

lemma face_order_props:
  assumes "face_order_law env" and "distinct fs"
  shows "set (fwe_faceOrder env fs) = set fs" "distinct (fwe_faceOrder env fs)"
proof -
  have m: "mset (fwe_faceOrder env fs) = mset fs" using assms by (simp add: face_order_law_def)
  show "set (fwe_faceOrder env fs) = set fs" by (rule mset_eq_setD[OF m])
  show "distinct (fwe_faceOrder env fs)" using mset_eq_imp_distinct_iff[OF m] assms(2) by simp
qed

section \<open>The pending downstreams\<close>

text \<open>The faces that wait for the Data according to a PIT entry.\<close>

definition waiting :: "time_point \<Rightarrow> face_table \<Rightarrow> face_id \<Rightarrow> 'i pit_entry \<Rightarrow> face_id set" where
  "waiting now ft ingress pe =
     {fr_face r | r. r \<in> set (pe_inRecords pe) \<and> now < fr_expiry r \<and>
        (fr_face r = ingress \<longrightarrow> ft_linkType ft (fr_face r) = LINK_TYPE_AD_HOC)}"

lemma ft_ok_id: "ft_ok ft \<Longrightarrow> f \<in> dom (ft_faces ft) \<Longrightarrow> f \<noteq> 0"
  unfolding ft_ok_def INVALID_FACEID_def by blast

lemma getId_eq:
  assumes "ft_ok ft" and "f \<in> dom (ft_faces ft)"
  shows "ft_getId ft f = ft_getId ft g \<longleftrightarrow> f = g"
  by (rule ft_getId_eq[OF assms(2) ft_ok_id[OF assms]])

lemma pending_set:
  assumes ft: "ft_ok ft" and F: "\<forall>r\<in>set (pe_inRecords pe). fr_face r \<in> dom (ft_faces ft)"
  shows "set (pending_downstreams now ft ingress pe) = waiting now ft ingress pe"
  unfolding pending_downstreams_def waiting_def using getId_eq[OF ft] F by auto

lemma filter_allowed:
  assumes "ft_ok ft" and "set fs \<subseteq> dom (ft_faces ft)"
  shows "set (filter (data_allowed ft d) fs) = {f \<in> set fs. \<not> (ft_scope ft f = FACE_SCOPE_NON_LOCAL \<and> prefix LOCALHOST (data_name d))}"
  using assms ft_ok_id[OF assms(1)] by (auto simp: data_allowed_def INVALID_FACEID_def)

lemma receiveData_effect:
  fixes ingress :: face_id and d :: data
  assumes ok: "fwd_ok env now X fw" and k: "fw_entry fw k = Some pe" and law: "face_order_law env"
  defines "fw' \<equiv> base_afterReceiveData env now k ingress d fw"
  defines "W \<equiv> waiting now (fw_faceTable fw) ingress pe"
  shows "\<exists>fs. distinct fs \<and> set fs = W \<and>
    fw_sent fw' = fw_sent fw @ map (\<lambda>f. (f, PktData (data_for pe d f))) (filter (data_allowed (fw_faceTable fw) d) fs) \<and>
    fw_faceTable fw' = fw_faceTable fw \<and> (\<forall>k'. k' \<noteq> k \<longrightarrow> fw_entry fw' k' = fw_entry fw k') \<and>
    fw_entry fw' k = Some (fold deleteInRecord fs pe)"
proof -
  let ?fs = "fwe_faceOrder env (remdups (pending_downstreams now (fw_faceTable fw) ingress pe))"
  note o = face_order_props[OF law distinct_remdups, of "pending_downstreams now (fw_faceTable fw) ingress pe"]
  have "pit_entry_ok pe" using pit_slotD(3)[OF fwd_okD(1)[OF ok]] pit_deref_key[OF k] by blast
  note s = sendData_fold[OF k this o(2), of d]
  have "\<forall>r\<in>set (pe_inRecords pe). fr_face r \<in> fw_faceIds fw" using fwd_okD(7)[OF ok k] by (simp add: records_ok_def)
  then have "set ?fs = W" using o(1) pending_set[OF fwd_okD(5)[OF ok]] by (simp add: W_def)
  moreover have "fw' = fold (sendData k d) ?fs fw"
    by (simp add: fw'_def base_afterReceiveData_def base_beforeSatisfyInterest_def sendDataToAll_def k)
  ultimately show ?thesis using s o(2) by (intro exI[of _ ?fs]) blast
qed

lemma setExpiryTimer_entry [simp]:
  "fw_entry (setExpiryTimer now k d fw) k' =
     (if k' = k then map_option (pe_expiryTimer_update (\<lambda>_. Some (now + max d 0 * 1000000))) (fw_entry fw k) else fw_entry fw k')"
  "fw_faceTable (setExpiryTimer now k d fw) = fw_faceTable fw" "fw_sent (setExpiryTimer now k d fw) = fw_sent fw"
  by (simp_all add: setExpiryTimer_def Let_def pit_modify_view)

lemma waiting_timer [simp]:
  "waiting now ft f (pe_expiryTimer_update t pe) = waiting now ft f pe" "data_for (pe_expiryTimer_update t pe) d = data_for pe d"
  by (simp_all add: waiting_def data_for_def getInRecord_def fun_eq_iff)

text \<open>The state of a PIT entry after Data came in over \<open>ingress\<close>.\<close>

definition satisfied_entry :: "time_point \<Rightarrow> face_id \<Rightarrow> face_id set \<Rightarrow> 'i pit_entry \<Rightarrow> bool" where
  "satisfied_entry now ingress W pe \<longleftrightarrow>
     pe_isSatisfied pe \<and> pe_expiryTimer pe = Some now \<and> getOutRecord pe ingress = None \<and> (\<forall>f\<in>W. getInRecord pe f = None)"

lemma satisfy_one_effect:
  fixes ingress :: face_id and d :: data
  assumes ok: "fwd_ok env now {} fw" and k: "fw_entry fw k = Some pe" and law: "face_order_law env" and b: "uses_base env S"
  defines "fw' \<equiv> satisfy_one env S now ingress d k fw"
  defines "W \<equiv> waiting now (fw_faceTable fw) ingress pe"
  shows "\<exists>fs. distinct fs \<and> set fs = W \<and>
    fw_sent fw' = fw_sent fw @ map (\<lambda>f. (f, PktData (data_for pe d f))) (filter (data_allowed (fw_faceTable fw) d) fs) \<and>
    (\<forall>k'. k' \<noteq> k \<longrightarrow> fw_entry fw' k' = fw_entry fw k') \<and>
    (\<exists>pe'. fw_entry fw' k = Some pe' \<and> satisfied_entry now ingress W pe')"
proof -
  define fw1 where "fw1 = setExpiryTimer now k 0 fw"
  let ?pe = "pe_expiryTimer_update (\<lambda>_. Some now) pe"
  have ok1: "fwd_ok env now {} fw1" unfolding fw1_def by (rule step_okD(1)[OF setExpiryTimer_step[OF ok]])
  have e1: "fw_entry fw1 k = Some ?pe" by (simp add: fw1_def k)
  obtain s where s: "\<And>trigger. dispatchToStrategy env S k trigger fw1 = trigger (S s) fw1" using dispatch_found[OF ok1 e1, of S] by blast
  define fw2 where "fw2 = base_afterReceiveData env now k ingress d fw1"
  obtain fs where fs: "distinct fs" "set fs = W"
    "fw_sent fw2 = fw_sent fw @ map (\<lambda>f. (f, PktData (data_for pe d f))) (filter (data_allowed (fw_faceTable fw) d) fs)"
    "\<And>k'. k' \<noteq> k \<Longrightarrow> fw_entry fw2 k' = fw_entry fw1 k'" "fw_entry fw2 k = Some (fold deleteInRecord fs ?pe)"
    using receiveData_effect[OF ok1 e1 law, of ingress d] by (auto simp: fw2_def W_def) (auto simp: fw1_def)
  have r: "fw' = fw_pit k (deleteOutRecord ingress) (insertDeadNonceList env k (Some ingress) (fw_pit k (mark_satisfied d) fw2))"
    using b by (simp add: fw'_def satisfy_one_def s uses_base_def fw1_def[symmetric] fw2_def Let_def)
  have "pit_entry_ok pe" using pit_slotD(3)[OF fwd_okD(1)[OF ok]] pit_deref_key[OF k] by blast
  then have ok': "pit_entry_ok ?pe" by (simp add: pit_entry_ok_def)
  let ?q = "fold deleteInRecord fs ?pe"
  have "fw_entry fw' k = Some (deleteOutRecord ingress (mark_satisfied d ?q))"
    by (simp add: r pit_modify_view fs(5))
  moreover have "pit_entry_ok (mark_satisfied d ?q)"
    using conjunct1[OF fold_deleteIn[OF ok', of fs 0]] by (simp add: pit_entry_ok_def)
  then have "satisfied_entry now ingress W (deleteOutRecord ingress (mark_satisfied d ?q))"
    using fold_deleteIn[OF ok', of fs] fs(2) by (simp add: satisfied_entry_def getOutRecord_delete)
  moreover have "fw_sent fw' = fw_sent fw2" by (simp add: r)
  moreover have "fw_entry fw' k' = fw_entry fw k'" if "k' \<noteq> k" for k'
    using that fs(4)[OF that] by (simp add: r pit_modify_view fw1_def)
  ultimately show ?thesis using fs(1-3) by (intro exI[of _ fs]) auto
qed

section \<open>Several matches\<close>

lemma satisfy_step_effect:
  fixes ingress :: face_id and d :: data and fs :: "face_id list"
  assumes ok: "fwd_ok env now {} fw" and k: "fw_entry fw k = Some pe" and b: "uses_base env S"
  defines "st \<equiv> satisfy_step env S now ingress d k (fs, fw)"
  shows "fst st = fs @ map fr_face (filter (\<lambda>r. now < fr_expiry r) (pe_inRecords pe))"
    and "fw_sent (snd st) = fw_sent fw" and "fw_faceTable (snd st) = fw_faceTable fw"
    and "\<And>k'. k' \<noteq> k \<Longrightarrow> fw_entry (snd st) k' = fw_entry fw k'"
    and "\<exists>pe'. fw_entry (snd st) k = Some pe' \<and> satisfied_entry now ingress UNIV pe'"
proof -
  define fw1 where "fw1 = setExpiryTimer now k 0 fw"
  let ?pe = "pe_expiryTimer_update (\<lambda>_. Some now) pe"
  have ok1: "fwd_ok env now {} fw1" unfolding fw1_def by (rule step_okD(1)[OF setExpiryTimer_step[OF ok]])
  have e1: "fw_entry fw1 k = Some ?pe" by (simp add: fw1_def k)
  obtain s where s: "\<And>trigger. dispatchToStrategy env S k trigger fw1 = trigger (S s) fw1" using dispatch_found[OF ok1 e1, of S] by blast
  have r: "snd st = fw_pit k (deleteOutRecord ingress) (fw_pit k clearInRecords
      (insertDeadNonceList env k (Some ingress) (fw_pit k (mark_satisfied d) fw1)))"
    using b by (simp add: st_def satisfy_step_def k s uses_base_def base_beforeSatisfyInterest_def fw1_def[symmetric] Let_def)
  show "fst st = fs @ map fr_face (filter (\<lambda>r. now < fr_expiry r) (pe_inRecords pe))"
    by (simp add: st_def satisfy_step_def k Let_def)
  show "fw_sent (snd st) = fw_sent fw" "fw_faceTable (snd st) = fw_faceTable fw" by (simp_all add: r) (simp_all add: fw1_def)
  show "fw_entry (snd st) k' = fw_entry fw k'" if "k' \<noteq> k" for k' using that by (simp add: r pit_modify_view fw1_def)
  have "pit_entry_ok pe" using pit_slotD(3)[OF fwd_okD(1)[OF ok]] pit_deref_key[OF k] by blast
  then have "pit_entry_ok (clearInRecords (mark_satisfied d ?pe))" by (simp add: pit_entry_ok_def clearInRecords_def)
  then have "satisfied_entry now ingress UNIV (deleteOutRecord ingress (clearInRecords (mark_satisfied d ?pe)))"
    by (simp add: satisfied_entry_def getOutRecord_delete)
  moreover have "fw_entry (snd st) k = Some (deleteOutRecord ingress (clearInRecords (mark_satisfied d ?pe)))"
    by (simp add: r pit_modify_view e1)
  ultimately show "\<exists>pe'. fw_entry (snd st) k = Some pe' \<and> satisfied_entry now ingress UNIV pe'" by blast
qed

lemma satisfy_fold_effect:
  fixes ingress :: face_id and d :: data
  assumes "fwd_ok env now {} fw" and "\<forall>k\<in>set ks. fw_entry fw k \<noteq> None" and "distinct ks" and b: "uses_base env S"
    and C: "all_contracts env S"
  shows "let st = fold (satisfy_step env S now ingress d) ks (fs, fw) in
    set (fst st) = set fs \<union> {f. \<exists>k\<in>set ks. \<exists>r\<in>set (pe_inRecords (the (fw_entry fw k))). now < fr_expiry r \<and> f = fr_face r} \<and>
    fw_sent (snd st) = fw_sent fw \<and> fw_faceTable (snd st) = fw_faceTable fw \<and>
    (\<forall>k. k \<notin> set ks \<longrightarrow> fw_entry (snd st) k = fw_entry fw k) \<and>
    (\<forall>k\<in>set ks. \<exists>pe'. fw_entry (snd st) k = Some pe' \<and> satisfied_entry now ingress UNIV pe')"
  using assms(1-3)
proof (induction ks arbitrary: fs fw)
  case (Cons k ks)
  obtain pe where pe: "fw_entry fw k = Some pe" using Cons.prems(2) by auto
  obtain fs1 fw1 where st: "satisfy_step env S now ingress d k (fs, fw) = (fs1, fw1)" by fastforce
  note e = satisfy_step_effect[OF Cons.prems(1) pe b, where fs = fs and ingress = ingress and d = d, unfolded st fst_conv snd_conv]
  have ok1: "fwd_ok env now {} fw1" using step_okD(1)[OF satisfy_step_step[OF Cons.prems(1) C, where fs = fs and ingress = ingress and d = d and k = k]] st by simp
  have same: "fw_entry fw1 k' = fw_entry fw k'" if "k' \<in> set ks" for k'
    by (rule e(4)) (use that Cons.prems(3) in auto)
  have "{f. \<exists>k\<in>set ks. \<exists>r\<in>set (pe_inRecords (the (fw_entry fw1 k))). now < fr_expiry r \<and> f = fr_face r} =
      {f. \<exists>k\<in>set ks. \<exists>r\<in>set (pe_inRecords (the (fw_entry fw k))). now < fr_expiry r \<and> f = fr_face r}"
    using same by auto
  note faces = this
  let ?st = "fold (satisfy_step env S now ingress d) ks (fs1, fw1)"
  have "\<forall>k\<in>set ks. fw_entry fw1 k \<noteq> None" using same Cons.prems(2) by auto
  note I = Cons.IH[OF ok1 this _, of fs1, unfolded Let_def]
  have d: "distinct ks" "k \<notin> set ks" using Cons.prems(3) by simp_all
  have "set fs1 = set fs \<union> {f. \<exists>r\<in>set (pe_inRecords pe). now < fr_expiry r \<and> f = fr_face r}" using e(1) by auto
  then have 1: "set (fst ?st) = set fs \<union> {f. \<exists>k\<in>set (k # ks). \<exists>r\<in>set (pe_inRecords (the (fw_entry fw k))). now < fr_expiry r \<and> f = fr_face r}"
    using I[OF d(1)] faces pe by auto
  have 2: "fw_sent (snd ?st) = fw_sent fw" "fw_faceTable (snd ?st) = fw_faceTable fw" using I[OF d(1)] e(2,3) by simp_all
  have 3: "fw_entry (snd ?st) k' = fw_entry fw k'" if "k' \<notin> set (k # ks)" for k'
  proof -
    have "fw_entry (snd ?st) k' = fw_entry fw1 k'" using I[OF d(1)] that by (simp del: split_paired_All)
    also have "\<dots> = fw_entry fw k'" by (rule e(4)) (use that in simp)
    finally show ?thesis .
  qed
  have 4: "\<exists>pe'. fw_entry (snd ?st) k' = Some pe' \<and> satisfied_entry now ingress UNIV pe'" if "k' \<in> set (k # ks)" for k'
  proof (cases "k' = k")
    case True
    have "fw_entry (snd ?st) k = fw_entry fw1 k" using I[OF d(1)] d(2) by (simp del: split_paired_All)
    then show ?thesis using e(5) True by simp
  next
    case False
    then show ?thesis using I[OF d(1)] that by (simp del: split_paired_All)
  qed
  show ?case unfolding Let_def fold_Cons comp_apply st using 1 2 3 4 by (simp del: split_paired_All)
qed simp

lemma outgoing_fold:
  assumes "distinct fs"
  shows "fw_sent (fold (\<lambda>f fw. if P (fw_faceTable fw) f then fw else onOutgoingData d f fw) fs fw) =
      fw_sent fw @ map (\<lambda>f. (f, PktData d)) (filter (\<lambda>f. \<not> P (fw_faceTable fw) f \<and> data_allowed (fw_faceTable fw) d f) fs) \<and>
    fw_tables (fold (\<lambda>f fw. if P (fw_faceTable fw) f then fw else onOutgoingData d f fw) fs fw) = fw_tables fw"
  by (induction fs arbitrary: fw) (simp_all add: onOutgoingData_eq)

section \<open>Delivery\<close>

lemma data_for_token: "\<exists>tok. data_for pe d f = d\<lparr>data_pitToken := tok\<rparr>"
  by (auto simp: data_for_def split: option.split intro: exI[of _ "data_pitToken d"])

lemma fwd_ok_cs_insert: "fwd_ok env now X fw \<Longrightarrow> fwd_ok env now X (fw\<lparr>fw_cs := cs_insert now d u (fw_cs fw)\<rparr>)"
  by (rule fwd_ok_cs[OF _ cs_insert_ok[OF fwd_okD(3)]])

text \<open>
  What Data that matches the PIT entries \<open>K\<close> does: every downstream with an unexpired in-record in one of
  them gets it once, except that it does not go back over the point-to-point or multi-access face it came from,
  nor to a non-local face when it is under \<open>/localhost\<close>; nothing else is sent; and the entries are satisfied.
\<close>

definition delivers ::
  "time_point \<Rightarrow> face_id \<Rightarrow> data \<Rightarrow> pit_key set \<Rightarrow> 'i forwarder \<Rightarrow> 'i forwarder \<Rightarrow> bool" where
  "delivers now ingress d K fw fw' \<longleftrightarrow>
     (let W = (\<Union>k\<in>K. waiting now (fw_faceTable fw) ingress (the (fw_entry fw k)))
      in \<exists>new. fw_sent fw' = fw_sent fw @ new \<and> distinct (map fst new) \<and>
          fst ` set new = {f \<in> W. \<not> (ft_scope (fw_faceTable fw) f = FACE_SCOPE_NON_LOCAL \<and> prefix LOCALHOST (data_name d))} \<and>
          (\<forall>(f, p)\<in>set new. \<exists>tok. p = PktData (d\<lparr>data_pitToken := tok\<rparr>)) \<and>
          (\<forall>k\<in>K. \<exists>pe'. fw_entry fw' k = Some pe' \<and> satisfied_entry now ingress W pe'))"

lemma waiting_faces:
  assumes "fwd_ok env now X fw" and "fw_entry fw k = Some pe"
  shows "waiting now (fw_faceTable fw) ingress pe \<subseteq> fw_faceIds fw"
  using fwd_okD(7)[OF assms] unfolding waiting_def records_ok_def by blast

lemma satisfy_one_delivers:
  assumes ok: "fwd_ok env now {} fw" and k: "fw_entry fw k = Some pe" and law: "face_order_law env" and b: "uses_base env S"
  shows "delivers now ingress d {k} fw (satisfy_one env S now ingress d k fw)"
proof -
  let ?W = "waiting now (fw_faceTable fw) ingress pe"
  obtain fs where fs: "distinct fs" "set fs = ?W"
    "fw_sent (satisfy_one env S now ingress d k fw) =
      fw_sent fw @ map (\<lambda>f. (f, PktData (data_for pe d f))) (filter (data_allowed (fw_faceTable fw) d) fs)"
    "\<exists>pe'. fw_entry (satisfy_one env S now ingress d k fw) k = Some pe' \<and> satisfied_entry now ingress ?W pe'"
    using satisfy_one_effect[OF ok k law b, of ingress d] by blast
  have "set (filter (data_allowed (fw_faceTable fw) d) fs) =
      {f \<in> ?W. \<not> (ft_scope (fw_faceTable fw) f = FACE_SCOPE_NON_LOCAL \<and> prefix LOCALHOST (data_name d))}"
    using filter_allowed[OF fwd_okD(5)[OF ok], of fs d] waiting_faces[OF ok k] fs(2) by simp
  then show ?thesis
    unfolding delivers_def Let_def using fs k
    by (intro exI[of _ "map (\<lambda>f. (f, PktData (data_for pe d f))) (filter (data_allowed (fw_faceTable fw) d) fs)"])
      (simp add: comp_def image_image data_for_token)
qed

lemma waiting_union:
  "(\<Union>k\<in>K. waiting now ft ingress (E k)) =
     {f \<in> {f. \<exists>k\<in>K. \<exists>r\<in>set (pe_inRecords (E k)). now < fr_expiry r \<and> f = fr_face r}.
        \<not> (f = ingress \<and> ft_linkType ft f \<noteq> LINK_TYPE_AD_HOC)}"
  unfolding waiting_def by blast

lemma satisfy_all_delivers:
  assumes ok: "fwd_ok env now {} fw" and K: "\<forall>k\<in>set ks. fw_entry fw k \<noteq> None" "distinct ks"
    and law: "face_order_law env" and b: "uses_base env S" and C: "all_contracts env S"
  shows "delivers now ingress d (set ks) fw (satisfy_all env S now ingress d ks fw)"
proof -
  let ?ft = "fw_faceTable fw"
  let ?P = "\<lambda>ft f. ft_getId ft f = ft_getId ft ingress \<and> ft_linkType ft f \<noteq> LINK_TYPE_AD_HOC"
  define W where "W = (\<Union>k\<in>set ks. waiting now ?ft ingress (the (fw_entry fw k)))"
  obtain ps fw1 where st: "fold (satisfy_step env S now ingress d) ks ([], fw) = (ps, fw1)" by fastforce
  note e = satisfy_fold_effect[OF ok K b C, of ingress d "[]", unfolded st Let_def fst_conv snd_conv]
  define fs where "fs = fwe_faceOrder env (remdups ps)"
  have fs: "distinct fs" "set fs = set ps" using face_order_props[OF law distinct_remdups, of ps] by (simp_all add: fs_def)
  have r: "satisfy_all env S now ingress d ks fw = fold (\<lambda>f fw. if ?P (fw_faceTable fw) f then fw else onOutgoingData d f fw) fs fw1"
    by (simp add: satisfy_all_def st fs_def)
  note o = outgoing_fold[OF fs(1), of ?P d fw1]
  have F: "f \<in> fw_faceIds fw" if "f \<in> set ps" for f
  proof -
    have "\<exists>k\<in>set ks. \<exists>r\<in>set (pe_inRecords (the (fw_entry fw k))). now < fr_expiry r \<and> f = fr_face r"
      using that conjunct1[OF e] by (simp del: split_paired_Ex)
    then obtain k r where kr: "k \<in> set ks" "r \<in> set (pe_inRecords (the (fw_entry fw k)))" "f = fr_face r" by blast
    then obtain pe where "fw_entry fw k = Some pe" using K(1) by blast
    then show ?thesis using fwd_okD(7)[OF ok, of k pe] kr unfolding records_ok_def by auto
  qed
  have W: "W = {f \<in> set ps. \<not> ?P ?ft f}"
  proof -
    have "W = {f \<in> set ps. \<not> (f = ingress \<and> ft_linkType ?ft f \<noteq> LINK_TYPE_AD_HOC)}"
      unfolding W_def waiting_union conjunct1[OF e] by simp
    then show ?thesis using F getId_eq[OF fwd_okD(5)[OF ok]] by auto
  qed
  let ?fs = "filter (\<lambda>f. \<not> ?P ?ft f \<and> data_allowed ?ft d f) fs"
  have "set ?fs = {f \<in> W. \<not> (ft_scope ?ft f = FACE_SCOPE_NON_LOCAL \<and> prefix LOCALHOST (data_name d))}"
    using filter_allowed[OF fwd_okD(5)[OF ok], of fs d] F fs(2) W by (auto simp: subset_iff)
  moreover have "satisfied_entry now ingress W pe" if "satisfied_entry now ingress UNIV pe" for pe :: "'a pit_entry"
    using that by (simp add: satisfied_entry_def)
  ultimately show ?thesis
    unfolding delivers_def Let_def W_def[symmetric] r using o e fs(1)
    by (intro exI[of _ "map (\<lambda>f. (f, PktData d)) ?fs"]) (auto simp: comp_def image_image intro: exI[of _ "data_pitToken d"])
qed

definition data_matches :: "fwd_env \<Rightarrow> data \<Rightarrow> 'i forwarder \<Rightarrow> pit_key set" where
  "data_matches env d fw = {k. \<exists>pe. fw_entry fw k = Some pe \<and> fwe_matchesData env (pe_interest pe) d}"

lemma image_lookup:
  assumes "\<And>k pe. E k = Some pe \<Longrightarrow> f pe = k"
  shows "f ` {pe. E (f pe) = Some pe \<and> Q pe} = {k. \<exists>pe. E k = Some pe \<and> Q pe}"
  using assms by (auto simp: image_iff)

lemma matches_keys:
  assumes tb: "tables_ok (fwe_hash env) (fw_tables fw)"
    and m: "\<And>i. fwe_matchesData env i d \<Longrightarrow> prefix (int_name i) (data_fullName d)"
  shows "set (map (\<lambda>pe. pe_key pe) (pit_findAllDataMatches (fwe_matchesData env) (fwe_hash env) d (fw_tables fw))) = data_matches env d fw"
proof -
  have "set (pit_findAllDataMatches (fwe_matchesData env) (fwe_hash env) d (fw_tables fw)) =
      {pe. fw_entry fw (pe_key pe) = Some pe \<and> fwe_matchesData env (pe_interest pe) d}"
    by (rule pit_matches_set[OF tb m])
  then show ?thesis
    unfolding data_matches_def set_map
    by (simp only:) (rule image_lookup, use pit_deref_key[of "fw_tables fw"] in blast)
qed

lemma delivers_cong:
  assumes "fw_entry fw = fw_entry fw1" and "fw_sent fw = fw_sent fw1" and "fw_faceTable fw = fw_faceTable fw1"
    and "delivers now ingress d K fw1 fw'"
  shows "delivers now ingress d K fw fw'"
  using assms(4) unfolding delivers_def assms(1-3) .

lemma unsolicited_delivers: "delivers now ingress d {} fw (onDataUnsolicited now ingress d fw)"
  by (simp add: delivers_def onDataUnsolicited_def Let_def)

lemma incomingData_delivers:
  fixes ingress :: face_id
  assumes ok: "fwd_ok env now {} fw" and law: "face_order_law env" and b: "uses_base env S" and C: "all_contracts env S"
    and sc: "\<not> (ft_scope (fw_faceTable fw) ingress = FACE_SCOPE_NON_LOCAL \<and> prefix LOCALHOST (data_name d))"
  defines "d' \<equiv> d\<lparr>data_incomingFaceId := Some ingress\<rparr>"
  assumes m: "\<And>i. fwe_matchesData env i d' \<Longrightarrow> prefix (int_name i) (data_fullName d')"
  shows "delivers now ingress d' (data_matches env d' fw) fw (onIncomingData env S now ingress d fw)"
proof -
  define fw1 where "fw1 = fw_count (nInData_update (\<lambda>c. c + 1)) fw"
  define fw2 where "fw2 = fw1\<lparr>fw_cs := cs_insert now d' False (fw_cs fw1)\<rparr>"
  define ks where "ks = map (\<lambda>pe. pe_key pe) (pit_findAllDataMatches (fwe_matchesData env) (fwe_hash env) d' (fw_tables fw1))"
  have ok1: "fwd_ok env now {} fw1" using ok by (simp add: fw1_def)
  have ok2: "fwd_ok env now {} fw2" unfolding fw2_def by (rule fwd_ok_cs_insert[OF ok1])
  have same: "fw_entry fw = fw_entry fw2" "fw_sent fw = fw_sent fw2" "fw_faceTable fw = fw_faceTable fw2" "fw_tables fw = fw_tables fw1"
    by (simp_all add: fw2_def fw1_def)
  have ks: "set ks = data_matches env d' fw" "distinct ks"
    using matches_keys[OF fwd_okD(1)[OF ok] m] pit_matches_distinct[OF fwd_okD(1)[OF ok1]] by (simp_all add: ks_def same(4))
  have e: "\<forall>k\<in>set ks. fw_entry fw2 k \<noteq> None" unfolding ks(1) same(1)[symmetric] data_matches_def by auto
  have r: "onIncomingData env S now ingress d fw = (case ks of [] \<Rightarrow> onDataUnsolicited now ingress d' fw1
      | [k] \<Rightarrow> satisfy_one env S now ingress d' k fw2 | _ \<Rightarrow> satisfy_all env S now ingress d' ks fw2)"
    using sc unfolding onIncomingData_def Let_def d'_def[symmetric] fw1_def[symmetric] fw2_def[symmetric] ks_def[symmetric]
    by (auto simp: fw1_def d'_def split: list.split)
  consider "ks = []" | k where "ks = [k]" | k l ks' where "ks = k # l # ks'" using list.exhaust by metis
  then show ?thesis
  proof cases
    case 1
    have "fw_entry fw = fw_entry fw1" "fw_sent fw = fw_sent fw1" "fw_faceTable fw = fw_faceTable fw1" by (simp_all add: fw1_def)
    from delivers_cong[OF this unsolicited_delivers] show ?thesis using ks(1) by (simp add: r 1)
  next
    case 2
    then obtain pe where "fw_entry fw2 k = Some pe" using e by auto
    from delivers_cong[OF same(1-3) satisfy_one_delivers[OF ok2 this law b]] show ?thesis using ks(1) by (simp add: r 2)
  next
    case 3
    from delivers_cong[OF same(1-3) satisfy_all_delivers[OF ok2 e ks(2) law b C, of ingress d']]
    show ?thesis unfolding ks(1)[symmetric] r by (simp add: 3)
  qed
qed

end
