(* ===== verification/Interest_Forwarding.thy ===== *)
theory Interest_Forwarding
  imports Data_Delivery
begin

text \<open>
  What a new Interest does: the state in which the strategy sees it, and the next hop that the
  best-route strategy (version 5) chooses for it.
\<close>

section \<open>A new Interest up to the strategy\<close>

text \<open>The Interest after the tag and the HopLimit have been set, and the next hops of its name.\<close>

definition received :: "face_id \<Rightarrow> interest \<Rightarrow> interest" where
  "received ingress i = i\<lparr>int_incomingFaceId := Some ingress, int_hopLimit := map_option (\<lambda>h. h - 1) (int_hopLimit i)\<rparr>"

definition route :: "'i tables \<Rightarrow> name \<Rightarrow> nexthop list" where
  "route tb n = (case longest_match (\<lambda>q. fib_at tb q \<noteq> None) n of None \<Rightarrow> [] | Some q \<Rightarrow> fe_nextHops (the (fib_at tb q)))"

text \<open>An Interest that is neither dropped nor looped, has no PIT entry, no link object to follow and misses the Content Store.\<close>

definition is_new :: "fwd_env \<Rightarrow> time_point \<Rightarrow> face_id \<Rightarrow> interest \<Rightarrow> 'i forwarder \<Rightarrow> bool" where
  "is_new env now ingress i fw \<longleftrightarrow>
     int_hopLimit i \<noteq> Some 0 \<and> int_forwardingHint i = [] \<and> int_nextHopFaceId i = None \<and>
     \<not> (ft_scope (fw_faceTable fw) ingress = FACE_SCOPE_NON_LOCAL \<and> prefix LOCALHOST (int_name i)) \<and>
     \<not> dnl_has (fwe_wireEncode env) (int_name i) (int_nonce i) (fw_deadNonceList fw) \<and>
     fw_entry fw (interest_key i) = None \<and>
     fst (cs_find (fwe_matchesData env) (fwe_getSuccessor env) now (received ingress i) (fw_cs fw)) = None"

definition pending_entry :: "time_point \<Rightarrow> face_id \<Rightarrow> interest \<Rightarrow> 'i pit_entry" where
  "pending_entry now ingress i =
     (insertOrUpdateInRecord now ingress i (new_pit_entry i))\<lparr>pe_expiryTimer := Some (now + ms (min (int_lifetime i) MAX_LIFETIME))\<rparr>"

lemma received_simps [simp]:
  "int_name (received ingress i) = int_name i" "interest_key (received ingress i) = interest_key i"
  "int_lifetime (received ingress i) = int_lifetime i" "int_nonce (received ingress i) = int_nonce i"
  "int_nextHopFaceId (received ingress i) = int_nextHopFaceId i" "int_forwardingHint (received ingress i) = int_forwardingHint i"
  "int_pitToken (received ingress i) = int_pitToken i"
  by (simp_all add: received_def interest_key_def)

lemma pending_entry_simps [simp]:
  "pe_interest (pending_entry now f i) = i" "pe_outRecords (pending_entry now f i) = []"
  "pe_nameTreeEntry (pending_entry now f i) = Some (pit_nte (interest_key i))"
  "pe_inRecords (pending_entry now f i) = [inRecord_update now i (mk_in_record f)]"
  by (simp_all add: pending_entry_def insertOrUpdateInRecord_def getInRecord_def mk_in_record_def Let_def)

lemma contentStoreMiss_new:
  fixes fw :: "'i forwarder" and ingress :: face_id and i :: interest
  assumes k: "fw_entry fw (interest_key i) = Some (new_pit_entry i)" and h: "int_nextHopFaceId i = None"
    and ok: "fwd_ok env now {interest_key i} fw" and f: "ingress \<in> fw_faceIds fw"
  shows "\<exists>s fw2. effective (sc_view (fw_tables fw)) (int_name i) = Some s \<and>
    onContentStoreMiss env S now ingress (interest_key i) i fw = so_afterReceiveInterest (S s) now ingress i (interest_key i) fw2 \<and>
    fw_entry fw2 (interest_key i) = Some (pending_entry now ingress i) \<and> fwd_ok env now {} fw2 \<and>
    (\<forall>n. fib_at (fw_tables fw2) n = fib_at (fw_tables fw) n) \<and>
    fw_sent fw2 = fw_sent fw \<and> fw_faceTable fw2 = fw_faceTable fw"
proof -
  let ?k = "interest_key i"
  define fw1 where "fw1 = fw_pit ?k (insertOrUpdateInRecord now ingress i) (fw_count (nCsMisses_update (\<lambda>c. c + 1)) fw)"
  define d where "d = (case fw_entry fw1 ?k of None \<Rightarrow> 0 | Some pe \<Rightarrow> lastExpiring pe - now)"
  define fw2 where "fw2 = setExpiryTimer now ?k (d div 1000000) fw1"
  have e1: "fw_entry fw1 ?k = Some (insertOrUpdateInRecord now ingress i (new_pit_entry i))"
    by (simp add: fw1_def pit_modify_view k)
  have d: "d = ms (min (int_lifetime i) MAX_LIFETIME)"
    by (simp add: d_def e1 lastExpiring_def insertOrUpdateInRecord_def getInRecord_def mk_in_record_def inRecord_update_def
        faceRecord_update_def Let_def)
  have e2: "fw_entry fw2 ?k = Some (pending_entry now ingress i)"
    by (simp add: fw2_def e1 d pending_entry_def ms_def)
  have ok1: "fwd_ok env now {?k} fw1"
    unfolding fw1_def by (rule fwd_ok_records) (use ok f in \<open>simp_all add: records_ok_insertIn\<close>)
  have "fwd_ok env now ({?k} - {?k}) fw2" unfolding fw2_def by (rule setExpiryTimer_ok[OF ok1]) (simp add: d ms_def)
  then have ok2: "fwd_ok env now {} fw2" by simp
  have sc: "sc_view (fw_tables fw2) = sc_view (fw_tables fw)"
    by (simp add: sc_view_def fw2_def fw1_def setExpiryTimer_def fw_pit_def Let_def fun_eq_iff)
  obtain s where s: "effective (sc_view (fw_tables fw2)) (pe_name (pending_entry now ingress i :: 'i pit_entry)) = Some s"
    "\<And>trigger. dispatchToStrategy env S ?k trigger fw2 = trigger (S s) fw2"
    using dispatch_found[OF ok2 e2, of S] by blast
  have r: "onContentStoreMiss env S now ingress ?k i fw = so_afterReceiveInterest (S s) now ingress i ?k fw2"
    unfolding onContentStoreMiss_def Let_def fw1_def[symmetric] d_def[symmetric] fw2_def[symmetric] h option.case s(2) ..
  show ?thesis
    by (rule exI[of _ s], rule exI[of _ fw2]) (use s(1) r e2 ok2 sc in \<open>simp add: fw2_def fw1_def setExpiryTimer_def Let_def\<close>)
qed

lemma incomingInterest_new:
  fixes fw :: "'i forwarder" and ingress :: face_id and i :: interest
  assumes ok: "fwd_ok env now {} fw" and f: "ingress \<in> fw_faceIds fw" and n: "is_new env now ingress i fw"
  defines "i' \<equiv> received ingress i"
  shows "\<exists>s fw2. effective (sc_view (fw_tables fw)) (int_name i) = Some s \<and>
    onIncomingInterest env S now ingress i fw = so_afterReceiveInterest (S s) now ingress i' (interest_key i) fw2 \<and>
    fw_entry fw2 (interest_key i) = Some (pending_entry now ingress i') \<and> fwd_ok env now {} fw2 \<and>
    (\<forall>n. fib_at (fw_tables fw2) n = fib_at (fw_tables fw) n) \<and>
    fw_sent fw2 = fw_sent fw \<and> fw_faceTable fw2 = fw_faceTable fw"
proof -
  let ?k = "interest_key i"
  define fw0 where "fw0 = fw_count (nInInterests_update (\<lambda>c. c + 1)) fw"
  have ok0: "fwd_ok env now {} fw0" using ok by (simp add: fw0_def)
  define fw1 where "fw1 = fw0\<lparr>fw_tables := snd (pit_insert (fwe_hash env) i' (fw_tables fw0))\<rparr>"
  define c where "c = cs_find (fwe_matchesData env) (fwe_getSuccessor env) now i' (fw_cs fw1)"
  define fw2 where "fw2 = fw1\<lparr>fw_cs := snd c\<rparr>"
  have k': "interest_key i' = ?k" by (simp add: i'_def)
  have none: "fw_entry fw0 ?k = None" using n by (simp add: fw0_def is_new_def)
  note ins = pit_insert_fwd[OF ok0, of i', folded fw1_def, unfolded k' none]
  have r: "fst (pit_insert (fwe_hash env) i' (fw_tables fw0)) = (Some ?k, True)"
    using pit_insert_props(1)[OF fwd_okD(1)[OF ok0], of i'] none by (simp add: k')
  have miss: "fst c = None" using n by (simp add: c_def is_new_def i'_def fw1_def fw0_def)
  have p: "processInterest env S now ingress i' fw0 = onContentStoreMiss env S now ingress ?k i' fw2"
    unfolding processInterest_def Let_def split_beta r fst_conv snd_conv fw1_def[symmetric] bind.bind_lunit ins(2) option.map option.case
      prod.case c_def[symmetric] miss fw2_def[symmetric]
    by (simp add: findDuplicateNonce_none hasInRecords_def)
  have i: "(case int_hopLimit (i\<lparr>int_incomingFaceId := Some ingress\<rparr>) of None \<Rightarrow> i\<lparr>int_incomingFaceId := Some ingress\<rparr>
      | Some h \<Rightarrow> i\<lparr>int_incomingFaceId := Some ingress, int_hopLimit := Some (h - 1)\<rparr>) = i'"
    by (cases "int_hopLimit i") (simp_all add: i'_def received_def)
  have q: "onIncomingInterest env S now ingress i fw = processInterest env S now ingress i' fw0"
    unfolding onIncomingInterest_def Let_def fw0_def[symmetric] i
    using n by (auto simp: is_new_def i'_def fw0_def)
  have ok2: "fwd_ok env now {interest_key i'} fw2"
    unfolding fw2_def by (rule fwd_ok_cs) (use ins(1) cs_find_ok fwd_okD(3)[OF ins(1)] in \<open>simp_all add: c_def k'\<close>)
  have e2: "fw_entry fw2 (interest_key i') = Some (new_pit_entry i')" using ins(2) by (simp add: fw2_def k')
  have sc: "sc_view (fw_tables fw2) = sc_view (fw_tables fw)" and fib: "fib_at (fw_tables fw2) q = fib_at (fw_tables fw) q" for q
    using pit_insert_props(2)[OF fwd_okD(1)[OF ok0], of i'] by (simp_all add: sc_view_def fw2_def fw1_def fw0_def fun_eq_iff)
  have "int_nextHopFaceId i' = None" using n by (simp add: i'_def is_new_def)
  from contentStoreMiss_new[OF e2 this ok2, of ingress S] show ?thesis
    unfolding q p using f sc fib by (simp add: k' i'_def fw2_def fw1_def fw0_def)
qed

section \<open>Best route\<close>

text \<open>A face that may get the Interest: it is not the one it came from (unless that is an ad hoc link) and is in scope.\<close>

definition usable :: "face_table \<Rightarrow> face_id \<Rightarrow> interest \<Rightarrow> face_id \<Rightarrow> bool" where
  "usable ft ingress i f \<longleftrightarrow> (f = ingress \<longrightarrow> ft_linkType ft f = LINK_TYPE_AD_HOC) \<and> \<not> wouldViolateScope ft ingress i f"

lemma usable_received: "usable ft ingress (received f i) = usable ft ingress i"
  by (simp add: usable_def wouldViolateScope_def fun_eq_iff)

lemma sorted_find_min:
  assumes "sorted (map c xs)" and "find P xs = Some x" and "y \<in> set xs" and "P y"
  shows "c x \<le> c y"
  using assms by (induction xs) (auto split: if_splits)

lemma lookupFib_pending:
  assumes ok: "fwd_ok env now X fw" and k: "fw_entry fw (interest_key i) = Some (pending_entry now ingress i)" and h: "int_forwardingHint i = []"
  shows "fe_nextHops (lookupFib env (pending_entry now ingress i) fw) = route (fw_tables fw) (int_name i)"
proof -
  have "fib_findLongestPrefixMatch_pit (fwe_hash env) (pending_entry now ingress i) (fw_tables fw) =
      fib_findLongestPrefixMatch (fwe_hash env) (int_name i) (fw_tables fw)"
    using fib_lpm_pit[OF fwd_okD(1)[OF ok]] pit_deref_key[OF k] by fastforce
  then show ?thesis
    using h by (simp add: lookupFib_def fib_lpm_name[OF fwd_okD(1)[OF ok]] route_def s_emptyEntry_def mk_fib_entry_def split: option.split)
qed

lemma route_cases: "route tb n = [] \<or> (\<exists>q e. fib_at tb q = Some e \<and> route tb n = fe_nextHops e)"
proof (cases "longest_match (\<lambda>q. fib_at tb q \<noteq> None) n")
  case (Some q)
  then have "fib_at tb q \<noteq> None" unfolding longest_match_Some_iff by blast
  then obtain e where "fib_at tb q = Some e" by blast
  moreover have "route tb n = fe_nextHops e" unfolding route_def Some using calculation by simp
  ultimately show ?thesis by blast
qed (simp add: route_def)

lemma route_props:
  assumes ok: "fwd_ok env now X fw"
  shows "sorted (map nh_cost (route (fw_tables fw) n))" and "nh \<in> set (route (fw_tables fw) n) \<Longrightarrow> nh_face nh \<in> fw_faceIds fw"
proof -
  have e: "fib_entry_ok e \<and> (\<forall>nh\<in>set (fe_nextHops e). nh_face nh \<in> fw_faceIds fw)" if "fib_at (fw_tables fw) q = Some e" for q e
    using tables_okD(5)[OF fwd_okD(1)[OF ok], of q] fwd_okD(6)[OF ok that] that by (simp add: fib_slot_ok_def image_subset_iff)
  show "sorted (map nh_cost (route (fw_tables fw) n))" using e route_cases[of "fw_tables fw" n] unfolding fib_entry_ok_def by fastforce
  show "nh_face nh \<in> fw_faceIds fw" if "nh \<in> set (route (fw_tables fw) n)" using e route_cases[of "fw_tables fw" n] that by fastforce
qed

lemma usable_eligible:
  assumes "ft_ok ft" and "nh_face nh \<in> dom (ft_faces ft)"
  shows "isNextHopEligible ft ingress i nh pe False t \<longleftrightarrow> usable ft ingress i (nh_face nh)"
  using getId_eq[OF assms] by (auto simp: isNextHopEligible_def usable_def Let_def)

lemma best_route2_chooses:
  fixes i :: interest and ingress :: face_id
  assumes ok: "fwd_ok env now {} fw" and k: "fw_entry fw (interest_key i) = Some (pending_entry now ingress i)"
    and h: "int_forwardingHint i = []"
  shows "\<exists>fw1. best_route2_afterReceiveInterest env now ingress i (interest_key i) fw =
      (case find (\<lambda>nh. usable (fw_faceTable fw) ingress i (nh_face nh)) (route (fw_tables fw) (int_name i)) of
         None \<Rightarrow> rejectPendingInterest now (interest_key i) (sendNack (interest_key i) ingress NACK_NO_ROUTE fw1)
       | Some nh \<Rightarrow> sendInterest now (interest_key i) (nh_face nh) i fw1) \<and>
    fw_entry fw1 (interest_key i) = Some (pending_entry now ingress i) \<and> fw_sent fw1 = fw_sent fw \<and> fw_faceTable fw1 = fw_faceTable fw"
proof -
  let ?pe = "pending_entry now ingress i :: nfd_info pit_entry" and ?k = "interest_key i"
  let ?g = "\<lambda>pe. snd (exp_decidePerPitEntry RETX_SUPPRESSION now pe)"
  have d: "exp_decidePerPitEntry RETX_SUPPRESSION now ?pe = (RETX_NEW, ?pe)"
    by (simp add: exp_decidePerPitEntry_def hasPendingOutRecords_def)
  define fw1 where "fw1 = fw_pit ?k ?g fw"
  have e1: "fw_entry fw1 ?k = Some ?pe" by (simp add: fw1_def pit_modify_view decide_keeps k d)
  have ok1: "fwd_ok env now {} fw1" unfolding fw1_def by (rule fwd_ok_info[OF ok]) (simp_all add: decide_keeps decide_info)
  have rt: "route (fw_tables fw1) n = route (fw_tables fw) n" for n unfolding route_def fw1_def fw_simps pit_modify_frame ..
  have nhs: "fe_nextHops (lookupFib env ?pe fw1) = route (fw_tables fw) (int_name i)" using lookupFib_pending[OF ok1 e1 h] by (simp add: rt)
  have "find (\<lambda>nh. isNextHopEligible (fw_faceTable fw1) ingress i nh ?pe False time_point_min) (route (fw_tables fw) (int_name i)) =
      find (\<lambda>nh. usable (fw_faceTable fw) ingress i (nh_face nh)) (route (fw_tables fw) (int_name i))"
    by (rule find_cong[OF refl], unfold fw1_def fw_simps) (rule usable_eligible[OF fwd_okD(5)[OF ok] route_props(2)[OF ok]])
  then have "best_route2_afterReceiveInterest env now ingress i ?k fw =
      (case find (\<lambda>nh. usable (fw_faceTable fw) ingress i (nh_face nh)) (route (fw_tables fw) (int_name i)) of
         None \<Rightarrow> rejectPendingInterest now ?k (sendNack ?k ingress NACK_NO_ROUTE fw1)
       | Some nh \<Rightarrow> sendInterest now ?k (nh_face nh) i fw1)"
    unfolding best_route2_afterReceiveInterest_def k option.case Let_def fw1_def[symmetric] d prod.case nhs best_route2_new_def by simp
  then show ?thesis using e1 by (intro exI[of _ fw1]) (simp add: fw1_def)
qed

text \<open>
  The outcome: with a usable next hop, the Interest goes to the one with the lowest cost and the entry
  stays pending, unless its HopLimit is used up and the next hop is not local; without one, the
  downstream gets a Nack if its link is point-to-point, and the entry is due at once.
\<close>

definition forwarded ::
  "time_point \<Rightarrow> face_id \<Rightarrow> interest \<Rightarrow> nexthop \<Rightarrow> 'i forwarder \<Rightarrow> 'i forwarder \<Rightarrow> bool" where
  "forwarded now ingress i nh fw fw' \<longleftrightarrow>
     (let ft = fw_faceTable fw; out = i\<lparr>int_pitToken := None\<rparr>; pe = pending_entry now ingress i
      in nh \<in> set (route (fw_tables fw) (int_name i)) \<and> usable ft ingress i (nh_face nh) \<and>
         (\<forall>nh'\<in>set (route (fw_tables fw) (int_name i)). usable ft ingress i (nh_face nh') \<longrightarrow> nh_cost nh \<le> nh_cost nh') \<and>
         (if int_hopLimit i = Some 0 \<and> ft_scope ft (nh_face nh) = FACE_SCOPE_NON_LOCAL
          then fw_sent fw' = fw_sent fw \<and> fw_entry fw' (interest_key i) = Some pe
          else fw_sent fw' = fw_sent fw @ [(nh_face nh, PktInterest out)] \<and>
               fw_entry fw' (interest_key i) = Some (insertOrUpdateOutRecord now (nh_face nh) out pe)))"

definition no_route :: "time_point \<Rightarrow> face_id \<Rightarrow> interest \<Rightarrow> 'i forwarder \<Rightarrow> 'i forwarder \<Rightarrow> bool" where
  "no_route now ingress i fw fw' \<longleftrightarrow>
     (\<forall>nh\<in>set (route (fw_tables fw) (int_name i)). \<not> usable (fw_faceTable fw) ingress i (nh_face nh)) \<and>
     fw_sent fw' = fw_sent fw @
       (if ft_linkType (fw_faceTable fw) ingress = LINK_TYPE_POINT_TO_POINT
        then [(ingress, PktNack \<lparr>nack_interest = i, nack_reason = NACK_NO_ROUTE\<rparr>)] else []) \<and>
     map_option pe_expiryTimer (fw_entry fw' (interest_key i)) = Some (Some now)"

lemma sendInterest_eq: "sendInterest now k f i fw = onOutgoingInterest now k f (i\<lparr>int_pitToken := None\<rparr>) fw"
proof (cases "int_pitToken i = None")
  case True
  then have "i\<lparr>int_pitToken := None\<rparr> = i" by (cases i) simp
  then show ?thesis unfolding sendInterest_def using True by metis
qed (simp add: sendInterest_def)

lemma sendInterest_effect:
  assumes k: "fw_entry fw k = Some pe"
  shows "if int_hopLimit i = Some 0 \<and> ft_scope (fw_faceTable fw) f = FACE_SCOPE_NON_LOCAL
    then fw_sent (sendInterest now k f i fw) = fw_sent fw \<and> fw_entry (sendInterest now k f i fw) k = Some pe
    else fw_sent (sendInterest now k f i fw) = fw_sent fw @ [(f, PktInterest (i\<lparr>int_pitToken := None\<rparr>))] \<and>
      fw_entry (sendInterest now k f i fw) k = Some (insertOrUpdateOutRecord now f (i\<lparr>int_pitToken := None\<rparr>) pe)"
  using k by (simp add: sendInterest_eq onOutgoingInterest_def Let_def pit_modify_view)

lemma sendNack_effect:
  fixes fw :: "'i forwarder"
  assumes ft: "ft_ok (fw_faceTable fw)" and f: "ingress \<in> fw_faceIds fw"
    and k: "fw_entry fw (interest_key i) = Some (pending_entry now ingress i)"
  shows "fw_sent (sendNack (interest_key i) ingress reason fw) = fw_sent fw @
      (if ft_linkType (fw_faceTable fw) ingress = LINK_TYPE_POINT_TO_POINT
       then [(ingress, PktNack \<lparr>nack_interest = i, nack_reason = reason\<rparr>)] else [])"
    and "\<exists>pe. fw_entry (sendNack (interest_key i) ingress reason fw) (interest_key i) = Some pe"
proof -
  have id: "ft_getId (fw_faceTable fw) ingress \<noteq> INVALID_FACEID" using ft_ok_id[OF ft f] f by (auto simp: ft_getId_def INVALID_FACEID_def)
  have r: "getInRecord (pending_entry now ingress i :: 'i pit_entry) ingress = Some (inRecord_update now i (mk_in_record ingress))"
    by (simp add: getInRecord_def inRecord_update_def mk_in_record_def faceRecord_update_def)
  have i: "ir_interest (inRecord_update now i (mk_in_record ingress) :: 'i in_record) = Some i" by (simp add: inRecord_update_def)
  show "fw_sent (sendNack (interest_key i) ingress reason fw) = fw_sent fw @
      (if ft_linkType (fw_faceTable fw) ingress = LINK_TYPE_POINT_TO_POINT
       then [(ingress, PktNack \<lparr>nack_interest = i, nack_reason = reason\<rparr>)] else [])"
    and "\<exists>pe. fw_entry (sendNack (interest_key i) ingress reason fw) (interest_key i) = Some pe"
    using id r i by (simp_all add: sendNack_def onOutgoingNack_def k Let_def pit_modify_view)
qed

lemma best_route2_outcome:
  fixes i :: interest and ingress :: face_id
  assumes ok: "fwd_ok env now {} fw" and f: "ingress \<in> fw_faceIds fw" and n: "is_new env now ingress i fw"
    and s: "effective (sc_view (fw_tables fw)) (int_name i) = Some s" "S s = best_route2_ops env"
  defines "fw' \<equiv> onIncomingInterest env S now ingress i fw"
  shows "(\<exists>nh. forwarded now ingress (received ingress i) nh fw fw') \<or> no_route now ingress (received ingress i) fw fw'"
proof -
  let ?i = "received ingress i" and ?k = "interest_key i"
  obtain fw2 where 2: "fw' = best_route2_afterReceiveInterest env now ingress ?i ?k fw2"
    "fw_entry fw2 ?k = Some (pending_entry now ingress ?i)" "fwd_ok env now {} fw2"
    "\<And>n. fib_at (fw_tables fw2) n = fib_at (fw_tables fw) n" "fw_sent fw2 = fw_sent fw" "fw_faceTable fw2 = fw_faceTable fw"
    using incomingInterest_new[OF ok f n, of S] s by (auto simp: fw'_def best_route2_ops_def base_ops_def)
  let ?R = "route (fw_tables fw) (int_name i)" and ?U = "\<lambda>nh. usable (fw_faceTable fw) ingress ?i (nh_face nh)"
  have rt: "route (fw_tables fw2) n = route (fw_tables fw) n" for n unfolding route_def 2(4) ..
  have h: "int_forwardingHint ?i = []" using n by (simp add: is_new_def)
  obtain fw1 where 1: "fw' = (case find ?U ?R of None \<Rightarrow> rejectPendingInterest now ?k (sendNack ?k ingress NACK_NO_ROUTE fw1)
       | Some nh \<Rightarrow> sendInterest now ?k (nh_face nh) ?i fw1)"
    "fw_entry fw1 ?k = Some (pending_entry now ingress ?i)" "fw_sent fw1 = fw_sent fw" "fw_faceTable fw1 = fw_faceTable fw"
    using best_route2_chooses[OF 2(3) _ h, of ingress, unfolded received_simps rt 2(5,6) 2(1)[symmetric], OF 2(2)] by blast
  show ?thesis
  proof (cases "find ?U ?R")
    case None
    have "\<forall>nh\<in>set ?R. \<not> ?U nh" using None by (simp add: find_None_iff)
    then have "no_route now ingress ?i fw fw'"
      using sendNack_effect[of fw1 ingress ?i now NACK_NO_ROUTE] 1 fwd_okD(5)[OF ok] f
      by (auto simp: no_route_def None rejectPendingInterest_def)
    then show ?thesis by blast
  next
    case (Some nh)
    have "nh \<in> set ?R" "?U nh" using Some by (auto simp: find_Some_iff)
    moreover have "\<forall>nh'\<in>set ?R. ?U nh' \<longrightarrow> nh_cost nh \<le> nh_cost nh'" using sorted_find_min[OF route_props(1)[OF ok] Some] by blast
    ultimately have "forwarded now ingress ?i nh fw fw'"
      using sendInterest_effect[OF 1(2), of ?i "nh_face nh" now] 1 by (auto simp: forwarded_def Let_def Some)
    then show ?thesis by blast
  qed
qed

section \<open>Interest and Data\<close>

lemma emits_same: "emits fw fw' \<Longrightarrow> same_faces (fw_faceTable fw) (fw_faceTable fw')"
  unfolding emits_def by blast

lemma forwarded_delivers:
  fixes i :: interest and ingress :: face_id and d :: data
  assumes ok: "fwd_ok env now {} fw'" and C: "all_contracts env S" and b: "uses_base env S" and law: "face_order_law env"
    and e: "fw_entry fw' (interest_key i) = Some (insertOrUpdateOutRecord now upstream out (pending_entry now ingress i))"
    and up: "upstream = ingress \<longrightarrow> ft_linkType (fw_faceTable fw') ingress = LINK_TYPE_AD_HOC"
    and t: "now \<le> t" "t < now + ms (min (int_lifetime i) MAX_LIFETIME)"
    and sc: "\<forall>f\<in>{upstream, ingress}. \<not> (ft_scope (fw_faceTable fw') f = FACE_SCOPE_NON_LOCAL \<and> prefix LOCALHOST (data_name d))"
  defines "d' \<equiv> d\<lparr>data_incomingFaceId := Some upstream\<rparr>"
  assumes m: "\<And>i. fwe_matchesData env i d' \<Longrightarrow> prefix (int_name i) (data_fullName d')" and i: "fwe_matchesData env i d'"
  shows "\<exists>tok. (ingress, PktData (d'\<lparr>data_pitToken := tok\<rparr>)) \<in> set (drop (length (fw_sent fw')) (fw_sent (onIncomingData env S t upstream d fw')))"
proof -
  let ?k = "interest_key i" and ?pe = "insertOrUpdateOutRecord now upstream out (pending_entry now ingress i)"
  have okt: "fwd_ok env t {} fw'" by (rule fwd_ok_mono[OF ok t(1)]) simp
  have k: "?k \<in> data_matches env d' fw'" unfolding data_matches_def using e i by (simp add: pit_entry_ok_records)
  have "ingress \<in> waiting t (fw_faceTable fw') upstream ?pe"
    unfolding waiting_def using up t(2)
    by (simp add: inRecord_update_def mk_in_record_def faceRecord_update_def) blast
  then have w: "ingress \<in> (\<Union>k\<in>data_matches env d' fw'. waiting t (fw_faceTable fw') upstream (the (fw_entry fw' k)))"
    using k e by (intro UN_I[OF k]) simp
  have s: "\<not> (ft_scope (fw_faceTable fw') upstream = FACE_SCOPE_NON_LOCAL \<and> prefix LOCALHOST (data_name d))" using sc by simp
  have "delivers t upstream d' (data_matches env d' fw') fw' (onIncomingData env S t upstream d fw')"
    unfolding d'_def by (rule incomingData_delivers[OF okt law b C s]) (rule m[unfolded d'_def])
  then obtain new where new: "fw_sent (onIncomingData env S t upstream d fw') = fw_sent fw' @ new"
    "fst ` set new = {f \<in> \<Union>k\<in>data_matches env d' fw'. waiting t (fw_faceTable fw') upstream (the (fw_entry fw' k)).
       \<not> (ft_scope (fw_faceTable fw') f = FACE_SCOPE_NON_LOCAL \<and> prefix LOCALHOST (data_name d'))}"
    "\<forall>(f, p)\<in>set new. \<exists>tok. p = PktData (d'\<lparr>data_pitToken := tok\<rparr>)"
    unfolding delivers_def Let_def by blast
  have "data_name d' = data_name d" by (simp add: d'_def)
  then have "ingress \<in> fst ` set new" unfolding new(2) using w sc by (intro CollectI conjI) simp_all
  then obtain p where "(ingress, p) \<in> set new" by auto
  then show ?thesis using new(1,3) by auto
qed

text \<open>The next hop a new Interest takes when it has one and hops left.\<close>

lemma forwarded_to:
  fixes i :: interest and ingress :: face_id
  assumes ok: "fwd_ok env now {} fw" and f: "ingress \<in> fw_faceIds fw" and n: "is_new env now ingress i fw"
    and s: "effective (sc_view (fw_tables fw)) (int_name i) = Some s" "S s = best_route2_ops env"
    and hop: "int_hopLimit i \<noteq> Some 1"
    and nh: "nh0 \<in> set (route (fw_tables fw) (int_name i))" "usable (fw_faceTable fw) ingress i (nh_face nh0)"
  defines "fw' \<equiv> onIncomingInterest env S now ingress i fw" and "out \<equiv> (received ingress i)\<lparr>int_pitToken := None\<rparr>"
  shows "\<exists>nh\<in>set (route (fw_tables fw) (int_name i)). usable (fw_faceTable fw) ingress i (nh_face nh) \<and> nh_cost nh \<le> nh_cost nh0 \<and>
    fw_sent fw' = fw_sent fw @ [(nh_face nh, PktInterest out)] \<and>
    fw_entry fw' (interest_key i) = Some (insertOrUpdateOutRecord now (nh_face nh) out (pending_entry now ingress (received ingress i)))"
proof -
  have "\<not> no_route now ingress (received ingress i) fw fw'" using nh by (auto simp: no_route_def usable_received)
  then obtain nh where nh: "forwarded now ingress (received ingress i) nh fw fw'"
    using best_route2_outcome[OF ok f n s(1), where S = S, OF s(2)] unfolding fw'_def by blast
  moreover have "int_hopLimit (received ingress i) \<noteq> Some 0" using hop n by (cases "int_hopLimit i") (auto simp: received_def is_new_def)
  ultimately show ?thesis using assms(7,8) by (intro bexI[of _ nh]) (auto simp: forwarded_def out_def Let_def usable_received)
qed

end
