(* ===== verification/Forwarder_Examples.thy ===== *)
theory Forwarder_Examples
  imports Interest_Forwarding
begin

text \<open>
  Concrete forwarders, on which the properties of the forwarder are shown to apply: values for the
  parameters that stand for ndn-cxx, the forwarder the constructor builds with them, with faces and
  with a route, and a short run.
\<close>

section \<open>Parameters\<close>

fun nack_rank :: "nack_reason \<Rightarrow> nat" where
  "nack_rank NACK_CONGESTION = 50" | "nack_rank NACK_DUPLICATE = 100" | "nack_rank NACK_NO_ROUTE = 150"
| "nack_rank NACK_NONE = 1000"

definition fwd_env_example :: fwd_env where
  "fwd_env_example =
     \<lparr>fwe_hash = (\<lambda>_. 7), fwe_matchesData = (\<lambda>i d. int_name i = data_name d), fwe_getSuccessor = name_successor,
      fwe_wireEncode = (\<lambda>_. ''wire''), fwe_isLessSevere = (\<lambda>a b. nack_rank a < nack_rank b), fwe_faceOrder = id\<rparr>"

definition senv_example :: strategy_env where
  "senv_example = nfd_registry
     \<lparr>env_registry = [], env_isVersion = (\<lambda>c. take 1 (comp_value c) = [CHR 0xFD]),
      env_toVersion = (\<lambda>c. of_char (last (comp_value c))), env_getSuccessor = name_successor\<rparr>"

lemma create_default_example:
  "strategy_create senv_example getDefaultStrategyName = Some (Inr \<lparr>st_instanceName = best_route2_name\<rparr>)"
  by (simp add: strategy_create_def strategy_find_def senv_example_def nfd_registry_def registerType_def Let_def
      parseInstanceName_def reg_lower_bound_def best_route_ctor_def best_route2_ctor_def multicast_ctor_def
      random_ctor_def plain_strategy_ctor_def makeInstanceName_def getDefaultStrategyName_def strategy_name_def
      best_route_name_def best_route2_name_def multicast_name_def random_name_def
      less_eq_component_def less_component_def component_key_def less_eq_char_def less_char_def)

lemma example_forwarder:
  "\<exists>fw0 :: 'i forwarder. mk_forwarder fwd_env_example senv_example 0 = Some fw0 \<and> fw_faceTable fw0 = mk_face_table \<and>
     fw_sent fw0 = [] \<and> fw_cs fw0 = mk_cs 10 \<and> set (dnl_queue (fw_deadNonceList fw0)) \<subseteq> {MARK} \<and> (\<forall>k. fw_entry fw0 k = None) \<and> (\<forall>n. fib_at (fw_tables fw0) n = None) \<and>
     sc_view (fw_tables fw0) = [[] \<mapsto> \<lparr>st_instanceName = best_route2_name\<rparr>] \<and> fwd_ok fwd_env_example 0 {} fw0"
proof -
  let ?t = "mk_tables 1024 :: 'i tables"
  have e: "nt_slots (nameTree ?t) n = no_slots" for n by (simp add: mk_tables_def mk_name_tree_def map_slots_def)
  have t: "tables_ok (fwe_hash fwd_env_example) ?t" by (rule tables_ok_mk) simp
  obtain tb where tb: "sc_setDefaultStrategy (fwe_hash fwd_env_example) senv_example getDefaultStrategyName ?t = Some tb"
    "sc_view tb = [[] \<mapsto> \<lparr>st_instanceName = best_route2_name\<rparr>]" "fib_at tb = fib_at ?t" "pit_at tb = pit_at ?t"
    using sc_setDefault_props[OF t _ create_default_example] e by (auto simp: no_slots_def)
  obtain d where d: "mk_dnl 0 DEFAULT_LIFETIME = Some d" "set (dnl_queue d) \<subseteq> {MARK}"
    by (simp add: mk_dnl_def DEFAULT_LIFETIME_def MIN_LIFETIME_def ms_def set_replicate_conv_if)
  have k: "pit_deref tb k = None" for k using tb(4) by (simp add: pit_deref_def e no_slots_def fun_eq_iff)
  have n: "fib_at tb n = None" for n using tb(3) by (simp add: e no_slots_def fun_eq_iff)
  let ?fw = "\<lparr>fw_counters = zero_counters, fw_faceTable = mk_face_table, fw_unsolicitedDataPolicy = DropAll,
                fw_tables = tb, fw_cs = mk_cs 10, fw_deadNonceList = d, fw_networkRegionTable = [], fw_sent = []\<rparr>"
  have mk: "mk_forwarder fwd_env_example senv_example 0 = Some ?fw" by (simp add: mk_forwarder_def tb(1) d(1))
  show ?thesis
    by (rule exI[of _ ?fw]) (use mk mk_forwarder_ok[OF mk] k n tb(2) d(2) in simp)
qed

lemma nfd_strategies_contract:
  assumes "\<And>nhs. set (shuffle nhs) = set nhs"
  shows "all_contracts env (nfd_strategies shuffle env)"
proof -
  have "strategy_contract env (best_route_ops env :: nfd_info strategy_ops)" by (rule best_route.strategy_contract_axioms)
  then show ?thesis
    unfolding all_contracts_def nfd_strategies_def
    using best_route2.strategy_contract_axioms multicast.strategy_contract_axioms random_contract[OF assms] by simp
qed

lemma nfd_default: "nfd_strategies shuffle env \<lparr>st_instanceName = best_route2_name\<rparr> = best_route2_ops env"
  by (simp add: nfd_strategies_def best_route_name_def best_route2_name_def multicast_name_def random_name_def strategy_name_def)

lemma face_order_example: "face_order_law fwd_env_example"
  by (simp add: face_order_law_def fwd_env_example_def)

definition p2p_face :: "FaceScope \<Rightarrow> face" where
  "p2p_face sc = \<lparr>face_scope = sc, face_linkType = LINK_TYPE_POINT_TO_POINT, face_nInHopLimitZero = 0, face_nOutHopLimitZero = 0\<rparr>"

definition example_events :: "(time_point \<times> fwd_event) list" where
  "example_events =
     [(1, EvAddFace (p2p_face FACE_SCOPE_LOCAL)), (2, EvAddFace (p2p_face FACE_SCOPE_NON_LOCAL)),
      (3, EvInterest 256 (mk_interest [generic_comp ''a''] 7)), (4, EvNack 257 \<lparr>nack_interest = mk_interest [generic_comp ''a''] 7, nack_reason = NACK_NO_ROUTE\<rparr>)]"

lemma example_run:
  fixes fw0 :: "nfd_info forwarder"
  assumes "mk_forwarder fwd_env_example senv_example 0 = Some fw0" and "fw_faceTable fw0 = mk_face_table"
  shows "\<exists>fw. fwd_run fwd_env_example senv_example (nfd_strategies id fwd_env_example) example_events 0 fw0 = Some (4, fw)
     \<and> fwd_enabled 5 (EvData 257 (mk_data [generic_comp ''a''] ''d'' 0)) fw"
proof -
  let ?S = "nfd_strategies id fwd_env_example" and ?env = fwd_env_example
  let ?i = "mk_interest [generic_comp ''a''] 7"
  have C: "all_contracts ?env ?S" by (rule nfd_strategies_contract) simp
  define fw1 where "fw1 = fwd_exec ?env senv_example ?S 1 (EvAddFace (p2p_face FACE_SCOPE_LOCAL)) fw0"
  define fw2 where "fw2 = fwd_exec ?env senv_example ?S 2 (EvAddFace (p2p_face FACE_SCOPE_NON_LOCAL)) fw1"
  define fw3 where "fw3 = fwd_exec ?env senv_example ?S 3 (EvInterest 256 ?i) fw2"
  define fw4 where "fw4 = fwd_exec ?env senv_example ?S 4 (EvNack 257 \<lparr>nack_interest = ?i, nack_reason = NACK_NO_ROUTE\<rparr>) fw3"
  have F2: "fw_faceIds fw2 = {256, 257}"
    by (simp add: fw2_def fw1_def assms(2) ft_add_def ft_addImpl_def mk_face_table_def FACEID_RESERVED_MAX_def Let_def) auto
  have "fwd_run ?env senv_example ?S (take 2 example_events) 0 fw0 = Some (2, fw2)"
    by (simp add: example_events_def fw1_def fw2_def)
  from fwd_run_ok[OF mk_forwarder_ok[OF assms(1)] C this] have "fwd_ok ?env 2 {} fw2" .
  then have ok2: "fwd_ok ?env 3 {} fw2" by (rule fwd_ok_mono) simp_all
  have s3: "step_ok ?env 3 fw2 fw3" unfolding fw3_def fwd_exec.simps by (rule incomingInterest_step[OF ok2 _ C]) (simp add: F2)
  then have F3: "fw_faceIds fw3 = {256, 257}" using emits_ids[OF step_okD(2)[OF s3]] F2 by simp
  have ok3: "fwd_ok ?env 4 {} fw3" by (rule fwd_ok_mono[OF step_okD(1)[OF s3]]) simp_all
  have s4: "step_ok ?env 4 fw3 fw4" unfolding fw4_def fwd_exec.simps by (rule incomingNack_step[OF ok3 C])
  then have F4: "fw_faceIds fw4 = {256, 257}" using emits_ids[OF step_okD(2)[OF s4]] F3 by simp
  have en: "fwd_enabled 3 (EvInterest 256 ?i) fw2" "fwd_enabled 4 (EvNack 257 \<lparr>nack_interest = ?i, nack_reason = NACK_NO_ROUTE\<rparr>) fw3"
    "fwd_enabled 5 (EvData 257 (mk_data [generic_comp ''a''] ''d'' 0)) fw4"
    unfolding fwd_enabled.simps F2 F3 F4 by simp_all
  have "fwd_run ?env senv_example ?S example_events 0 fw0 = Some (4, fw4)"
    unfolding example_events_def fwd_run.simps fw1_def[symmetric] fw2_def[symmetric] fw3_def[symmetric] fw4_def[symmetric]
    using en(1,2) by simp
  then show ?thesis using en(3) by blast
qed

text \<open>A forwarder with two faces and a route for \<open>/a\<close>, and an Interest that is new to it.\<close>

definition two_faces :: face_table where
  "two_faces = snd (ft_add INVALID_FACEID (p2p_face FACE_SCOPE_NON_LOCAL)
     (snd (ft_add INVALID_FACEID (p2p_face FACE_SCOPE_LOCAL) mk_face_table)))"

lemma two_faces_simps:
  "dom (ft_faces two_faces) = {256, 257}" "ft_scope two_faces 256 = FACE_SCOPE_LOCAL" "ft_scope two_faces 257 = FACE_SCOPE_NON_LOCAL"
  "ft_linkType two_faces 256 = LINK_TYPE_POINT_TO_POINT" "ft_linkType two_faces 257 = LINK_TYPE_POINT_TO_POINT" "ft_ok two_faces"
proof -
  have e: "two_faces = \<lparr>ft_lastFaceId = 257, ft_faces = [256 \<mapsto> p2p_face FACE_SCOPE_LOCAL, 257 \<mapsto> p2p_face FACE_SCOPE_NON_LOCAL]\<rparr>"
    by (simp add: two_faces_def ft_add_def ft_addImpl_def mk_face_table_def FACEID_RESERVED_MAX_def Let_def)
  show "dom (ft_faces two_faces) = {256, 257}" by (auto simp: e)
  show "ft_scope two_faces 256 = FACE_SCOPE_LOCAL" "ft_scope two_faces 257 = FACE_SCOPE_NON_LOCAL"
    "ft_linkType two_faces 256 = LINK_TYPE_POINT_TO_POINT" "ft_linkType two_faces 257 = LINK_TYPE_POINT_TO_POINT"
    by (simp_all add: e ft_face_def p2p_face_def)
  show "ft_ok two_faces" by (simp add: e ft_ok_def INVALID_FACEID_def FACEID_RESERVED_MAX_def)
qed

abbreviation example_interest :: interest where
  "example_interest \<equiv> mk_interest [generic_comp ''a''] 7"

definition add_faces :: "(time_point \<times> fwd_event) list" where
  "add_faces = [(0, EvAddFace (p2p_face FACE_SCOPE_LOCAL)), (0, EvAddFace (p2p_face FACE_SCOPE_NON_LOCAL))]"

lemma faced_forwarder:
  "\<exists>fw0 fw :: nfd_info forwarder. mk_forwarder fwd_env_example senv_example 0 = Some fw0 \<and>
     fwd_run fwd_env_example senv_example (nfd_strategies id fwd_env_example) add_faces 0 fw0 = Some (0, fw) \<and>
     fwd_ok fwd_env_example 0 {} fw \<and> fw_faceTable fw = two_faces \<and> fw_sent fw = [] \<and>
     (\<forall>k. fw_entry fw k = None) \<and> (\<forall>n. fib_at (fw_tables fw) n = None) \<and>
     sc_view (fw_tables fw) = [[] \<mapsto> \<lparr>st_instanceName = best_route2_name\<rparr>] \<and> is_new fwd_env_example 0 256 example_interest fw"
proof -
  let ?env = fwd_env_example
  obtain fw0 :: "nfd_info forwarder" where 0: "fw_faceTable fw0 = mk_face_table" "fw_sent fw0 = []" "fw_cs fw0 = mk_cs 10"
    "set (dnl_queue (fw_deadNonceList fw0)) \<subseteq> {MARK}" "\<And>k. fw_entry fw0 k = None" "\<And>n. fib_at (fw_tables fw0) n = None"
    "sc_view (fw_tables fw0) = [[] \<mapsto> \<lparr>st_instanceName = best_route2_name\<rparr>]" "fwd_ok ?env 0 {} fw0"
    "mk_forwarder ?env senv_example 0 = Some fw0"
    using example_forwarder by blast
  let ?fw = "fw0\<lparr>fw_faceTable := two_faces\<rparr>"
  have r: "fwd_run ?env senv_example (nfd_strategies id ?env) add_faces 0 fw0 = Some (0, ?fw)"
    by (simp add: add_faces_def two_faces_def 0(1))
  have ok: "fwd_ok ?env 0 {} ?fw" by (rule fwd_ok_moreFaces[OF 0(8)]) (simp_all add: two_faces_simps 0(1) mk_face_table_def)
  have "makeEntry (\<lambda>_. ''wire'') [] 7 \<noteq> 0" by code_simp
  then have "\<not> dnl_has (\<lambda>_. ''wire'') [generic_comp ''a''] 7 (fw_deadNonceList fw0)"
    using 0(4) by (auto simp: dnl_has_def makeEntry_def MARK_def)
  then have "is_new ?env 0 256 example_interest ?fw"
    using 0(5) by (simp add: is_new_def mk_interest_def two_faces_simps 0(3) fwd_env_example_def cs_find_def cs_findImpl_def mk_cs_def
        cs_setLimit_def evictEntries_def cs_findPrefixRange_def table_slice_def Let_def)
  then show ?thesis by (intro exI[of _ fw0] exI[of _ ?fw]) (use 0 r ok in simp)
qed

lemma routed_forwarder:
  "\<exists>fw :: nfd_info forwarder. fwd_ok fwd_env_example 0 {} fw \<and> fw_faceTable fw = two_faces \<and> fw_sent fw = [] \<and>
     (\<forall>k. fw_entry fw k = None) \<and> nh_face ` set (route (fw_tables fw) [generic_comp ''a'']) = {257} \<and>
     effective (sc_view (fw_tables fw)) [generic_comp ''a''] = Some \<lparr>st_instanceName = best_route2_name\<rparr> \<and>
     is_new fwd_env_example 0 256 example_interest fw \<and> fib_at (fw_tables fw) [generic_comp ''a''] \<noteq> None"
proof -
  let ?env = fwd_env_example and ?n = "[generic_comp ''a'']"
  obtain fw0 :: "nfd_info forwarder" where 0: "fwd_ok ?env 0 {} fw0" "fw_faceTable fw0 = two_faces" "fw_sent fw0 = []"
    "\<And>k. fw_entry fw0 k = None" "\<And>n. fib_at (fw_tables fw0) n = None"
    "sc_view (fw_tables fw0) = [[] \<mapsto> \<lparr>st_instanceName = best_route2_name\<rparr>]" "is_new ?env 0 256 example_interest fw0"
    using faced_forwarder by blast
  define tb where "tb = fib_exec (fwe_hash ?env) (FibInsert ?n) (fw_tables fw0)"
  define tb' where "tb' = fib_exec (fwe_hash ?env) (FibAddOrUpdate ?n 257 10) tb"
  let ?fw = "fw0\<lparr>fw_tables := tb'\<rparr>"
  have t0: "tables_ok (fwe_hash ?env) (fw_tables fw0)" by (rule fwd_okD(1)[OF 0(1)])
  have a0: "fib_allowed (FibInsert ?n) (fib_view (fw_tables fw0))" by (simp add: getMaxDepth_def)
  note r0 = fib_exec_refines[OF t0 a0, folded tb_def] and f0 = fib_exec_frame[OF t0 a0, folded tb_def]
  have v0: "fib_view (fw_tables fw0) = Map.empty" using 0(5) by (simp add: fib_view_def fun_eq_iff)
  then have a1: "fib_allowed (FibAddOrUpdate ?n 257 10) (fib_view tb)" using r0 by (simp add: spec_fib_insert_def)
  note r1 = fib_exec_refines[OF conjunct1[OF r0] a1, folded tb'_def] and f1 = fib_exec_frame[OF conjunct1[OF r0] a1, folded tb'_def]
  have v1: "fib_view tb' = [?n \<mapsto> [257 \<mapsto> 10]]" using r0 r1 v0 by (simp add: spec_fib_insert_def spec_fib_add_def)
  have "fwd_ok ?env 0 {} (fw0\<lparr>fw_tables := tb\<rparr>)" using fib_op_fwd[OF 0(1), of "FibInsert ?n"] a0 by (simp add: tb_def)
  from fib_op_fwd[OF this, of "FibAddOrUpdate ?n 257 10"] have ok: "fwd_ok ?env 0 {} ?fw"
    using a1 by (simp add: tb'_def two_faces_simps 0(2))
  have pit: "fw_entry ?fw k = None" for k using 0(4)[of k] f0 f1 by (simp add: pit_deref_def)
  have sc: "sc_view tb' = sc_view (fw_tables fw0)" using f0 f1 by (simp add: sc_view_def fun_eq_iff)
  obtain e where e: "fib_at tb' ?n = Some e" "fe_costs e = [257 \<mapsto> 10]"
    using fib_view_Some[of tb' ?n "[257 \<mapsto> 10]"] unfolding v1 by auto
  have "longest_match (\<lambda>q. fib_at tb' q \<noteq> None) ?n = Some ?n" unfolding longest_match_def using e(1) by simp
  then have "route tb' ?n = fe_nextHops e" unfolding route_def by (simp add: e(1))
  then have rt: "nh_face ` set (route tb' ?n) = {257}" using arg_cong[OF e(2), of dom] by (simp add: costs_dom)
  have new: "is_new ?env 0 256 example_interest ?fw" using 0(7) pit unfolding is_new_def by simp
  show ?thesis
    by (rule exI[of _ ?fw]) (use ok pit rt new sc e(1) 0(2,3,6) in \<open>simp add: effective_def longest_match_def\<close>)
qed

lemma pending_forwarder:
  "\<exists>fw :: nfd_info forwarder. fwd_ok fwd_env_example 0 {} fw \<and> same_faces two_faces (fw_faceTable fw) \<and>
     fw_entry fw (interest_key example_interest) =
       Some (insertOrUpdateOutRecord 0 257 ((received 256 example_interest)\<lparr>int_pitToken := None\<rparr>)
         (pending_entry 0 256 (received 256 example_interest)))"
proof -
  let ?env = fwd_env_example and ?S = "nfd_strategies id fwd_env_example"
  obtain fw :: "nfd_info forwarder" where fw: "fwd_ok ?env 0 {} fw" "fw_faceTable fw = two_faces"
    "nh_face ` set (route (fw_tables fw) [generic_comp ''a'']) = {257}" "is_new ?env 0 256 example_interest fw"
    "effective (sc_view (fw_tables fw)) [generic_comp ''a''] = Some \<lparr>st_instanceName = best_route2_name\<rparr>"
    using routed_forwarder by blast
  have i: "int_name example_interest = [generic_comp ''a'']" "int_hopLimit example_interest \<noteq> Some 1" by (simp_all add: mk_interest_def)
  have f: "256 \<in> fw_faceIds fw" by (simp add: fw(2) two_faces_simps)
  have u: "usable two_faces 256 example_interest 257" by (simp add: usable_def wouldViolateScope_def i LOCALHOST_def LOCALHOP_def two_faces_simps)
  obtain nh0 where "nh0 \<in> set (route (fw_tables fw) (int_name example_interest))" "usable (fw_faceTable fw) 256 example_interest (nh_face nh0)"
    using fw(2,3) u i(1) by force
  note to = forwarded_to[where S = ?S, OF fw(1) f fw(4) _ nfd_default i(2) this]
  let ?fw' = "onIncomingInterest ?env ?S 0 256 example_interest fw"
  have "\<exists>nh\<in>set (route (fw_tables fw) [generic_comp ''a'']). fw_entry ?fw' (interest_key example_interest) =
       Some (insertOrUpdateOutRecord 0 (nh_face nh) ((received 256 example_interest)\<lparr>int_pitToken := None\<rparr>)
         (pending_entry 0 256 (received 256 example_interest)))"
    using to fw(5) unfolding i(1) by blast
  then obtain nh where e: "nh \<in> set (route (fw_tables fw) [generic_comp ''a''])"
    "fw_entry ?fw' (interest_key example_interest) =
       Some (insertOrUpdateOutRecord 0 (nh_face nh) ((received 256 example_interest)\<lparr>int_pitToken := None\<rparr>)
         (pending_entry 0 256 (received 256 example_interest)))" ..
  have "nh_face nh = 257" using e(1) fw(3) by auto
  have C: "all_contracts ?env ?S" by (rule nfd_strategies_contract) simp
  note st = incomingInterest_step[OF fw(1) f C, of example_interest]
  have "same_faces two_faces (fw_faceTable ?fw')" using emits_same[OF step_okD(2)[OF st]] fw(2) by simp
  then show ?thesis
    using step_okD(1)[OF st] e(2)[unfolded \<open>nh_face nh = 257\<close>] by (intro exI[of _ ?fw'] conjI)
qed

lemma matches_prefix_example: "fwe_matchesData fwd_env_example i d \<Longrightarrow> prefix (int_name i) (data_fullName d)"
  by (simp add: fwd_env_example_def data_fullName_def)

abbreviation example_data :: data where
  "example_data \<equiv> mk_data [generic_comp ''a''] ''d'' 0"

lemma example_matches: "fwe_matchesData fwd_env_example (received 256 example_interest) (example_data\<lparr>data_incomingFaceId := f\<rparr>)"
  by (simp add: fwd_env_example_def mk_data_def mk_interest_def)

end
