(* ===== verification/Forwarder_Properties.thy ===== *)
theory Forwarder_Properties
  imports Forwarder_Examples
begin

text \<open>
  Properties of the forwarder as a whole: its invariant, scope control, expiry of PIT entries, loop
  detection, delivery of Data, forwarding by the default strategy, Nacks, and the announcement of new
  next hops.
\<close>

section \<open>Runs of the forwarder\<close>

lemma finalize_removes:
  assumes ok: "fwd_ok env now X fw"
  shows "fw_entry (onInterestFinalize env k fw) k = None"
proof (cases "fw_entry fw k")
  case (Some pe)
  let ?f = "pe_expiryTimer_update (\<lambda>_. None) :: 'a pit_entry \<Rightarrow> 'a pit_entry"
  have tb: "tables_ok (fwe_hash env) (pit_modify k ?f (fw_tables fw))" by (rule pit_modify_ok[OF fwd_okD(1)[OF ok]]) simp
  have "pit_deref (pit_modify k ?f (fw_tables fw)) k = Some (?f pe)" by (simp add: pit_modify_view Some)
  from pit_erase_props(4)[OF tb this, of True, folded pit_erase_eq[OF this]] show ?thesis
    by (simp add: onInterestFinalize_def Some Let_def)
qed (simp add: onInterestFinalize_def)

text \<open>
  C4: the invariant of the forwarder. After any sequence of events - packets received, PIT timers,
  faces added and removed, FIB, Strategy Choice, Content Store and Dead Nonce List operations - with
  strategies that only use the actions of their base class, all tables satisfy their invariants, the
  root has a strategy, and no FIB next hop, in-record or out-record refers to a face that is
  not in the face table, although the code keeps plain references to faces there.
\<close>

theorem forwarder_invariant:
  assumes "mk_forwarder env senv t0 = Some fw0" and "all_contracts env S"
    and "fwd_run env senv S evs t0 fw0 = Some (now, fw)"
  shows "tables_ok (fwe_hash env) (fw_tables fw) \<and> sc_inv (fw_tables fw) \<and> cs_ok (fw_cs fw) \<and>
    dnl_ok (fw_deadNonceList fw) \<and> ft_ok (fw_faceTable fw) \<and>
    (\<forall>n hops. fib_view (fw_tables fw) n = Some hops \<longrightarrow> dom hops \<subseteq> fw_faceIds fw) \<and>
    (\<forall>k pe. fw_entry fw k = Some pe \<longrightarrow>
       fr_face ` set (pe_inRecords pe) \<subseteq> fw_faceIds fw \<and> fr_face ` set (pe_outRecords pe) \<subseteq> fw_faceIds fw)"
proof -
  have ok: "fwd_ok env now {} fw" by (rule fwd_run_ok[OF mk_forwarder_ok[OF assms(1)] assms(2,3)])
  have "fr_face ` set (pe_inRecords pe) \<subseteq> fw_faceIds fw \<and> fr_face ` set (pe_outRecords pe) \<subseteq> fw_faceIds fw"
    if "fw_entry fw k = Some pe" for k pe
    using fwd_okD(7)[OF ok that] unfolding records_ok_def by blast
  then show ?thesis using fwd_okD(1-5)[OF ok] fib_view_faces[OF ok] by simp
qed

theorem forwarder_invariant_witness:
  "\<exists>fw0 fw. mk_forwarder fwd_env_example senv_example 0 = Some fw0 \<and>
     fwd_run fwd_env_example senv_example (nfd_strategies id fwd_env_example) example_events 0 fw0 = Some (4, fw) \<and>
     tables_ok (\<lambda>_. 7) (fw_tables fw) \<and> sc_inv (fw_tables fw)"
proof -
  obtain fw0 :: "nfd_info forwarder" where 0: "mk_forwarder fwd_env_example senv_example 0 = Some fw0" "fw_faceTable fw0 = mk_face_table"
    using example_forwarder by blast
  obtain fw where r: "fwd_run fwd_env_example senv_example (nfd_strategies id fwd_env_example) example_events 0 fw0 = Some (4, fw)"
    using example_run[OF 0] by blast
  have C: "all_contracts fwd_env_example (nfd_strategies id fwd_env_example)" by (rule nfd_strategies_contract) simp
  have "fwe_hash fwd_env_example = (\<lambda>_. 7)" by (simp add: fwd_env_example_def)
  then show ?thesis using forwarder_invariant[OF 0(1) C r] 0(1) r by auto
qed

text \<open>
  C5: scope control. In any reachable state, whatever event comes next, every packet that is handed
  to a face goes to a face of the table; Data under \<open>/localhost\<close> goes to local faces only; Interests
  under \<open>/localhost\<close> go to local faces only unless an application chose the next hop with a
  NextHopFaceId tag; an Interest whose HopLimit has reached zero goes to local faces only; Nacks go to
  point-to-point faces only.
\<close>

theorem scope_control:
  assumes "mk_forwarder env senv t0 = Some fw0" and "all_contracts env S"
    and "fwd_run env senv S evs t0 fw0 = Some (now, fw)" and "now \<le> t" and "fwd_enabled t ev fw"
  shows "\<exists>new. fw_sent (fwd_exec env senv S t ev fw) = fw_sent fw @ new \<and>
    (\<forall>(f, p)\<in>set new. f \<in> fw_faceIds fw \<and>
       (case p of
          PktInterest i \<Rightarrow> ft_scope (fw_faceTable fw) f = FACE_SCOPE_NON_LOCAL \<longrightarrow>
            int_hopLimit i \<noteq> Some 0 \<and> (prefix LOCALHOST (int_name i) \<longrightarrow> int_nextHopFaceId i \<noteq> None)
        | PktData d \<Rightarrow> ft_scope (fw_faceTable fw) f = FACE_SCOPE_NON_LOCAL \<longrightarrow> \<not> prefix LOCALHOST (data_name d)
        | PktNack n \<Rightarrow> ft_linkType (fw_faceTable fw) f = LINK_TYPE_POINT_TO_POINT))"
proof -
  have "fwd_ok env now {} fw" by (rule fwd_run_ok[OF mk_forwarder_ok[OF assms(1)] assms(2,3)])
  then have ok: "fwd_ok env t {} fw" by (rule fwd_ok_mono[OF _ assms(4)]) simp
  show ?thesis using fwd_exec_ok[OF ok assms(2,5), of senv] unfolding packet_ok_def by blast
qed

theorem scope_control_witness:
  "\<exists>fw0 fw. mk_forwarder fwd_env_example senv_example 0 = Some fw0 \<and>
     fwd_run fwd_env_example senv_example (nfd_strategies id fwd_env_example) example_events 0 fw0 = Some (4, fw) \<and>
     (\<exists>new. fw_sent (fwd_exec fwd_env_example senv_example (nfd_strategies id fwd_env_example) 5
        (EvData 257 (mk_data [generic_comp ''a''] ''d'' 0)) fw) = fw_sent fw @ new)"
proof -
  obtain fw0 :: "nfd_info forwarder" where 0: "mk_forwarder fwd_env_example senv_example 0 = Some fw0" "fw_faceTable fw0 = mk_face_table"
    using example_forwarder by blast
  obtain fw where r: "fwd_run fwd_env_example senv_example (nfd_strategies id fwd_env_example) example_events 0 fw0 = Some (4, fw)"
    "fwd_enabled 5 (EvData 257 (mk_data [generic_comp ''a''] ''d'' 0)) fw"
    using example_run[OF 0] by blast
  have C: "all_contracts fwd_env_example (nfd_strategies id fwd_env_example)" by (rule nfd_strategies_contract) simp
  show ?thesis using scope_control[OF 0(1) C r(1) _ r(2)] 0(1) r(1) by fastforce
qed

text \<open>
  C17: no PIT entry stays for ever. In any reachable state, every PIT entry has an expiry timer that is due
  at most ten days (the maximum Interest lifetime) after the present time; once it is due, its event
  can occur, and the event removes the entry.
\<close>

theorem pit_entries_expire:
  assumes "mk_forwarder env senv t0 = Some fw0" and "all_contracts env S"
    and "fwd_run env senv S evs t0 fw0 = Some (now, fw)" and "fw_entry fw k = Some pe"
  shows "\<exists>due. due \<le> now + ms MAX_LIFETIME \<and>
    (\<forall>t\<ge>due. fwd_enabled t (EvExpire k) fw \<and> fw_entry (fwd_exec env senv S t (EvExpire k) fw) k = None)"
proof -
  have ok: "fwd_ok env now {} fw" by (rule fwd_run_ok[OF mk_forwarder_ok[OF assms(1)] assms(2,3)])
  obtain due where due: "pe_expiryTimer pe = Some due" "due \<le> now + ms MAX_LIFETIME"
    using fwd_okD(8)[OF ok assms(4)] by (auto simp: timer_ok_def)
  have "fw_entry (onInterestFinalize env k fw) k = None" by (rule finalize_removes[OF ok])
  then show ?thesis using due assms(4) by (intro exI[of _ due]) simp
qed

theorem pit_entries_expire_witness:
  "\<exists>fw due. fw_entry fw (interest_key example_interest) \<noteq> None \<and> due \<le> ms MAX_LIFETIME \<and>
     fw_entry (fwd_exec fwd_env_example senv_example (nfd_strategies id fwd_env_example) due
       (EvExpire (interest_key example_interest)) fw) (interest_key example_interest) = None"
proof -
  let ?env = fwd_env_example and ?S = "nfd_strategies id fwd_env_example" and ?k = "interest_key example_interest"
  obtain fw0 fw :: "nfd_info forwarder" where 0: "mk_forwarder ?env senv_example 0 = Some fw0"
    and r: "fwd_run ?env senv_example ?S add_faces 0 fw0 = Some (0, fw)" and ok: "fwd_ok ?env 0 {} fw"
    and fw: "fw_faceTable fw = two_faces" "\<And>n. fib_at (fw_tables fw) n = None"
      "sc_view (fw_tables fw) = [[] \<mapsto> \<lparr>st_instanceName = best_route2_name\<rparr>]" "is_new ?env 0 256 example_interest fw"
    using faced_forwarder by blast
  have C: "all_contracts ?env ?S" by (rule nfd_strategies_contract) simp
  have f: "256 \<in> fw_faceIds fw" by (simp add: fw(1) two_faces_simps)
  let ?fw' = "onIncomingInterest ?env ?S 0 256 example_interest fw"
  have run: "fwd_run ?env senv_example ?S (add_faces @ [(0, EvInterest 256 example_interest)]) 0 fw0 = Some (0, ?fw')"
    using r f by (simp add: add_faces_def)
  have "effective (sc_view (fw_tables fw)) (int_name example_interest) = Some \<lparr>st_instanceName = best_route2_name\<rparr>"
    by (simp add: fw(3) effective_def longest_match_def mk_interest_def)
  from best_route2_outcome[OF ok f fw(4) this, of ?S] have "fw_entry ?fw' ?k \<noteq> None"
    by (auto simp: forwarded_def no_route_def Let_def nfd_default split: if_splits)
  then obtain pe where "fw_entry ?fw' ?k = Some pe" by blast
  from pit_entries_expire[OF 0 C run this] show ?thesis using \<open>fw_entry ?fw' ?k = Some pe\<close>
    by (intro exI[of _ ?fw']) auto
qed

section \<open>Interests and Data\<close>

text \<open>
  C3: how a new Interest is forwarded under the default strategy (best-route version 5). The
  Interest goes to exactly one face: the usable next hop of lowest cost in the FIB entry with the longest prefix
  of its name, without its PIT token, and its PIT entry records the downstream, the upstream, and the lifetime; an
  Interest whose HopLimit is used up is not sent to a non-local face. With no usable next hop the downstream gets a Nack
  NoRoute, if its link is point-to-point, and the entry is due at once.
\<close>

theorem interest_takes_best_route:
  assumes "fwd_ok env now {} fw" and "ingress \<in> fw_faceIds fw" and "is_new env now ingress i fw"
    and "effective (sc_view (fw_tables fw)) (int_name i) = Some s" and "S s = best_route2_ops env"
  shows "let fw' = onIncomingInterest env S now ingress i fw
    in (\<exists>nh. forwarded now ingress (received ingress i) nh fw fw') \<or> no_route now ingress (received ingress i) fw fw'"
  unfolding Let_def by (rule best_route2_outcome[where S = S, OF assms])

theorem interest_takes_best_route_witness:
  "\<exists>fw i. fw_sent (onIncomingInterest fwd_env_example (nfd_strategies id fwd_env_example) 0 256 example_interest fw) =
     fw_sent fw @ [(257, PktInterest i)]"
proof -
  let ?env = fwd_env_example and ?i = "received 256 example_interest"
  obtain fw :: "nfd_info forwarder" where fw: "fwd_ok ?env 0 {} fw" "fw_faceTable fw = two_faces"
    "nh_face ` set (route (fw_tables fw) [generic_comp ''a'']) = {257}" "is_new ?env 0 256 example_interest fw"
    "effective (sc_view (fw_tables fw)) [generic_comp ''a''] = Some \<lparr>st_instanceName = best_route2_name\<rparr>"
    using routed_forwarder by blast
  have i: "int_name example_interest = [generic_comp ''a'']" "int_hopLimit example_interest = None" by (simp_all add: mk_interest_def)
  have f: "256 \<in> fw_faceIds fw" by (simp add: fw(2) two_faces_simps)
  have "usable two_faces 256 ?i 257" by (simp add: usable_def wouldViolateScope_def i LOCALHOST_def LOCALHOP_def two_faces_simps)
  then have "\<not> no_route 0 256 ?i fw fw'" for fw' using fw(2,3) i(1) by (force simp: no_route_def)
  then obtain nh where "forwarded 0 256 ?i nh fw (onIncomingInterest ?env (nfd_strategies id ?env) 0 256 example_interest fw)"
    using interest_takes_best_route[OF fw(1) f fw(4), of _ "nfd_strategies id ?env", unfolded i(1), OF fw(5) nfd_default] unfolding Let_def by blast
  moreover from this have "nh_face nh = 257" using fw(3) i(1) unfolding forwarded_def Let_def by auto
  ultimately show ?thesis by (auto simp: forwarded_def received_def i(2) Let_def)
qed

text \<open>
  C2: delivery of Data. Data that comes in over a face from which its name may come is sent exactly
  once to each face that waits for it: the downstreams with an unexpired in-record in some PIT entry it matches, other
  than the face it came from unless that is an ad hoc link, and only local ones if it is under \<open>/localhost\<close>. Nothing else is sent,
  each copy differs from the Data in its tags only, and each matched entry is satisfied: it is due
  at once, has no in-record for these downstreams and no out-record for the upstream.
\<close>

theorem data_reaches_downstreams:
  assumes "fwd_ok env now {} fw" and "face_order_law env" and "uses_base env S" and "all_contracts env S"
    and "\<not> (ft_scope (fw_faceTable fw) ingress = FACE_SCOPE_NON_LOCAL \<and> prefix LOCALHOST (data_name d))"
    and "\<And>i. fwe_matchesData env i (d\<lparr>data_incomingFaceId := Some ingress\<rparr>) \<Longrightarrow>
      prefix (int_name i) (data_fullName (d\<lparr>data_incomingFaceId := Some ingress\<rparr>))"
  shows "let d' = d\<lparr>data_incomingFaceId := Some ingress\<rparr>
    in delivers now ingress d' (data_matches env d' fw) fw (onIncomingData env S now ingress d fw)"
  unfolding Let_def by (rule incomingData_delivers[OF assms(1-5)]) (rule assms(6))

theorem data_reaches_downstreams_witness:
  "\<exists>fw. data_matches fwd_env_example (example_data\<lparr>data_incomingFaceId := Some 257\<rparr>) fw \<noteq> {} \<and>
     delivers 1 257 (example_data\<lparr>data_incomingFaceId := Some 257\<rparr>)
       (data_matches fwd_env_example (example_data\<lparr>data_incomingFaceId := Some 257\<rparr>) fw) fw
       (onIncomingData fwd_env_example (nfd_strategies id fwd_env_example) 1 257 example_data fw)"
proof -
  let ?env = fwd_env_example and ?S = "nfd_strategies id fwd_env_example" and ?d = "example_data\<lparr>data_incomingFaceId := Some 257\<rparr>"
  obtain fw :: "nfd_info forwarder" where fw: "fwd_ok ?env 0 {} fw"
    "fw_entry fw (interest_key example_interest) =
       Some (insertOrUpdateOutRecord 0 257 ((received 256 example_interest)\<lparr>int_pitToken := None\<rparr>)
         (pending_entry 0 256 (received 256 example_interest)))"
    using pending_forwarder by blast
  have "fwd_ok ?env 1 {} fw" by (rule fwd_ok_mono[OF fw(1)]) simp_all
  note d = data_reaches_downstreams[OF this face_order_example nfd_uses_base nfd_strategies_contract _ matches_prefix_example]
  have n: "\<not> prefix LOCALHOST (data_name example_data)" by (simp add: mk_data_def LOCALHOST_def)
  have "interest_key example_interest \<in> data_matches ?env ?d fw"
    unfolding data_matches_def using fw(2) example_matches by (simp add: pit_entry_ok_records)
  then show ?thesis using d[of id 257 example_data] n unfolding Let_def by auto
qed

end
