(* ===== verification/Loop_Detection.thy ===== *)
theory Loop_Detection
  imports Forwarder_Examples
begin

text \<open>
  Loops: an Interest that comes back is recognised by its Nonce, in its PIT entry while the entry is pending and
  in the Dead Nonce List afterwards.
\<close>

section \<open>The pipeline\<close>

text \<open>
  The Nonce is a duplicate in the PIT entry. On a point-to-point face the same Nonce from the same
  face is a retransmission by the link, not a loop.
\<close>

definition loops_in_pit :: "face_table \<Rightarrow> face_id \<Rightarrow> u32 \<Rightarrow> 'i pit_entry \<Rightarrow> bool" where
  "loops_in_pit ft ingress nonce pe \<longleftrightarrow>
     ((\<exists>r\<in>set (pe_inRecords pe). fr_lastNonce r = nonce) \<or> (\<exists>r\<in>set (pe_outRecords pe). fr_lastNonce r = nonce)) \<and>
     \<not> (ft_linkType ft ingress = LINK_TYPE_POINT_TO_POINT \<and>
        (\<exists>r\<in>set (pe_inRecords pe). fr_lastNonce r = nonce \<and> fr_face r = ingress))"

definition loops :: "fwd_env \<Rightarrow> face_id \<Rightarrow> interest \<Rightarrow> 'i forwarder \<Rightarrow> bool" where
  "loops env ingress i fw \<longleftrightarrow>
     dnl_has (fwe_wireEncode env) (int_name i) (int_nonce i) (fw_deadNonceList fw) \<or>
     (\<exists>pe. fw_entry fw (interest_key i) = Some pe \<and> loops_in_pit (fw_faceTable fw) ingress (int_nonce i) pe)"

text \<open>What happens to it: a Nack on a point-to-point link, nothing otherwise, and the PIT stays as it is.\<close>

definition rejected_as_loop :: "face_id \<Rightarrow> interest \<Rightarrow> 'i forwarder \<Rightarrow> 'i forwarder \<Rightarrow> bool" where
  "rejected_as_loop ingress i fw fw' \<longleftrightarrow>
     (\<exists>i'. int_name i' = int_name i \<and> int_nonce i' = int_nonce i \<and>
        fw_sent fw' = fw_sent fw @
          (if ft_linkType (fw_faceTable fw) ingress = LINK_TYPE_POINT_TO_POINT
           then [(ingress, PktNack \<lparr>nack_interest = i', nack_reason = NACK_DUPLICATE\<rparr>)] else [])) \<and>
     fw_entry fw' = fw_entry fw"

lemma interestLoop_rejects:
  assumes "int_name i' = int_name i" and "int_nonce i' = int_nonce i"
    and "fw_sent fw1 = fw_sent fw" and "fw_faceTable fw1 = fw_faceTable fw" and "fw_entry fw1 = fw_entry fw"
  shows "rejected_as_loop ingress i fw (onInterestLoop ingress i' fw1)"
  unfolding rejected_as_loop_def onInterestLoop_def using assms by (auto intro: exI[of _ i'])

lemma processInterest_loop:
  assumes ok: "fwd_ok env now {} fw" and k: "fw_entry fw (interest_key i) = Some pe"
    and l: "loops_in_pit (fw_faceTable fw) ingress (int_nonce i) pe"
  shows "\<exists>fw1. processInterest env S now ingress i fw = onInterestLoop ingress i fw1 \<and>
    fw_sent fw1 = fw_sent fw \<and> fw_faceTable fw1 = fw_faceTable fw \<and> fw_entry fw1 = fw_entry fw"
proof -
  let ?k = "interest_key i"
  define fw1 where "fw1 = fw\<lparr>fw_tables := snd (pit_insert (fwe_hash env) i (fw_tables fw))\<rparr>"
  have r: "fst (pit_insert (fwe_hash env) i (fw_tables fw)) = (Some ?k, False)"
    using pit_insert_props(1)[OF fwd_okD(1)[OF ok], of i] k by simp
  have same: "fw_entry fw1 = fw_entry fw"
    by (rule ext, unfold fw1_def) (simp add: pit_insert_view[OF fwd_okD(1)[OF ok]] k)
  have e: "fw_entry fw1 ?k = Some pe" using same k by simp
  have "findDuplicateNonce pe (int_nonce i) ingress \<noteq> DUPLICATE_NONCE_NONE"
    using l by (auto simp: findDuplicateNonce_none loops_in_pit_def)
  moreover have "ft_linkType (fw_faceTable fw1) ingress = LINK_TYPE_POINT_TO_POINT \<longrightarrow>
      \<not> findDuplicateNonce pe (int_nonce i) ingress AND DUPLICATE_NONCE_IN_SAME \<noteq> 0"
    unfolding findDuplicateNonce_same using l by (auto simp: loops_in_pit_def fw1_def)
  ultimately have "processInterest env S now ingress i fw = onInterestLoop ingress i fw1"
    unfolding processInterest_def Let_def split_beta r fst_conv snd_conv fw1_def[symmetric] bind.bind_lunit e option.map option.case prod.case
    by auto
  then show ?thesis using same by (intro exI[of _ fw1]) (simp add: fw1_def)
qed

lemma incomingInterest_loop:
  assumes ok: "fwd_ok env now {} fw" and l: "loops env ingress i fw" and hop: "int_hopLimit i \<noteq> Some 0"
    and sc: "\<not> (ft_scope (fw_faceTable fw) ingress = FACE_SCOPE_NON_LOCAL \<and> prefix LOCALHOST (int_name i))"
  shows "rejected_as_loop ingress i fw (onIncomingInterest env S now ingress i fw)"
proof -
  define fw0 where "fw0 = fw_count (nInInterests_update (\<lambda>c. c + 1)) fw"
  define i1 where "i1 = received ingress i"
  define i2 where "i2 = (if int_forwardingHint i1 \<noteq> [] \<and> isInProducerRegion (fw_networkRegionTable fw0) (int_forwardingHint i1)
    then i1\<lparr>int_forwardingHint := []\<rparr> else i1)"
  have ok0: "fwd_ok env now {} fw0" using ok by (simp add: fw0_def)
  have i: "(case int_hopLimit (i\<lparr>int_incomingFaceId := Some ingress\<rparr>) of None \<Rightarrow> i\<lparr>int_incomingFaceId := Some ingress\<rparr>
      | Some h \<Rightarrow> i\<lparr>int_incomingFaceId := Some ingress, int_hopLimit := Some (h - 1)\<rparr>) = i1"
    by (cases "int_hopLimit i") (simp_all add: i1_def received_def)
  have r: "onIncomingInterest env S now ingress i fw =
      (if dnl_has (fwe_wireEncode env) (int_name i) (int_nonce i) (fw_deadNonceList fw) then onInterestLoop ingress i1 fw0
       else processInterest env S now ingress i2 fw0)"
    unfolding onIncomingInterest_def Let_def fw0_def[symmetric] i i2_def
    using hop sc by (auto simp: fw0_def i1_def)
  have same: "fw_sent fw0 = fw_sent fw" "fw_faceTable fw0 = fw_faceTable fw" "fw_entry fw0 = fw_entry fw" by (simp_all add: fw0_def)
  have i2: "int_name i2 = int_name i" "int_nonce i2 = int_nonce i" "interest_key i2 = interest_key i"
    by (simp_all add: i2_def i1_def received_def interest_key_def)
  show ?thesis
  proof (cases "dnl_has (fwe_wireEncode env) (int_name i) (int_nonce i) (fw_deadNonceList fw)")
    case True
    then show ?thesis unfolding r using interestLoop_rejects[OF _ _ same, of i1 i] by (simp add: i1_def)
  next
    case False
    then obtain pe where pe: "fw_entry fw (interest_key i) = Some pe" "loops_in_pit (fw_faceTable fw) ingress (int_nonce i) pe"
      using l by (auto simp: loops_def)
    obtain fw1 where "processInterest env S now ingress i2 fw0 = onInterestLoop ingress i2 fw1"
      and s: "fw_sent fw1 = fw_sent fw" "fw_faceTable fw1 = fw_faceTable fw" "fw_entry fw1 = fw_entry fw"
      using processInterest_loop[OF ok0, of i2 pe ingress S] pe same i2 by auto
    then show ?thesis unfolding r using interestLoop_rejects[OF i2(1,2) s] False by simp
  qed
qed

section \<open>After the entry has expired\<close>

lemma dnl_fold_exec:
  "fold (\<lambda>r. dnl_add w n (fr_lastNonce r)) rs d = fold (dnl_exec w) (map (\<lambda>r. DnlAdd n (fr_lastNonce r)) rs) d"
  by (induction rs arbitrary: d) simp_all

lemma dnl_fold_has:
  assumes d: "dnl_ok d" and r: "r \<in> set rs" and len: "length rs \<le> MIN_CAPACITY"
  shows "dnl_has w n (fr_lastNonce r) (fold (\<lambda>r. dnl_add w n (fr_lastNonce r)) rs d)"
proof -
  obtain xs ys where rs: "rs = xs @ r # ys" using r by (auto simp: in_set_conv_decomp)
  let ?d = "fold (\<lambda>r. dnl_add w n (fr_lastNonce r)) xs d"
  have ok: "dnl_ok ?d" by (rule dnl_fold_ok[OF d])
  then have "1 \<le> dnl_capacity ?d" by (simp add: dnl_ok_def MIN_CAPACITY_def)
  then have x: "makeEntry w n (fr_lastNonce r) \<in> set (last_n 1 (dnl_queue (dnl_add w n (fr_lastNonce r) ?d)))"
    by (simp add: dnl_add_def last_n_evict) (simp add: last_n_def)
  have "1 + length (filter pushes (map (\<lambda>r. DnlAdd n (fr_lastNonce r)) ys)) \<le> MIN_CAPACITY" using len rs by simp
  from retained_run[OF dnl_add_ok[OF ok] x this, of w] show ?thesis
    unfolding rs dnl_has_def by (simp add: dnl_fold_exec[symmetric])
qed

lemma finalize_remembers:
  assumes ok: "fwd_ok env now X fw" and k: "fw_entry fw k = Some pe" and s: "\<not> pe_isSatisfied pe"
    and r: "r \<in> set (pe_outRecords pe)" "length (pe_outRecords pe) \<le> MIN_CAPACITY"
  shows "dnl_has (fwe_wireEncode env) (pe_name pe) (fr_lastNonce r) (fw_deadNonceList (onInterestFinalize env k fw))"
  using dnl_fold_has[OF fwd_okD(4)[OF ok] r, of "fwe_wireEncode env" "pe_name pe"] k s
  by (simp add: onInterestFinalize_def insertDeadNonceList_def Let_def)

section \<open>Properties\<close>

text \<open>
  C13: a looping Interest goes nowhere. An Interest whose name and Nonce are in the Dead Nonce List, or whose
  Nonce was already received or sent for its PIT entry (except again from the same point-to-point face), is not
  forwarded, not answered from the Content Store and leaves no trace in the PIT; on a point-to-point face its
  sender gets a Nack with reason Duplicate.
\<close>

theorem looping_interest_rejected:
  assumes "fwd_ok env now {} fw" and "loops env ingress i fw" and "int_hopLimit i \<noteq> Some 0"
    and "\<not> (ft_scope (fw_faceTable fw) ingress = FACE_SCOPE_NON_LOCAL \<and> prefix LOCALHOST (int_name i))"
  shows "rejected_as_loop ingress i fw (onIncomingInterest env S now ingress i fw)"
  by (rule incomingInterest_loop[OF assms])


lemma looped_forwarder:
  "\<exists>(fw :: nfd_info forwarder) pe. fwd_ok fwd_env_example 0 {} fw \<and> same_faces two_faces (fw_faceTable fw) \<and>
     fw_entry fw (interest_key example_interest) = Some pe \<and> \<not> pe_isSatisfied pe \<and> pe_name pe = int_name example_interest \<and>
     map fr_face (pe_inRecords pe) = [256] \<and> map fr_lastNonce (pe_outRecords pe) = [int_nonce example_interest]"
proof -
  let ?pe = "insertOrUpdateOutRecord 0 257 ((received 256 example_interest)\<lparr>int_pitToken := None\<rparr>)
         (pending_entry 0 256 (received 256 example_interest)) :: nfd_info pit_entry"
  have "\<not> pe_isSatisfied ?pe" "pe_name ?pe = int_name example_interest" "map fr_face (pe_inRecords ?pe) = [256]"
    "map fr_lastNonce (pe_outRecords ?pe) = [int_nonce example_interest]"
    by (simp_all add: insertOrUpdateOutRecord_def getOutRecord_def pending_entry_def insertOrUpdateInRecord_def new_pit_entry_def
        getInRecord_def mk_pit_entry_def mk_in_record_def mk_out_record_def inRecord_update_def faceRecord_update_def Let_def)
  moreover obtain fw where "fwd_ok fwd_env_example 0 {} fw" "same_faces two_faces (fw_faceTable fw)"
    "fw_entry fw (interest_key example_interest) = Some ?pe"
    using pending_forwarder by blast
  ultimately show ?thesis by (intro exI[of _ fw] exI[of _ ?pe] conjI)
qed

theorem looping_interest_rejected_witness:
  "\<exists>(fw :: nfd_info forwarder) i'. fw_sent (onIncomingInterest fwd_env_example (nfd_strategies id fwd_env_example) 1 257 example_interest fw) =
     fw_sent fw @ [(257, PktNack \<lparr>nack_interest = i', nack_reason = NACK_DUPLICATE\<rparr>)]"
proof -
  let ?env = fwd_env_example
  obtain fw :: "nfd_info forwarder" and pe where fw: "fwd_ok ?env 0 {} fw" "same_faces two_faces (fw_faceTable fw)"
    "fw_entry fw (interest_key example_interest) = Some pe" "map fr_face (pe_inRecords pe) = [256]"
    "map fr_lastNonce (pe_outRecords pe) = [int_nonce example_interest]"
    using looped_forwarder by (elim exE conjE) (rule that)
  have "fwd_ok ?env 1 {} fw" by (rule fwd_ok_mono[OF fw(1)]) simp_all
  moreover have "loops ?env 257 example_interest fw"
    unfolding loops_def loops_in_pit_def using fw(3-5) by (auto simp: map_eq_Cons_conv)
  moreover have "int_hopLimit example_interest \<noteq> Some 0" "\<not> prefix LOCALHOST (int_name example_interest)"
    by (simp_all add: mk_interest_def LOCALHOST_def)
  ultimately have "rejected_as_loop 257 example_interest fw (onIncomingInterest ?env (nfd_strategies id ?env) 1 257 example_interest fw)"
    using looping_interest_rejected by blast
  then show ?thesis using same_facesD(3)[OF fw(2)] by (auto simp: rejected_as_loop_def two_faces_simps)
qed


end
