(* ===== verification/Nack_Processing.thy ===== *)
theory Nack_Processing
  imports Forwarder_Examples
begin

text \<open>
  What a Nack from an upstream does under a strategy that uses \<open>ProcessNackTraits\<close>: it waits for the
  other upstreams, and passes the least severe reason on to the downstreams once all have given up.
\<close>

section \<open>The least severe reason\<close>

text \<open>
  The order of ndn-cxx on Nack reasons is linear, and the absence of a reason is the most severe one.
\<close>

definition severity_law :: "fwd_env \<Rightarrow> (nack_reason \<Rightarrow> nat) \<Rightarrow> bool" where
  "severity_law env rank \<longleftrightarrow>
     inj rank \<and> (\<forall>x. rank x \<le> rank NACK_NONE) \<and> (\<forall>a b. fwe_isLessSevere env a b \<longleftrightarrow> rank a < rank b)"

definition waiting_for :: "'i pit_entry \<Rightarrow> 'i out_record list" where
  "waiting_for pe = filter (\<lambda>r. or_incomingNack r = None) (pe_outRecords pe)"

definition nack_reasons :: "'i out_record list \<Rightarrow> nack_reason set" where
  "nack_reasons rs = {x. \<exists>r\<in>set rs. or_incomingNack r = Some x}"

lemma nack_reasons_simps [simp]:
  "nack_reasons [] = {}" "nack_reasons (r # rs) = set_option (or_incomingNack r) \<union> nack_reasons rs"
  by (auto simp: nack_reasons_def)

lemma nack_loop_spec:
  assumes law: "severity_law env rank"
  shows "\<exists>x'. nack_loop env rs (n, l, x) = (n + length (filter (\<lambda>r. or_incomingNack r = None) rs),
      (case filter (\<lambda>r. or_incomingNack r = None) rs of [] \<Rightarrow> l | r # rs' \<Rightarrow> Some (fr_face (last (r # rs')))), x') \<and>
    x' \<in> insert x (nack_reasons rs) \<and> (\<forall>y\<in>insert x (nack_reasons rs). rank x' \<le> rank y)"
proof (induction rs arbitrary: n l x)
  case (Cons r rs)
  show ?case
  proof (cases "or_incomingNack r")
    case None
    then show ?thesis using Cons.IH[of "n + 1" "Some (fr_face r)" x] by (auto split: list.splits)
  next
    case (Some y)
    have less: "fwe_isLessSevere env y x \<longleftrightarrow> rank y < rank x" using law by (simp add: severity_law_def)
    show ?thesis
      using Cons.IH[of n l "if fwe_isLessSevere env y x then y else x"] Some less by (fastforce split: if_splits)
  qed
qed simp

lemma nack_loop_entry:
  assumes law: "severity_law env rank" and ne: "nack_reasons (pe_outRecords pe) \<noteq> {}"
  obtains x l where "nack_loop env (pe_outRecords pe) (0, None, NACK_NONE) = (length (waiting_for pe), l, x)"
    and "waiting_for pe \<noteq> [] \<Longrightarrow> l = Some (fr_face (last (waiting_for pe)))"
    and "x \<in> nack_reasons (pe_outRecords pe)" and "\<And>y. y \<in> nack_reasons (pe_outRecords pe) \<Longrightarrow> rank x \<le> rank y"
proof -
  obtain x where x: "nack_loop env (pe_outRecords pe) (0, None, NACK_NONE) = (length (waiting_for pe),
      (case waiting_for pe of [] \<Rightarrow> None | r # rs' \<Rightarrow> Some (fr_face (last (r # rs')))), x)"
    "x \<in> insert NACK_NONE (nack_reasons (pe_outRecords pe))" "\<forall>y\<in>insert NACK_NONE (nack_reasons (pe_outRecords pe)). rank x \<le> rank y"
    using nack_loop_spec[OF law, of "pe_outRecords pe" 0 None NACK_NONE] unfolding waiting_for_def by auto
  have "x \<in> nack_reasons (pe_outRecords pe)"
  proof (rule ccontr)
    assume "x \<notin> nack_reasons (pe_outRecords pe)"
    then have "x = NACK_NONE" using x(2) by blast
    obtain y where y: "y \<in> nack_reasons (pe_outRecords pe)" using ne by blast
    have "rank y = rank NACK_NONE" using x(3) y \<open>x = NACK_NONE\<close> law by (meson insertCI order_antisym severity_law_def)
    then have "y = NACK_NONE" using law by (auto simp: severity_law_def dest: injD)
    then show False using y \<open>x = NACK_NONE\<close> \<open>x \<notin> nack_reasons (pe_outRecords pe)\<close> by simp
  qed
  then show thesis by (intro that[OF x(1)]) (use x(3) in \<open>auto split: list.splits\<close>)
qed

section \<open>Sending Nacks\<close>

definition nack_allowed :: "face_table \<Rightarrow> face_id \<Rightarrow> bool" where
  "nack_allowed ft f \<longleftrightarrow> ft_linkType ft f = LINK_TYPE_POINT_TO_POINT"

definition nack_to :: "'i pit_entry \<Rightarrow> nack_reason \<Rightarrow> face_id \<Rightarrow> packet" where
  "nack_to pe reason f = PktNack \<lparr>nack_interest = the (ir_interest (the (getInRecord pe f))), nack_reason = reason\<rparr>"

lemma sendNack_downstream:
  assumes ok: "fwd_ok env now X fw" and k: "fw_entry fw k = Some pe" and r: "getInRecord pe f = Some r"
  shows "fw_sent (sendNack k f reason fw) = fw_sent fw @ (if nack_allowed (fw_faceTable fw) f then [(f, nack_to pe reason f)] else [])"
    and "fw_entry (sendNack k f reason fw) k = Some (if nack_allowed (fw_faceTable fw) f then deleteInRecord f pe else pe)"
    and "fw_faceTable (sendNack k f reason fw) = fw_faceTable fw"
proof -
  have "r \<in> set (pe_inRecords pe)" "fr_face r = f" using r by (auto simp: getInRecord_def find_Some_iff)
  then have f: "f \<in> fw_faceIds fw" and i: "ir_interest r \<noteq> None"
    using fwd_okD(7)[OF ok k] by (auto simp: records_ok_def)
  have id: "ft_getId (fw_faceTable fw) f \<noteq> INVALID_FACEID" using ft_ok_id[OF fwd_okD(5)[OF ok] f] f by (auto simp: ft_getId_def INVALID_FACEID_def)
  show "fw_sent (sendNack k f reason fw) = fw_sent fw @ (if nack_allowed (fw_faceTable fw) f then [(f, nack_to pe reason f)] else [])"
    "fw_entry (sendNack k f reason fw) k = Some (if nack_allowed (fw_faceTable fw) f then deleteInRecord f pe else pe)"
    "fw_faceTable (sendNack k f reason fw) = fw_faceTable fw"
    using id i by (auto simp: sendNack_def onOutgoingNack_def k r nack_allowed_def nack_to_def Let_def pit_modify_view)
qed

lemma sendNack_fold:
  assumes "fwd_ok env now X fw" and "fw_entry fw k = Some pe" and "distinct fs" and "\<forall>f\<in>set fs. getInRecord pe f \<noteq> None"
  shows "fw_sent (fold (\<lambda>f. sendNack k f reason) fs fw) =
      fw_sent fw @ map (\<lambda>f. (f, nack_to pe reason f)) (filter (nack_allowed (fw_faceTable fw)) fs) \<and>
    (\<exists>pe'. fw_entry (fold (\<lambda>f. sendNack k f reason) fs fw) k = Some pe' \<and> pe_expiryTimer pe' = pe_expiryTimer pe \<and>
       pe_outRecords pe' = pe_outRecords pe \<and>
       (\<forall>f. getInRecord pe' f = (if f \<in> set fs \<and> nack_allowed (fw_faceTable fw) f then None else getInRecord pe f)))"
  using assms
proof (induction fs arbitrary: fw pe)
  case (Cons f fs)
  obtain r where r: "getInRecord pe f = Some r" using Cons.prems(4) by auto
  define fw1 where "fw1 = sendNack k f reason fw"
  define pe1 where "pe1 = (if nack_allowed (fw_faceTable fw) f then deleteInRecord f pe else pe)"
  note s = sendNack_downstream[OF Cons.prems(1,2) r, of reason, folded fw1_def pe1_def]
  have ok: "fwd_ok env now X fw1" unfolding fw1_def by (rule sendNack_ok[OF Cons.prems(1)])
  have "pit_entry_ok pe" using pit_slotD(3)[OF fwd_okD(1)[OF Cons.prems(1)]] pit_deref_key[OF Cons.prems(2)] by blast
  then have g: "getInRecord pe1 h = (if h = f \<and> nack_allowed (fw_faceTable fw) f then None else getInRecord pe h)" for h
    by (auto simp: pe1_def getInRecord_delete)
  have t: "pe_expiryTimer pe1 = pe_expiryTimer pe" "pe_outRecords pe1 = pe_outRecords pe" by (simp_all add: pe1_def)
  have ks: "\<forall>h\<in>set fs. getInRecord pe1 h \<noteq> None" using Cons.prems(3,4) by (auto simp: g)
  have d: "distinct fs" "f \<notin> set fs" using Cons.prems(3) by simp_all
  have m: "map (\<lambda>f. (f, nack_to pe1 reason f)) (filter P fs) = map (\<lambda>f. (f, nack_to pe reason f)) (filter P fs)" for P
    by (rule map_cong[OF refl]) (use d(2) in \<open>auto simp: nack_to_def g\<close>)
  note I = Cons.IH[OF ok s(2) d(1) ks, unfolded s(3) m t]
  have "fw_sent (fold (\<lambda>f. sendNack k f reason) (f # fs) fw) =
      fw_sent fw @ map (\<lambda>f. (f, nack_to pe reason f)) (filter (nack_allowed (fw_faceTable fw)) (f # fs))"
    using conjunct1[OF I] by (simp add: fw1_def[symmetric] s(1))
  moreover obtain pe' where pe': "fw_entry (fold (\<lambda>f. sendNack k f reason) (f # fs) fw) k = Some pe'"
    "pe_expiryTimer pe' = pe_expiryTimer pe" "pe_outRecords pe' = pe_outRecords pe"
    "\<And>h. getInRecord pe' h = (if h \<in> set fs \<and> nack_allowed (fw_faceTable fw) h then None else getInRecord pe1 h)"
    using I by (auto simp: fw1_def[symmetric])
  moreover have "getInRecord pe' h = (if h \<in> set (f # fs) \<and> nack_allowed (fw_faceTable fw) h then None else getInRecord pe h)" for h
    by (auto simp: pe'(4) g)
  ultimately show ?case by blast
qed simp

section \<open>The trigger\<close>

text \<open>
  The three cases of \<open>processNack\<close>, for the entry \<open>pe\<close> with the new Nack recorded: all upstreams have sent a
  Nack; only one has not, and it is a downstream too; others are still to answer.
\<close>

definition nack_outcome ::
  "(nack_reason \<Rightarrow> nat) \<Rightarrow> 'i pit_entry \<Rightarrow> 'i forwarder \<Rightarrow> 'i forwarder \<Rightarrow> bool" where
  "nack_outcome rank pe fw fw' \<longleftrightarrow>
     (let ft = fw_faceTable fw
      in \<exists>x\<in>nack_reasons (pe_outRecords pe). (\<forall>y\<in>nack_reasons (pe_outRecords pe). rank x \<le> rank y) \<and>
        (case waiting_for pe of
           [] \<Rightarrow> (\<exists>fs. distinct fs \<and> set fs = {f. getInRecord pe f \<noteq> None \<and> nack_allowed ft f} \<and>
                    fw_sent fw' = fw_sent fw @ map (\<lambda>f. (f, nack_to pe x f)) fs)
         | [r] \<Rightarrow> fw_sent fw' = fw_sent fw @
                   (if getInRecord pe (fr_face r) \<noteq> None \<and> nack_allowed ft (fr_face r) then [(fr_face r, nack_to pe x (fr_face r))] else [])
         | _ \<Rightarrow> fw_sent fw' = fw_sent fw))"

lemma in_faces: "set (map fr_face (pe_inRecords pe)) = {f. getInRecord pe f \<noteq> None}"
proof -
  have "getInRecord pe f = None \<longleftrightarrow> f \<notin> set (map fr_face (pe_inRecords pe))" for f
    unfolding getInRecord_def find_None_iff by auto
  then show ?thesis by (simp only: set_eq_iff mem_Collect_eq not_not simp_thms)
qed

lemma processNack_outcome:
  assumes ok: "fwd_ok env now X fw" and k: "fw_entry fw k = Some pe" and law: "severity_law env rank" "face_order_law env"
    and ne: "nack_reasons (pe_outRecords pe) \<noteq> {}"
  shows "nack_outcome rank pe fw (processNack env ingress n k fw) \<and>
    map_option (\<lambda>p. (pe_expiryTimer p, pe_outRecords p)) (fw_entry (processNack env ingress n k fw) k) =
      Some (pe_expiryTimer pe, pe_outRecords pe)"
proof -
  obtain x l where x: "nack_loop env (pe_outRecords pe) (0, None, NACK_NONE) = (length (waiting_for pe), l, x)"
    "waiting_for pe \<noteq> [] \<Longrightarrow> l = Some (fr_face (last (waiting_for pe)))" "x \<in> nack_reasons (pe_outRecords pe)"
    "\<And>y. y \<in> nack_reasons (pe_outRecords pe) \<Longrightarrow> rank x \<le> rank y"
    by (rule nack_loop_entry[OF law(1) ne]) (rule that)
  consider "waiting_for pe = []" | r where "waiting_for pe = [r]" | r q rs where "waiting_for pe = r # q # rs"
    by (cases "waiting_for pe" rule: remdups_adj.cases) auto
  then show ?thesis
  proof cases
    case 1
    let ?fs = "fwe_faceOrder env (filter (\<lambda>f. f \<notin> set []) (remdups (map fr_face (pe_inRecords pe))))"
    have o: "set ?fs = {f. getInRecord pe f \<noteq> None}" "distinct ?fs"
      using face_order_props[OF law(2), of "filter (\<lambda>f. f \<notin> set []) (remdups (map fr_face (pe_inRecords pe)))"] in_faces[of pe] by simp_all
    have "processNack env ingress n k fw = fold (\<lambda>f. sendNack k f x) ?fs fw"
      by (simp add: processNack_def k x(1) 1 sendNacks_def split: option.split)
    moreover have "fw_sent (fold (\<lambda>f. sendNack k f x) ?fs fw) =
        fw_sent fw @ map (\<lambda>f. (f, nack_to pe x f)) (filter (nack_allowed (fw_faceTable fw)) ?fs)"
      and e: "map_option (\<lambda>p. (pe_expiryTimer p, pe_outRecords p)) (fw_entry (fold (\<lambda>f. sendNack k f x) ?fs fw) k) =
        Some (pe_expiryTimer pe, pe_outRecords pe)"
      using sendNack_fold[OF ok k o(2), of x] o(1) by auto
    ultimately show ?thesis unfolding nack_outcome_def Let_def 1 list.case
      using x(3,4) o by (intro conjI bexI[of _ x] exI[of _ "filter (nack_allowed (fw_faceTable fw)) ?fs"]) auto
  next
    case (2 r)
    have l: "l = Some (fr_face r)" using x(2) 2 by simp
    have "processNack env ingress n k fw = (if getInRecord pe (fr_face r) \<noteq> None then sendNack k (fr_face r) x fw else fw)"
      by (simp add: processNack_def k x(1) l 2)
    then show ?thesis unfolding nack_outcome_def Let_def 2 list.case
      using x(3,4) sendNack_downstream(1,2)[OF ok k, of "fr_face r" _ x] k by (intro conjI bexI[of _ x]) auto
  next
    case (3 r q rs)
    then have "processNack env ingress n k fw = fw" by (simp add: processNack_def k x(1) split: option.split)
    then show ?thesis unfolding nack_outcome_def Let_def 3 list.case using x(3,4) k by auto
  qed
qed

text \<open>The entry with the Nack recorded on the out-record of the upstream.\<close>

definition nacked :: "face_id \<Rightarrow> nack \<Rightarrow> 'i pit_entry \<Rightarrow> 'i pit_entry" where
  "nacked ingress n = pe_modifyOutRecord ingress (\<lambda>r. snd (setIncomingNack n r))"

lemma nacked_simps [simp]:
  "pe_inRecords (nacked ingress n pe) = pe_inRecords pe" "getInRecord (nacked ingress n pe) f = getInRecord pe f"
  "pe_expiryTimer (nacked ingress n pe) = pe_expiryTimer pe" "pe_interest (nacked ingress n pe) = pe_interest pe"
  by (simp_all add: nacked_def pe_modifyOutRecord_def getInRecord_def)

lemma nacked_reason:
  assumes "getOutRecord pe ingress = Some r" and "fr_lastNonce r = int_nonce (nack_interest n)"
  shows "nack_reason n \<in> nack_reasons (pe_outRecords (nacked ingress n pe))"
proof -
  have "\<exists>r'\<in>set (update_first P g rs). or_incomingNack r' = Some x"
    if "find P rs = Some r" "or_incomingNack (g r) = Some x" for P g rs x and r :: "'a out_record"
    using that by (induction rs) (auto split: if_splits)
  then show ?thesis
    using assms by (simp add: nacked_def pe_modifyOutRecord_def nack_reasons_def getOutRecord_def setIncomingNack_def)
qed

lemma nacked_recorded:
  assumes "getOutRecord pe ingress = Some r" and "fr_lastNonce r = int_nonce (nack_interest n)"
  shows "map_option or_incomingNack (getOutRecord (nacked ingress n pe) ingress) = Some (Some (nack_reason n))"
proof -
  have "find (\<lambda>r. fr_face r = ingress) (update_first (\<lambda>r. fr_face r = ingress) g rs) = Some (g r)"
    if "find (\<lambda>r. fr_face r = ingress) rs = Some r" "\<And>r. fr_face (g r) = fr_face r" for g rs and r :: "'a out_record"
    using that by (induction rs) (auto split: if_splits)
  from this[where g = "\<lambda>r. snd (setIncomingNack n r)"] show ?thesis
    using assms by (simp add: nacked_def pe_modifyOutRecord_def getOutRecord_def setIncomingNack_def)
qed

lemma nack_outcome_timer:
  "nack_outcome rank (pe_expiryTimer_update t pe) fw fw' = nack_outcome rank pe fw fw'"
proof -
  have "waiting_for (pe_expiryTimer_update t pe) = waiting_for pe" "pe_outRecords (pe_expiryTimer_update t pe) = pe_outRecords pe"
    "getInRecord (pe_expiryTimer_update t pe) = getInRecord pe" "nack_to (pe_expiryTimer_update t pe) = nack_to pe"
    by (simp_all add: waiting_for_def nack_to_def getInRecord_def fun_eq_iff)
  then show ?thesis by (simp only: nack_outcome_def)
qed

lemma nack_outcome_cong:
  assumes "fw_faceTable fw1 = fw_faceTable fw" and "fw_sent fw1 = fw_sent fw"
  shows "nack_outcome rank pe fw1 fw' = nack_outcome rank pe fw fw'"
  unfolding nack_outcome_def assms ..

section \<open>Property\<close>

text \<open>
  C15: how a Nack is passed on by a strategy whose Nack trigger is the shared \<open>processNack\<close>. A Nack that answers
  the last Nonce sent to an upstream is recorded on the out-record of that upstream. While several
  other upstreams have not answered, nothing is sent; when a single one is left, nothing is sent
  either, unless it is itself a downstream on a point-to-point link, which then gets the Nack. Once all upstreams have
  sent a Nack, each downstream on a point-to-point link gets exactly one Nack, with the Interest it
  sent and the least severe of the reasons, and the entry is due at once.
\<close>

theorem nacks_are_collected:
  assumes ok: "fwd_ok env now {} fw" and p2p: "ft_linkType (fw_faceTable fw) ingress = LINK_TYPE_POINT_TO_POINT"
    and k: "fw_entry fw (interest_key (nack_interest n)) = Some pe"
    and r: "getOutRecord pe ingress = Some r" "fr_lastNonce r = int_nonce (nack_interest n)"
    and s: "effective (sc_view (fw_tables fw)) (pe_name pe) = Some s" "so_afterReceiveNack (S s) = (\<lambda>now. processNack env)"
    and law: "severity_law env rank" "face_order_law env"
  shows "let fw' = onIncomingNack env S now ingress n fw
    in nack_outcome rank (nacked ingress n pe) fw fw' \<and>
       (\<exists>pe'. fw_entry fw' (interest_key (nack_interest n)) = Some pe' \<and>
          pe_outRecords pe' = pe_outRecords (nacked ingress n pe) \<and>
          map_option or_incomingNack (getOutRecord pe' ingress) = Some (Some (nack_reason n)) \<and>
          (waiting_for (nacked ingress n pe) = [] \<longrightarrow> pe_expiryTimer pe' = Some now))"
proof -
  let ?k = "interest_key (nack_interest n)" and ?pe = "nacked ingress n pe"
  define fw1 where "fw1 = fw_pit ?k (nacked ingress n) (fw_count (nInNacks_update (\<lambda>c. c + 1)) fw)"
  define fw2 where "fw2 = (if \<not> hasPendingOutRecords now ?pe then setExpiryTimer now ?k 0 fw1 else fw1)"
  have keeps: "pit_keeps (nacked ingress n)"
    unfolding nacked_def by (rule pit_keeps_modifyOut) (simp add: setIncomingNack_def)
  have e1: "fw_entry fw1 ?k = Some ?pe" by (simp add: fw1_def pit_modify_view[OF keeps] k)
  have ok1: "fwd_ok env now {} fw1"
    unfolding fw1_def by (rule fwd_ok_records[OF _ keeps]) (use ok in \<open>simp_all add: nacked_def records_ok_modifyOut setIncomingNack_def\<close>)
  define t where "t = (if \<not> hasPendingOutRecords now ?pe then Some now else pe_expiryTimer pe)"
  have e2: "fw_entry fw2 ?k = Some (pe_expiryTimer_update (\<lambda>_. t) ?pe)" by (simp add: fw2_def e1 t_def)
  have ok2: "fwd_ok env now {} fw2"
    unfolding fw2_def using step_okD(1)[OF setExpiryTimer_step[OF ok1]] ok1 by simp
  have sc: "sc_view (fw_tables fw2) = sc_view (fw_tables fw)"
    by (simp add: sc_view_def fw2_def fw1_def setExpiryTimer_def fw_pit_def fw_count_def Let_def fun_eq_iff)
  obtain s' where s': "effective (sc_view (fw_tables fw2)) (pe_name (pe_expiryTimer_update (\<lambda>_. t) ?pe)) = Some s'"
    "\<And>trigger. dispatchToStrategy env S ?k trigger fw2 = trigger (S s') fw2"
    using dispatch_found[OF ok2 e2, of S] by blast
  have key: "pe_key pe = ?k" using pit_deref_key[OF k] by blast
  have "pit_find (fwe_hash env) (nack_interest n) (fw_tables fw) = Some ?k"
    using pit_find_correct[OF fwd_okD(1)[OF ok], of "nack_interest n"] k key by simp
  then have "onIncomingNack env S now ingress n fw = dispatchToStrategy env S ?k (\<lambda>s. so_afterReceiveNack s now ingress n ?k) fw2"
    unfolding onIncomingNack_def fw2_def Let_def using p2p r k e1 by (simp add: fw1_def nacked_def)
  then have r': "onIncomingNack env S now ingress n fw = processNack env ingress n ?k fw2" using s' s sc by simp
  have "nack_reasons (pe_outRecords ?pe) \<noteq> {}" using nacked_reason[OF r] by blast
  then have o: "nack_outcome rank ?pe fw2 (processNack env ingress n ?k fw2)"
    "map_option (\<lambda>p. (pe_expiryTimer p, pe_outRecords p)) (fw_entry (processNack env ingress n ?k fw2) ?k) =
      Some (t, pe_outRecords ?pe)"
    using processNack_outcome[OF ok2 e2 law, of ingress n] by (simp_all add: nack_outcome_timer)
  have same: "fw_faceTable fw2 = fw_faceTable fw" "fw_sent fw2 = fw_sent fw" by (simp_all add: fw2_def fw1_def)
  have "t = Some now" if "waiting_for ?pe = []"
    using that by (auto simp: t_def hasPendingOutRecords_def waiting_for_def filter_empty_conv list_ex_iff)
  moreover have "map_option or_incomingNack (getOutRecord p ingress) = Some (Some (nack_reason n))"
    if "pe_outRecords p = pe_outRecords ?pe" for p
    using nacked_recorded[OF r] that by (simp add: getOutRecord_def)
  ultimately show ?thesis unfolding Let_def r' using o nack_outcome_cong[OF same] by auto
qed

theorem nacks_are_collected_witness:
  "\<exists>(fw :: nfd_info forwarder) i. fw_sent (onIncomingNack fwd_env_example (\<lambda>_. best_route2_ops fwd_env_example) 0 257
       \<lparr>nack_interest = example_interest, nack_reason = NACK_CONGESTION\<rparr> fw) =
     fw_sent fw @ [(256, PktNack \<lparr>nack_interest = i, nack_reason = NACK_CONGESTION\<rparr>)]"
proof -
  let ?env = fwd_env_example and ?n = "\<lparr>nack_interest = example_interest, nack_reason = NACK_CONGESTION\<rparr>"
  define pe :: "nfd_info pit_entry" where "pe = insertOrUpdateOutRecord 0 257 ((received 256 example_interest)\<lparr>int_pitToken := None\<rparr>)
         (pending_entry 0 256 (received 256 example_interest))"
  obtain fw :: "nfd_info forwarder" where fw: "fwd_ok ?env 0 {} fw" "same_faces two_faces (fw_faceTable fw)"
    "fw_entry fw (interest_key example_interest) = Some pe"
    using pending_forwarder unfolding pe_def by blast
  obtain r where r: "pe_outRecords pe = [r]" "fr_face r = 257" "fr_lastNonce r = int_nonce example_interest"
    by (simp add: pe_def insertOrUpdateOutRecord_def getOutRecord_def mk_out_record_def faceRecord_update_def Let_def)
  have i: "pe_inRecords pe = [inRecord_update 0 (received 256 example_interest) (mk_in_record 256)]"
    by (simp add: pe_def insertOrUpdateOutRecord_def Let_def)
  have ft: "ft_linkType (fw_faceTable fw) 257 = LINK_TYPE_POINT_TO_POINT" "ft_linkType (fw_faceTable fw) 256 = LINK_TYPE_POINT_TO_POINT"
    using same_facesD(3)[OF fw(2)] by (simp_all add: two_faces_simps)
  obtain s where s: "effective (sc_view (fw_tables fw)) (pe_name pe) = Some s" using effective_total[OF fwd_okD(2)[OF fw(1)]] by blast
  have law: "severity_law ?env nack_rank"
  proof -
    have "inj nack_rank" by (rule injI, rename_tac x y, case_tac x; case_tac y; simp)
    moreover have "nack_rank x \<le> nack_rank NACK_NONE" for x by (cases x) simp_all
    ultimately show ?thesis by (simp add: severity_law_def fwd_env_example_def)
  qed
  have n: "nack_interest ?n = example_interest" by simp
  have o: "nack_outcome nack_rank (nacked 257 ?n pe) fw (onIncomingNack ?env (\<lambda>_. best_route2_ops ?env) 0 257 ?n fw)"
    using nacks_are_collected[OF fw(1) ft(1), of ?n pe r s "\<lambda>_. best_route2_ops ?env", unfolded n, OF fw(3) _ _ s _ law face_order_example]
      r by (simp add: getOutRecord_def best_route2_ops_def base_ops_def Let_def)
  have out: "pe_outRecords (nacked 257 ?n pe) = [r\<lparr>or_incomingNack := Some NACK_CONGESTION\<rparr>]"
    by (simp add: nacked_def pe_modifyOutRecord_def r setIncomingNack_def)
  have "nack_reasons (pe_outRecords (nacked 257 ?n pe)) = {NACK_CONGESTION}" "waiting_for (nacked 257 ?n pe) = []"
    by (simp_all add: out waiting_for_def)
  then obtain fs where fs: "distinct fs" "set fs = {f. getInRecord pe f \<noteq> None \<and> nack_allowed (fw_faceTable fw) f}"
    "fw_sent (onIncomingNack ?env (\<lambda>_. best_route2_ops ?env) 0 257 ?n fw) = fw_sent fw @ map (\<lambda>f. (f, nack_to (nacked 257 ?n pe) NACK_CONGESTION f)) fs"
    using o by (auto simp: nack_outcome_def Let_def)
  have "set fs = {256}"
    unfolding fs(2) by (auto simp: getInRecord_def i inRecord_update_def mk_in_record_def faceRecord_update_def nack_allowed_def ft)
  then have "fs = [256]" using fs(1) by (cases fs) (auto simp: subset_singleton_iff)
  then show ?thesis using fs(3) by (auto simp: nack_to_def)
qed

end
