(* ===== verification/Next_Hop_Signal.thy ===== *)
theory Next_Hop_Signal
  imports Forwarder_Examples
begin

text \<open>
  What a strategy learns about new next hops: the signal of the FIB reaches the strategies of pending
  Interests only when the next hop was added to the root entry.
\<close>

lemma newNextHop_nothing:
  assumes tb: "tables_ok (fwe_hash env) (fw_tables fw)" and n: "n \<noteq> []" and e: "fib_at (fw_tables fw) n \<noteq> None"
  shows "onNewNextHop env S now n nh fw = fw"
proof -
  let ?nt = "nameTree (fw_tables fw)"
  obtain x where x: "ht_map ?nt n = Some x" using e by (auto simp: map_slots_def no_slots_def split: option.splits)
  have "nte_fib x \<noteq> None" "nte_name x = n" using e x ht_map_name[OF x] by (auto simp: map_slots_def nte_slots_def)
  then have s: "sel_at (newNextHop_selector S) ?nt n = (False, False)" using n by (auto simp: sel_at_def x newNextHop_selector_def Let_def)
  have inv: "nt_inv (fwe_hash env) ?nt" by (rule tables_okD(1)[OF tb])
  have "preorder (newNextHop_selector S) ?nt n = []"
    using preorder_unfold[OF inv, of n "newNextHop_selector S"] x s by auto
  then have "partialEnumerate (fwe_hash env) n (newNextHop_selector S) ?nt = []" by (simp add: partialEnumerate_preorder[OF inv])
  then show ?thesis by (simp add: onNewNextHop_def)
qed

text \<open>
  C28: a next hop added to any FIB entry but the one for the root is not announced. Whatever the
  strategies are, adding it changes the FIB and nothing else: the enumeration starts at
  the name of the FIB entry itself, which has a FIB entry by then, so the selector discards it with all its descendants
  and no pending Interest below is ever offered to its strategy.
\<close>

theorem new_next_hop_not_announced:
  assumes ok: "fwd_ok env now {} fw" and n: "n \<noteq> []" and e: "fib_at (fw_tables fw) n \<noteq> None" and f: "f \<in> fw_faceIds fw"
  shows "fw_addNextHop env S now n f c fw = fw\<lparr>fw_tables := snd (fib_addOrUpdateNextHop n f c (fw_tables fw))\<rparr>"
proof -
  let ?fw = "fw\<lparr>fw_tables := snd (fib_addOrUpdateNextHop n f c (fw_tables fw))\<rparr>"
  have al: "fib_allowed (FibAddOrUpdate n f c) (fib_view (fw_tables fw))" using e by (simp add: fib_view_def)
  note r = fib_exec_refines[OF fwd_okD(1)[OF ok] al]
  have "fib_view (fw_tables ?fw) n \<noteq> None" using r al by (auto simp: spec_fib_add_def)
  then have e': "fib_at (fw_tables ?fw) n \<noteq> None" by (simp add: fib_view_def)
  have "onNewNextHop env S now n nh ?fw = ?fw" for nh by (rule newNextHop_nothing[OF _ n e']) (use r in simp)
  moreover have "p = n" if p: "fst (fib_addOrUpdateNextHop n f c (fw_tables fw)) = Some (p, nh)" for p nh
  proof -
    obtain x where x: "fib_at (fw_tables fw) n = Some x" using e by blast
    then have "fe_prefix x = n" using fib_slot_okD[OF fwd_okD(1)[OF ok]] by blast
    then show ?thesis
      using p x by (simp add: fib_addOrUpdateNextHop_def addOrUpdateNextHop_frame split_beta Let_def split: if_splits)
  qed
  ultimately show ?thesis by (auto simp: fw_addNextHop_def Let_def split_beta split: option.split)
qed

theorem new_next_hop_not_announced_witness:
  "\<exists>fw. fw_addNextHop fwd_env_example (nfd_strategies id fwd_env_example) 0 [generic_comp ''a''] 256 5 fw =
     fw\<lparr>fw_tables := snd (fib_addOrUpdateNextHop [generic_comp ''a''] 256 5 (fw_tables fw))\<rparr>"
proof -
  obtain fw :: "nfd_info forwarder" where fw: "fwd_ok fwd_env_example 0 {} fw" "fw_faceTable fw = two_faces"
    "fib_at (fw_tables fw) [generic_comp ''a''] \<noteq> None"
    using routed_forwarder by blast
  show ?thesis
    by (rule exI[of _ fw], rule new_next_hop_not_announced[OF fw(1) _ fw(3)]) (simp_all add: fw(2) two_faces_simps)
qed

end
