(* ===== verification/Lp_Packet.thy ===== *)
theory Lp_Packet
  imports NDN_Packets
begin

text \<open>
  NDNLPv2 link-layer packets. \<open>lp::Packet\<close> belongs to ndn-cxx: a packet is the fields the link
  service reads and writes, each absent or present once (Ack is the only repeatable field). How long
  a packet is on the wire is ndn-cxx's encoder, so it is a parameter: the function from a packet to
  the type, the size and the elements of its encoding, with what the NDNLPv2 format says about these
  sizes as the law \<open>lp_wire_law\<close>.
\<close>

type_synonym byte = "8 word"

lemma unat_u64: "n < 2 ^ 64 \<Longrightarrow> unat (of_nat n :: u64) = n"
  by (simp add: unsigned_of_nat take_bit_nat_eq_self)

record lp_packet =
  lp_fragment :: "byte list option"
  lp_fragIndex :: "u64 option"
  lp_fragCount :: "u64 option"
  lp_sequence :: "u64 option"
  lp_txSequence :: "u64 option"
  lp_acks :: "u64 list"
  lp_nack :: "nack_reason option"
  lp_nextHopFaceId :: "face_id option"
  lp_cachePolicy :: "nat option"
  lp_incomingFaceId :: "face_id option"
  lp_congestionMark :: "nat option"
  lp_nonDiscovery :: bool
  lp_prefixAnnouncement :: "byte list option"
  lp_pitToken :: "nat option"

definition lp_empty :: lp_packet where
  "lp_empty = \<lparr>lp_fragment = None, lp_fragIndex = None, lp_fragCount = None, lp_sequence = None,
     lp_txSequence = None, lp_acks = [], lp_nack = None, lp_nextHopFaceId = None, lp_cachePolicy = None,
     lp_incomingFaceId = None, lp_congestionMark = None, lp_nonDiscovery = False,
     lp_prefixAnnouncement = None, lp_pitToken = None\<rparr>"

lemma lp_empty_simps [simp]:
  "lp_fragment lp_empty = None" "lp_fragIndex lp_empty = None" "lp_fragCount lp_empty = None"
  "lp_sequence lp_empty = None" "lp_txSequence lp_empty = None" "lp_acks lp_empty = []"
  "lp_nack lp_empty = None" "lp_nextHopFaceId lp_empty = None" "lp_cachePolicy lp_empty = None"
  "lp_incomingFaceId lp_empty = None" "lp_congestionMark lp_empty = None" "lp_nonDiscovery lp_empty = False"
  "lp_prefixAnnouncement lp_empty = None" "lp_pitToken lp_empty = None"
  by (simp_all add: lp_empty_def)

text \<open>\<open>get<FragmentField>\<close>; every caller has checked that the field is there.\<close>

definition lp_payload :: "lp_packet \<Rightarrow> byte list" where
  "lp_payload p = (case lp_fragment p of Some b \<Rightarrow> b | None \<Rightarrow> [])"

lemma lp_payload_simps [simp]:
  "lp_fragment p = Some b \<Longrightarrow> lp_payload p = b"
  "lp_payload (p\<lparr>lp_sequence := s\<rparr>) = lp_payload p"
  "lp_payload (p\<lparr>lp_fragIndex := i\<rparr>) = lp_payload p"
  "lp_payload (p\<lparr>lp_fragCount := i\<rparr>) = lp_payload p"
  "lp_payload (p\<lparr>lp_fragment := Some b\<rparr>) = b"
  by (simp_all add: lp_payload_def)

section \<open>Sizes on the wire\<close>

text \<open>\<open>Block\<close> as the link service looks at it: TLV-TYPE, size, and the type and size of each element.\<close>

record wire =
  wire_type :: nat
  wire_size :: nat
  wire_elements :: "(nat \<times> nat) list"

type_synonym wire_encoder = "lp_packet \<Rightarrow> wire"

abbreviation (input) tlv_LpPacket :: nat where "tlv_LpPacket \<equiv> 100"
abbreviation (input) tlv_Fragment :: nat where "tlv_Fragment \<equiv> 80"

definition header_size :: "wire \<Rightarrow> nat" where
  "header_size w =
     (if wire_type w = tlv_LpPacket
      then sum_list (map snd (filter (\<lambda>e. fst e \<noteq> tlv_Fragment) (wire_elements w)))
      else 0)"

text \<open>
  The NDNLPv2 format: type and length of the packet take at most 10 octets, and so do those of its
  Fragment, and the headers and the payload are part of the packet; a Sequence, FragIndex or FragCount field takes at most 10 octets and does not change the
  other fields; and what the Fragment holds does not change the headers.
\<close>

definition lp_wire_law :: "wire_encoder \<Rightarrow> bool" where
  "lp_wire_law W \<longleftrightarrow>
     header_size (W lp_empty) = 0 \<and>
     (\<forall>p. wire_size (W p) \<le> 10 + header_size (W p) + 10 + length (lp_payload p)) \<and>
     (\<forall>p. header_size (W p) + length (lp_payload p) \<le> wire_size (W p)) \<and>
     (\<forall>p b. header_size (W (p\<lparr>lp_fragment := Some b\<rparr>)) = header_size (W p)) \<and>
     (\<forall>p v. header_size (W (p\<lparr>lp_fragIndex := Some v\<rparr>)) \<le> header_size (W p) + 10) \<and>
     (\<forall>p v. header_size (W (p\<lparr>lp_fragCount := Some v\<rparr>)) \<le> header_size (W p) + 10) \<and>
     (\<forall>p v. header_size (W (p\<lparr>lp_sequence := Some v\<rparr>)) \<le> header_size (W p) + 10)"

lemma lp_wire_lawD:
  assumes "lp_wire_law W"
  shows "header_size (W lp_empty) = 0" "wire_size (W p) \<le> 10 + header_size (W p) + 10 + length (lp_payload p)"
    "header_size (W p) + length (lp_payload p) \<le> wire_size (W p)"
    "header_size (W (p\<lparr>lp_fragment := Some b\<rparr>)) = header_size (W p)"
    "header_size (W (p\<lparr>lp_fragIndex := Some v\<rparr>)) \<le> header_size (W p) + 10"
    "header_size (W (p\<lparr>lp_fragCount := Some v\<rparr>)) \<le> header_size (W p) + 10"
    "header_size (W (p\<lparr>lp_sequence := Some v\<rparr>)) \<le> header_size (W p) + 10"
  using assms unfolding lp_wire_law_def by blast+

end
