(* ===== verification/Lp_Fragmenter.thy ===== *)
theory Lp_Fragmenter
  imports Lp_Packet
begin

text \<open>
  \<open>LpFragmenter\<close>: cuts the network-layer packet of a link-layer packet into fragments that fit the
  MTU. The loop that fills the fragments is a partial function: \<open>None\<close> is a loop that does not end, a
  write past the end of the vector, or a field added to a packet that has it already.
\<close>

section \<open>The code\<close>

definition MAX_SINGLE_FRAG_OVERHEAD :: nat where
  "MAX_SINGLE_FRAG_OVERHEAD = (1 + 9) + (1 + 1 + 8) + (1 + 9)"

definition MAX_FRAG_OVERHEAD :: nat where
  "MAX_FRAG_OVERHEAD = (1 + 9) + (1 + 1 + 8) + (1 + 1 + 8) + (1 + 1 + 8) + (1 + 9)"

record fragmenter =
  fr_nMaxFragments :: nat

definition fragmenter_default :: fragmenter where
  "fragmenter_default = \<lparr>fr_nMaxFragments = 400\<rparr>"

partial_function (option) populate ::
  "nat \<Rightarrow> nat \<Rightarrow> byte list \<Rightarrow> nat \<Rightarrow> nat \<Rightarrow> nat \<Rightarrow> lp_packet list \<Rightarrow> lp_packet list option" where
  "populate payloadSize fragCount netPkt fragIndex fragBegin fragEnd frags =
     (if fragBegin < length netPkt then
        if fragIndex < length frags \<and> lp_fragIndex (frags ! fragIndex) = None \<and> lp_fragCount (frags ! fragIndex) = None then
          let frag = (frags ! fragIndex)\<lparr>lp_fragIndex := Some (of_nat fragIndex), lp_fragCount := Some (of_nat fragCount),
                lp_fragment := Some (take (fragEnd - fragBegin) (drop fragBegin netPkt))\<rparr>
          in populate payloadSize fragCount netPkt (fragIndex + 1) fragEnd
               (min (length netPkt) (fragEnd + payloadSize)) (frags[fragIndex := frag])
        else None
      else Some frags)"

definition fragmentPacket :: "wire_encoder \<Rightarrow> fragmenter \<Rightarrow> lp_packet \<Rightarrow> nat \<Rightarrow> (bool \<times> lp_packet list) option" where
  "fragmentPacket W fr packet mtu =
     (if MAX_SINGLE_FRAG_OVERHEAD + wire_size (W packet) \<le> mtu then Some (True, [packet])
      else
        let netPkt = lp_payload packet;
            netPktSize = length netPkt;
            firstHeaderSize = header_size (W packet)
        in if MAX_FRAG_OVERHEAD + firstHeaderSize + 1 > mtu then Some (False, [])
           else
             let firstPayloadSize = min netPktSize (mtu - firstHeaderSize - MAX_FRAG_OVERHEAD);
                 payloadSize = mtu - MAX_FRAG_OVERHEAD;
                 fragCount = 1 + ((netPktSize - firstPayloadSize) div payloadSize) +
                   (if (netPktSize - firstPayloadSize) mod payloadSize \<noteq> 0 then 1 else 0)
             in if fragCount > fr_nMaxFragments fr then Some (False, [])
                else
                  case populate payloadSize fragCount netPkt 0 0 firstPayloadSize ((replicate fragCount lp_empty)[0 := packet]) of
                    None \<Rightarrow> None
                  | Some frags \<Rightarrow> Some (True, frags))"

section \<open>The fragments\<close>

text \<open>What the loop computes: the packet cut into pieces of the payload size.\<close>

function chunks :: "nat \<Rightarrow> 'a list \<Rightarrow> 'a list list" where
  "chunks k xs = (if k = 0 \<or> xs = [] then [] else take k xs # chunks k (drop k xs))"
  by pat_completeness auto

termination
  by (relation "measure (length \<circ> snd)") auto

declare chunks.simps [simp del]

lemma concat_chunks: "0 < k \<Longrightarrow> concat (chunks k xs) = xs"
  by (induction k xs rule: chunks.induct) (subst chunks.simps, simp)

lemma chunks_nonempty: "c \<in> set (chunks k xs) \<Longrightarrow> c \<noteq> [] \<and> length c \<le> k"
  by (induction k xs rule: chunks.induct) (subst (asm) (2) chunks.simps, auto split: if_splits)

lemma length_chunks: "0 < k \<Longrightarrow> length (chunks k xs) = length xs div k + (if length xs mod k \<noteq> 0 then 1 else 0)"
proof (induction k xs rule: chunks.induct)
  case (1 k xs)
  show ?case
  proof (cases "xs = [] \<or> length xs < k")
    case True
    then show ?thesis using 1(2) by (subst chunks.simps) (auto simp: chunks.simps[of k "[]"] mod_less)
  next
    case False
    then have le: "k \<le> length xs" and ne: "xs \<noteq> []" by auto
    have "length (chunks k xs) = 1 + length (chunks k (drop k xs))" using 1(2) ne by (subst chunks.simps) simp
    also have "\<dots> = 1 + ((length xs - k) div k + (if (length xs - k) mod k \<noteq> 0 then 1 else 0))"
      using 1 ne by simp
    also have "\<dots> = length xs div k + (if length xs mod k \<noteq> 0 then 1 else 0)"
      using 1(2) le by (simp add: le_div_geq le_mod_geq)
    finally show ?thesis .
  qed
qed

definition mk_fragment :: "lp_packet \<Rightarrow> nat \<Rightarrow> nat \<Rightarrow> byte list \<Rightarrow> lp_packet" where
  "mk_fragment p n j b = p\<lparr>lp_fragIndex := Some (of_nat j), lp_fragCount := Some (of_nat n), lp_fragment := Some b\<rparr>"

lemma mk_fragment_simps [simp]:
  "lp_fragIndex (mk_fragment p n j b) = Some (of_nat j)" "lp_fragCount (mk_fragment p n j b) = Some (of_nat n)"
  "lp_fragment (mk_fragment p n j b) = Some b" "lp_payload (mk_fragment p n j b) = b"
  "lp_sequence (mk_fragment p n j b) = lp_sequence p"
  by (simp_all add: mk_fragment_def)

definition fragments_of :: "lp_packet \<Rightarrow> byte list list \<Rightarrow> lp_packet list" where
  "fragments_of p bs = map (\<lambda>(j, b). mk_fragment (if j = 0 then p else lp_empty) (length bs) j b) (enumerate 0 bs)"

lemma fragments_of_simps [simp]:
  "length (fragments_of p bs) = length bs"
  "j < length bs \<Longrightarrow> fragments_of p bs ! j = mk_fragment (if j = 0 then p else lp_empty) (length bs) j (bs ! j)"
  by (simp_all add: fragments_of_def nth_enumerate_eq)

lemma fragments_of_payload: "map lp_payload (fragments_of p bs) = bs"
  by (rule nth_equalityI) auto

lemma populate_chunks:
  assumes k: "0 < k"
  shows "fragBegin < fragEnd \<Longrightarrow> fragEnd \<le> length netPkt \<Longrightarrow> i \<le> length frags \<Longrightarrow>
    (\<forall>j\<in>{i..<length frags}. lp_fragIndex (frags ! j) = None \<and> lp_fragCount (frags ! j) = None) \<Longrightarrow>
    bs = take (fragEnd - fragBegin) (drop fragBegin netPkt) # chunks k (drop fragEnd netPkt) \<Longrightarrow>
    length frags = i + length bs \<Longrightarrow>
    populate k n netPkt i fragBegin fragEnd frags =
      Some (take i frags @ map (\<lambda>(j, b). mk_fragment (frags ! j) n j b) (enumerate i bs))"
proof (induction "length netPkt - fragBegin" arbitrary: fragBegin fragEnd i frags bs rule: less_induct)
  case less
  let ?b = "take (fragEnd - fragBegin) (drop fragBegin netPkt)"
  let ?f = "mk_fragment (frags ! i) n i ?b"
  have i: "i < length frags" using less.prems(5,6) by simp
  have nx: "populate k n netPkt i fragBegin fragEnd frags =
     populate k n netPkt (i + 1) fragEnd (min (length netPkt) (fragEnd + k)) (frags[i := ?f])"
    using i less.prems(1,2,4) by (subst populate.simps) (simp add: mk_fragment_def Let_def)
  show ?case
  proof (cases "fragEnd < length netPkt")
    case False
    then have e: "chunks k (drop fragEnd netPkt) = []" by (simp add: chunks.simps)
    have "populate k n netPkt (i + 1) fragEnd (min (length netPkt) (fragEnd + k)) (frags[i := ?f]) = Some (frags[i := ?f])"
      using False by (subst populate.simps) simp
    moreover have "frags[i := ?f] = take i frags @ [?f]"
      using less.prems(5,6) e i by (simp add: upd_conv_take_nth_drop)
    ultimately show ?thesis using nx less.prems(5) e by simp
  next
    case True
    let ?e = "min (length netPkt) (fragEnd + k)" and ?fs = "frags[i := ?f]"
    have c: "chunks k (drop fragEnd netPkt) = take (?e - fragEnd) (drop fragEnd netPkt) # chunks k (drop ?e netPkt)"
    proof (cases "fragEnd + k \<le> length netPkt")
      case True
      then show ?thesis using k \<open>fragEnd < length netPkt\<close> by (subst chunks.simps) (simp add: add.commute)
    next
      case False
      then show ?thesis using k True by (subst chunks.simps) (simp add: chunks.simps[of k "[]"])
    qed
    let ?bs = "take (?e - fragEnd) (drop fragEnd netPkt) # chunks k (drop ?e netPkt)"
    have bs: "bs = ?b # ?bs" using less.prems(5) c by simp
    have "populate k n netPkt (i + 1) fragEnd ?e ?fs =
      Some (take (i + 1) ?fs @ map (\<lambda>(j, b). mk_fragment (?fs ! j) n j b) (enumerate (i + 1) ?bs))"
    proof (rule less.hyps)
      show "length netPkt - fragEnd < length netPkt - fragBegin" using less.prems(1,2) True by simp
      show "\<forall>j\<in>{i + 1..<length ?fs}. lp_fragIndex (?fs ! j) = None \<and> lp_fragCount (?fs ! j) = None"
        using less.prems(4) by simp
    qed (use k True i less.prems(6) bs in simp_all)
    moreover have "take (i + 1) ?fs = take i frags @ [?f]" using i by (simp add: take_Suc_conv_app_nth)
    moreover have "map (\<lambda>(j, b). mk_fragment (?fs ! j) n j b) (enumerate (i + 1) ?bs)
        = map (\<lambda>(j, b). mk_fragment (frags ! j) n j b) (enumerate (i + 1) ?bs)"
      by (rule map_cong) (auto simp: in_set_enumerate_eq)
    ultimately show ?thesis using nx bs by simp
  qed
qed

definition first_payload :: "wire_encoder \<Rightarrow> lp_packet \<Rightarrow> nat \<Rightarrow> nat" where
  "first_payload W p mtu = mtu - header_size (W p) - MAX_FRAG_OVERHEAD"

definition pieces :: "wire_encoder \<Rightarrow> lp_packet \<Rightarrow> nat \<Rightarrow> byte list list" where
  "pieces W p mtu = take (first_payload W p mtu) (lp_payload p) #
     chunks (mtu - MAX_FRAG_OVERHEAD) (drop (first_payload W p mtu) (lp_payload p))"

definition too_small :: "wire_encoder \<Rightarrow> lp_packet \<Rightarrow> nat \<Rightarrow> bool" where
  "too_small W p mtu \<longleftrightarrow> mtu \<le> MAX_FRAG_OVERHEAD + header_size (W p)"

definition fits_one :: "wire_encoder \<Rightarrow> lp_packet \<Rightarrow> nat \<Rightarrow> bool" where
  "fits_one W p mtu \<longleftrightarrow> MAX_SINGLE_FRAG_OVERHEAD + wire_size (W p) \<le> mtu"

lemma fragmentPacket_folded:
  "fragmentPacket W fr p mtu =
     (if fits_one W p mtu then Some (True, [p])
      else if too_small W p mtu then Some (False, [])
      else
        let m = min (length (lp_payload p)) (first_payload W p mtu); k = mtu - MAX_FRAG_OVERHEAD;
            n = 1 + (length (lp_payload p) - m) div k + (if (length (lp_payload p) - m) mod k \<noteq> 0 then 1 else 0)
        in if fr_nMaxFragments fr < n then Some (False, [])
           else case populate k n (lp_payload p) 0 0 m ((replicate n lp_empty)[0 := p]) of
                  None \<Rightarrow> None | Some frags \<Rightarrow> Some (True, frags))"
proof -
  have "mtu < MAX_FRAG_OVERHEAD + header_size (W p) + 1 \<longleftrightarrow> too_small W p mtu" by (auto simp: too_small_def)
  then show ?thesis unfolding fragmentPacket_def Let_def fits_one_def first_payload_def by (simp only:)
qed

lemma fragmentPacket_eq:
  assumes p: "lp_payload p \<noteq> []" "lp_fragIndex p = None" "lp_fragCount p = None"
  shows "fragmentPacket W fr p mtu = Some (
    if fits_one W p mtu then (True, [p])
    else if too_small W p mtu \<or> fr_nMaxFragments fr < length (pieces W p mtu) then (False, [])
    else (True, fragments_of p (pieces W p mtu)))"
proof (cases "fits_one W p mtu \<or> too_small W p mtu")
  case True
  then show ?thesis unfolding fragmentPacket_folded by (cases "fits_one W p mtu") simp_all
next
  case False
  let ?b = "lp_payload p" and ?k = "mtu - MAX_FRAG_OVERHEAD" and ?bs = "pieces W p mtu"
  let ?m = "min (length ?b) (first_payload W p mtu)"
  have k: "0 < ?k" and f: "0 < first_payload W p mtu" using False by (auto simp: too_small_def first_payload_def)
  have bs: "?bs = take (?m - 0) (drop 0 ?b) # chunks ?k (drop ?m ?b)"
    by (cases "length ?b \<le> first_payload W p mtu") (simp_all add: pieces_def)
  have n: "length ?bs = 1 + (length ?b - ?m) div ?k + (if (length ?b - ?m) mod ?k \<noteq> 0 then 1 else 0)"
    unfolding bs by (simp add: length_chunks[OF k])
  let ?frags = "(replicate (length ?bs) lp_empty)[0 := p]"
  have fr: "?frags ! j = (if j = 0 then p else lp_empty)" if "j < length ?bs" for j
    using that by (cases j) (simp_all add: pieces_def)
  have "populate ?k (length ?bs) ?b 0 0 ?m ?frags =
      Some (take 0 ?frags @ map (\<lambda>(j, b). mk_fragment (?frags ! j) (length ?bs) j b) (enumerate 0 ?bs))"
    by (rule populate_chunks[OF k _ _ _ _ bs]) (use p f in \<open>simp_all add: fr\<close>)
  also have "take 0 ?frags @ map (\<lambda>(j, b). mk_fragment (?frags ! j) (length ?bs) j b) (enumerate 0 ?bs) = fragments_of p ?bs"
    unfolding fragments_of_def by (auto intro!: map_cong simp: in_set_enumerate_eq fr)
  finally have pop: "populate ?k (length ?bs) ?b 0 0 ?m ?frags = Some (fragments_of p ?bs)" .
  show ?thesis
    using False unfolding fragmentPacket_folded Let_def n[symmetric] pop by simp
qed

lemma pieces_concat:
  assumes "\<not> too_small W p mtu"
  shows "concat (pieces W p mtu) = lp_payload p"
  using assms by (simp add: pieces_def concat_chunks too_small_def)

lemma pieces_bounds:
  assumes s: "\<not> too_small W p mtu" and b: "lp_payload p \<noteq> []" and j: "j < length (pieces W p mtu)"
  shows "pieces W p mtu ! j \<noteq> []"
    "length (pieces W p mtu ! j) + (if j = 0 then header_size (W p) else 0) + MAX_FRAG_OVERHEAD \<le> mtu"
proof -
  have "pieces W p mtu ! j \<noteq> [] \<and> length (pieces W p mtu ! j) + (if j = 0 then header_size (W p) else 0) + MAX_FRAG_OVERHEAD \<le> mtu"
  proof (cases j)
    case 0
    then show ?thesis using s b by (auto simp: pieces_def too_small_def first_payload_def)
  next
    case (Suc i)
    then have "pieces W p mtu ! j \<in> set (chunks (mtu - MAX_FRAG_OVERHEAD) (drop (first_payload W p mtu) (lp_payload p)))"
      using j by (simp add: pieces_def)
    from chunks_nonempty[OF this] show ?thesis using Suc s by (auto simp: too_small_def)
  qed
  then show "pieces W p mtu ! j \<noteq> []"
    "length (pieces W p mtu ! j) + (if j = 0 then header_size (W p) else 0) + MAX_FRAG_OVERHEAD \<le> mtu" by blast+
qed

lemma fragment_fits:
  assumes law: "lp_wire_law W" and s: "\<not> too_small W p mtu" "lp_payload p \<noteq> []"
    and f: "f \<in> set (fragments_of p (pieces W p mtu))"
  shows "wire_size (W (f\<lparr>lp_sequence := Some v\<rparr>)) \<le> mtu"
proof -
  note L = lp_wire_lawD[OF law]
  obtain j where j: "j < length (pieces W p mtu)"
    "f = mk_fragment (if j = 0 then p else lp_empty) (length (pieces W p mtu)) j (pieces W p mtu ! j)"
    using f by (auto simp: in_set_conv_nth)
  let ?p = "if j = 0 then p else lp_empty"
  have "header_size (W f) \<le> header_size (W ?p) + 20"
    using L(5)[of "of_nat j" ?p] L(6)[of "of_nat (length (pieces W p mtu))" "?p\<lparr>lp_fragIndex := Some (of_nat j)\<rparr>"]
    unfolding j(2) mk_fragment_def by (simp add: L(4))
  then have "wire_size (W (f\<lparr>lp_sequence := Some v\<rparr>)) \<le> 50 + header_size (W ?p) + length (lp_payload f)"
    using L(2)[of "f\<lparr>lp_sequence := Some v\<rparr>"] L(7)[of v f] by simp
  also have "\<dots> \<le> mtu"
    using pieces_bounds(2)[OF s j(1)] L(1) j(2) by (simp add: MAX_FRAG_OVERHEAD_def split: if_splits)
  finally show ?thesis .
qed

lemma pieces_several:
  assumes law: "lp_wire_law W" and n: "\<not> fits_one W p mtu" "\<not> too_small W p mtu"
  shows "1 < length (pieces W p mtu)"
proof -
  have "first_payload W p mtu < length (lp_payload p)"
    using lp_wire_lawD(2)[OF law, of p] n
    by (simp add: fits_one_def too_small_def first_payload_def MAX_FRAG_OVERHEAD_def MAX_SINGLE_FRAG_OVERHEAD_def)
  moreover have "0 < mtu - MAX_FRAG_OVERHEAD" using n(2) by (simp add: too_small_def)
  ultimately show ?thesis by (simp add: pieces_def) (subst chunks.simps, simp)
qed

end
