(* ===== verification/Lp_Reassembler.thy ===== *)
theory Lp_Reassembler
  imports Lp_Packet
begin

text \<open>
  \<open>LpReassembler\<close>: collects the fragments of network-layer packets. An endpoint is an element of a
  type the reassembler only compares. The constructor of \<open>Block\<close>, which throws on malformed TLV, is the
  parameter \<open>blk\<close>; the drop timer of a partial packet is the time it goes off.
\<close>

section \<open>The code\<close>

datatype lp_error = TLV_ERROR

record partial_packet =
  pp_fragments :: "lp_packet list"
  pp_fragCount :: nat
  pp_nReceivedFragments :: nat
  pp_dropTimer :: "time_point option"

record 'e reassembler =
  ra_nMaxFragments :: nat
  ra_reassemblyTimeout :: int
  ra_partialPackets :: "'e \<times> u64 \<Rightarrow> partial_packet option"

definition mk_reassembler :: "'e reassembler" where
  "mk_reassembler = \<lparr>ra_nMaxFragments = 400, ra_reassemblyTimeout = ms 500, ra_partialPackets = (\<lambda>_. None)\<rparr>"

definition mk_partial :: partial_packet where
  "mk_partial = \<lparr>pp_fragments = [], pp_fragCount = 0, pp_nReceivedFragments = 0, pp_dropTimer = None\<rparr>"

definition ra_put :: "'e \<times> u64 \<Rightarrow> partial_packet option \<Rightarrow> 'e reassembler \<Rightarrow> 'e reassembler" where
  "ra_put key pp ra = ra\<lparr>ra_partialPackets := (ra_partialPackets ra)(key := pp)\<rparr>"

definition doReassembly :: "(byte list \<Rightarrow> 'b option) \<Rightarrow> partial_packet \<Rightarrow> 'b option" where
  "doReassembly blk pp = blk (concat (map lp_payload (pp_fragments pp)))"

definition receiveFragment ::
  "(byte list \<Rightarrow> 'b option) \<Rightarrow> time_point \<Rightarrow> lp_packet \<Rightarrow> 'e \<Rightarrow> 'e reassembler \<Rightarrow>
    (lp_error + ('b \<times> lp_packet) option) \<times> 'e reassembler" where
  "receiveFragment blk now packet remoteEndpoint ra =
     (let fragIndex = (case lp_fragIndex packet of Some v \<Rightarrow> v | None \<Rightarrow> 0);
          fragCount = (case lp_fragCount packet of Some v \<Rightarrow> v | None \<Rightarrow> 1)
      in if fragIndex \<ge> fragCount then (Inr None, ra)
         else if unat fragCount > ra_nMaxFragments ra then (Inr None, ra)
         else if fragIndex = 0 \<and> fragCount = 1 then
           (case blk (lp_payload packet) of
              None \<Rightarrow> (Inl TLV_ERROR, ra)
            | Some netPkt \<Rightarrow> (Inr (Some (netPkt, packet)), ra))
         else case lp_sequence packet of
           None \<Rightarrow> (Inr None, ra)
         | Some seq \<Rightarrow>
             let messageIdentifier = seq - fragIndex;
                 key = (remoteEndpoint, messageIdentifier);
                 pp0 = (case ra_partialPackets ra key of Some pp \<Rightarrow> pp | None \<Rightarrow> mk_partial);
                 pp = (if pp_fragCount pp0 = 0
                   then pp0\<lparr>pp_fragCount := unat fragCount, pp_nReceivedFragments := 0,
                     pp_fragments := replicate (unat fragCount) lp_empty\<rparr>
                   else pp0)
             in if unat fragCount \<noteq> pp_fragCount pp then (Inr None, ra)
                else if lp_sequence (pp_fragments pp ! unat fragIndex) \<noteq> None then (Inr None, ra)
                else
                  let pp = pp\<lparr>pp_fragments := (pp_fragments pp)[unat fragIndex := packet],
                        pp_nReceivedFragments := pp_nReceivedFragments pp + 1\<rparr>
                  in if pp_nReceivedFragments pp = pp_fragCount pp then
                       (case doReassembly blk pp of
                          None \<Rightarrow> (Inl TLV_ERROR, ra_put key (Some pp) ra)
                        | Some reassembled \<Rightarrow> (Inr (Some (reassembled, pp_fragments pp ! 0)), ra_put key None ra))
                     else (Inr None, ra_put key (Some (pp\<lparr>pp_dropTimer := Some (now + ra_reassemblyTimeout ra)\<rparr>)) ra))"

text \<open>The number of fragments dropped is what the signal \<open>beforeTimeout\<close> carries.\<close>

definition timeoutPartialPacket :: "'e \<times> u64 \<Rightarrow> 'e reassembler \<Rightarrow> ('e \<times> nat) option \<times> 'e reassembler" where
  "timeoutPartialPacket key ra =
     (case ra_partialPackets ra key of
        None \<Rightarrow> (None, ra)
      | Some pp \<Rightarrow> (Some (fst key, pp_nReceivedFragments pp), ra_put key None ra))"

definition ra_setOptions :: "nat \<Rightarrow> int \<Rightarrow> 'e reassembler \<Rightarrow> 'e reassembler" where
  "ra_setOptions n t ra = ra\<lparr>ra_nMaxFragments := n, ra_reassemblyTimeout := t\<rparr>"

section \<open>Partial packets\<close>

text \<open>
  A stored partial packet has at least two places, one per fragment of the message; a place is empty
  or holds a fragment whose sequence number is that of the message plus its index; the count is the
  number of filled places, and the drop timer runs.
\<close>

definition place_ok :: "u64 \<Rightarrow> nat \<Rightarrow> lp_packet \<Rightarrow> bool" where
  "place_ok mid j pk \<longleftrightarrow> pk = lp_empty \<or> lp_sequence pk = Some (mid + of_nat j) \<and> lp_fragment pk \<noteq> None"

definition filled :: "lp_packet list \<Rightarrow> nat set" where
  "filled pks = {j. j < length pks \<and> lp_sequence (pks ! j) \<noteq> None}"

definition partial_ok :: "u64 \<Rightarrow> partial_packet \<Rightarrow> bool" where
  "partial_ok mid pp \<longleftrightarrow>
     2 \<le> pp_fragCount pp \<and> length (pp_fragments pp) = pp_fragCount pp \<and>
     (\<forall>j<pp_fragCount pp. place_ok mid j (pp_fragments pp ! j)) \<and>
     pp_nReceivedFragments pp = card (filled (pp_fragments pp)) \<and>
     1 \<le> pp_nReceivedFragments pp \<and> pp_dropTimer pp \<noteq> None"

definition reassembler_ok :: "'e reassembler \<Rightarrow> bool" where
  "reassembler_ok ra \<longleftrightarrow> (\<forall>ep mid pp. ra_partialPackets ra (ep, mid) = Some pp \<longrightarrow> partial_ok mid pp)"

lemma reassembler_okD:
  "reassembler_ok ra \<Longrightarrow> ra_partialPackets ra key = Some pp \<Longrightarrow> partial_ok (snd key) pp"
  by (cases key) (simp add: reassembler_ok_def)

lemma finite_filled [simp]: "finite (filled pks)"
  by (rule finite_subset[of _ "{..<length pks}"]) (auto simp: filled_def)

lemma filled_update:
  assumes "j < length pks" "lp_sequence (pks ! j) = None" "lp_sequence pk \<noteq> None"
  shows "card (filled (pks[j := pk])) = card (filled pks) + 1"
proof -
  have "filled (pks[j := pk]) = insert j (filled pks)"
    using assms by (auto simp: filled_def nth_list_update split: if_splits)
  moreover have "j \<notin> filled pks" using assms by (simp add: filled_def)
  ultimately show ?thesis by simp
qed

lemma filled_replicate [simp]: "filled (replicate n lp_empty) = {}"
  by (auto simp: filled_def)

lemma mk_reassembler_ok: "reassembler_ok mk_reassembler"
  by (simp add: reassembler_ok_def mk_reassembler_def)

lemma ra_put_ok:
  assumes "reassembler_ok ra" "\<And>p. pp = Some p \<Longrightarrow> partial_ok (snd key) p"
  shows "reassembler_ok (ra_put key pp ra)"
  using assms by (auto simp: reassembler_ok_def ra_put_def split: if_splits)

text \<open>Where a fragment goes: its partial packet, new or already there.\<close>

definition partial_for :: "'e reassembler \<Rightarrow> 'e \<times> u64 \<Rightarrow> nat \<Rightarrow> partial_packet" where
  "partial_for ra key n =
     (case ra_partialPackets ra key of
        Some pp \<Rightarrow> pp
      | None \<Rightarrow> mk_partial\<lparr>pp_fragCount := n, pp_fragments := replicate n lp_empty\<rparr>)"

definition add_fragment :: "nat \<Rightarrow> lp_packet \<Rightarrow> partial_packet \<Rightarrow> partial_packet" where
  "add_fragment j pk pp = pp\<lparr>pp_fragments := (pp_fragments pp)[j := pk], pp_nReceivedFragments := pp_nReceivedFragments pp + 1\<rparr>"

lemma receiveFragment_several:
  assumes ok: "reassembler_ok ra"
    and pk: "lp_sequence pk = Some seq" "(case lp_fragIndex pk of Some v \<Rightarrow> v | None \<Rightarrow> 0) = i"
      "(case lp_fragCount pk of Some v \<Rightarrow> v | None \<Rightarrow> 1) = n" "i < n" "n \<noteq> 1" "unat n \<le> ra_nMaxFragments ra"
  shows "receiveFragment blk now pk ep ra =
    (let key = (ep, seq - i); pp = partial_for ra key (unat n)
     in if unat n \<noteq> pp_fragCount pp \<or> lp_sequence (pp_fragments pp ! unat i) \<noteq> None then (Inr None, ra)
        else let pp = add_fragment (unat i) pk pp
        in if pp_nReceivedFragments pp = pp_fragCount pp then
             (case doReassembly blk pp of
                None \<Rightarrow> (Inl TLV_ERROR, ra_put key (Some pp) ra)
              | Some b \<Rightarrow> (Inr (Some (b, pp_fragments pp ! 0)), ra_put key None ra))
           else (Inr None, ra_put key (Some (pp\<lparr>pp_dropTimer := Some (now + ra_reassemblyTimeout ra)\<rparr>)) ra))"
proof -
  have g: "\<not> (n \<le> i)" "\<not> (ra_nMaxFragments ra < unat n)" "\<not> (i = 0 \<and> n = 1)" using pk by auto
  let ?key = "(ep, seq - i)"
  have pp: "(if pp_fragCount (case ra_partialPackets ra ?key of Some pp \<Rightarrow> pp | None \<Rightarrow> mk_partial) = 0
       then (case ra_partialPackets ra ?key of Some pp \<Rightarrow> pp | None \<Rightarrow> mk_partial)
          \<lparr>pp_fragCount := unat n, pp_nReceivedFragments := 0, pp_fragments := replicate (unat n) lp_empty\<rparr>
       else (case ra_partialPackets ra ?key of Some pp \<Rightarrow> pp | None \<Rightarrow> mk_partial)) = partial_for ra ?key (unat n)"
  proof (cases "ra_partialPackets ra ?key")
    case (Some q)
    then have "pp_fragCount q \<noteq> 0" using reassembler_okD[OF ok] by (fastforce simp: partial_ok_def)
    then show ?thesis using Some by (simp add: partial_for_def)
  qed (simp add: partial_for_def mk_partial_def)
  show ?thesis
    unfolding receiveFragment_def pk(1-3) Let_def option.case if_not_P[OF g(1)] if_not_P[OF g(2)] if_not_P[OF g(3)] pp
      add_fragment_def[symmetric]
    by (cases "unat n \<noteq> pp_fragCount (partial_for ra ?key (unat n))") simp_all
qed

lemma partial_for_ok:
  assumes ok: "reassembler_ok ra" and n: "2 \<le> n"
  shows "length (pp_fragments (partial_for ra (ep, mid) n)) = pp_fragCount (partial_for ra (ep, mid) n)"
    "\<And>j. j < pp_fragCount (partial_for ra (ep, mid) n) \<Longrightarrow> place_ok mid j (pp_fragments (partial_for ra (ep, mid) n) ! j)"
    "pp_nReceivedFragments (partial_for ra (ep, mid) n) = card (filled (pp_fragments (partial_for ra (ep, mid) n)))"
    "2 \<le> pp_fragCount (partial_for ra (ep, mid) n)"
    "pp_nReceivedFragments (partial_for ra (ep, mid) n) \<noteq> 0 \<Longrightarrow> pp_dropTimer (partial_for ra (ep, mid) n) \<noteq> None"
  using n reassembler_okD[OF ok, of "(ep, mid)"]
  by (cases "ra_partialPackets ra (ep, mid)"; simp add: partial_for_def mk_partial_def partial_ok_def place_ok_def)+

lemma receiveFragment_cases:
  fixes pk :: lp_packet
  obtains (drop) "\<And>blk :: byte list \<Rightarrow> 'b option. receiveFragment blk now pk ep ra = (Inr None, ra)"
  | (whole) "\<And>blk :: byte list \<Rightarrow> 'b option. receiveFragment blk now pk ep ra =
      (case blk (lp_payload pk) of None \<Rightarrow> Inl TLV_ERROR | Some b \<Rightarrow> Inr (Some (b, pk)), ra)"
  | (part) seq i n where "lp_sequence pk = Some seq" "(case lp_fragIndex pk of Some v \<Rightarrow> v | None \<Rightarrow> 0) = i"
      "(case lp_fragCount pk of Some v \<Rightarrow> v | None \<Rightarrow> 1) = n" "i < n" "n \<noteq> 1" "unat n \<le> ra_nMaxFragments ra"
proof -
  define i where "i = (case lp_fragIndex pk of Some v \<Rightarrow> v | None \<Rightarrow> 0)"
  define n where "n = (case lp_fragCount pk of Some v \<Rightarrow> v | None \<Rightarrow> 1)"
  consider "n \<le> i \<or> ra_nMaxFragments ra < unat n" | "i < n" "unat n \<le> ra_nMaxFragments ra" "i = 0 \<and> n = 1"
    | "i < n" "unat n \<le> ra_nMaxFragments ra" "\<not> (i = 0 \<and> n = 1)" by fastforce
  then show thesis
  proof cases
    case 1
    then show ?thesis by (intro drop) (auto simp: receiveFragment_def Let_def i_def[symmetric] n_def[symmetric])
  next
    case 2
    then show ?thesis
      by (intro whole) (auto simp: receiveFragment_def Let_def i_def[symmetric] n_def[symmetric] split: option.split)
  next
    case 3
    then have n1: "n \<noteq> 1" by (auto simp: word_less_1)
    show ?thesis
    proof (cases "lp_sequence pk")
      case None
      with 3 show ?thesis by (intro drop) (auto simp: receiveFragment_def Let_def i_def[symmetric] n_def[symmetric])
    next
      case (Some seq)
      then show ?thesis using 3 n1 part i_def n_def by metis
    qed
  qed
qed

lemma receiveFragment_ok [inv_intros]:
  fixes blk :: "byte list \<Rightarrow> 'b option"
  assumes ok: "reassembler_ok ra" and fr: "lp_fragment pk \<noteq> None"
  shows "reassembler_ok (snd (receiveFragment blk now pk ep ra))"
proof (cases rule: receiveFragment_cases[where pk = pk and ra = ra and ep = ep and now = now and 'b = 'b])
  case (part seq i n)
  let ?pp = "partial_for ra (ep, seq - i) (unat n)" let ?q = "add_fragment (unat i) pk ?pp"
  have n2: "2 \<le> unat n" "unat i < unat n" using part(4,5) by (auto simp: word_less_nat_alt word_unat_eq_iff)
  note P = partial_for_ok[OF ok n2(1), where ep = ep and mid = "seq - i"]
  show ?thesis
  proof (cases "unat n \<noteq> pp_fragCount ?pp \<or> lp_sequence (pp_fragments ?pp ! unat i) \<noteq> None")
    case True
    then show ?thesis using ok by (simp add: receiveFragment_several[OF ok part] Let_def)
  next
    case False
    then have f: "card (filled ((pp_fragments ?pp)[unat i := pk])) = card (filled (pp_fragments ?pp)) + 1"
      using n2(2) P(1) part(1) by (intro filled_update) auto
    have pl: "place_ok (seq - i) j ((pp_fragments ?pp)[unat i := pk] ! j)" if "j < pp_fragCount ?pp" for j
      using that P(1,2) part(1) fr by (cases "j = unat i") (auto simp: place_ok_def)
    have q: "partial_ok (seq - i) (?q\<lparr>pp_dropTimer := t\<rparr>)" if "t \<noteq> None" for t
      using that P(1,3,4) pl f by (auto simp: partial_ok_def add_fragment_def)
    have q': "partial_ok (seq - i) ?q" if "pp_nReceivedFragments ?q = pp_fragCount ?q"
    proof -
      have "pp_nReceivedFragments ?pp \<noteq> 0" using that P(4) by (simp add: add_fragment_def)
      from P(5)[OF this] show ?thesis using that P(1,3,4) pl f by (auto simp: partial_ok_def add_fragment_def)
    qed
    show ?thesis
      using ok q q' False
      by (simp add: receiveFragment_several[OF ok part] Let_def split: option.split) (auto intro!: ra_put_ok)
  qed
qed (use ok in simp_all)

lemma timeoutPartialPacket_ok [inv_intros]: "reassembler_ok ra \<Longrightarrow> reassembler_ok (snd (timeoutPartialPacket key ra))"
  by (auto simp: timeoutPartialPacket_def intro!: ra_put_ok split: option.split)

section \<open>A message in any order\<close>

text \<open>The fragments of one message: consecutive sequence numbers, one index each, the same count.\<close>

definition message :: "u64 \<Rightarrow> lp_packet list \<Rightarrow> bool" where
  "message mid pks \<longleftrightarrow> 1 < length pks \<and> length pks < 2 ^ 64 \<and>
     (\<forall>j<length pks. lp_fragIndex (pks ! j) = Some (of_nat j) \<and> lp_fragCount (pks ! j) = Some (of_nat (length pks)) \<and>
        lp_sequence (pks ! j) = Some (mid + of_nat j) \<and> lp_fragment (pks ! j) \<noteq> None)"

fun receiveAll ::
  "(byte list \<Rightarrow> 'b option) \<Rightarrow> 'e \<Rightarrow> (time_point \<times> lp_packet) list \<Rightarrow> 'e reassembler \<Rightarrow>
    (lp_error + ('b \<times> lp_packet) option) list \<times> 'e reassembler" where
  "receiveAll blk ep [] ra = ([], ra)"
| "receiveAll blk ep ((now, pk) # pks) ra =
     (let (r, ra) = receiveFragment blk now pk ep ra; (rs, ra) = receiveAll blk ep pks ra in (r # rs, ra))"

lemma messageD:
  assumes "message mid pks"
  shows "1 < length pks" "length pks < 2 ^ 64"
    "j < length pks \<Longrightarrow> lp_fragIndex (pks ! j) = Some (of_nat j)"
    "j < length pks \<Longrightarrow> lp_fragCount (pks ! j) = Some (of_nat (length pks))"
    "j < length pks \<Longrightarrow> lp_sequence (pks ! j) = Some (mid + of_nat j)"
    "j < length pks \<Longrightarrow> lp_fragment (pks ! j) \<noteq> None"
  using assms unfolding message_def by blast+

lemma message_distinct:
  assumes "message mid pks"
  shows "distinct pks"
proof -
  have "pks ! i \<noteq> pks ! j" if "i < length pks" "j < length pks" "i \<noteq> j" for i j
  proof
    assume "pks ! i = pks ! j"
    then have "Some (of_nat i :: u64) = Some (of_nat j)" using messageD(3)[OF assms] that by metis
    then have "unat (of_nat i :: u64) = unat (of_nat j :: u64)" by simp
    then show False using messageD(2)[OF assms] that by (simp add: unat_u64)
  qed
  then show ?thesis by (simp add: distinct_conv_nth)
qed

text \<open>The partial packet after the fragments in \<open>got\<close> have come in.\<close>

definition got_part :: "lp_packet list \<Rightarrow> lp_packet set \<Rightarrow> lp_packet list" where
  "got_part pks got = map (\<lambda>pk. if pk \<in> got then pk else lp_empty) pks"

definition has_got :: "'e reassembler \<Rightarrow> 'e \<times> u64 \<Rightarrow> lp_packet list \<Rightarrow> lp_packet set \<Rightarrow> bool" where
  "has_got ra key pks got \<longleftrightarrow>
     (if got = {} then ra_partialPackets ra key = None
      else \<exists>pp. ra_partialPackets ra key = Some pp \<and> pp_fragments pp = got_part pks got \<and>
        pp_fragCount pp = length pks \<and> pp_nReceivedFragments pp = card got)"

lemma partial_for_got:
  assumes "has_got ra key pks got"
  shows "pp_fragments (partial_for ra key (length pks)) = got_part pks got"
    "pp_fragCount (partial_for ra key (length pks)) = length pks"
    "pp_nReceivedFragments (partial_for ra key (length pks)) = card got"
  using assms by (auto simp: has_got_def partial_for_def mk_partial_def got_part_def map_replicate_const split: if_splits)

lemma receive_message_fragment:
  fixes blk :: "byte list \<Rightarrow> 'b option"
  assumes ok: "reassembler_ok ra" and m: "message mid pks" and lim: "length pks \<le> ra_nMaxFragments ra"
    and got: "has_got ra (ep, mid) pks got" "got \<subseteq> set pks" and pk: "pk \<in> set pks" "pk \<notin> got"
  shows "insert pk got \<noteq> set pks \<Longrightarrow> \<exists>ra'. receiveFragment blk now pk ep ra = (Inr None, ra') \<and>
      has_got ra' (ep, mid) pks (insert pk got) \<and> (\<exists>q. ra' = ra_put (ep, mid) q ra)"
    and "insert pk got = set pks \<Longrightarrow> receiveFragment blk now pk ep ra =
      (case blk (concat (map lp_payload pks)) of
         None \<Rightarrow> (Inl TLV_ERROR, snd (receiveFragment blk now pk ep ra))
       | Some b \<Rightarrow> (Inr (Some (b, hd pks)), ra_put (ep, mid) None ra))"
proof -
  obtain j where j: "j < length pks" "pks ! j = pk" using pk(1) by (auto simp: in_set_conv_nth)
  let ?n = "of_nat (length pks) :: u64" and ?i = "of_nat j :: u64"
  have un: "unat ?n = length pks" "unat ?i = j" using messageD(2)[OF m] j(1) by (simp_all add: unat_u64)
  have f: "lp_sequence pk = Some (mid + ?i)" "(case lp_fragIndex pk of Some v \<Rightarrow> v | None \<Rightarrow> 0) = ?i"
    "(case lp_fragCount pk of Some v \<Rightarrow> v | None \<Rightarrow> 1) = ?n" using messageD(3-5)[OF m j(1)] j(2) by simp_all
  have g: "?i < ?n" "?n \<noteq> 1" "unat ?n \<le> ra_nMaxFragments ra"
    using messageD(1)[OF m] j(1) un lim by (auto simp: word_less_nat_alt word_unat_eq_iff)
  let ?pp = "partial_for ra (ep, mid) (length pks)"
  note P = partial_for_got[OF got(1)]
  have new: "lp_sequence (got_part pks got ! j) = None" using j pk(2) by (simp add: got_part_def)
  have upd: "(got_part pks got)[j := pk] = got_part pks (insert pk got)"
    using j message_distinct[OF m] unfolding got_part_def
    by (intro nth_equalityI) (auto simp: nth_list_update nth_eq_iff_index_eq)
  have fin: "finite got" using got(2) finite_subset by blast
  have c: "card (insert pk got) = card got + 1" using fin pk(2) by simp
  have n: "card (set pks) = length pks" using message_distinct[OF m] by (simp add: distinct_card)
  define q where "q = add_fragment j pk ?pp"
  have q: "pp_fragments q = got_part pks (insert pk got)" "pp_fragCount q = length pks"
    "pp_nReceivedFragments q = card (insert pk got)"
    by (simp_all add: q_def add_fragment_def P upd c)
  have r: "receiveFragment blk now pk ep ra =
    (if card (insert pk got) = length pks then
       (case doReassembly blk q of
          None \<Rightarrow> (Inl TLV_ERROR, ra_put (ep, mid) (Some q) ra)
        | Some b \<Rightarrow> (Inr (Some (b, pp_fragments q ! 0)), ra_put (ep, mid) None ra))
     else (Inr None, ra_put (ep, mid) (Some (q\<lparr>pp_dropTimer := Some (now + ra_reassemblyTimeout ra)\<rparr>)) ra))"
    unfolding receiveFragment_several[OF ok f g] un add_diff_cancel_right' Let_def P(1,2) q_def[symmetric] q(2,3)
    by (simp add: new)
  show "\<exists>ra'. receiveFragment blk now pk ep ra = (Inr None, ra') \<and> has_got ra' (ep, mid) pks (insert pk got) \<and>
      (\<exists>q. ra' = ra_put (ep, mid) q ra)" if "insert pk got \<noteq> set pks"
  proof -
    have "card (insert pk got) \<noteq> length pks"
      using that n got(2) pk(1) by (metis card_subset_eq finite_set insert_subset)
    then show ?thesis using r q by (simp add: has_got_def ra_put_def) blast
  qed
  show "receiveFragment blk now pk ep ra =
      (case blk (concat (map lp_payload pks)) of
         None \<Rightarrow> (Inl TLV_ERROR, snd (receiveFragment blk now pk ep ra))
       | Some b \<Rightarrow> (Inr (Some (b, hd pks)), ra_put (ep, mid) None ra))" if a: "insert pk got = set pks"
  proof -
    have all: "pp_fragments q = pks" using q(1) a by (simp add: got_part_def cong: map_cong)
    have "pks \<noteq> []" using j by auto
    then show ?thesis using r a n all by (simp add: doReassembly_def hd_conv_nth split: option.split)
  qed
qed

lemma ra_put_simps [simp]:
  "ra_put key q (ra_put key r ra) = ra_put key q ra" "ra_nMaxFragments (ra_put key q ra) = ra_nMaxFragments ra"
  by (simp_all add: ra_put_def)

lemma ra_put_None: "ra_partialPackets ra key = None \<Longrightarrow> ra_put key None ra = ra"
  by (simp add: ra_put_def fun_upd_idem)

lemma receiveAll_message:
  fixes blk :: "byte list \<Rightarrow> 'b option"
  assumes m: "message mid pks" and b: "blk (concat (map lp_payload pks)) = Some b"
  shows "reassembler_ok ra \<Longrightarrow> length pks \<le> ra_nMaxFragments ra \<Longrightarrow> has_got ra (ep, mid) pks got \<Longrightarrow> got \<subseteq> set pks \<Longrightarrow>
    distinct (map snd order) \<Longrightarrow> snd ` set order = set pks - got \<Longrightarrow> order \<noteq> [] \<Longrightarrow>
    receiveAll blk ep order ra =
      (replicate (length order - 1) (Inr None) @ [Inr (Some (b, hd pks))], ra_put (ep, mid) None ra)"
proof (induction order arbitrary: ra got)
  case (Cons x order)
  obtain now pk where x: "x = (now, pk)" by (cases x)
  have pk: "pk \<in> set pks" "pk \<notin> got" using Cons.prems(6) x by auto
  have fr: "lp_fragment pk \<noteq> None" using pk(1) messageD(6)[OF m] by (metis in_set_conv_nth)
  note R = receive_message_fragment[where blk = blk and now = now, OF Cons.prems(1) m Cons.prems(2,3,4) pk]
  have rest: "snd ` set order = set pks - insert pk got" using Cons.prems(5,6) x by force
  show ?case
  proof (cases "order = []")
    case True
    then have "insert pk got = set pks" using rest pk(1) Cons.prems(4) by auto
    then show ?thesis using R(2) b True x by simp
  next
    case False
    then have ne: "insert pk got \<noteq> set pks" using rest by force
    obtain ra' q where r: "receiveFragment blk now pk ep ra = (Inr None, ra')" "has_got ra' (ep, mid) pks (insert pk got)"
      "ra' = ra_put (ep, mid) q ra" using R(1)[OF ne] by blast
    have ok': "reassembler_ok ra'" using receiveFragment_ok[OF Cons.prems(1) fr, of blk now ep] r(1) by simp
    have "receiveAll blk ep order ra' =
      (replicate (length order - 1) (Inr None) @ [Inr (Some (b, hd pks))], ra_put (ep, mid) None ra')"
      by (rule Cons.IH[OF ok' _ r(2)]) (use Cons.prems r(3) pk rest False in auto)
    then show ?thesis using x r(1,3) False by (cases order) simp_all
  qed
qed simp

end
