(* ===== verification/Transport.thy ===== *)
theory Transport
  imports NDN_Packets
begin

text \<open>
  The base class \<open>Transport\<close>: the state of the channel to the peer, its MTU, persistency and counters.
  What a subclass overrides (\<open>doClose\<close>, \<open>canChangePersistencyToImpl\<close>, \<open>afterChangePersistency\<close>) is a
  parameter; the packets a subclass is given to send are collected in \<open>tr_sent\<close>, and the signal
  \<open>afterStateChange\<close> in \<open>tr_changes\<close>. \<open>None\<close> is the exception of an invalid transition or a failed
  assertion.
\<close>

section \<open>The code\<close>

datatype TransportState = TS_UP | TS_DOWN | TS_CLOSING | TS_FAILED | TS_CLOSED

datatype FacePersistency = FACE_PERSISTENCY_NONE | FACE_PERSISTENCY_ON_DEMAND | FACE_PERSISTENCY_PERSISTENT | FACE_PERSISTENCY_PERMANENT

definition MTU_UNLIMITED :: int where "MTU_UNLIMITED = -1"
definition MTU_INVALID :: int where "MTU_INVALID = -2"
definition QUEUE_UNSUPPORTED :: int where "QUEUE_UNSUPPORTED = -1"
definition QUEUE_ERROR :: int where "QUEUE_ERROR = -2"

record 'p transport =
  tr_persistency :: FacePersistency
  tr_mtu :: int
  tr_sendQueueCapacity :: int
  tr_sendQueueLength :: int
  tr_state :: TransportState
  tr_nInPackets :: u64
  tr_nOutPackets :: u64
  tr_nInBytes :: u64
  tr_nOutBytes :: u64
  tr_sent :: "'p list"
  tr_changes :: "(TransportState \<times> TransportState) list"

definition mk_transport :: "'p transport" where
  "mk_transport = \<lparr>tr_persistency = FACE_PERSISTENCY_NONE, tr_mtu = MTU_INVALID, tr_sendQueueCapacity = QUEUE_UNSUPPORTED,
     tr_sendQueueLength = QUEUE_UNSUPPORTED, tr_state = TS_UP, tr_nInPackets = 0, tr_nOutPackets = 0, tr_nInBytes = 0,
     tr_nOutBytes = 0, tr_sent = [], tr_changes = []\<rparr>"

fun valid_transition :: "TransportState \<Rightarrow> TransportState \<Rightarrow> bool" where
  "valid_transition TS_UP s = (s = TS_DOWN \<or> s = TS_CLOSING \<or> s = TS_FAILED)"
| "valid_transition TS_DOWN s = (s = TS_UP \<or> s = TS_CLOSING \<or> s = TS_FAILED)"
| "valid_transition TS_CLOSING s = (s = TS_CLOSED)"
| "valid_transition TS_FAILED s = (s = TS_CLOSED)"
| "valid_transition TS_CLOSED s = False"

definition tr_setState :: "TransportState \<Rightarrow> 'p transport \<Rightarrow> 'p transport option" where
  "tr_setState s tr =
     (if tr_state tr = s then Some tr
      else if \<not> valid_transition (tr_state tr) s then None
      else Some (tr\<lparr>tr_state := s, tr_changes := tr_changes tr @ [(tr_state tr, s)]\<rparr>))"

definition tr_close :: "('p transport \<Rightarrow> 'p transport option) \<Rightarrow> 'p transport \<Rightarrow> 'p transport option" where
  "tr_close doClose tr =
     (if tr_state tr \<noteq> TS_UP \<and> tr_state tr \<noteq> TS_DOWN then Some tr
      else Option.bind (tr_setState TS_CLOSING tr) doClose)"

text \<open>
  The size of the packet is \<open>n\<close>; the assertion on it is the predicate \<open>within_mtu\<close>. The comparison is
  between values of type \<open>size_t\<close>; \<open>size_of_ssize\<close> is the cast of an \<open>ssize_t\<close>, so that a negative MTU other
  than \<open>MTU_UNLIMITED\<close> is a huge limit.
\<close>

definition size_of_ssize :: "int \<Rightarrow> int" where
  "size_of_ssize n = (if n < 0 then n + 2 ^ 64 else n)"

lemma size_of_ssize_nonneg [simp]: "0 \<le> n \<Longrightarrow> size_of_ssize n = n"
  by (simp add: size_of_ssize_def)

definition within_mtu :: "int \<Rightarrow> nat \<Rightarrow> bool" where
  "within_mtu mtu n \<longleftrightarrow> mtu = MTU_UNLIMITED \<or> int n \<le> size_of_ssize mtu"

definition tr_send :: "nat \<Rightarrow> 'p \<Rightarrow> 'p transport \<Rightarrow> 'p transport option" where
  "tr_send n p tr =
     (if \<not> within_mtu (tr_mtu tr) n then None
      else if tr_state tr \<noteq> TS_UP \<and> tr_state tr \<noteq> TS_DOWN then Some tr
      else
        let tr = (if tr_state tr = TS_UP
              then tr\<lparr>tr_nOutPackets := tr_nOutPackets tr + 1, tr_nOutBytes := tr_nOutBytes tr + of_nat n\<rparr> else tr)
        in Some (tr\<lparr>tr_sent := tr_sent tr @ [p]\<rparr>))"

definition tr_receive :: "nat \<Rightarrow> 'p transport \<Rightarrow> 'p transport option" where
  "tr_receive n tr =
     (if \<not> within_mtu (tr_mtu tr) n then None
      else Some (tr\<lparr>tr_nInPackets := tr_nInPackets tr + 1, tr_nInBytes := tr_nInBytes tr + of_nat n\<rparr>))"

definition tr_setMtu :: "int \<Rightarrow> 'p transport \<Rightarrow> 'p transport option" where
  "tr_setMtu mtu tr =
     (if \<not> (mtu = MTU_UNLIMITED \<or> mtu \<ge> 0) then None
      else if mtu = tr_mtu tr then Some tr
      else Some (tr\<lparr>tr_mtu := mtu\<rparr>))"

definition canChangePersistencyTo :: "(FacePersistency \<Rightarrow> bool) \<Rightarrow> FacePersistency \<Rightarrow> 'p transport \<Rightarrow> bool" where
  "canChangePersistencyTo impl new tr =
     (if tr_persistency tr = new \<or> tr_persistency tr = FACE_PERSISTENCY_NONE then True
      else if new = FACE_PERSISTENCY_NONE then False
      else impl new)"

definition base_canChangePersistencyToImpl :: "FacePersistency \<Rightarrow> bool" where
  "base_canChangePersistencyToImpl new = False"

definition tr_setPersistency ::
  "(FacePersistency \<Rightarrow> bool) \<Rightarrow> (FacePersistency \<Rightarrow> 'p transport \<Rightarrow> 'p transport option) \<Rightarrow> FacePersistency \<Rightarrow>
    'p transport \<Rightarrow> 'p transport option" where
  "tr_setPersistency impl afterChange new tr =
     (if \<not> canChangePersistencyTo impl new tr then None
      else if tr_persistency tr = new then Some tr
      else let old = tr_persistency tr; tr = tr\<lparr>tr_persistency := new\<rparr>
           in if old \<noteq> FACE_PERSISTENCY_NONE then afterChange old tr else Some tr)"

section \<open>The life of a transport\<close>

text \<open>
  The calls a transport gets. A subclass changes the state itself as the socket comes and goes, and its
  \<open>doClose\<close> goes to \<open>CLOSED\<close> at once or later.
\<close>

datatype 'p tr_event = TrSetState TransportState | TrClose | TrSend nat 'p | TrReceive nat | TrSetMtu int

fun tr_exec :: "('p transport \<Rightarrow> 'p transport option) \<Rightarrow> 'p tr_event \<Rightarrow> 'p transport \<Rightarrow> 'p transport option" where
  "tr_exec doClose (TrSetState s) tr = tr_setState s tr"
| "tr_exec doClose TrClose tr = tr_close doClose tr"
| "tr_exec doClose (TrSend n p) tr = tr_send n p tr"
| "tr_exec doClose (TrReceive n) tr = tr_receive n tr"
| "tr_exec doClose (TrSetMtu m) tr = tr_setMtu m tr"

definition doClose_law :: "('p transport \<Rightarrow> 'p transport option) \<Rightarrow> bool" where
  "doClose_law doClose \<longleftrightarrow> (\<forall>tr. tr_state tr = TS_CLOSING \<longrightarrow> doClose tr = Some tr \<or> doClose tr = tr_setState TS_CLOSED tr)"

inductive tr_reach :: "('p transport \<Rightarrow> 'p transport option) \<Rightarrow> 'p transport \<Rightarrow> 'p transport \<Rightarrow> bool" for doClose tr where
  refl: "tr_reach doClose tr tr"
| step: "tr_reach doClose tr tr' \<Longrightarrow> tr_exec doClose e tr' = Some tr'' \<Longrightarrow> tr_reach doClose tr tr''"

definition open_state :: "TransportState \<Rightarrow> bool" where
  "open_state s \<longleftrightarrow> s = TS_UP \<or> s = TS_DOWN"

definition change_path :: "TransportState \<Rightarrow> (TransportState \<times> TransportState) list \<Rightarrow> TransportState \<Rightarrow> bool" where
  "change_path s cs s' \<longleftrightarrow> (\<forall>c\<in>set cs. valid_transition (fst c) (snd c)) \<and>
     map fst cs @ [s'] = s # map snd cs"

lemma change_path_Nil [simp]: "change_path s [] s' \<longleftrightarrow> s' = s"
  by (auto simp: change_path_def)

lemma change_path_snoc: "change_path s cs s' \<Longrightarrow> valid_transition s' s'' \<Longrightarrow> change_path s (cs @ [(s', s'')]) s''"
  by (simp add: change_path_def)

text \<open>What one call can do: nothing to the state, one valid transition, or the two of a close.\<close>

definition tr_moves :: "'p transport \<Rightarrow> 'p transport \<Rightarrow> bool" where
  "tr_moves tr tr' \<longleftrightarrow>
     (\<exists>cs. tr_changes tr' = tr_changes tr @ cs \<and> change_path (tr_state tr) cs (tr_state tr')) \<and>
     (\<not> open_state (tr_state tr) \<longrightarrow> tr_sent tr' = tr_sent tr \<and> (tr_state tr' = tr_state tr \<or> tr_state tr' = TS_CLOSED))"

lemma tr_moves_same: "tr_state tr' = tr_state tr \<Longrightarrow> tr_changes tr' = tr_changes tr \<Longrightarrow>
  (\<not> open_state (tr_state tr) \<Longrightarrow> tr_sent tr' = tr_sent tr) \<Longrightarrow> tr_moves tr tr'"
  by (simp add: tr_moves_def)

lemma setState_moves: "tr_setState s tr = Some tr' \<Longrightarrow> tr_moves tr tr' \<and> tr_sent tr' = tr_sent tr \<and> tr_state tr' = s"
  using change_path_snoc[of "tr_state tr" "[]" "tr_state tr" s]
  by (cases "tr_state tr") (auto simp: tr_setState_def tr_moves_def open_state_def split: if_splits)

lemma valid_closed: "valid_transition s TS_CLOSED \<longleftrightarrow> s = TS_CLOSING \<or> s = TS_FAILED"
  by (cases s) auto

lemma tr_moves_trans:
  assumes a: "tr_moves tr tr'" and b: "tr_moves tr' tr''"
  shows "tr_moves tr tr''"
proof -
  obtain cs ds where c: "tr_changes tr' = tr_changes tr @ cs" "change_path (tr_state tr) cs (tr_state tr')"
    "tr_changes tr'' = tr_changes tr' @ ds" "change_path (tr_state tr') ds (tr_state tr'')"
    using a b unfolding tr_moves_def by blast
  have m: "map fst cs @ [tr_state tr'] = tr_state tr # map snd cs" "map fst ds @ [tr_state tr''] = tr_state tr' # map snd ds"
    using c(2,4) unfolding change_path_def by blast+
  have "map fst (cs @ ds) @ [tr_state tr''] = (map fst cs @ [tr_state tr']) @ map snd ds" by (simp add: m(2))
  also have "\<dots> = tr_state tr # map snd (cs @ ds)" unfolding m(1) by simp
  finally have "change_path (tr_state tr) (cs @ ds) (tr_state tr'')" using c(2,4) by (auto simp: change_path_def)
  then show ?thesis using a b c by (auto simp: tr_moves_def open_state_def)
qed

lemma tr_exec_moves:
  assumes law: "doClose_law doClose" and e: "tr_exec doClose e tr = Some tr'"
  shows "tr_moves tr tr'"
proof (cases e)
  case (TrSetState s)
  then show ?thesis using e setState_moves by auto
next
  case TrClose
  show ?thesis
  proof (cases "open_state (tr_state tr)")
    case True
    then obtain tr1 where 1: "tr_setState TS_CLOSING tr = Some tr1" "doClose tr1 = Some tr'"
      using e TrClose by (auto simp: tr_close_def open_state_def bind_eq_Some_conv split: if_splits)
    have "tr' = tr1 \<or> tr_setState TS_CLOSED tr1 = Some tr'"
      using law setState_moves[OF 1(1)] 1(2) by (auto simp: doClose_law_def)
    then show ?thesis using setState_moves[OF 1(1)] setState_moves[of TS_CLOSED tr1 tr'] tr_moves_trans by blast
  qed (use e TrClose in \<open>auto simp: tr_close_def open_state_def split: if_splits intro: tr_moves_same\<close>)
qed (use e in \<open>auto simp: tr_send_def tr_receive_def tr_setMtu_def open_state_def Let_def split: if_splits intro!: tr_moves_same\<close>)

lemma tr_reach_moves: "tr_reach doClose tr tr' \<Longrightarrow> doClose_law doClose \<Longrightarrow> tr_moves tr tr'"
  by (induction rule: tr_reach.induct) (auto intro: tr_moves_same tr_moves_trans tr_exec_moves)

lemma tr_reach_trans: "tr_reach doClose tr' tr'' \<Longrightarrow> tr_reach doClose tr tr' \<Longrightarrow> tr_reach doClose tr tr''"
  by (induction rule: tr_reach.induct) (auto intro: tr_reach.intros)

end
