(* ===== verification/Link_Service.thy ===== *)
theory Link_Service
  imports Lp_Fragmenter Lp_Reassembler Transport "HOL-Library.Monad_Syntax"
begin

text \<open>
  \<open>GenericLinkService\<close> with its \<open>LpReliability\<close>, over a \<open>Transport\<close>: fragmentation, sequence numbers,
  acknowledgements and retransmissions, congestion marks, and the link-layer fields of network-layer
  packets. A network-layer packet is its wire encoding and the tags it carries; what the link service
  hands to the forwarder is collected in \<open>gls_up\<close>. An iterator into \<open>m_unackedFrags\<close> is its key, \<open>None\<close>
  being \<open>end()\<close>; a pointer to a \<open>NetPkt\<close> is a number. Operations return \<open>None\<close> where the code asserts
  something that does not hold, throws out of the link service, or dereferences \<open>end()\<close>.
\<close>

section \<open>State\<close>

record unacked_frag =
  uf_pkt :: lp_packet
  uf_rtoTimer :: "time_point option"
  uf_sendTime :: time_point
  uf_retxCount :: nat
  uf_nGreaterSeqAcks :: nat
  uf_netPkt :: nat

record net_pkt =
  np_unackedFrags :: "u64 list"
  np_pkt :: lp_packet
  np_isInterest :: bool
  np_didRetx :: bool

record 'r reliability =
  rl_unackedFrags :: "(u64 \<times> unacked_frag) list"
  rl_firstUnackedFrag :: "u64 option"
  rl_ackQueue :: "u64 list"
  rl_recentRecvSeqs :: "u64 \<Rightarrow> time_point option"
  rl_recentRecvSeqsQueue :: "u64 list"
  rl_lastTxSeqNo :: u64
  rl_idleAckTimer :: "time_point option"
  rl_rttEst :: 'r
  rl_netPkts :: "nat \<Rightarrow> net_pkt option"
  rl_nNetPkts :: nat

record rel_options =
  ro_isEnabled :: bool
  ro_maxRetx :: nat
  ro_idleAckTimerPeriod :: int
  ro_seqNumLossThreshold :: nat

record gls_options =
  go_allowLocalFields :: bool
  go_allowFragmentation :: bool
  go_fragmenter :: fragmenter
  go_allowReassembly :: bool
  go_nMaxFragments :: nat
  go_reassemblyTimeout :: int
  go_reliability :: rel_options
  go_allowCongestionMarking :: bool
  go_baseCongestionMarkingInterval :: int
  go_defaultCongestionThreshold :: nat
  go_allowSelfLearning :: bool
  go_overrideMtu :: int

record lp_tags =
  tag_incomingFaceId :: "face_id option"
  tag_nextHopFaceId :: "face_id option"
  tag_cachePolicy :: "nat option"
  tag_congestionMark :: "nat option"
  tag_nonDiscovery :: bool
  tag_prefixAnnouncement :: "byte list option"
  tag_pitToken :: "nat option"

record net_block =
  nb_type :: nat
  nb_wire :: "byte list"

datatype 'e up_call =
    UpInterest net_block lp_tags 'e
  | UpData net_block lp_tags 'e
  | UpNack net_block nack_reason lp_tags 'e
  | UpDroppedInterest "byte list"

record gls_counters =
  lc_nInInterests :: u64
  lc_nOutInterests :: u64
  lc_nInData :: u64
  lc_nOutData :: u64
  lc_nInNacks :: u64
  lc_nOutNacks :: u64
  lc_nInterestsExceededRetx :: u64
  lc_nFragmentationErrors :: u64
  lc_nOutOverMtu :: u64
  lc_nInLpInvalid :: u64
  lc_nReassemblyTimeouts :: u64
  lc_nInNetInvalid :: u64
  lc_nAcknowledged :: u64
  lc_nRetransmitted :: u64
  lc_nRetxExhausted :: u64
  lc_nDuplicateSequence :: u64
  lc_nCongestionMarked :: u64

record ('e, 'r) gls =
  gls_options :: gls_options
  gls_reassembler :: "'e reassembler"
  gls_rel :: "'r reliability"
  gls_lastSeqNo :: u64
  gls_nextMarkTime :: "time_point option"
  gls_nMarkedSinceInMarkingState :: nat
  gls_counters :: gls_counters
  gls_transport :: "lp_packet transport"
  gls_up :: "'e up_call list"

text \<open>
  What the code calls in ndn-cxx and in the floating point library: the encoder, the constructors of
  \<open>Block\<close>, \<open>Interest\<close> and \<open>Data\<close>, \<open>sizeOfVarNumber\<close>, the RTT estimator, and the marking interval
  \<open>base / sqrt(n)\<close> as \<open>double\<close> arithmetic computes it.
\<close>

record 'r lp_env =
  le_wire :: wire_encoder
  le_block :: "byte list \<Rightarrow> net_block option"
  le_isInterest :: "net_block \<Rightarrow> bool"
  le_isData :: "net_block \<Rightarrow> bool"
  le_sizeOfVarNumber :: "nat \<Rightarrow> nat"
  le_rto :: "'r \<Rightarrow> int"
  le_addMeasurement :: "int \<Rightarrow> 'r \<Rightarrow> 'r"
  le_markInterval :: "int \<Rightarrow> nat \<Rightarrow> int"

definition mk_gls_options :: gls_options where
  "mk_gls_options = \<lparr>go_allowLocalFields = False, go_allowFragmentation = False, go_fragmenter = fragmenter_default,
     go_allowReassembly = False, go_nMaxFragments = 400, go_reassemblyTimeout = ms 500,
     go_reliability = \<lparr>ro_isEnabled = False, ro_maxRetx = 3, ro_idleAckTimerPeriod = ms 5, ro_seqNumLossThreshold = 3\<rparr>,
     go_allowCongestionMarking = False, go_baseCongestionMarkingInterval = ms 100, go_defaultCongestionThreshold = 65536,
     go_allowSelfLearning = True, go_overrideMtu = 2 ^ 63 - 1\<rparr>"

definition mk_reliability :: "'r \<Rightarrow> 'r reliability" where
  "mk_reliability est = \<lparr>rl_unackedFrags = [], rl_firstUnackedFrag = None, rl_ackQueue = [], rl_recentRecvSeqs = (\<lambda>_. None),
     rl_recentRecvSeqsQueue = [], rl_lastTxSeqNo = -1, rl_idleAckTimer = None, rl_rttEst = est,
     rl_netPkts = (\<lambda>_. None), rl_nNetPkts = 0\<rparr>"

definition mk_gls_counters :: gls_counters where
  "mk_gls_counters = \<lparr>lc_nInInterests = 0, lc_nOutInterests = 0, lc_nInData = 0, lc_nOutData = 0, lc_nInNacks = 0,
     lc_nOutNacks = 0, lc_nInterestsExceededRetx = 0, lc_nFragmentationErrors = 0, lc_nOutOverMtu = 0, lc_nInLpInvalid = 0,
     lc_nReassemblyTimeouts = 0, lc_nInNetInvalid = 0, lc_nAcknowledged = 0, lc_nRetransmitted = 0, lc_nRetxExhausted = 0,
     lc_nDuplicateSequence = 0, lc_nCongestionMarked = 0\<rparr>"

definition mk_gls :: "gls_options \<Rightarrow> 'r \<Rightarrow> lp_packet transport \<Rightarrow> ('e, 'r) gls" where
  "mk_gls opts est tr = \<lparr>gls_options = opts,
     gls_reassembler = ra_setOptions (go_nMaxFragments opts) (go_reassemblyTimeout opts) mk_reassembler,
     gls_rel = mk_reliability est, gls_lastSeqNo = -2, gls_nextMarkTime = None, gls_nMarkedSinceInMarkingState = 0,
     gls_counters = mk_gls_counters, gls_transport = tr, gls_up = []\<rparr>"

abbreviation gls_count :: "(gls_counters \<Rightarrow> gls_counters) \<Rightarrow> ('e, 'r) gls \<Rightarrow> ('e, 'r) gls" where
  "gls_count f g \<equiv> g\<lparr>gls_counters := f (gls_counters g)\<rparr>"

definition gls_setOptions :: "gls_options \<Rightarrow> ('e, 'r) gls \<Rightarrow> ('e, 'r) gls option" where
  "gls_setOptions opts g =
     (if \<not> ro_idleAckTimerPeriod (go_reliability opts) > 0 then None
      else Some (g\<lparr>gls_options := opts,
        gls_reassembler := ra_setOptions (go_nMaxFragments opts) (go_reassemblyTimeout opts) (gls_reassembler g),
        gls_rel := (if ro_isEnabled (go_reliability (gls_options g)) \<and> \<not> ro_isEnabled (go_reliability opts)
          then (gls_rel g)\<lparr>rl_idleAckTimer := None\<rparr> else gls_rel g)\<rparr>))"

definition getEffectiveMtu :: "('e, 'r) gls \<Rightarrow> int" where
  "getEffectiveMtu g = min (go_overrideMtu (gls_options g)) (tr_mtu (gls_transport g))"

definition MIN_MTU :: int where "MIN_MTU = 64"

definition canOverrideMtuTo :: "int \<Rightarrow> ('e, 'r) gls \<Rightarrow> bool" where
  "canOverrideMtuTo mtu g = (if tr_mtu (gls_transport g) = MTU_UNLIMITED then False else mtu \<ge> MIN_MTU)"

section \<open>Unacknowledged fragments\<close>

text \<open>\<open>std::map\<close>: the elements in the order of their keys.\<close>

fun uf_emplace :: "u64 \<Rightarrow> unacked_frag \<Rightarrow> (u64 \<times> unacked_frag) list \<Rightarrow> (u64 \<times> unacked_frag) list" where
  "uf_emplace k v [] = [(k, v)]"
| "uf_emplace k v ((a, b) # m) = (if k < a then (k, v) # (a, b) # m else if k = a then (a, b) # m else (a, b) # uf_emplace k v m)"

definition uf_update :: "u64 \<Rightarrow> (unacked_frag \<Rightarrow> unacked_frag) \<Rightarrow> (u64 \<times> unacked_frag) list \<Rightarrow> (u64 \<times> unacked_frag) list" where
  "uf_update k f m = map (\<lambda>(a, b). if a = k then (a, f b) else (a, b)) m"

definition uf_erase :: "u64 \<Rightarrow> (u64 \<times> unacked_frag) list \<Rightarrow> (u64 \<times> unacked_frag) list" where
  "uf_erase k m = filter (\<lambda>x. fst x \<noteq> k) m"

definition uf_begin :: "(u64 \<times> unacked_frag) list \<Rightarrow> u64 option" where
  "uf_begin m = (case m of [] \<Rightarrow> None | x # _ \<Rightarrow> Some (fst x))"

definition uf_next :: "u64 \<Rightarrow> (u64 \<times> unacked_frag) list \<Rightarrow> u64 option" where
  "uf_next k m = uf_begin (filter (\<lambda>x. k < fst x) m)"

definition deleteUnackedFrag :: "u64 \<Rightarrow> 'r reliability \<Rightarrow> 'r reliability" where
  "deleteUnackedFrag txSeq rl =
     (let m = uf_erase txSeq (rl_unackedFrags rl); rl' = rl\<lparr>rl_unackedFrags := m\<rparr>
      in if m \<noteq> [] \<and> rl_firstUnackedFrag rl = Some txSeq then
           (case uf_next txSeq m of
              None \<Rightarrow> rl'\<lparr>rl_firstUnackedFrag := uf_begin m\<rparr>
            | Some k \<Rightarrow> rl'\<lparr>rl_firstUnackedFrag := Some k\<rparr>)
         else if m = [] then rl'\<lparr>rl_firstUnackedFrag := None\<rparr>
         else rl')"

definition assignTxSequence :: "lp_packet \<Rightarrow> 'r reliability \<Rightarrow> (u64 \<times> lp_packet \<times> 'r reliability) option" where
  "assignTxSequence frag rl =
     (let txSeq = rl_lastTxSeqNo rl + 1; rl = rl\<lparr>rl_lastTxSeqNo := txSeq\<rparr>; frag = frag\<lparr>lp_txSequence := Some txSeq\<rparr>
      in if rl_unackedFrags rl \<noteq> [] \<and> rl_firstUnackedFrag rl = Some txSeq then None
         else Some (txSeq, frag, rl))"

partial_function (option) findLost_loop ::
  "nat \<Rightarrow> u64 \<Rightarrow> u64 option \<Rightarrow> (u64 \<times> unacked_frag) list \<Rightarrow> u64 list \<Rightarrow> ((u64 \<times> unacked_frag) list \<times> u64 list) option" where
  "findLost_loop threshold ack it m lost =
     (case (if it = None then uf_begin m else it) of
        None \<Rightarrow> None
      | Some k \<Rightarrow>
          if k = ack then Some (m, lost)
          else
            let m = uf_update k (\<lambda>uf. uf\<lparr>uf_nGreaterSeqAcks := uf_nGreaterSeqAcks uf + 1\<rparr>) m
            in case map_of m k of
                 None \<Rightarrow> None
               | Some uf \<Rightarrow> findLost_loop threshold ack (uf_next k m) m
                   (if uf_nGreaterSeqAcks uf \<ge> threshold then lost @ [k] else lost))"

definition findLostLpPackets :: "nat \<Rightarrow> u64 \<Rightarrow> 'r reliability \<Rightarrow> (u64 list \<times> 'r reliability) option" where
  "findLostLpPackets threshold ack rl =
     (case findLost_loop threshold ack (rl_firstUnackedFrag rl) (rl_unackedFrags rl) [] of
        None \<Rightarrow> None
      | Some (m, lost) \<Rightarrow> Some (lost, rl\<lparr>rl_unackedFrags := m\<rparr>))"

definition swap_remove :: "'a \<Rightarrow> 'a list \<Rightarrow> 'a list" where
  "swap_remove x xs = butlast (takeWhile (\<lambda>y. y \<noteq> x) xs @ last xs # tl (dropWhile (\<lambda>y. y \<noteq> x) xs))"

definition onLpPacketAcknowledged :: "u64 \<Rightarrow> ('e, 'r) gls \<Rightarrow> ('e, 'r) gls option" where
  "onLpPacketAcknowledged txSeq g = do {
     let rl = gls_rel g;
     uf \<leftarrow> map_of (rl_unackedFrags rl) txSeq;
     np \<leftarrow> rl_netPkts rl (uf_netPkt uf);
     if txSeq \<notin> set (np_unackedFrags np) then None
     else do {
       let np = np\<lparr>np_unackedFrags := swap_remove txSeq (np_unackedFrags np)\<rparr>;
       let g = (if np_unackedFrags np = [] then
                  if np_didRetx np then gls_count (lc_nRetransmitted_update (\<lambda>c. c + 1)) g
                  else gls_count (lc_nAcknowledged_update (\<lambda>c. c + 1)) g
                else g);
       let rl = rl\<lparr>rl_netPkts := (rl_netPkts rl)(uf_netPkt uf \<mapsto> np)\<rparr>;
       Some (g\<lparr>gls_rel := deleteUnackedFrag txSeq rl\<rparr>)
     }
   }"

section \<open>Sending a link-layer packet\<close>

definition ack_size :: "'r lp_env \<Rightarrow> int" where
  "ack_size E = int (le_sizeOfVarNumber E 836) + int (le_sizeOfVarNumber E 8) + 8"

definition MAX_NDN_PACKET_SIZE :: int where "MAX_NDN_PACKET_SIZE = 8800"

fun piggyback_loop :: "int \<Rightarrow> u64 list \<Rightarrow> int \<Rightarrow> lp_packet \<Rightarrow> lp_packet \<times> u64 list" where
  "piggyback_loop ackSize [] remainingSpace pkt = (pkt, [])"
| "piggyback_loop ackSize (ack # q) remainingSpace pkt =
     (if ackSize > remainingSpace then (pkt, ack # q)
      else piggyback_loop ackSize q (remainingSpace - ackSize) (pkt\<lparr>lp_acks := lp_acks pkt @ [ack]\<rparr>))"

definition piggyback :: "'r lp_env \<Rightarrow> lp_packet \<Rightarrow> int \<Rightarrow> 'r reliability \<Rightarrow> (lp_packet \<times> 'r reliability) option" where
  "piggyback E pkt mtu rl =
     (if wire_type (le_wire E pkt) \<noteq> tlv_LpPacket then None else
      let pktSize = int (wire_size (le_wire E pkt));
          reservedSpace = int (le_sizeOfVarNumber E (nat MAX_NDN_PACKET_SIZE)) - int (le_sizeOfVarNumber E (nat pktSize));
          remainingSpace = (if mtu = MTU_UNLIMITED then MAX_NDN_PACKET_SIZE else mtu) - reservedSpace - pktSize;
          (pkt, q) = piggyback_loop (ack_size E) (rl_ackQueue rl) remainingSpace pkt
      in Some (pkt, rl\<lparr>rl_ackQueue := q\<rparr>))"

definition checkCongestionLevel :: "'r lp_env \<Rightarrow> time_point \<Rightarrow> lp_packet \<Rightarrow> ('e, 'r) gls \<Rightarrow> lp_packet \<times> ('e, 'r) gls" where
  "checkCongestionLevel E now pkt g =
     (let sendQueueLength = tr_sendQueueLength (gls_transport g); opts = gls_options g
      in if sendQueueLength < 0 then (pkt, g)
         else if nat sendQueueLength > go_defaultCongestionThreshold opts then
           (case gls_nextMarkTime g of
              None \<Rightarrow> (pkt, g\<lparr>gls_nextMarkTime := Some (now + go_baseCongestionMarkingInterval opts)\<rparr>)
            | Some t \<Rightarrow>
                if now \<ge> t then
                  let pkt = pkt\<lparr>lp_congestionMark := Some 1\<rparr>;
                      g = gls_count (lc_nCongestionMarked_update (\<lambda>c. c + 1)) g;
                      n = gls_nMarkedSinceInMarkingState g + 1;
                      interval = le_markInterval E (go_baseCongestionMarkingInterval opts) (n + 1)
                  in (pkt, g\<lparr>gls_nMarkedSinceInMarkingState := n, gls_nextMarkTime := Some (t + interval)\<rparr>)
                else (pkt, g))
         else if gls_nextMarkTime g \<noteq> None then
           (pkt, g\<lparr>gls_nextMarkTime := None, gls_nMarkedSinceInMarkingState := 0\<rparr>)
         else (pkt, g))"

definition sendLpPacket :: "'r lp_env \<Rightarrow> time_point \<Rightarrow> lp_packet \<Rightarrow> ('e, 'r) gls \<Rightarrow> ('e, 'r) gls option" where
  "sendLpPacket E now pkt g = do {
     let mtu = getEffectiveMtu g;
     (pkt, g) \<leftarrow> (if ro_isEnabled (go_reliability (gls_options g))
       then map_option (\<lambda>(pkt, rl). (pkt, g\<lparr>gls_rel := rl\<rparr>)) (piggyback E pkt mtu (gls_rel g))
       else Some (pkt, g));
     let (pkt, g) = (if go_allowCongestionMarking (gls_options g) then checkCongestionLevel E now pkt g else (pkt, g));
     let size = wire_size (le_wire E pkt);
     if mtu \<noteq> MTU_UNLIMITED \<and> int size > size_of_ssize mtu
     then Some (gls_count (lc_nOutOverMtu_update (\<lambda>c. c + 1)) g)
     else do { tr \<leftarrow> tr_send size pkt (gls_transport g); Some (g\<lparr>gls_transport := tr\<rparr>) }
   }"

definition requestIdlePacket :: "'r lp_env \<Rightarrow> time_point \<Rightarrow> ('e, 'r) gls \<Rightarrow> ('e, 'r) gls option" where
  "requestIdlePacket E now g = sendLpPacket E now lp_empty g"

text \<open>The callback of the idle Ack timer.\<close>

partial_function (option) idleAck_loop :: "'r lp_env \<Rightarrow> time_point \<Rightarrow> ('e, 'r) gls \<Rightarrow> ('e, 'r) gls option" where
  "idleAck_loop E now g =
     (if rl_ackQueue (gls_rel g) = [] then Some g
      else Option.bind (requestIdlePacket E now g) (idleAck_loop E now))"

definition onIdleAckTimer :: "'r lp_env \<Rightarrow> time_point \<Rightarrow> ('e, 'r) gls \<Rightarrow> ('e, 'r) gls option" where
  "onIdleAckTimer E now g = idleAck_loop E now (g\<lparr>gls_rel := (gls_rel g)\<lparr>rl_idleAckTimer := None\<rparr>\<rparr>)"

definition startIdleAckTimer :: "rel_options \<Rightarrow> time_point \<Rightarrow> 'r reliability \<Rightarrow> 'r reliability" where
  "startIdleAckTimer ro now rl =
     (if rl_idleAckTimer rl \<noteq> None then rl else rl\<lparr>rl_idleAckTimer := Some (now + ro_idleAckTimerPeriod ro)\<rparr>)"

section \<open>Reliability\<close>

definition notifyDroppedInterest :: "byte list \<Rightarrow> ('e, 'r) gls \<Rightarrow> ('e, 'r) gls" where
  "notifyDroppedInterest w g =
     (let g = gls_count (lc_nInterestsExceededRetx_update (\<lambda>c. c + 1)) g in g\<lparr>gls_up := gls_up g @ [UpDroppedInterest w]\<rparr>)"

definition onLpPacketLost :: "'r lp_env \<Rightarrow> time_point \<Rightarrow> u64 \<Rightarrow> ('e, 'r) gls \<Rightarrow> (u64 list \<times> ('e, 'r) gls) option" where
  "onLpPacketLost E now txSeq g = do {
     let rl = gls_rel g;
     uf \<leftarrow> map_of (rl_unackedFrags rl) txSeq;
     np \<leftarrow> rl_netPkts rl (uf_netPkt uf);
     let rl = rl\<lparr>rl_unackedFrags := uf_update txSeq (\<lambda>uf. uf\<lparr>uf_rtoTimer := None\<rparr>) (rl_unackedFrags rl)\<rparr>;
     if uf_retxCount uf \<ge> ro_maxRetx (go_reliability (gls_options g)) then do {
       let others = filter (\<lambda>k. k \<noteq> txSeq) (np_unackedFrags np);
       let rl = fold deleteUnackedFrag others rl;
       let g = gls_count (lc_nRetxExhausted_update (\<lambda>c. c + 1)) g;
       let g = (if np_isInterest np then notifyDroppedInterest (lp_payload (np_pkt np)) g else g);
       Some (others @ [txSeq], g\<lparr>gls_rel := deleteUnackedFrag txSeq rl\<rparr>)
     } else do {
       (newTxSeq, pkt, rl) \<leftarrow> assignTxSequence (uf_pkt uf) rl;
       let newFrag = \<lparr>uf_pkt = pkt, uf_rtoTimer = None, uf_sendTime = now, uf_retxCount = uf_retxCount uf + 1,
             uf_nGreaterSeqAcks = 0, uf_netPkt = uf_netPkt uf\<rparr>;
       let rl = rl\<lparr>rl_unackedFrags := uf_emplace newTxSeq newFrag (rl_unackedFrags rl)\<rparr>;
       if txSeq \<notin> set (np_unackedFrags np) then None
       else do {
         let np = np\<lparr>np_didRetx := True, np_unackedFrags := update_first (\<lambda>k. k = txSeq) (\<lambda>_. newTxSeq) (np_unackedFrags np)\<rparr>;
         let rl = rl\<lparr>rl_netPkts := (rl_netPkts rl)(uf_netPkt uf \<mapsto> np)\<rparr>;
         let rl = deleteUnackedFrag txSeq rl;
         g \<leftarrow> sendLpPacket E now pkt (g\<lparr>gls_rel := rl\<rparr>);
         let rl = gls_rel g;
         let rl = rl\<lparr>rl_unackedFrags :=
           uf_update newTxSeq (\<lambda>uf. uf\<lparr>uf_rtoTimer := Some (now + le_rto E (rl_rttEst rl))\<rparr>) (rl_unackedFrags rl)\<rparr>;
         Some ([txSeq], g\<lparr>gls_rel := rl\<rparr>)
       }
     }
   }"

fun handleOutgoing_loop ::
  "'r lp_env \<Rightarrow> time_point \<Rightarrow> nat \<Rightarrow> lp_packet list \<Rightarrow> 'r reliability \<Rightarrow> (lp_packet list \<times> 'r reliability) option" where
  "handleOutgoing_loop E now p [] rl = Some ([], rl)"
| "handleOutgoing_loop E now p (frag # frags) rl =
     (if lp_sequence frag = None then None
      else do {
        (txSeq, frag, rl) \<leftarrow> assignTxSequence frag rl;
        let uf = \<lparr>uf_pkt = frag, uf_rtoTimer = Some (now + le_rto E (rl_rttEst rl)), uf_sendTime = now,
              uf_retxCount = 0, uf_nGreaterSeqAcks = 0, uf_netPkt = p\<rparr>;
        let rl = rl\<lparr>rl_unackedFrags := uf_emplace txSeq uf (rl_unackedFrags rl)\<rparr>;
        let rl = (if length (rl_unackedFrags rl) = 1 then rl\<lparr>rl_firstUnackedFrag := uf_begin (rl_unackedFrags rl)\<rparr> else rl);
        np \<leftarrow> rl_netPkts rl p;
        let rl = rl\<lparr>rl_netPkts := (rl_netPkts rl)(p \<mapsto> np\<lparr>np_unackedFrags := np_unackedFrags np @ [txSeq]\<rparr>)\<rparr>;
        (frags, rl) \<leftarrow> handleOutgoing_loop E now p frags rl;
        Some (frag # frags, rl)
      })"

definition handleOutgoing ::
  "'r lp_env \<Rightarrow> time_point \<Rightarrow> lp_packet list \<Rightarrow> lp_packet \<Rightarrow> bool \<Rightarrow> 'r reliability \<Rightarrow> (lp_packet list \<times> 'r reliability) option" where
  "handleOutgoing E now frags pkt isInterest rl =
     (let p = rl_nNetPkts rl;
          np = \<lparr>np_unackedFrags = [], np_pkt = pkt, np_isInterest = isInterest, np_didRetx = False\<rparr>;
          rl = rl\<lparr>rl_nNetPkts := p + 1, rl_netPkts := (rl_netPkts rl)(p \<mapsto> np)\<rparr>
      in handleOutgoing_loop E now p frags rl)"

fun resendLost :: "'r lp_env \<Rightarrow> time_point \<Rightarrow> u64 list \<Rightarrow> u64 set \<Rightarrow> ('e, 'r) gls \<Rightarrow> ('e, 'r) gls option" where
  "resendLost E now [] removed g = Some g"
| "resendLost E now (txSeq # lost) removed g =
     (if txSeq \<notin> removed then do {
        (rs, g) \<leftarrow> onLpPacketLost E now txSeq g;
        resendLost E now lost (removed \<union> set rs) g
      }
      else resendLost E now lost removed g)"

fun processAcks :: "'r lp_env \<Rightarrow> time_point \<Rightarrow> u64 list \<Rightarrow> ('e, 'r) gls \<Rightarrow> ('e, 'r) gls option" where
  "processAcks E now [] g = Some g"
| "processAcks E now (ack # acks) g =
     (case map_of (rl_unackedFrags (gls_rel g)) ack of
        None \<Rightarrow> processAcks E now acks g
      | Some uf \<Rightarrow> do {
          let rl = gls_rel g;
          let rl = rl\<lparr>rl_unackedFrags := uf_update ack (\<lambda>uf. uf\<lparr>uf_rtoTimer := None\<rparr>) (rl_unackedFrags rl)\<rparr>;
          let rl = (if uf_retxCount uf = 0 then rl\<lparr>rl_rttEst := le_addMeasurement E (now - uf_sendTime uf) (rl_rttEst rl)\<rparr> else rl);
          (lost, rl) \<leftarrow> findLostLpPackets (ro_seqNumLossThreshold (go_reliability (gls_options g))) ack rl;
          g \<leftarrow> onLpPacketAcknowledged ack (g\<lparr>gls_rel := rl\<rparr>);
          g \<leftarrow> resendLost E now lost {} g;
          processAcks E now acks g
        })"

fun dropRecent :: "time_point \<Rightarrow> int \<Rightarrow> u64 list \<Rightarrow> (u64 \<Rightarrow> time_point option) \<Rightarrow> u64 list \<times> (u64 \<Rightarrow> time_point option)" where
  "dropRecent now rto [] m = ([], m)"
| "dropRecent now rto (s # q) m =
     (let t = (case m s of Some t \<Rightarrow> t | None \<Rightarrow> 0)
      in if now > t + rto then dropRecent now rto q (m(s := None)) else (s # q, m(s \<mapsto> t)))"

definition noteSequence :: "'r lp_env \<Rightarrow> time_point \<Rightarrow> u64 \<Rightarrow> 'r reliability \<Rightarrow> bool \<times> 'r reliability" where
  "noteSequence E now s rl =
     (let isDuplicate = rl_recentRecvSeqs rl s \<noteq> None;
          (q, m) = dropRecent now (le_rto E (rl_rttEst rl)) (rl_recentRecvSeqsQueue rl) (rl_recentRecvSeqs rl);
          m = (if m s = None then m(s \<mapsto> now) else m)
      in (isDuplicate, rl\<lparr>rl_recentRecvSeqs := m, rl_recentRecvSeqsQueue := q @ [s]\<rparr>))"

definition processIncomingPacket :: "'r lp_env \<Rightarrow> time_point \<Rightarrow> lp_packet \<Rightarrow> ('e, 'r) gls \<Rightarrow> (bool \<times> ('e, 'r) gls) option" where
  "processIncomingPacket E now pkt g = do {
     g \<leftarrow> processAcks E now (lp_acks pkt) g;
     case (lp_fragment pkt, lp_txSequence pkt) of
       (Some _, Some txSeq) \<Rightarrow> do {
         let rl = gls_rel g;
         let rl = rl\<lparr>rl_ackQueue := rl_ackQueue rl @ [txSeq]\<rparr>;
         let (isDuplicate, rl) = (case lp_sequence pkt of Some s \<Rightarrow> noteSequence E now s rl | None \<Rightarrow> (False, rl));
         let rl = startIdleAckTimer (go_reliability (gls_options g)) now rl;
         Some (\<not> isDuplicate, g\<lparr>gls_rel := rl\<rparr>)
       }
     | _ \<Rightarrow> Some (True, g)
   }"

section \<open>Sending a network-layer packet\<close>

fun assignSequences :: "lp_packet list \<Rightarrow> u64 \<Rightarrow> lp_packet list \<times> u64" where
  "assignSequences [] s = ([], s)"
| "assignSequences (p # ps) s =
     (let s = s + 1; (ps, s') = assignSequences ps s in (p\<lparr>lp_sequence := Some s\<rparr> # ps, s'))"

definition encodeLpFields :: "gls_options \<Rightarrow> lp_tags \<Rightarrow> lp_packet \<Rightarrow> lp_packet" where
  "encodeLpFields opts tags p =
     (let p = (if go_allowLocalFields opts \<and> tag_incomingFaceId tags \<noteq> None then p\<lparr>lp_incomingFaceId := tag_incomingFaceId tags\<rparr> else p);
          p = (if tag_congestionMark tags \<noteq> None then p\<lparr>lp_congestionMark := tag_congestionMark tags\<rparr> else p);
          p = (if go_allowSelfLearning opts then
                 let p = (if tag_nonDiscovery tags then p\<lparr>lp_nonDiscovery := True\<rparr> else p)
                 in (if tag_prefixAnnouncement tags \<noteq> None then p\<lparr>lp_prefixAnnouncement := tag_prefixAnnouncement tags\<rparr> else p)
               else p)
      in if tag_pitToken tags \<noteq> None then p\<lparr>lp_pitToken := tag_pitToken tags\<rparr> else p)"

definition RESERVED_HEADER_SPACE :: "'r lp_env \<Rightarrow> int" where
  "RESERVED_HEADER_SPACE E = int (le_sizeOfVarNumber E 840) + int (le_sizeOfVarNumber E 8) + 8"

definition CONGESTION_MARK_SIZE :: "'r lp_env \<Rightarrow> int" where
  "CONGESTION_MARK_SIZE E = int (le_sizeOfVarNumber E 832) + int (le_sizeOfVarNumber E 8) + 8"

fun sendLpPackets :: "'r lp_env \<Rightarrow> time_point \<Rightarrow> lp_packet list \<Rightarrow> ('e, 'r) gls \<Rightarrow> ('e, 'r) gls option" where
  "sendLpPackets E now [] g = Some g"
| "sendLpPackets E now (p # ps) g = Option.bind (sendLpPacket E now p g) (sendLpPackets E now ps)"

definition sendNetPacket :: "'r lp_env \<Rightarrow> time_point \<Rightarrow> lp_packet \<Rightarrow> bool \<Rightarrow> ('e, 'r) gls \<Rightarrow> ('e, 'r) gls option" where
  "sendNetPacket E now pkt isInterest g = do {
     let opts = gls_options g;
     let isReliable = ro_isEnabled (go_reliability opts);
     let mtu = getEffectiveMtu g;
     let mtu = (if isReliable \<and> mtu \<noteq> MTU_UNLIMITED then mtu - RESERVED_HEADER_SPACE E else mtu);
     let mtu = (if go_allowCongestionMarking opts \<and> mtu \<noteq> MTU_UNLIMITED then mtu - CONGESTION_MARK_SIZE E else mtu);
     if \<not> (mtu = MTU_UNLIMITED \<or> mtu \<ge> 0) then None
     else do {
       (isOk, frags) \<leftarrow> (if go_allowFragmentation opts \<and> mtu \<noteq> MTU_UNLIMITED
         then fragmentPacket (le_wire E) (go_fragmenter opts) pkt (nat mtu) else Some (True, [pkt]));
       if \<not> isOk then Some (gls_count (lc_nFragmentationErrors_update (\<lambda>c. c + 1)) g)
       else if length frags = 1 \<and> (lp_fragIndex (hd frags) \<noteq> None \<or> lp_fragCount (hd frags) \<noteq> None) then None
       else do {
         let (frags, g) = (if isReliable \<or> length frags > 1
           then (let (frags, s) = assignSequences frags (gls_lastSeqNo g) in (frags, g\<lparr>gls_lastSeqNo := s\<rparr>)) else (frags, g));
         (frags, g) \<leftarrow> (if isReliable \<and> lp_fragment (hd frags) \<noteq> None
           then map_option (\<lambda>(frags, rl). (frags, g\<lparr>gls_rel := rl\<rparr>)) (handleOutgoing E now frags pkt isInterest (gls_rel g))
           else Some (frags, g));
         sendLpPackets E now frags g
       }
     }
   }"

definition gls_sendInterest :: "'r lp_env \<Rightarrow> time_point \<Rightarrow> byte list \<Rightarrow> lp_tags \<Rightarrow> ('e, 'r) gls \<Rightarrow> ('e, 'r) gls option" where
  "gls_sendInterest E now w tags g =
     sendNetPacket E now (encodeLpFields (gls_options g) tags (lp_empty\<lparr>lp_fragment := Some w\<rparr>)) True
       (gls_count (lc_nOutInterests_update (\<lambda>c. c + 1)) g)"

definition gls_sendData :: "'r lp_env \<Rightarrow> time_point \<Rightarrow> byte list \<Rightarrow> lp_tags \<Rightarrow> ('e, 'r) gls \<Rightarrow> ('e, 'r) gls option" where
  "gls_sendData E now w tags g =
     sendNetPacket E now (encodeLpFields (gls_options g) tags (lp_empty\<lparr>lp_fragment := Some w\<rparr>)) False
       (gls_count (lc_nOutData_update (\<lambda>c. c + 1)) g)"

definition gls_sendNack ::
  "'r lp_env \<Rightarrow> time_point \<Rightarrow> byte list \<Rightarrow> nack_reason \<Rightarrow> lp_tags \<Rightarrow> ('e, 'r) gls \<Rightarrow> ('e, 'r) gls option" where
  "gls_sendNack E now w reason tags g =
     sendNetPacket E now (encodeLpFields (gls_options g) tags (lp_empty\<lparr>lp_fragment := Some w, lp_nack := Some reason\<rparr>)) False
       (gls_count (lc_nOutNacks_update (\<lambda>c. c + 1)) g)"

section \<open>Receiving\<close>

abbreviation (input) net_invalid :: "('e, 'r) gls \<Rightarrow> ('e, 'r) gls" where
  "net_invalid g \<equiv> gls_count (lc_nInNetInvalid_update (\<lambda>c. c + 1)) g"

definition no_tags :: lp_tags where
  "no_tags = \<lparr>tag_incomingFaceId = None, tag_nextHopFaceId = None, tag_cachePolicy = None, tag_congestionMark = None,
     tag_nonDiscovery = False, tag_prefixAnnouncement = None, tag_pitToken = None\<rparr>"

definition receiveUp :: "'e up_call \<Rightarrow> ('e, 'r) gls \<Rightarrow> ('e, 'r) gls" where
  "receiveUp u g =
     (let g = (case u of
                 UpInterest _ _ _ \<Rightarrow> gls_count (lc_nInInterests_update (\<lambda>c. c + 1)) g
               | UpData _ _ _ \<Rightarrow> gls_count (lc_nInData_update (\<lambda>c. c + 1)) g
               | UpNack _ _ _ _ \<Rightarrow> gls_count (lc_nInNacks_update (\<lambda>c. c + 1)) g
               | UpDroppedInterest _ \<Rightarrow> g)
      in g\<lparr>gls_up := gls_up g @ [u]\<rparr>)"

definition decodeInterest :: "'r lp_env \<Rightarrow> net_block \<Rightarrow> lp_packet \<Rightarrow> 'e \<Rightarrow> ('e, 'r) gls \<Rightarrow> ('e, 'r) gls" where
  "decodeInterest E netPkt firstPkt ep g =
     (let opts = gls_options g
      in if \<not> le_isInterest E netPkt then net_invalid g
         else if lp_nextHopFaceId firstPkt \<noteq> None \<and> \<not> go_allowLocalFields opts then g
         else if lp_cachePolicy firstPkt \<noteq> None then net_invalid g
         else if lp_prefixAnnouncement firstPkt \<noteq> None then net_invalid g
         else receiveUp (UpInterest netPkt
           (no_tags\<lparr>tag_nextHopFaceId := lp_nextHopFaceId firstPkt, tag_congestionMark := lp_congestionMark firstPkt,
              tag_nonDiscovery := (lp_nonDiscovery firstPkt \<and> go_allowSelfLearning opts), tag_pitToken := lp_pitToken firstPkt\<rparr>) ep) g)"

definition decodeData :: "'r lp_env \<Rightarrow> net_block \<Rightarrow> lp_packet \<Rightarrow> 'e \<Rightarrow> ('e, 'r) gls \<Rightarrow> ('e, 'r) gls" where
  "decodeData E netPkt firstPkt ep g =
     (let opts = gls_options g
      in if \<not> le_isData E netPkt then net_invalid g
         else if lp_nack firstPkt \<noteq> None then net_invalid g
         else if lp_nextHopFaceId firstPkt \<noteq> None then net_invalid g
         else if lp_cachePolicy firstPkt \<noteq> None \<and> lp_cachePolicy firstPkt \<noteq> Some 1 then net_invalid g
         else if lp_nonDiscovery firstPkt then net_invalid g
         else receiveUp (UpData netPkt
           (no_tags\<lparr>tag_cachePolicy := lp_cachePolicy firstPkt, tag_congestionMark := lp_congestionMark firstPkt,
              tag_prefixAnnouncement := (if go_allowSelfLearning opts then lp_prefixAnnouncement firstPkt else None)\<rparr>) ep) g)"

definition decodeNack :: "'r lp_env \<Rightarrow> net_block \<Rightarrow> lp_packet \<Rightarrow> 'e \<Rightarrow> ('e, 'r) gls \<Rightarrow> ('e, 'r) gls" where
  "decodeNack E netPkt firstPkt ep g =
     (if \<not> le_isInterest E netPkt then net_invalid g
      else if lp_nextHopFaceId firstPkt \<noteq> None then net_invalid g
      else if lp_cachePolicy firstPkt \<noteq> None then net_invalid g
      else if lp_nonDiscovery firstPkt then net_invalid g
      else if lp_prefixAnnouncement firstPkt \<noteq> None then net_invalid g
      else case lp_nack firstPkt of
             None \<Rightarrow> g
           | Some reason \<Rightarrow>
               receiveUp (UpNack netPkt reason (no_tags\<lparr>tag_congestionMark := lp_congestionMark firstPkt\<rparr>) ep) g)"

definition decodeNetPacket :: "'r lp_env \<Rightarrow> net_block \<Rightarrow> lp_packet \<Rightarrow> 'e \<Rightarrow> ('e, 'r) gls \<Rightarrow> ('e, 'r) gls" where
  "decodeNetPacket E netPkt firstPkt ep g =
     (if nb_type netPkt = 5 then
        if lp_nack firstPkt \<noteq> None then decodeNack E netPkt firstPkt ep g else decodeInterest E netPkt firstPkt ep g
      else if nb_type netPkt = 6 then decodeData E netPkt firstPkt ep g
      else net_invalid g)"

text \<open>The packet is \<open>None\<close> when \<open>lp::Packet\<close> cannot parse it.\<close>

definition doReceivePacket :: "'r lp_env \<Rightarrow> time_point \<Rightarrow> lp_packet option \<Rightarrow> 'e \<Rightarrow> ('e, 'r) gls \<Rightarrow> ('e, 'r) gls option" where
  "doReceivePacket E now packet ep g =
     (case packet of
        None \<Rightarrow> Some (gls_count (lc_nInLpInvalid_update (\<lambda>c. c + 1)) g)
      | Some pkt \<Rightarrow> do {
          (isNew, g) \<leftarrow> (if ro_isEnabled (go_reliability (gls_options g)) then processIncomingPacket E now pkt g else Some (True, g));
          if \<not> isNew then Some (gls_count (lc_nDuplicateSequence_update (\<lambda>c. c + 1)) g)
          else if lp_fragment pkt = None then Some g
          else if (lp_fragIndex pkt \<noteq> None \<or> lp_fragCount pkt \<noteq> None) \<and> \<not> go_allowReassembly (gls_options g) then Some g
          else
            let (r, ra) = receiveFragment (le_block E) now pkt ep (gls_reassembler g); g = g\<lparr>gls_reassembler := ra\<rparr>
            in case r of
                 Inl _ \<Rightarrow> Some (gls_count (lc_nInLpInvalid_update (\<lambda>c. c + 1)) g)
               | Inr None \<Rightarrow> Some g
               | Inr (Some (netPkt, firstPkt)) \<Rightarrow> Some (decodeNetPacket E netPkt firstPkt ep g)
        })"

definition onReassemblyTimeout :: "'e \<times> u64 \<Rightarrow> ('e, 'r) gls \<Rightarrow> ('e, 'r) gls" where
  "onReassemblyTimeout key g =
     (let (n, ra) = timeoutPartialPacket key (gls_reassembler g); g = g\<lparr>gls_reassembler := ra\<rparr>
      in if n \<noteq> None then gls_count (lc_nReassemblyTimeouts_update (\<lambda>c. c + 1)) g else g)"

end
