(* ===== verification/Link_Roundtrip.thy ===== *)
theory Link_Roundtrip
  imports Link_Service
begin

text \<open>
  Two link services over a link that may reorder: what one sends, cut into fragments where the MTU
  asks for it, the other hands to its forwarder exactly once, with the tags that the link protocol
  carries. Here neither end uses the reliability feature or marks congestion.
\<close>

section \<open>Sequence numbers\<close>

lemma assignSequences_eq:
  "assignSequences ps s =
     (map (\<lambda>(j, p). p\<lparr>lp_sequence := Some (s + 1 + of_nat j)\<rparr>) (enumerate 0 ps), s + of_nat (length ps))"
proof (induction ps arbitrary: s)
  case (Cons p ps)
  have "enumerate (Suc 0) ps = map (\<lambda>(j, p). (Suc j, p)) (enumerate 0 ps)"
    by (simp add: enumerate_Suc_eq apfst_def map_prod_def)
  then show ?case by (simp add: Cons Let_def case_prod_unfold comp_def ac_simps)
qed simp

lemma assignSequences_in: "\<forall>q\<in>set (fst (assignSequences ps s)). \<exists>p\<in>set ps. \<exists>v. q = p\<lparr>lp_sequence := Some v\<rparr>"
proof (induction ps arbitrary: s)
  case (Cons p ps)
  show ?case using Cons[of "s + 1"] by (auto simp: Let_def case_prod_unfold)
qed simp

lemma sequenced_message:
  fixes s :: u64
  assumes "1 < length bs" "length bs < 2 ^ 64"
  shows "message (s + 1) (fst (assignSequences (fragments_of p bs) s))"
    "map lp_payload (fst (assignSequences (fragments_of p bs) s)) = bs"
    "hd (fst (assignSequences (fragments_of p bs) s)) =
       (mk_fragment p (length bs) 0 (hd bs))\<lparr>lp_sequence := Some (s + 1)\<rparr>"
proof -
  let ?pks = "fst (assignSequences (fragments_of p bs) s)"
  have n: "?pks ! j = (mk_fragment (if j = 0 then p else lp_empty) (length bs) j (bs ! j))\<lparr>lp_sequence := Some (s + 1 + of_nat j)\<rparr>"
    if "j < length bs" for j using that by (simp add: assignSequences_eq nth_enumerate_eq)
  have l: "length ?pks = length bs" by (simp add: assignSequences_eq)
  show "message (s + 1) ?pks" using assms unfolding message_def l by (simp add: n)
  show "map lp_payload ?pks = bs" by (rule nth_equalityI) (simp_all add: l n)
  have "?pks \<noteq> []" "bs \<noteq> []" using l assms(1) by auto
  then show "hd ?pks = (mk_fragment p (length bs) 0 (hd bs))\<lparr>lp_sequence := Some (s + 1)\<rparr>"
    using n[of 0] by (simp add: hd_conv_nth)
qed

section \<open>Sending\<close>

definition plain :: "('e, 'r) gls \<Rightarrow> bool" where
  "plain g \<longleftrightarrow> \<not> ro_isEnabled (go_reliability (gls_options g)) \<and> \<not> go_allowCongestionMarking (gls_options g)"

definition mtu_ok :: "('e, 'r) gls \<Rightarrow> bool" where
  "mtu_ok g \<longleftrightarrow> go_overrideMtu (gls_options g) \<ge> MIN_MTU \<and>
     (tr_mtu (gls_transport g) = MTU_UNLIMITED \<or> tr_mtu (gls_transport g) \<ge> 0)"

lemma effective_mtu:
  assumes "mtu_ok g"
  shows "getEffectiveMtu g = MTU_UNLIMITED \<or> getEffectiveMtu g \<ge> 0"
    "within_mtu (getEffectiveMtu g) n \<Longrightarrow> within_mtu (tr_mtu (gls_transport g)) n"
  using assms by (auto simp: mtu_ok_def getEffectiveMtu_def within_mtu_def MTU_UNLIMITED_def MIN_MTU_def)

text \<open>\<open>g'\<close> is \<open>g\<close> after \<open>pks\<close> went out.\<close>

definition sent_on :: "lp_packet list \<Rightarrow> ('e, 'r) gls \<Rightarrow> ('e, 'r) gls \<Rightarrow> bool" where
  "sent_on pks g g' \<longleftrightarrow> tr_sent (gls_transport g') = tr_sent (gls_transport g) @ pks \<and>
     tr_state (gls_transport g') = tr_state (gls_transport g) \<and> tr_mtu (gls_transport g') = tr_mtu (gls_transport g) \<and>
     gls_options g' = gls_options g \<and> gls_counters g' = gls_counters g"

lemma sendLpPacket_plain:
  assumes "plain g" "mtu_ok g" "open_state (tr_state (gls_transport g))"
    "within_mtu (getEffectiveMtu g) (wire_size (le_wire E p))"
  shows "\<exists>g'. sendLpPacket E now p g = Some g' \<and> sent_on [p] g g' \<and> mtu_ok g' \<and> plain g'"
  using assms effective_mtu(2)[OF assms(2,4)]
  by (auto simp: sendLpPacket_def plain_def tr_send_def open_state_def sent_on_def Let_def mtu_ok_def within_mtu_def)

lemma sendLpPackets_plain:
  "plain g \<Longrightarrow> mtu_ok g \<Longrightarrow> open_state (tr_state (gls_transport g)) \<Longrightarrow>
    \<forall>p\<in>set pks. within_mtu (getEffectiveMtu g) (wire_size (le_wire E p)) \<Longrightarrow>
    \<exists>g'. sendLpPackets E now pks g = Some g' \<and> sent_on pks g g'"
proof (induction pks arbitrary: g)
  case (Cons p pks)
  obtain g1 where 1: "sendLpPacket E now p g = Some g1" "sent_on [p] g g1" "mtu_ok g1" "plain g1"
    using sendLpPacket_plain[OF Cons.prems(1-3), of E p now] Cons.prems(4) by auto
  have "getEffectiveMtu g1 = getEffectiveMtu g" using 1(2) by (simp add: sent_on_def getEffectiveMtu_def)
  then obtain g2 where "sendLpPackets E now pks g1 = Some g2" "sent_on pks g1 g2"
    using Cons.IH[OF 1(4,3)] 1(2) Cons.prems(3,4) by (auto simp: sent_on_def)
  then show ?case using 1(1,2) by (auto simp: sent_on_def)
qed (simp add: sent_on_def)

text \<open>The packets that carry \<open>p\<close>: the packet itself, or its fragments with consecutive sequence numbers.\<close>

definition carries :: "lp_packet \<Rightarrow> u64 \<Rightarrow> lp_packet list \<Rightarrow> bool" where
  "carries p s pks \<longleftrightarrow> pks = [p] \<or>
     message (s + 1) pks \<and> concat (map lp_payload pks) = lp_payload p \<and>
     (\<exists>n b. hd pks = (mk_fragment p n 0 b)\<lparr>lp_sequence := Some (s + 1)\<rparr>)"

lemma sendNetPacket_plain:
  fixes g :: "('e, 'r) gls"
  assumes pl: "plain g" and m: "mtu_ok g" and st: "open_state (tr_state (gls_transport g))"
    and fo: "go_allowFragmentation (gls_options g)" and fl: "fr_nMaxFragments (go_fragmenter (gls_options g)) < 2 ^ 64"
    and law: "lp_wire_law (le_wire E)"
    and p: "lp_payload p \<noteq> []" "lp_fragIndex p = None" "lp_fragCount p = None"
  obtains (error) "sendNetPacket E now p isInterest g = Some (gls_count (lc_nFragmentationErrors_update (\<lambda>c. c + 1)) g)"
    "0 \<le> getEffectiveMtu g" "\<not> fits_one (le_wire E) p (nat (getEffectiveMtu g))"
    "too_small (le_wire E) p (nat (getEffectiveMtu g)) \<or>
       fr_nMaxFragments (go_fragmenter (gls_options g)) < length (pieces (le_wire E) p (nat (getEffectiveMtu g)))"
  | (sent) pks g' where "sendNetPacket E now p isInterest g = Some g'" "sent_on pks g g'" "carries p (gls_lastSeqNo g) pks"
      "length pks \<le> max 1 (fr_nMaxFragments (go_fragmenter (gls_options g)))"
proof -
  let ?m = "getEffectiveMtu g" and ?W = "le_wire E" and ?n = "fr_nMaxFragments (go_fragmenter (gls_options g))"
  have r: "\<not> ro_isEnabled (go_reliability (gls_options g))" "\<not> go_allowCongestionMarking (gls_options g)" using pl by (auto simp: plain_def)
  note F = fragmentPacket_eq[OF p, of ?W "go_fragmenter (gls_options g)" "nat ?m"]
  have one: "\<exists>g'. sendNetPacket E now p isInterest g = Some g' \<and> sent_on [p] g g'" if "?m = MTU_UNLIMITED \<or> fits_one ?W p (nat ?m)"
  proof -
    have "\<forall>q\<in>set [p]. within_mtu ?m (wire_size (?W q))"
      using that effective_mtu(1)[OF m] by (auto simp: within_mtu_def fits_one_def MTU_UNLIMITED_def)
    from sendLpPackets_plain[OF pl m st this, of now] show ?thesis
      using that effective_mtu(1)[OF m] F r fo p by (auto simp: sendNetPacket_def Let_def)
  qed
  show thesis
  proof (cases "?m = MTU_UNLIMITED \<or> fits_one ?W p (nat ?m)")
    case True
    then show ?thesis using one sent[of _ "[p]"] by (force simp: carries_def)
  next
    case False
    then have m0: "0 \<le> ?m" using effective_mtu(1)[OF m] by auto
    show ?thesis
    proof (cases "too_small ?W p (nat ?m) \<or> ?n < length (pieces ?W p (nat ?m))")
      case True
      then show ?thesis using error False m0 F r fo by (simp add: sendNetPacket_def Let_def)
    next
      case ok: False
      let ?bs = "pieces ?W p (nat ?m)" let ?pks = "fst (assignSequences (fragments_of p ?bs) (gls_lastSeqNo g))"
      have len: "1 < length ?bs" "length ?bs \<le> ?n" "length ?bs < 2 ^ 64"
        using pieces_several[OF law] False ok fl by auto
      note M = sequenced_message[OF len(1,3), where s = "gls_lastSeqNo g" and p = p]
      let ?g = "g\<lparr>gls_lastSeqNo := snd (assignSequences (fragments_of p ?bs) (gls_lastSeqNo g))\<rparr>"
      have "within_mtu (getEffectiveMtu ?g) (wire_size (?W q))" if q: "q \<in> set ?pks" for q
      proof -
        obtain f v where f: "f \<in> set (fragments_of p ?bs)" "q = f\<lparr>lp_sequence := Some v\<rparr>"
          using assignSequences_in[rule_format, OF q] by blast
        have "wire_size (?W q) \<le> nat ?m" unfolding f(2) by (rule fragment_fits[OF law _ p(1) f(1)]) (use ok in simp)
        moreover have "getEffectiveMtu ?g = ?m" by (simp add: getEffectiveMtu_def)
        ultimately show ?thesis using m0 unfolding within_mtu_def by (simp add: le_nat_iff)
      qed
      then obtain g' where g': "sendLpPackets E now ?pks ?g = Some g'" "sent_on ?pks ?g g'"
        using sendLpPackets_plain[of ?g ?pks E now] pl m st by (auto simp: plain_def mtu_ok_def)
      have "sendNetPacket E now p isInterest g = Some g'"
        using False ok m0 F r fo g'(1) len by (simp add: sendNetPacket_def Let_def case_prod_unfold)
      moreover have "sent_on ?pks g g'" using g'(2) by (simp add: sent_on_def)
      moreover have "carries p (gls_lastSeqNo g) ?pks" using M pieces_concat[of ?W p "nat ?m"] ok unfolding carries_def by metis
      ultimately show ?thesis using sent len by (auto simp: assignSequences_eq)
    qed
  qed
qed

section \<open>Receiving\<close>

fun gls_receiveAll :: "'r lp_env \<Rightarrow> 'e \<Rightarrow> (time_point \<times> lp_packet) list \<Rightarrow> ('e, 'r) gls \<Rightarrow> ('e, 'r) gls option" where
  "gls_receiveAll E ep [] g = Some g"
| "gls_receiveAll E ep ((now, p) # ps) g = Option.bind (doReceivePacket E now (Some p) ep g) (gls_receiveAll E ep ps)"

definition accepts :: "('e, 'r) gls \<Rightarrow> bool" where
  "accepts g \<longleftrightarrow> \<not> ro_isEnabled (go_reliability (gls_options g)) \<and> go_allowReassembly (gls_options g) \<and>
     reassembler_ok (gls_reassembler g)"

lemma receive_reassembled:
  assumes "\<not> ro_isEnabled (go_reliability (gls_options g))" "go_allowReassembly (gls_options g)"
    "\<forall>x\<in>set order. lp_fragment (snd x) \<noteq> None"
    "receiveAll (le_block E) ep order (gls_reassembler g) = (replicate k (Inr None) @ [Inr (Some (nb, first))], ra)"
  shows "gls_receiveAll E ep order g = Some (decodeNetPacket E nb first ep (g\<lparr>gls_reassembler := ra\<rparr>))"
  using assms
proof (induction order arbitrary: g k)
  case (Cons x order)
  obtain now p where x: "x = (now, p)" by (cases x)
  obtain r ra1 where r: "receiveFragment (le_block E) now p ep (gls_reassembler g) = (r, ra1)" by fastforce
  obtain rs ra2 where rs: "receiveAll (le_block E) ep order ra1 = (rs, ra2)" by fastforce
  let ?g1 = "g\<lparr>gls_reassembler := ra1\<rparr>"
  have all: "r # rs = replicate k (Inr None) @ [Inr (Some (nb, first))]" "ra2 = ra" using Cons.prems(4) x r rs by auto
  have d: "doReceivePacket E now (Some p) ep g = Some (case r of Inl _ \<Rightarrow> gls_count (lc_nInLpInvalid_update (\<lambda>c. c + 1)) ?g1
      | Inr None \<Rightarrow> ?g1 | Inr (Some (netPkt, firstPkt)) \<Rightarrow> decodeNetPacket E netPkt firstPkt ep ?g1)"
    using Cons.prems(1-3) x r by (auto simp: doReceivePacket_def split: sum.split option.split)
  show ?case
  proof (cases k)
    case 0
    then have "rs = []" "order = []" using all(1) rs by (auto elim: receiveAll.elims simp: Let_def case_prod_unfold)
    then show ?thesis using 0 all rs d x by simp
  next
    case (Suc k')
    then have "r = Inr None" "rs = replicate k' (Inr None) @ [Inr (Some (nb, first))]" using all(1) by auto
    then show ?thesis using Cons.IH[of ?g1 k'] Cons.prems(1-3) rs all(2) d x by simp
  qed
qed simp

lemma decodeNetPacket_fragment:
  "decodeNetPacket E nb ((mk_fragment p n j b)\<lparr>lp_sequence := s\<rparr>) ep g = decodeNetPacket E nb p ep g"
proof -
  let ?q = "(mk_fragment p n j b)\<lparr>lp_sequence := s\<rparr>"
  have q: "lp_nack ?q = lp_nack p" "lp_nextHopFaceId ?q = lp_nextHopFaceId p" "lp_cachePolicy ?q = lp_cachePolicy p"
    "lp_congestionMark ?q = lp_congestionMark p" "lp_nonDiscovery ?q = lp_nonDiscovery p"
    "lp_prefixAnnouncement ?q = lp_prefixAnnouncement p" "lp_pitToken ?q = lp_pitToken p" by (simp_all add: mk_fragment_def)
  show ?thesis unfolding decodeNetPacket_def decodeInterest_def decodeData_def decodeNack_def q ..
qed

lemma carried_packet_received:
  fixes h :: "('e, 'r) gls"
  assumes c: "carries p s pks" and len: "length pks \<le> ra_nMaxFragments (gls_reassembler h)"
    and p: "lp_fragment p = Some w" "lp_fragIndex p = None" "lp_fragCount p = None" and nb: "le_block E w = Some nb"
    and h: "accepts h" "ra_partialPackets (gls_reassembler h) (ep, s + 1) = None"
    and o: "mset (map snd order) = mset pks"
  shows "gls_receiveAll E ep order h = Some (decodeNetPacket E nb p ep h)"
proof (cases "pks = [p]")
  case True
  then obtain now where [simp]: "order = [(now, p)]" using o by (cases order; cases "tl order") auto
  have "receiveFragment (le_block E) now p ep (gls_reassembler h) = (Inr (Some (nb, p)), gls_reassembler h)"
    using len True p nb by (simp add: receiveFragment_def Let_def)
  then show ?thesis using h(1) p by (simp add: doReceivePacket_def accepts_def)
next
  case False
  then have m: "message (s + 1) pks" and b: "concat (map lp_payload pks) = w"
    and "\<exists>n b. hd pks = (mk_fragment p n 0 b)\<lparr>lp_sequence := Some (s + 1)\<rparr>"
    using c p(1) by (auto simp: carries_def)
  then obtain n b0 where hd: "hd pks = (mk_fragment p n 0 b0)\<lparr>lp_sequence := Some (s + 1)\<rparr>" by blast
  have so: "snd ` set order = set pks" using o by (metis mset_eq_setD list.set_map)
  have "distinct (map snd order)" using message_distinct[OF m] o by (metis mset_eq_imp_distinct_iff)
  moreover have "order \<noteq> []" using o messageD(1)[OF m] by auto
  ultimately have "receiveAll (le_block E) ep order (gls_reassembler h) =
      (replicate (length order - 1) (Inr None) @ [Inr (Some (nb, hd pks))], ra_put (ep, s + 1) None (gls_reassembler h))"
    using nb b h len so by (intro receiveAll_message[OF m, where got = "{}"]) (auto simp: has_got_def accepts_def)
  moreover have "\<forall>x\<in>set order. lp_fragment (snd x) \<noteq> None"
    using so messageD(6)[OF m] by (metis image_eqI in_set_conv_nth)
  ultimately show ?thesis
    using receive_reassembled[where g = h] h hd unfolding ra_put_None[OF h(2)]
    by (simp add: accepts_def decodeNetPacket_fragment)
qed

section \<open>Network-layer packets\<close>

datatype net_packet = NetInterest "byte list" lp_tags | NetData "byte list" lp_tags | NetNack "byte list" nack_reason lp_tags

fun gls_send :: "'r lp_env \<Rightarrow> time_point \<Rightarrow> net_packet \<Rightarrow> ('e, 'r) gls \<Rightarrow> ('e, 'r) gls option" where
  "gls_send E now (NetInterest w tags) g = gls_sendInterest E now w tags g"
| "gls_send E now (NetData w tags) g = gls_sendData E now w tags g"
| "gls_send E now (NetNack w reason tags) g = gls_sendNack E now w reason tags g"

fun net_wire :: "net_packet \<Rightarrow> byte list" where
  "net_wire (NetInterest w tags) = w"
| "net_wire (NetData w tags) = w"
| "net_wire (NetNack w reason tags) = w"

text \<open>The block parses as what it is, and has no tag that its kind of packet cannot carry.\<close>

fun net_ok :: "'r lp_env \<Rightarrow> net_block \<Rightarrow> net_packet \<Rightarrow> bool" where
  "net_ok E nb (NetInterest w tags) \<longleftrightarrow> nb_type nb = 5 \<and> le_isInterest E nb \<and> tag_prefixAnnouncement tags = None"
| "net_ok E nb (NetData w tags) \<longleftrightarrow> nb_type nb = 6 \<and> le_isData E nb \<and> \<not> tag_nonDiscovery tags"
| "net_ok E nb (NetNack w reason tags) \<longleftrightarrow> nb_type nb = 5 \<and> le_isInterest E nb \<and>
     tag_prefixAnnouncement tags = None \<and> \<not> tag_nonDiscovery tags"

text \<open>What the peer sees; \<open>sl\<close> is whether both ends support self-learning.\<close>

fun seen_as :: "bool \<Rightarrow> net_block \<Rightarrow> 'e \<Rightarrow> net_packet \<Rightarrow> 'e up_call" where
  "seen_as sl nb ep (NetInterest w tags) =
     UpInterest nb (no_tags\<lparr>tag_congestionMark := tag_congestionMark tags, tag_nonDiscovery := sl \<and> tag_nonDiscovery tags,
       tag_pitToken := tag_pitToken tags\<rparr>) ep"
| "seen_as sl nb ep (NetData w tags) =
     UpData nb (no_tags\<lparr>tag_congestionMark := tag_congestionMark tags,
       tag_prefixAnnouncement := (if sl then tag_prefixAnnouncement tags else None)\<rparr>) ep"
| "seen_as sl nb ep (NetNack w reason tags) =
     UpNack nb reason (no_tags\<lparr>tag_congestionMark := tag_congestionMark tags\<rparr>) ep"

text \<open>The link-layer packet that \<open>np\<close> is put into, and its place in the sender.\<close>

fun net_lp :: "gls_options \<Rightarrow> net_packet \<Rightarrow> lp_packet" where
  "net_lp opts (NetInterest w tags) = encodeLpFields opts tags (lp_empty\<lparr>lp_fragment := Some w\<rparr>)"
| "net_lp opts (NetData w tags) = encodeLpFields opts tags (lp_empty\<lparr>lp_fragment := Some w\<rparr>)"
| "net_lp opts (NetNack w reason tags) = encodeLpFields opts tags (lp_empty\<lparr>lp_fragment := Some w, lp_nack := Some reason\<rparr>)"

fun count_out :: "net_packet \<Rightarrow> gls_counters \<Rightarrow> gls_counters" where
  "count_out (NetInterest w tags) = lc_nOutInterests_update (\<lambda>c. c + 1)"
| "count_out (NetData w tags) = lc_nOutData_update (\<lambda>c. c + 1)"
| "count_out (NetNack w reason tags) = lc_nOutNacks_update (\<lambda>c. c + 1)"

lemma gls_send_eq:
  "gls_send E now np g = sendNetPacket E now (net_lp (gls_options g) np) (case np of NetInterest _ _ \<Rightarrow> True | _ \<Rightarrow> False)
     (gls_count (count_out np) g)"
  by (cases np) (simp_all add: gls_sendInterest_def gls_sendData_def gls_sendNack_def)

lemma net_lp_simps:
  "lp_fragment (net_lp opts np) = Some (net_wire np)" "lp_fragIndex (net_lp opts np) = None" "lp_fragCount (net_lp opts np) = None"
  by (cases np; simp add: encodeLpFields_def Let_def)+

lemma encodeLpFields_simps:
  "lp_nack (encodeLpFields opts tags p) = lp_nack p"
  "lp_nextHopFaceId (encodeLpFields opts tags p) = lp_nextHopFaceId p"
  "lp_cachePolicy (encodeLpFields opts tags p) = lp_cachePolicy p"
  "lp_congestionMark p = None \<Longrightarrow> lp_congestionMark (encodeLpFields opts tags p) = tag_congestionMark tags"
  "lp_nonDiscovery (encodeLpFields opts tags p) \<longleftrightarrow> lp_nonDiscovery p \<or> go_allowSelfLearning opts \<and> tag_nonDiscovery tags"
  "lp_prefixAnnouncement p = None \<Longrightarrow>
     lp_prefixAnnouncement (encodeLpFields opts tags p) = (if go_allowSelfLearning opts then tag_prefixAnnouncement tags else None)"
  "lp_pitToken p = None \<Longrightarrow> lp_pitToken (encodeLpFields opts tags p) = tag_pitToken tags"
  by (simp_all add: encodeLpFields_def Let_def)

lemma no_tags_unset: "no_tags\<lparr>tag_nextHopFaceId := None\<rparr> = no_tags" "no_tags\<lparr>tag_cachePolicy := None\<rparr> = no_tags"
  by (simp_all add: no_tags_def)

lemma decode_net_lp:
  assumes "net_ok E nb np"
  shows "decodeNetPacket E nb (net_lp opts np) ep h =
    receiveUp (seen_as (go_allowSelfLearning opts \<and> go_allowSelfLearning (gls_options h)) nb ep np) h"
proof (cases np)
  case (NetInterest w tags)
  then show ?thesis using assms by (simp add: decodeNetPacket_def decodeInterest_def encodeLpFields_simps no_tags_unset conj_ac)
next
  case (NetData w tags)
  then show ?thesis using assms by (simp add: decodeNetPacket_def decodeData_def encodeLpFields_simps no_tags_unset)
next
  case (NetNack w reason tags)
  then show ?thesis using assms by (simp add: decodeNetPacket_def decodeNack_def encodeLpFields_simps)
qed

end
