(* ===== verification/Link_Properties.thy ===== *)
theory Link_Properties
  imports Link_Roundtrip
begin

text \<open>
  What the link layer promises: fragmentation ends and fits the MTU, what is sent arrives once, and a
  transport that closes stays closed. The examples run over an encoder that gives every field its
  NDNLPv2 size.
\<close>

section \<open>Fragmentation\<close>

lemma less_div_up:
  fixes k m r :: nat
  assumes k: "0 < k" and m: "m < r div k + (if r mod k \<noteq> 0 then 1 else 0)"
  shows "m * k < r"
proof (cases "r mod k = 0")
  case True
  then have "m * k < r div k * k" using m k by (intro mult_less_mono1) simp_all
  then show ?thesis using div_mult_mod_eq[of r k] True by linarith
next
  case False
  then have "m * k \<le> r div k * k" using m by (intro mult_le_mono1) simp
  then show ?thesis using div_mult_mod_eq[of r k] False by linarith
qed

lemma too_many_pieces:
  assumes "\<not> too_small W p mtu" "n < length (pieces W p mtu)" "lp_payload p \<noteq> []"
  shows "n * (mtu - MAX_FRAG_OVERHEAD) < length (lp_payload p) + header_size (W p)"
proof (cases n)
  case (Suc m)
  let ?k = "mtu - MAX_FRAG_OVERHEAD" and ?r = "length (lp_payload p) - first_payload W p mtu"
  have k: "0 < ?k" and f: "first_payload W p mtu + header_size (W p) = ?k"
    using assms(1) by (auto simp: too_small_def first_payload_def)
  have "m < ?r div ?k + (if ?r mod ?k \<noteq> 0 then 1 else 0)"
    using assms(2) Suc by (simp add: pieces_def length_chunks[OF k])
  then have "m * ?k < ?r" by (rule less_div_up[OF k])
  then show ?thesis using f Suc by simp
qed (use assms(3) in simp)

text \<open>
  C16: the fragmenter always returns: its loop ends, stays inside the vector of fragments and sets each field
  once. When it accepts a packet, the payloads of the fragments concatenate to the network-layer packet,
  every fragment fits the MTU even after a sequence number is added to it, and the packet is either sent as
  it is or as at least two and at most \<open>nMaxFragments\<close> fragments numbered from 0. It refuses a packet only
  if the packet does not fit one frame and the MTU leaves no octet for the first fragment, or
  \<open>nMaxFragments\<close> full frames are too few for its payload and headers.
\<close>

theorem fragmentation_terminates:
  assumes law: "lp_wire_law W" and p: "lp_fragment p = Some b" "b \<noteq> []" "lp_fragIndex p = None" "lp_fragCount p = None"
  shows "\<exists>ok frags. fragmentPacket W fr p mtu = Some (ok, frags) \<and>
    (ok \<longrightarrow> concat (map lp_payload frags) = b \<and> (\<forall>f\<in>set frags. \<forall>s. wire_size (W (f\<lparr>lp_sequence := Some s\<rparr>)) \<le> mtu) \<and>
       (frags = [p] \<or> 1 < length frags \<and> length frags \<le> fr_nMaxFragments fr \<and>
         (\<forall>j<length frags. lp_fragIndex (frags ! j) = Some (of_nat j) \<and> lp_fragCount (frags ! j) = Some (of_nat (length frags))))) \<and>
    (\<not> ok \<longrightarrow> frags = [] \<and> mtu < MAX_SINGLE_FRAG_OVERHEAD + wire_size (W p) \<and>
       (mtu \<le> MAX_FRAG_OVERHEAD + header_size (W p) \<or>
        fr_nMaxFragments fr * (mtu - MAX_FRAG_OVERHEAD) < length b + header_size (W p)))"
proof -
  have pl: "lp_payload p = b" "lp_payload p \<noteq> []" using p by simp_all
  note F = fragmentPacket_eq[OF pl(2) p(3,4), of W fr mtu] and L = lp_wire_lawD[OF law]
  have one: "wire_size (W (p\<lparr>lp_sequence := Some s\<rparr>)) \<le> mtu" if "fits_one W p mtu" for s
    using L(2)[of "p\<lparr>lp_sequence := Some s\<rparr>"] L(3)[of p] L(7)[of s p] that
    by (simp add: fits_one_def MAX_SINGLE_FRAG_OVERHEAD_def)
  consider "fits_one W p mtu" | "\<not> fits_one W p mtu" "too_small W p mtu \<or> fr_nMaxFragments fr < length (pieces W p mtu)"
    | "\<not> fits_one W p mtu" "\<not> too_small W p mtu" "length (pieces W p mtu) \<le> fr_nMaxFragments fr" by linarith
  then show ?thesis
  proof cases
    case 1
    then show ?thesis using F one pl(1) by (intro exI[of _ True] exI[of _ "[p]"]) simp
  next
    case 2
    have "mtu \<le> MAX_FRAG_OVERHEAD + header_size (W p) \<or> fr_nMaxFragments fr * (mtu - MAX_FRAG_OVERHEAD) < length b + header_size (W p)"
      using 2(2) too_many_pieces[of W p mtu] pl by (auto simp: too_small_def)
    then show ?thesis using 2 F by (intro exI[of _ False] exI[of _ "[]"]) (auto simp: fits_one_def)
  next
    case 3
    have "concat (map lp_payload (fragments_of p (pieces W p mtu))) = b"
      unfolding fragments_of_payload pieces_concat[OF 3(2)] by (rule pl(1))
    then show ?thesis using 3 F fragment_fits[OF law 3(2) pl(2)] pieces_several[OF law 3(1,2)]
      by (intro exI[of _ True] exI[of _ "fragments_of p (pieces W p mtu)"]) simp
  qed
qed

section \<open>The link\<close>

text \<open>
  C6: what one end of a link sends, the other end receives once, with reliability off at both ends. The
  sender fragments, marks no congestion, has a transport that is open and an override MTU of at least
  \<open>MIN_MTU\<close>. The packet is an Interest, Data or Nack whose octets parse as a packet of its kind and
  which has no tag its kind cannot carry. Then either nothing is sent and a fragmentation error is
  counted, because the packet fits no single frame and the MTU is too small for fragments or
  too many are needed; or link-layer packets go out, no more than the fragment limit. Any
  receiver that reassembles, allows that many fragments and has no partial packet under
  the same message identifier, when it gets these packets in any order, passes on exactly one
  network-layer packet of the same kind, octet for octet what was sent, with the congestion mark, the PIT
  token of an Interest and, where both ends support self-learning, its fields; its state is otherwise as
  before, with no partial packet left behind.
\<close>

theorem link_roundtrip:
  fixes g :: "('e, 'r) gls"
  assumes g: "plain g" "mtu_ok g" "open_state (tr_state (gls_transport g))" "go_allowFragmentation (gls_options g)"
      "fr_nMaxFragments (go_fragmenter (gls_options g)) < 2 ^ 64"
    and law: "lp_wire_law (le_wire E)" and np: "net_wire np \<noteq> []" "le_block E (net_wire np) = Some nb" "net_ok E nb np"
  shows "\<exists>g'. gls_send E now np g = Some g' \<and>
    (tr_sent (gls_transport g') = tr_sent (gls_transport g) \<and>
       lc_nFragmentationErrors (gls_counters g') = lc_nFragmentationErrors (gls_counters g) + 1 \<and>
       \<not> fits_one (le_wire E) (net_lp (gls_options g) np) (nat (getEffectiveMtu g)) \<and>
       (too_small (le_wire E) (net_lp (gls_options g) np) (nat (getEffectiveMtu g)) \<or>
        fr_nMaxFragments (go_fragmenter (gls_options g)) <
          length (pieces (le_wire E) (net_lp (gls_options g) np) (nat (getEffectiveMtu g)))) \<or>
     (\<exists>pks. tr_sent (gls_transport g') = tr_sent (gls_transport g) @ pks \<and>
        length pks \<le> max 1 (fr_nMaxFragments (go_fragmenter (gls_options g))) \<and>
        (\<forall>(h :: ('e, 'r) gls) ep order. accepts h \<and> length pks \<le> ra_nMaxFragments (gls_reassembler h) \<and>
           ra_partialPackets (gls_reassembler h) (ep, gls_lastSeqNo g + 1) = None \<and> mset (map snd order) = mset pks \<longrightarrow>
           gls_receiveAll E ep order h =
             Some (receiveUp (seen_as (go_allowSelfLearning (gls_options g) \<and> go_allowSelfLearning (gls_options h)) nb ep np) h))))"
proof -
  let ?g = "gls_count (count_out np) g" and ?p = "net_lp (gls_options g) np"
  let ?i = "case np of NetInterest _ _ \<Rightarrow> True | _ \<Rightarrow> False"
  have g': "plain ?g" "mtu_ok ?g" "open_state (tr_state (gls_transport ?g))" "go_allowFragmentation (gls_options ?g)"
    "fr_nMaxFragments (go_fragmenter (gls_options ?g)) < 2 ^ 64" using g by (simp_all add: plain_def mtu_ok_def)
  have m: "getEffectiveMtu ?g = getEffectiveMtu g" by (simp add: getEffectiveMtu_def)
  have p: "lp_payload ?p \<noteq> []" "lp_fragIndex ?p = None" "lp_fragCount ?p = None"
    using np(1) by (simp_all add: net_lp_simps)
  have c: "lc_nFragmentationErrors (count_out np x) = lc_nFragmentationErrors x" for x by (cases np) simp_all
  show ?thesis
  proof (cases rule: sendNetPacket_plain[OF g' law p, where now = now and isInterest = ?i, case_names error sent])
    case error
    then show ?thesis unfolding gls_send_eq m by (simp add: c)
  next
    case (sent pks g1)
    have "gls_receiveAll E ep order h =
        Some (receiveUp (seen_as (go_allowSelfLearning (gls_options g) \<and> go_allowSelfLearning (gls_options h)) nb ep np) h)"
      if "accepts h" "length pks \<le> ra_nMaxFragments (gls_reassembler h)"
        "ra_partialPackets (gls_reassembler h) (ep, gls_lastSeqNo g + 1) = None" "mset (map snd order) = mset pks"
      for h :: "('e, 'r) gls" and ep order
      using carried_packet_received[OF sent(3) that(2) net_lp_simps np(2) that(1) _ that(4)] that(3) decode_net_lp[OF np(3)]
      by simp
    then show ?thesis using sent(1,2,4) unfolding gls_send_eq sent_on_def by (intro exI[of _ g1]) auto
  qed
qed

section \<open>Life of a transport\<close>

text \<open>
  C34: a transport that closes stays closed. In every run from a new transport the state changes that are
  signalled are valid transitions, each starting where the one before ended; and from a state other than
  UP and DOWN nothing is handed to the subclass for sending any more, and the state stays what it is or
  becomes CLOSED.
\<close>

theorem transport_lifecycle:
  assumes "doClose_law doClose" "tr_reach doClose mk_transport tr" "tr_reach doClose tr tr'"
  shows "change_path TS_UP (tr_changes tr) (tr_state tr) \<and>
    (\<not> open_state (tr_state tr) \<longrightarrow> tr_sent tr' = tr_sent tr \<and> (tr_state tr' = tr_state tr \<or> tr_state tr' = TS_CLOSED))"
  using tr_reach_moves[OF assms(2,1)] tr_reach_moves[OF assms(3,1)] by (simp add: tr_moves_def mk_transport_def)

section \<open>Examples\<close>

definition opt_element :: "nat \<Rightarrow> nat \<Rightarrow> 'a option \<Rightarrow> (nat \<times> nat) list" where
  "opt_element t n v = (if v = None then [] else [(t, n)])"

definition example_wire :: wire_encoder where
  "example_wire p =
     (let es = opt_element 81 10 (lp_sequence p) @ opt_element 82 10 (lp_fragIndex p) @ opt_element 83 10 (lp_fragCount p) @
            opt_element 98 10 (lp_pitToken p) @ opt_element 832 5 (lp_congestionMark p) @ opt_element 840 12 (lp_txSequence p) @
            map (\<lambda>_. (836, 12)) (lp_acks p) @ (case lp_fragment p of None \<Rightarrow> [] | Some b \<Rightarrow> [(80, 4 + length b)])
      in \<lparr>wire_type = tlv_LpPacket, wire_size = 4 + sum_list (map snd es), wire_elements = es\<rparr>)"

definition example_lp_env :: "unit lp_env" where
  "example_lp_env = \<lparr>le_wire = example_wire, le_block = (\<lambda>b. if b = [] then None else Some \<lparr>nb_type = unat (hd b), nb_wire = b\<rparr>),
     le_isInterest = (\<lambda>nb. nb_type nb = 5), le_isData = (\<lambda>nb. nb_type nb = 6),
     le_sizeOfVarNumber = (\<lambda>n. if n < 253 then 1 else if n < 65536 then 3 else if n < 2 ^ 32 then 5 else 9),
     le_rto = (\<lambda>_. ms 1000), le_addMeasurement = (\<lambda>_ r. r), le_markInterval = (\<lambda>b n. b)\<rparr>"

lemma example_wire_law: "lp_wire_law example_wire"
  unfolding lp_wire_law_def example_wire_def header_size_def Let_def opt_element_def
  by (auto simp: lp_payload_def comp_def sum_list_triv filter_map split: option.split)

definition example_lp :: lp_packet where
  "example_lp = lp_empty\<lparr>lp_fragment := Some (5 # replicate 99 0)\<rparr>"

definition example_gls :: "(unit, unit) gls" where
  "example_gls = mk_gls (mk_gls_options\<lparr>go_allowFragmentation := True, go_allowReassembly := True\<rparr>) () (mk_transport\<lparr>tr_mtu := 100\<rparr>)"

lemma example_lp_simps:
  "lp_payload example_lp = 5 # replicate 99 0" "lp_fragIndex example_lp = None" "lp_fragCount example_lp = None"
  "header_size (example_wire example_lp) = 0" "wire_size (example_wire (example_lp\<lparr>lp_sequence := Some v\<rparr>)) = 118"
  by (simp_all add: example_lp_def example_wire_def header_size_def opt_element_def)

theorem fragmentation_terminates_witness:
  "\<exists>frags. fragmentPacket example_wire fragmenter_default example_lp 100 = Some (True, frags) \<and>
     1 < length frags \<and> concat (map lp_payload frags) = 5 # replicate 99 0"
proof -
  have e: "lp_fragment example_lp = Some (5 # replicate 99 0)" "(5 :: byte) # replicate 99 0 \<noteq> []"
    by (simp_all add: example_lp_def)
  obtain ok frags where f: "fragmentPacket example_wire fragmenter_default example_lp 100 = Some (ok, frags)"
    "ok \<Longrightarrow> concat (map lp_payload frags) = 5 # replicate 99 0"
    "ok \<Longrightarrow> \<forall>f\<in>set frags. \<forall>s. wire_size (example_wire (f\<lparr>lp_sequence := Some s\<rparr>)) \<le> 100"
    "ok \<Longrightarrow> frags = [example_lp] \<or> 1 < length frags"
    "\<not> ok \<Longrightarrow> (100 :: nat) \<le> MAX_FRAG_OVERHEAD + header_size (example_wire example_lp) \<or>
      fr_nMaxFragments fragmenter_default * (100 - MAX_FRAG_OVERHEAD) < length ((5 :: byte) # replicate 99 0) + header_size (example_wire example_lp)"
    using fragmentation_terminates[OF example_wire_law e example_lp_simps(2,3), of fragmenter_default 100] by blast
  have ok: ok using f(5) by (auto simp: MAX_FRAG_OVERHEAD_def example_lp_simps fragmenter_default_def)
  then have "frags \<noteq> [example_lp]" using f(3) by (auto simp: example_lp_simps)
  then show ?thesis using f(1,2,4) ok by auto
qed

lemma example_pieces: "length (pieces example_wire example_lp 100) = 2" "\<not> too_small example_wire example_lp 100"
  by (simp_all add: pieces_def first_payload_def too_small_def example_lp_simps MAX_FRAG_OVERHEAD_def length_chunks)

theorem link_roundtrip_witness:
  "\<exists>g' pks. gls_send example_lp_env 0 (NetInterest (5 # replicate 99 0) no_tags) example_gls = Some g' \<and>
     tr_sent (gls_transport g') = pks \<and>
     gls_receiveAll example_lp_env () (map (Pair 0) (rev pks)) example_gls =
       Some (receiveUp (UpInterest \<lparr>nb_type = 5, nb_wire = 5 # replicate 99 0\<rparr> no_tags ()) example_gls)"
proof -
  let ?np = "NetInterest (5 # replicate 99 0) no_tags" and ?nb = "\<lparr>nb_type = 5, nb_wire = 5 # replicate 99 0\<rparr>"
  note S = example_gls_def mk_gls_def mk_gls_options_def mk_transport_def
  have g: "plain example_gls" "mtu_ok example_gls" "open_state (tr_state (gls_transport example_gls))"
    "go_allowFragmentation (gls_options example_gls)" "fr_nMaxFragments (go_fragmenter (gls_options example_gls)) < 2 ^ 64"
    by (simp_all add: S plain_def mtu_ok_def MIN_MTU_def open_state_def fragmenter_default_def)
  have law: "lp_wire_law (le_wire example_lp_env)" by (simp add: example_lp_env_def example_wire_law)
  have n: "net_wire ?np \<noteq> []" "le_block example_lp_env (net_wire ?np) = Some ?nb" "net_ok example_lp_env ?nb ?np"
    by (simp_all add: example_lp_env_def no_tags_def)
  have lp: "net_lp (gls_options example_gls) ?np = example_lp" by (simp add: encodeLpFields_def Let_def no_tags_def example_lp_def)
  have m: "nat (getEffectiveMtu example_gls) = 100" "le_wire example_lp_env = example_wire" "tr_sent (gls_transport example_gls) = []"
    "fr_nMaxFragments (go_fragmenter (gls_options example_gls)) = 400"
    by (simp_all add: S getEffectiveMtu_def example_lp_env_def fragmenter_default_def)
  note R = link_roundtrip[OF g law n, of 0, unfolded lp m append_Nil example_pieces(1)]
  have acc: "accepts example_gls"
    by (simp add: accepts_def S reassembler_ok_def ra_setOptions_def mk_reassembler_def)
  have ra: "ra_nMaxFragments (gls_reassembler example_gls) = 400" "ra_partialPackets (gls_reassembler example_gls) k = None" for k
    by (simp_all add: S ra_setOptions_def mk_reassembler_def)
  have seen: "seen_as (go_allowSelfLearning (gls_options example_gls) \<and> go_allowSelfLearning (gls_options example_gls)) ?nb () ?np =
      UpInterest ?nb no_tags ()"
    by (simp add: no_tags_def)
  show ?thesis
    using R
  proof (elim exE conjE disjE, goal_cases)
    case (1 g')
    then show ?case using example_pieces(2) by simp
  next
    case (2 g')
    then show ?case by simp
  next
    case (3 g' pks)
    have "length pks \<le> ra_nMaxFragments (gls_reassembler example_gls)" using 3(3) by (simp add: ra)
    moreover have "mset (map snd (map (Pair (0 :: time_point)) (rev pks))) = mset pks" by (simp add: comp_def)
    ultimately show ?case using 3(1,2) 3(4)[rule_format, of example_gls "()" "map (Pair 0) (rev pks)"] acc ra(2) seen by auto
  qed
qed

theorem transport_lifecycle_witness:
  "\<exists>tr. tr_close (tr_setState TS_CLOSED) (mk_transport :: nat transport) = Some tr \<and> tr_state tr = TS_CLOSED \<and>
     change_path TS_UP (tr_changes tr) (tr_state tr)"
proof -
  let ?c = "tr_setState TS_CLOSED :: nat transport \<Rightarrow> nat transport option"
  obtain tr where tr: "tr_close ?c mk_transport = Some tr" "tr_state tr = TS_CLOSED"
    by (simp add: tr_close_def tr_setState_def mk_transport_def)
  have "tr_reach ?c mk_transport tr" by (rule tr_reach.step[OF tr_reach.refl, where e = TrClose]) (use tr in simp)
  then show ?thesis using transport_lifecycle[of ?c tr tr] tr by (auto simp: doClose_law_def intro: tr_reach.refl)
qed

end
