(* ===== verification/Spec2Isabelle.thy ===== *)
theory Spec2Isabelle
  imports Forwarder_Properties Loop_Detection Nack_Processing Next_Hop_Signal Link_Properties
begin

text \<open>
  NFD, the NDN Forwarding Daemon: its tables, its forwarding pipelines with four of its strategies, and its
  link layer.

  \<^bold>\<open>The program.\<close> A face receives a link-layer packet from its transport. Its link service
  (\<open>daemon/face\<close>) reassembles it and hands Interests, Data and Nacks to the forwarder (\<open>daemon/fw\<close>). The
  pipelines of the forwarder look packets up in the tables (\<open>daemon/table\<close>): the Pending Interest Table,
  the Content Store, the FIB, the Dead Nonce List, Measurements and Strategy Choice. Where a
  decision is to be made they call the strategy that Strategy Choice gives for the name; the
  strategy answers with actions that send packets to faces. FIB, PIT, Measurements and Strategy
  Choice share one index, the name tree, which is a hash table of names with parent pointers.

  \<^bold>\<open>Representation.\<close> A pointer to a name tree entry is its name, a pointer to a PIT entry is its key (name and
  selectors), a face is its identifier. A container that the code orders or indexes is a list in that
  order. Mutable objects are records that the operations take and return. \<open>size_t\<close> counters and hashes are
  words, so they wrap; \<open>float\<close> and \<open>double\<close> factors are rational numbers with the IEEE rounding written out;
  times are unbounded integers in nanoseconds, and a handler reads the clock once. A timer is the time
  recorded in its owner; its callback is an event of its own. A failed assertion is \<open>None\<close>, an exception
  is \<open>Inl\<close>. What a face sends is appended to the list \<open>fw_sent\<close>, in order.

  \<^bold>\<open>Parameters.\<close> ndn-cxx and the compiler's library are not part of the source. The records
  \<open>fwd_env\<close>, \<open>strategy_env\<close> and \<open>lp_env\<close> hold the functions the code calls there: the hash of a name
  component, \<open>Interest::matchesData\<close>, \<open>Name::getSuccessor\<close>, the wire encoding of names and of link-layer
  packets, the severity of Nack reasons, the iteration order of an unordered set, \<open>std::shuffle\<close>, the RTT
  estimator. Theorems that rely on them name the law: \<open>successor_law\<close> (the least name after all
  names with the prefix), \<open>face_order_law\<close> (a permutation), \<open>severity_law\<close> (a strict order with None the
  most severe), \<open>lp_wire_law\<close> (sizes of encodings), and that Data matching an Interest has the Interest's
  name as a prefix of its full name. Each law is shown to hold of a concrete function.

  \<^bold>\<open>Theories.\<close>
  \<^item> \<open>NFD_Prelude\<close>, \<open>NDN_Packets\<close>, \<open>Name_Order\<close>: collections of facts, lists, rounding; names and packets; the order
    of names.
  \<^item> \<open>City_Hash\<close>: \<open>common/city-hash.cpp\<close>, with every load checked against the buffer. It reads only inside (C33).
  \<^item> \<open>Name_Tree_Hashtable\<close>, \<open>Name_Tree\<close>, \<open>Name_Tree_Iterator\<close>: \<open>name-tree-entry\<close>, \<open>name-tree-hashtable\<close>,
    \<open>name-tree\<close>, \<open>name-tree-iterator\<close>. The invariant \<open>nt_inv\<close> (every node in its bucket, no name twice, parents
    present, children listed once) is kept by every operation, resizing included; \<open>ht_map\<close> is the abstract
    map. The three enumerations meet the locale \<open>enumeration\<close>; they end and visit what they
    should, once (C18, C19).
  \<^item> \<open>Table_Entries\<close>, \<open>Name_Index\<close>, \<open>Tables\<close>: the entry classes; the locales \<open>name_index\<close> and \<open>indexed_table\<close>,
    the contract between the name tree and a table, interpreted for the name tree and for the four
    tables; the state they share, with \<open>tables_ok\<close>.
  \<^item> \<open>Fib\<close>, \<open>Pit\<close>, \<open>Measurements\<close>, \<open>Strategy_Registry\<close>, \<open>Strategy_Choice\<close>, \<open>Cleanup\<close>: the files of the same names,
    \<open>strategy.cpp\<close> and \<open>network-region-table.cpp\<close>. Each table refines a map (C7, C8, C25) or is
    described by its view (C9, C23, C26, C27); matching and iteration are complete (C12, C22); face removal leaves
    no reference (C24).
  \<^item> \<open>Content_Store\<close>, \<open>Content_Store_Spec\<close>: \<open>cs\<close>, \<open>cs-entry\<close>, \<open>cs-policy\<close> and the two policies, which meet the locale
    \<open>replacement_policy\<close>. With LRU the store is a bounded recency list (C10); lookup and erasure go by
    prefix (C11); the priority FIFO policy evicts by kind and age (C32).
  \<^item> \<open>Dead_Nonce_List\<close>: \<open>dead-nonce-list.cpp\<close>; what was added is found for its lifetime or until the capacity pushes it out
    (C21), and the capacity follows the rate (C35).
  \<^item> \<open>Face_Table\<close>, \<open>Fw_Algorithm\<close>, \<open>Forwarder\<close>, \<open>Pipelines\<close>, \<open>Strategies\<close>: \<open>face-table\<close>, \<open>scope-prefix\<close>,
    \<open>unsolicited-data-policy\<close>, \<open>algorithm\<close>, the retransmission suppressions, \<open>forwarder\<close>, the base class
    \<open>strategy\<close>, \<open>process-nack-traits\<close>, and best-route versions 1 and 5, multicast and random. A strategy instance is the
    record \<open>strategy_ops\<close> of its virtual methods.
  \<^item> \<open>Forwarder_Invariant\<close>, \<open>Forwarder_Safety\<close>: the invariant \<open>fwd_ok\<close>; the locale \<open>strategy_contract\<close> between pipelines
    and strategies, met by the strategies; every handler keeps the invariant and emits only
    permitted packets.
  \<^item> \<open>Interest_Forwarding\<close>, \<open>Data_Delivery\<close>, \<open>Loop_Detection\<close>, \<open>Nack_Processing\<close>, \<open>Next_Hop_Signal\<close>,
    \<open>Forwarder_Properties\<close>: what happens to Interests, Data and Nacks (C1 to C5, C13 to C15, C17, C28).
    \<open>Forwarder_Examples\<close> holds the forwarders on which these are evaluated.
  \<^item> \<open>Lp_Packet\<close>, \<open>Lp_Fragmenter\<close>, \<open>Lp_Reassembler\<close>, \<open>Transport\<close>, \<open>Link_Service\<close>, \<open>Link_Roundtrip\<close>,
    \<open>Link_Properties\<close>: \<open>lp-fragmenter\<close>, \<open>lp-reassembler\<close>, \<open>transport\<close>, \<open>generic-link-service\<close> with \<open>lp-reliability\<close>. What is sent arrives
    once (C6), fragmentation ends (C16), a closed transport stays closed (C34).

  C28 to C31 describe behaviour that differs from what the code's comments promise.

  \<^bold>\<open>Loops.\<close> Most loops are structural recursion over a list. The enumerations are \<open>partial_function\<close>s, in which a
  loop without end is \<open>None\<close>, and the theorems show \<open>Some\<close>. Four loops carry a bound: the walk of
  \<open>eraseIfEmpty\<close> to the root and the longest prefix match (the length of the name, since each round moves to the
  parent), the eviction of the priority FIFO policy (the size of the table, since each round erases an
  entry) and the tail of \<open>CityHash128\<close> (the length of the buffer). The bounds are reached only when the work
  is done, which the properties of these operations show.

  \<^bold>\<open>Limits of the model.\<close> \<open>onNewNextHop\<close> enumerates before it triggers. Where the code dereferences a pointer that the
  invariant shows to be valid, the model has a branch for the invalid pointer that leaves the state as it is;
  under the invariant it is not taken. Log output is left out. The theorems on the forwarder are about calls of its
  handlers, one at a time, as in the event loop of one thread.

  \<^bold>\<open>Not modelled.\<close> The strategies ASF, access, NCC and self-learning; the sockets, channels and factories below
  \<open>Transport\<close>, which are input and output; the management protocol (\<open>daemon/mgmt\<close>) and the routing
  information base (\<open>daemon/rib\<close>), which change the tables only through the operations modelled here;
  configuration files, privileges, logging, \<open>core\<close>, \<open>main\<close> and the command line tools.
\<close>

section \<open>Interest and Data\<close>

text \<open>
  C1: an Interest brings its Data back under the best-route strategy, version 5. The Interest is new: it has hops left,
  no forwarding hint and no next hop tag, does not violate \<open>/localhost\<close>, its Nonce is not dead, and
  neither the PIT has an entry nor the Content Store Data for it. Its effective strategy is best-route v5, all strategies
  keep the contract and use the default Data triggers, and there is a usable next hop. Then the
  Interest is sent once, to a usable next hop of its longest matching FIB entry, at no higher cost than
  any other usable one. If matching Data comes back from there as the next event, before the lifetime
  of the Interest (capped as the PIT caps it) is over and with no \<open>/localhost\<close> violation on either
  face, it is sent to the face the Interest came from, with no change but its tags.
\<close>

theorem interest_data_exchange:
  assumes ok: "fwd_ok env now {} fw" and f: "ingress \<in> fw_faceIds fw" and n: "is_new env now ingress i fw"
    and s: "effective (sc_view (fw_tables fw)) (int_name i) = Some s" "S s = best_route2_ops env"
    and S: "all_contracts env S" "uses_base env S" and law: "face_order_law env"
    and m: "\<And>i d. fwe_matchesData env i d \<Longrightarrow> prefix (int_name i) (data_fullName d)"
    and hop: "int_hopLimit i \<noteq> Some 1"
    and nh0: "nh0 \<in> set (route (fw_tables fw) (int_name i))" "usable (fw_faceTable fw) ingress i (nh_face nh0)"
  shows "let fw' = onIncomingInterest env S now ingress i fw
    in \<exists>nh\<in>set (route (fw_tables fw) (int_name i)). usable (fw_faceTable fw) ingress i (nh_face nh) \<and> nh_cost nh \<le> nh_cost nh0 \<and>
      fw_sent fw' = fw_sent fw @ [(nh_face nh, PktInterest ((received ingress i)\<lparr>int_pitToken := None\<rparr>))] \<and>
      (\<forall>t d. now \<le> t \<and> t < now + ms (min (int_lifetime i) MAX_LIFETIME) \<and>
          fwe_matchesData env (received ingress i) (d\<lparr>data_incomingFaceId := Some (nh_face nh)\<rparr>) \<and>
          (\<forall>f\<in>{nh_face nh, ingress}. \<not> (ft_scope (fw_faceTable fw) f = FACE_SCOPE_NON_LOCAL \<and> prefix LOCALHOST (data_name d))) \<longrightarrow>
        (\<exists>tok. (ingress, PktData (d\<lparr>data_incomingFaceId := Some (nh_face nh), data_pitToken := tok\<rparr>)) \<in>
           set (drop (length (fw_sent fw')) (fw_sent (onIncomingData env S t (nh_face nh) d fw')))))"
proof -
  define fw' where "fw' = onIncomingInterest env S now ingress i fw"
  note st = incomingInterest_step[OF ok f S(1), of i, folded fw'_def]
  have same: "ft_scope (fw_faceTable fw') g = ft_scope (fw_faceTable fw) g" "ft_linkType (fw_faceTable fw') g = ft_linkType (fw_faceTable fw) g" for g
    using same_facesD(2,3)[OF emits_same[OF step_okD(2)[OF st]]] by simp_all
  obtain nh where nh: "nh \<in> set (route (fw_tables fw) (int_name i))" "usable (fw_faceTable fw) ingress i (nh_face nh)" "nh_cost nh \<le> nh_cost nh0"
    "fw_sent fw' = fw_sent fw @ [(nh_face nh, PktInterest ((received ingress i)\<lparr>int_pitToken := None\<rparr>))]"
    "fw_entry fw' (interest_key i) = Some (insertOrUpdateOutRecord now (nh_face nh)
       ((received ingress i)\<lparr>int_pitToken := None\<rparr>) (pending_entry now ingress (received ingress i)))"
    using forwarded_to[where S = S, OF ok f n s hop nh0] unfolding fw'_def by blast
  have up: "nh_face nh = ingress \<longrightarrow> ft_linkType (fw_faceTable fw') ingress = LINK_TYPE_AD_HOC" using nh(2) by (auto simp: usable_def same)
  note d = forwarded_delivers[OF step_okD(1)[OF st] S law, where i = "received ingress i", unfolded received_simps, OF nh(5) up]
  show ?thesis unfolding Let_def fw'_def[symmetric] using nh(1-4) d m by (intro bexI[of _ nh]) (auto simp: same)
qed

theorem interest_data_exchange_witness:
  "\<exists>(fw :: nfd_info forwarder) tok. let fw' = onIncomingInterest fwd_env_example (nfd_strategies id fwd_env_example) 0 256 example_interest fw
     in (256, PktData (example_data\<lparr>data_incomingFaceId := Some 257, data_pitToken := tok\<rparr>)) \<in>
          set (fw_sent (onIncomingData fwd_env_example (nfd_strategies id fwd_env_example) 1 257 example_data fw'))"
proof -
  let ?env = fwd_env_example and ?S = "nfd_strategies id fwd_env_example"
  obtain fw :: "nfd_info forwarder" where fw: "fwd_ok ?env 0 {} fw" "fw_faceTable fw = two_faces"
    "nh_face ` set (route (fw_tables fw) [generic_comp ''a'']) = {257}" "is_new ?env 0 256 example_interest fw"
    "effective (sc_view (fw_tables fw)) [generic_comp ''a''] = Some \<lparr>st_instanceName = best_route2_name\<rparr>"
    using routed_forwarder by blast
  have i: "int_name example_interest = [generic_comp ''a'']" "int_hopLimit example_interest \<noteq> Some 1" by (simp_all add: mk_interest_def)
  have f: "256 \<in> fw_faceIds fw" by (simp add: fw(2) two_faces_simps)
  have u: "usable two_faces 256 example_interest 257" by (simp add: usable_def wouldViolateScope_def i LOCALHOST_def LOCALHOP_def two_faces_simps)
  obtain nh0 where nh0: "nh0 \<in> set (route (fw_tables fw) (int_name example_interest))"
    "usable (fw_faceTable fw) 256 example_interest (nh_face nh0)"
    using fw(2,3) u i(1) by force
  have s: "effective (sc_view (fw_tables fw)) (int_name example_interest) = Some \<lparr>st_instanceName = best_route2_name\<rparr>" using fw(5) i(1) by simp
  have C: "all_contracts ?env ?S" by (rule nfd_strategies_contract) simp
  let ?fw' = "onIncomingInterest ?env ?S 0 256 example_interest fw"
  have t: "(1 :: int) < 0 + ms (min (int_lifetime example_interest) MAX_LIFETIME)" by (simp add: mk_interest_def ms_def MAX_LIFETIME_def)
  have n: "\<not> prefix LOCALHOST (data_name example_data)" by (simp add: mk_data_def LOCALHOST_def)
  note x = interest_data_exchange[where S = ?S, OF fw(1) f fw(4) s nfd_default C nfd_uses_base face_order_example matches_prefix_example i(2) nh0,
      unfolded Let_def]
  then obtain nh where nh: "nh \<in> set (route (fw_tables fw) [generic_comp ''a''])"
    and d: "\<exists>tok. (256, PktData (example_data\<lparr>data_incomingFaceId := Some (nh_face nh), data_pitToken := tok\<rparr>)) \<in>
           set (drop (length (fw_sent ?fw')) (fw_sent (onIncomingData ?env ?S 1 (nh_face nh) example_data ?fw')))"
    using example_matches t n zero_le_one unfolding i(1) by blast
  have "nh_face nh = 257" using nh fw(3) by auto
  then show ?thesis using d in_set_dropD unfolding Let_def by metis
qed

end
